(* ===== verification/Prelude.thy ===== *)
theory Prelude
  imports Main "HOL-Library.Word" "HOL-Library.Sublist"
begin

text \<open>
  The shared vocabulary of the development: JavaScript strings, the handful of standard string
  operations the modelled code calls, decimal numerals, and the list lemmas every component uses.

  A JavaScript string is a sequence of UTF-16 code units, and every index, slice and length in
  the modelled code counts code units; so a string is a list of 16-bit words.  A literal of the
  source is written \<open>js ''text''\<close>, one of its characters \<open>uc CHR ''x''\<close>.
\<close>

section \<open>JavaScript strings\<close>

type_synonym code_unit = "16 word"
type_synonym jstr = "code_unit list"

abbreviation uc :: "char \<Rightarrow> code_unit" where
  "uc \<equiv> of_char"

definition js :: "string \<Rightarrow> jstr" where
  "js s = map of_char s"

text \<open>The punctuation the code tests for, by code unit.\<close>

abbreviation slash :: code_unit where "slash \<equiv> 0x2F"
abbreviation tilde :: code_unit where "tilde \<equiv> 0x7E"
abbreviation quote_mark :: code_unit where "quote_mark \<equiv> 0x22"
abbreviation backslash :: code_unit where "backslash \<equiv> 0x5C"
abbreviation comma :: code_unit where "comma \<equiv> 0x2C"
abbreviation colon :: code_unit where "colon \<equiv> 0x3A"
abbreviation open_brace :: code_unit where "open_brace \<equiv> 0x7B"
abbreviation close_brace :: code_unit where "close_brace \<equiv> 0x7D"
abbreviation open_bracket :: code_unit where "open_bracket \<equiv> 0x5B"
abbreviation close_bracket :: code_unit where "close_bracket \<equiv> 0x5D"

lemma punctuation:
  "slash = uc CHR ''/''" "tilde = uc CHR 0x7E" "quote_mark = uc CHR 0x22"
  "backslash = uc CHR 0x5C" "comma = uc CHR '',''" "colon = uc CHR '':''"
  "open_brace = uc CHR ''{''" "close_brace = uc CHR ''}''"
  "open_bracket = uc CHR ''[''" "close_bracket = uc CHR '']''"
  by simp_all

named_theorems js_simps \<open>evaluation of string literals and code-unit tests\<close>

lemma js_Nil [simp, js_simps]: "js [] = []"
  by (simp add: js_def)

lemma js_Cons [simp, js_simps]: "js (c # cs) = uc c # js cs"
  by (simp add: js_def)

text \<open>\<open>text[i]\<close>, where \<open>undefined\<close> is \<^term>\<open>None\<close>; \<open>text.slice(a, b)\<close> on natural bounds.\<close>

definition char_at :: "'a list \<Rightarrow> nat \<Rightarrow> 'a option" where
  "char_at t i = (if i < length t then Some (t ! i) else None)"

definition slice :: "'a list \<Rightarrow> nat \<Rightarrow> nat \<Rightarrow> 'a list" where
  "slice t a b = take (b - a) (drop a t)"

lemma char_at_append1 [simp]: "i < length xs \<Longrightarrow> char_at (xs @ ys) i = char_at xs i"
  by (simp add: char_at_def nth_append)

lemma char_at_append2: "length xs \<le> i \<Longrightarrow> char_at (xs @ ys) i = char_at ys (i - length xs)"
  by (auto simp: char_at_def nth_append)

lemma char_at_mid [simp]: "char_at (xs @ y # ys) (length xs) = Some y"
  by (simp add: char_at_def)

lemma char_at_end [simp]: "char_at xs (length xs) = None"
  by (simp add: char_at_def)

lemma char_at_SomeD: "char_at t i = Some c \<Longrightarrow> i < length t \<and> t ! i = c"
  by (auto simp: char_at_def split: if_splits)

lemma char_at_Some_drop: "char_at t i = Some c \<Longrightarrow> drop i t = c # drop (Suc i) t"
  by (auto simp: char_at_def Cons_nth_drop_Suc split: if_splits)

lemma char_at_drop: "char_at t i = (case drop i t of [] \<Rightarrow> None | c # _ \<Rightarrow> Some c)"
proof (cases "i < length t")
  case True
  then show ?thesis
    by (metis Cons_nth_drop_Suc char_at_def list.simps(5))
qed (simp add: char_at_def)

lemma length_slice [simp]: "b \<le> length t \<Longrightarrow> length (slice t a b) = b - a"
  by (simp add: slice_def)

lemma slice_self [simp]: "slice t a a = []"
  by (simp add: slice_def)

lemma slice_append_mid [simp]:
  "slice (xs @ ys @ zs) (length xs) (length xs + length ys) = ys"
  by (simp add: slice_def)

lemma slice_0_length [simp]: "slice t 0 (length t) = t"
  by (simp add: slice_def)

lemma take_slice_drop:
  "a \<le> b \<Longrightarrow> take a t @ slice t a b @ drop b t = t"
  by (metis append_take_drop_id drop_drop le_add_diff_inverse2 slice_def)

text \<open>\<open>text.split(sep)\<close> for a separator of one code unit, and \<open>parts.join(sep)\<close>.\<close>

fun split_on :: "'a \<Rightarrow> 'a list \<Rightarrow> 'a list list" where
  "split_on s [] = [[]]"
| "split_on s (c # cs) =
     (if c = s then [] # split_on s cs
      else (case split_on s cs of [] \<Rightarrow> [[c]] | t # ts \<Rightarrow> (c # t) # ts))"

fun join_with :: "'a list \<Rightarrow> 'a list list \<Rightarrow> 'a list" where
  "join_with s [] = []"
| "join_with s [t] = t"
| "join_with s (t # u # ts) = t @ s @ join_with s (u # ts)"

lemma split_on_not_Nil [simp]: "split_on s t \<noteq> []"
  by (induction t) (auto split: list.split)

lemma split_on_no_sep: "s \<notin> set t \<Longrightarrow> split_on s t = [t]"
  by (induction t) auto

lemma split_on_append_sep:
  "s \<notin> set t \<Longrightarrow> split_on s (t @ s # u) = t # split_on s u"
  by (induction t) auto

lemma split_on_parts: "p \<in> set (split_on s t) \<Longrightarrow> s \<notin> set p"
  by (induction t arbitrary: p) (fastforce split: if_splits list.splits)+

lemma join_with_Cons: "ts \<noteq> [] \<Longrightarrow> join_with s (t # ts) = t @ s @ join_with s ts"
  by (cases ts) auto

lemma join_split: "join_with [s] (split_on s t) = t"
proof (induction t)
  case (Cons c cs)
  then show ?case
    by (cases "split_on s cs") (auto simp: join_with_Cons split: list.split, (cases "tl (split_on s cs)"; auto)+)
qed simp

lemma split_join:
  "\<lbrakk>ts \<noteq> []; \<forall>t \<in> set ts. s \<notin> set t\<rbrakk> \<Longrightarrow> split_on s (join_with [s] ts) = ts"
proof (induction ts)
  case (Cons t ts)
  then show ?case
    by (cases ts) (auto simp: split_on_no_sep split_on_append_sep)
qed simp

section \<open>Decimal numerals\<close>

text \<open>\<open>String(n)\<close> for a natural number, the digit test, and \<open>Number(token)\<close> on digits.\<close>

definition is_digit :: "code_unit \<Rightarrow> bool" where
  "is_digit c \<longleftrightarrow> c \<in> set (js ''0123456789'')"

fun dec :: "nat \<Rightarrow> jstr" where
  "dec n = (if n < 10 then [48 + of_nat n] else dec (n div 10) @ [48 + of_nat (n mod 10)])"

declare dec.simps [simp del]

definition digit_value :: "code_unit \<Rightarrow> nat" where
  "digit_value c = unat (c - 48)"

definition digits_value :: "jstr \<Rightarrow> int" where
  "digits_value ds = foldl (\<lambda>a c. a * 10 + int (digit_value c)) 0 ds"

lemma less_10_cases:
  assumes "(n::nat) < 10"
  obtains "n = 0" | "n = 1" | "n = 2" | "n = 3" | "n = 4" | "n = 5" | "n = 6" | "n = 7" | "n = 8" | "n = 9"
  using assms by force

lemma is_digit_of_nat: "n < 10 \<Longrightarrow> is_digit (48 + of_nat n)"
  by (erule less_10_cases) (simp_all add: is_digit_def)

lemma digit_value_of_nat: "n < 10 \<Longrightarrow> digit_value (48 + of_nat n) = n"
  by (erule less_10_cases) (simp_all add: digit_value_def)

lemma digits_value_snoc [simp]: "digits_value (ds @ [c]) = digits_value ds * 10 + int (digit_value c)"
  by (simp add: digits_value_def)

lemma dec_not_Nil [simp]: "dec n \<noteq> []"
  by (subst dec.simps) simp

lemma dec_digits: "c \<in> set (dec n) \<Longrightarrow> is_digit c"
proof (induction n rule: dec.induct)
  case (1 n)
  then show ?case
    by (subst (asm) dec.simps) (auto simp: is_digit_of_nat split: if_splits)
qed

lemma digits_value_dec [simp]: "digits_value (dec n) = int n"
proof (induction n rule: dec.induct)
  case (1 n)
  show ?case
  proof (cases "n < 10")
    case True
    then show ?thesis
      by (subst dec.simps) (simp add: digits_value_def digit_value_of_nat)
  next
    case False
    with 1 show ?thesis
      by (subst dec.simps) (simp add: digit_value_of_nat zdiv_int zmod_int)
  qed
qed

lemma digits_value_nonneg [simp]: "0 \<le> digits_value ds"
  by (induction ds rule: rev_induct) (simp_all add: digits_value_def)

lemma dec_inj [simp]: "dec m = dec n \<longleftrightarrow> m = n"
  by (metis digits_value_dec of_nat_eq_iff)

lemma is_digit_plain: "is_digit c \<Longrightarrow> c \<noteq> slash \<and> c \<noteq> tilde"
  by (auto simp: is_digit_def)

text \<open>The grammar \<open>0|[1-9][0-9]*\<close> of a numeral without leading zeros.\<close>

definition is_index :: "jstr \<Rightarrow> bool" where
  "is_index t \<longleftrightarrow> t = js ''0'' \<or> (t \<noteq> [] \<and> hd t \<noteq> uc CHR ''0'' \<and> list_all is_digit t)"

lemma hd_dec: "0 < n \<Longrightarrow> hd (dec n) \<noteq> uc CHR ''0''"
proof (induction n rule: dec.induct)
  case (1 n)
  show ?case
  proof (cases "n < 10")
    case True
    with 1(2) show ?thesis
      by (subst dec.simps) (simp, erule less_10_cases, simp_all)
  next
    case False
    with 1 show ?thesis
      by (subst dec.simps) (simp add: div_greater_zero_iff)
  qed
qed

lemma is_index_dec [simp]: "is_index (dec n)"
proof (cases "n = 0")
  case True
  then show ?thesis by (simp add: is_index_def dec.simps)
next
  case False
  then show ?thesis
    by (auto simp: is_index_def list_all_iff hd_dec [simplified] dest: dec_digits)
qed

section \<open>Lists of at most one entry\<close>

text \<open>The one entry of a list that has one.\<close>

definition single :: "'a list \<Rightarrow> 'a option" where
  "single xs = (case xs of [x] \<Rightarrow> Some x | _ \<Rightarrow> None)"

lemma single_eq_Some: "single xs = Some x \<longleftrightarrow> xs = [x]"
  by (auto simp: single_def split: list.splits)

section \<open>Lists of keyed entries\<close>

text \<open>
  A JavaScript \<open>Map\<close>, and the own members of a plain object, as the list of their entries in
  insertion order; \<open>map_set\<close> keeps the place of a key it overwrites.
\<close>

fun map_set :: "'k \<Rightarrow> 'v \<Rightarrow> ('k \<times> 'v) list \<Rightarrow> ('k \<times> 'v) list" where
  "map_set k v [] = [(k, v)]"
| "map_set k v ((k', v') # es) = (if k = k' then (k, v) # es else (k', v') # map_set k v es)"

lemma map_of_map_set: "map_of (map_set k v es) = (map_of es)(k \<mapsto> v)"
  by (induction es) auto

lemma keys_map_set: "fst ` set (map_set k v es) = insert k (fst ` set es)"
  by (induction k v es rule: map_set.induct) (simp_all add: insert_commute)

lemma distinct_map_set: "distinct (map fst es) \<Longrightarrow> distinct (map fst (map_set k v es))"
  by (induction es) (auto simp: keys_map_set)

end
