(* ===== verification/Js_Number.thy ===== *)
theory Js_Number
  imports Prelude
begin

text \<open>
  \<open>Number(raw)\<close> as the modelled code calls it: on a string made of digits, signs, points and
  exponent letters.  The result is the IEEE double nearest to the decimal value, ties to even,
  kept as an exact mantissa and binary exponent, so that two literals compare as the language
  compares them; \<^term>\<open>None\<close> is NaN.  All of it is executable integer arithmetic.
\<close>

datatype jnum = Infinite bool | Finite bool int int

text \<open>
  \<^term>\<open>Finite neg m e\<close> is \<open>(-1)^neg * m * 2^e\<close>.  The representation is the canonical one of
  binary64 (\<open>2^52 <= m < 2^53\<close>, or \<open>e = -1074\<close>), zero being \<open>m = 0, e = 0\<close>; so \<open>===\<close> is equality
  but for the two zeros.
\<close>

definition num_eq :: "jnum \<Rightarrow> jnum \<Rightarrow> bool" where
  "num_eq a b \<longleftrightarrow>
     (case (a, b) of
        (Finite s m e, Finite s' m' e') \<Rightarrow> m = m' \<and> e = e' \<and> (m = 0 \<or> s = s')
      | _ \<Rightarrow> a = b)"

lemma num_eq_refl [simp]: "num_eq a a"
  by (cases a) (auto simp: num_eq_def)

function bit_length :: "int \<Rightarrow> int" where
  "bit_length n = (if n \<le> 0 then 0 else 1 + bit_length (n div 2))"
  by pat_completeness auto
termination
  by (relation "measure nat") auto

declare bit_length.simps [simp del]

definition round_div :: "int \<Rightarrow> int \<Rightarrow> int" where
  "round_div p q =
     (let d = p div q; r = p mod q
      in if 2 * r < q \<or> (2 * r = q \<and> even d) then d else d + 1)"

definition at_scale :: "int \<Rightarrow> int \<Rightarrow> int \<Rightarrow> int \<times> int" where
  "at_scale p q e = (if 0 \<le> e then (p, q * 2 ^ nat e) else (p * 2 ^ nat (- e), q))"

definition to_double :: "bool \<Rightarrow> int \<Rightarrow> int \<Rightarrow> jnum" where
  "to_double neg p q =
     (if p = 0 then Finite neg 0 0
      else
        let e0 = max (- 1074) (bit_length p - bit_length q - 53);
            (p0, q0) = at_scale p q e0;
            e1 = (if p0 div q0 < 2 ^ 53 then e0 else e0 + 1);
            (p1, q1) = at_scale p q e1;
            m1 = round_div p1 q1;
            m = (if m1 = 2 ^ 53 then 2 ^ 52 else m1);
            e = (if m1 = 2 ^ 53 then e1 + 1 else e1)
        in if m = 0 then Finite neg 0 0
           else if 971 < e then Infinite neg
           else Finite neg m e)"

text \<open>The decimal literal grammar of \<open>Number\<close>: optional sign, digits with an optional point, optional exponent.\<close>

definition read_sign :: "jstr \<Rightarrow> bool \<times> jstr" where
  "read_sign t =
     (case t of
        [] \<Rightarrow> (False, t)
      | c # r \<Rightarrow> if c = uc CHR ''-'' then (True, r)
                 else if c = uc CHR ''+'' then (False, r) else (False, t))"

definition read_exponent :: "jstr \<Rightarrow> int option" where
  "read_exponent t =
     (case t of
        [] \<Rightarrow> Some 0
      | c # r \<Rightarrow>
          if c = uc CHR ''e'' \<or> c = uc CHR ''E''
          then (let (neg, ds) = read_sign r
                in if ds \<noteq> [] \<and> list_all is_digit ds
                   then Some (if neg then - digits_value ds else digits_value ds)
                   else None)
          else None)"

definition decimal_literal :: "jstr \<Rightarrow> (bool \<times> int \<times> int) option" where
  "decimal_literal raw =
     (let (neg, t) = read_sign raw;
          whole = takeWhile is_digit t;
          r = dropWhile is_digit t;
          dot = (r \<noteq> [] \<and> hd r = uc CHR ''.'');
          frac = (if dot then takeWhile is_digit (tl r) else []);
          r' = (if dot then dropWhile is_digit (tl r) else r)
      in if whole = [] \<and> frac = [] then None
         else map_option
                (\<lambda>x. (neg, digits_value (whole @ frac), x - int (length frac)))
                (read_exponent r'))"

definition number_of :: "jstr \<Rightarrow> jnum option" where
  "number_of raw =
     map_option
       (\<lambda>(neg, n, x). if 0 \<le> x then to_double neg (n * 10 ^ nat x) 1
                      else to_double neg n (10 ^ nat (- x)))
       (decimal_literal raw)"

lemma number_of_empty [simp]: "number_of [] = None"
  by (simp add: number_of_def decimal_literal_def read_sign_def)

text \<open>Two spellings of one double: what \<open>documentText\<close> and \<open>conditionOps\<close> say of re-serialising.\<close>

lemma beyond_safe_integers_collide:
  "number_of (js ''9007199254740993'') = number_of (js ''9007199254740992'')"
  "number_of (js ''5.0'') = number_of (js ''5'')"
  "number_of (js ''9007199254740991'') \<noteq> number_of (js ''9007199254740992'')"
  by (simp_all add: number_of_def decimal_literal_def read_sign_def read_exponent_def is_digit_def
      digits_value_def digit_value_def to_double_def at_scale_def round_div_def bit_length.simps)

end
