(* ===== verification/Json.thy ===== *)
theory Json
  imports Js_Number
begin

text \<open>
  JSON values as the page holds them, and the standard library's \<open>JSON.stringify\<close> on strings and
  \<open>JSON.parse\<close>, which the modelled code calls.
\<close>

section \<open>Values\<close>

text \<open>
  A plain object is the list of its own members in insertion order, no name twice.  \<open>own_keys\<close> is
  \<open>Object.keys\<close>: array-index names first, ascending, then the others as inserted.
\<close>

datatype jval =
    JNull
  | JBool bool
  | JNum jnum
  | JStr jstr
  | JArr "jval list"
  | JObj "(jstr \<times> jval) list"

definition is_object :: "jval \<Rightarrow> bool" where
  "is_object v = (case v of JObj _ \<Rightarrow> True | _ \<Rightarrow> False)"

definition array_index_name :: "jstr \<Rightarrow> bool" where
  "array_index_name k \<longleftrightarrow> is_index k \<and> digits_value k < 2 ^ 32 - 1"

definition own_keys :: "(jstr \<times> 'v) list \<Rightarrow> jstr list" where
  "own_keys ms =
     (let ks = map fst ms
      in sort_key digits_value (filter array_index_name ks)
         @ filter (\<lambda>k. \<not> array_index_name k) ks)"

lemma set_own_keys [simp]: "set (own_keys ms) = fst ` set ms"
  by (auto simp: own_keys_def Let_def)

lemma distinct_own_keys: "distinct (map fst ms) \<Longrightarrow> distinct (own_keys ms)"
  by (auto simp: own_keys_def Let_def)

section \<open>Strings as JSON text\<close>

definition hex_digit :: "nat \<Rightarrow> code_unit" where
  "hex_digit n = (if n < 10 then 48 + of_nat n else 87 + of_nat n)"

definition unicode_escape :: "code_unit \<Rightarrow> jstr" where
  "unicode_escape c =
     (let n = unat c
      in js [CHR 0x5C, CHR ''u'']
         @ [hex_digit (n div 4096), hex_digit (n div 256 mod 16),
            hex_digit (n div 16 mod 16), hex_digit (n mod 16)])"

definition is_high :: "code_unit \<Rightarrow> bool" where
  "is_high c \<longleftrightarrow> 0xD800 \<le> c \<and> c \<le> 0xDBFF"

definition is_low :: "code_unit \<Rightarrow> bool" where
  "is_low c \<longleftrightarrow> 0xDC00 \<le> c \<and> c \<le> 0xDFFF"

definition short_escape :: "code_unit \<Rightarrow> code_unit option" where
  "short_escape c =
     (if c = quote_mark then Some quote_mark
      else if c = backslash then Some backslash
      else if c = 8 then Some (uc CHR ''b'')
      else if c = 12 then Some (uc CHR ''f'')
      else if c = 10 then Some (uc CHR ''n'')
      else if c = 13 then Some (uc CHR ''r'')
      else if c = 9 then Some (uc CHR ''t'')
      else None)"

fun quote_body :: "jstr \<Rightarrow> jstr" where
  "quote_body [] = []"
| "quote_body (c # cs) =
     (case short_escape c of
        Some e \<Rightarrow> backslash # e # quote_body cs
      | None \<Rightarrow>
          if c < 0x20 then unicode_escape c @ quote_body cs
          else if is_high c \<and> (cs = [] \<or> \<not> is_low (hd cs)) then unicode_escape c @ quote_body cs
          else if is_high c then c # hd cs # quote_body (tl cs)
          else if is_low c then unicode_escape c @ quote_body cs
          else c # quote_body cs)"

definition stringify_string :: "jstr \<Rightarrow> jstr" where
  "stringify_string s = quote_mark # quote_body s @ [quote_mark]"

text \<open>\<open>string_body\<close> reads a string literal from behind its opening quote: its value and what follows it.\<close>

definition hex_value :: "code_unit \<Rightarrow> nat option" where
  "hex_value c =
     (if is_digit c then Some (digit_value c)
      else if 97 \<le> c \<and> c \<le> 102 then Some (unat c - 87)
      else if 65 \<le> c \<and> c \<le> 70 then Some (unat c - 55)
      else None)"

definition hex4 :: "jstr \<Rightarrow> (code_unit \<times> jstr) option" where
  "hex4 t =
     (case t of
        a # b # c # d # r \<Rightarrow>
          (case (hex_value a, hex_value b, hex_value c, hex_value d) of
             (Some w, Some x, Some y, Some z) \<Rightarrow>
               Some (of_nat (w * 4096 + x * 256 + y * 16 + z), r)
           | _ \<Rightarrow> None)
      | _ \<Rightarrow> None)"

definition unescape :: "code_unit \<Rightarrow> code_unit option" where
  "unescape e =
     (if e = quote_mark then Some quote_mark
      else if e = backslash then Some backslash
      else if e = uc CHR ''/'' then Some (uc CHR ''/'')
      else if e = uc CHR ''b'' then Some 8
      else if e = uc CHR ''f'' then Some 12
      else if e = uc CHR ''n'' then Some 10
      else if e = uc CHR ''r'' then Some 13
      else if e = uc CHR ''t'' then Some 9
      else None)"

lemma hex4_shorter: "hex4 t = Some (u, r) \<Longrightarrow> length r < length t"
  by (auto simp: hex4_def split: list.splits option.splits)

function string_body :: "jstr \<Rightarrow> (jstr \<times> jstr) option" where
  "string_body [] = None"
| "string_body (c # cs) =
     (if c = quote_mark then Some ([], cs)
      else if c < 0x20 then None
      else if c \<noteq> backslash then map_option (apfst ((#) c)) (string_body cs)
      else
        (case cs of
           [] \<Rightarrow> None
         | e # r \<Rightarrow>
             if e = uc CHR ''u''
             then (case hex4 r of
                     None \<Rightarrow> None
                   | Some (u, r') \<Rightarrow> map_option (apfst ((#) u)) (string_body r'))
             else (case unescape e of
                     None \<Rightarrow> None
                   | Some u \<Rightarrow> map_option (apfst ((#) u)) (string_body r))))"
  by pat_completeness auto
termination
  by (relation "measure length") (auto dest: hex4_shorter)

definition parse_string :: "jstr \<Rightarrow> jstr option" where
  "parse_string raw =
     (case raw of
        [] \<Rightarrow> None
      | q # r \<Rightarrow>
          if q = quote_mark
          then (case string_body r of Some (s, []) \<Rightarrow> Some s | _ \<Rightarrow> None)
          else None)"

section \<open>\<open>JSON.parse\<close>\<close>

definition isSpace :: "code_unit \<Rightarrow> bool" where
  "isSpace c \<longleftrightarrow> c = 0x20 \<or> c = 0x09 \<or> c = 0x0A \<or> c = 0x0D"

definition skip_ws :: "jstr \<Rightarrow> jstr" where
  "skip_ws t = dropWhile isSpace t"

text \<open>The number grammar of JSON, longest match: the literal and what follows it.\<close>

definition json_digits :: "jstr \<Rightarrow> (jstr \<times> jstr) option" where
  "json_digits t =
     (let ds = takeWhile is_digit t in if ds = [] then None else Some (ds, dropWhile is_digit t))"

definition json_int :: "jstr \<Rightarrow> (jstr \<times> jstr) option" where
  "json_int t =
     (case t of
        [] \<Rightarrow> None
      | c # r \<Rightarrow> if c = uc CHR ''0'' then Some ([c], r) else json_digits t)"

definition json_frac :: "jstr \<Rightarrow> (jstr \<times> jstr) option" where
  "json_frac t =
     (case t of
        [] \<Rightarrow> Some ([], t)
      | c # r \<Rightarrow> if c = uc CHR ''.'' then map_option (apfst ((#) c)) (json_digits r)
                 else Some ([], t))"

definition json_exp :: "jstr \<Rightarrow> (jstr \<times> jstr) option" where
  "json_exp t =
     (case t of
        [] \<Rightarrow> Some ([], t)
      | c # r \<Rightarrow>
          if c = uc CHR ''e'' \<or> c = uc CHR ''E''
          then (case r of
                  [] \<Rightarrow> None
                | s # r' \<Rightarrow>
                    if s = uc CHR ''+'' \<or> s = uc CHR ''-''
                    then map_option (apfst (\<lambda>ds. c # s # ds)) (json_digits r')
                    else map_option (apfst ((#) c)) (json_digits r))
          else Some ([], t))"

definition json_number :: "jstr \<Rightarrow> (jstr \<times> jstr) option" where
  "json_number t =
     (let (sgn, r) = (case t of
            [] \<Rightarrow> ([], t)
          | c # r \<Rightarrow> if c = uc CHR ''-'' then ([c], r) else ([], t))
      in case json_int r of
           None \<Rightarrow> None
         | Some (i, r1) \<Rightarrow>
             (case json_frac r1 of
                None \<Rightarrow> None
              | Some (fr, r2) \<Rightarrow>
                  (case json_exp r2 of
                     None \<Rightarrow> None
                   | Some (ex, r3) \<Rightarrow> Some (sgn @ i @ fr @ ex, r3))))"

definition json_word :: "jstr \<Rightarrow> jval \<Rightarrow> jstr \<Rightarrow> (jval \<times> jstr) option" where
  "json_word w v t = (if prefix w t then Some (v, drop (length w) t) else None)"

text \<open>
  The parser, on a fuel that \<open>JSON_parse\<close> sets above the length of the text.  A repeated member
  name keeps its first place and its last value.
\<close>

function (sequential) jp_value :: "nat \<Rightarrow> jstr \<Rightarrow> (jval \<times> jstr) option"
and jp_members :: "nat \<Rightarrow> (jstr \<times> jval) list \<Rightarrow> jstr \<Rightarrow> (jval \<times> jstr) option"
and jp_elements :: "nat \<Rightarrow> jval list \<Rightarrow> jstr \<Rightarrow> (jval \<times> jstr) option"
where
  "jp_value 0 t0 = None"
| "jp_value (Suc f) t0 =
     (let t = skip_ws t0 in
      case t of
        [] \<Rightarrow> None
      | c # r \<Rightarrow>
          if c = open_brace then
            (case skip_ws r of
               [] \<Rightarrow> None
             | d # r' \<Rightarrow> if d = close_brace then Some (JObj [], r') else jp_members f [] r)
          else if c = open_bracket then
            (case skip_ws r of
               [] \<Rightarrow> None
             | d # r' \<Rightarrow> if d = close_bracket then Some (JArr [], r') else jp_elements f [] r)
          else if c = quote_mark then map_option (apfst JStr) (string_body r)
          else if c = uc CHR ''t'' then json_word (js ''true'') (JBool True) t
          else if c = uc CHR ''f'' then json_word (js ''false'') (JBool False) t
          else if c = uc CHR ''n'' then json_word (js ''null'') JNull t
          else (case json_number t of
                  None \<Rightarrow> None
                | Some (raw, r') \<Rightarrow> map_option (\<lambda>n. (JNum n, r')) (number_of raw)))"
| "jp_members 0 acc t0 = None"
| "jp_members (Suc f) acc t0 =
     (case skip_ws t0 of
        [] \<Rightarrow> None
      | q # r \<Rightarrow>
          if q \<noteq> quote_mark then None else
          (case string_body r of
             None \<Rightarrow> None
           | Some (name, r1) \<Rightarrow>
               (case skip_ws r1 of
                  [] \<Rightarrow> None
                | s # r2 \<Rightarrow>
                    if s \<noteq> colon then None else
                    (case jp_value f r2 of
                       None \<Rightarrow> None
                     | Some (v, r3) \<Rightarrow>
                         (case skip_ws r3 of
                            [] \<Rightarrow> None
                          | d # r4 \<Rightarrow>
                              if d = comma then jp_members f (map_set name v acc) r4
                              else if d = close_brace then Some (JObj (map_set name v acc), r4)
                              else None)))))"
| "jp_elements 0 acc t0 = None"
| "jp_elements (Suc f) acc t0 =
     (case jp_value f t0 of
        None \<Rightarrow> None
      | Some (v, r3) \<Rightarrow>
          (case skip_ws r3 of
             [] \<Rightarrow> None
           | d # r4 \<Rightarrow>
               if d = comma then jp_elements f (acc @ [v]) r4
               else if d = close_bracket then Some (JArr (acc @ [v]), r4)
               else None))"
  by pat_completeness auto
termination
  by (relation "measure (case_sum fst (case_sum fst fst))") auto

definition JSON_parse :: "jstr \<Rightarrow> jval option" where
  "JSON_parse text =
     (case jp_value (Suc (length text)) text of
        None \<Rightarrow> None
      | Some (v, r) \<Rightarrow> if skip_ws r = [] then Some v else None)"

end
