(* ===== verification/Json_Text.thy ===== *)
theory Json_Text
  imports Json
begin

text \<open>
  \<open>JSON.stringify(value)\<close> and \<open>JSON.stringify(value, null, space)\<close> as the modelled code calls
  them, with the language's own text for a number: the shortest decimal that reads back as it.
\<close>

section \<open>Numbers\<close>

definition double_ratio :: "int \<Rightarrow> int \<Rightarrow> int \<times> int" where
  "double_ratio m e = (if 0 \<le> e then (m * 2 ^ nat e, 1) else (m, 2 ^ nat (- e)))"

function idec :: "int \<Rightarrow> jstr" where
  "idec n = (if n < 10 then [48 + of_int n] else idec (n div 10) @ [48 + of_int (n mod 10)])"
  by pat_completeness auto
termination
  by (relation "measure nat") auto

declare idec.simps [simp del]

text \<open>The \<open>n\<close> with \<open>10^(n-1) <= p/q < 10^n\<close>, for a positive ratio.\<close>

definition decimal_point :: "int \<Rightarrow> int \<Rightarrow> int" where
  "decimal_point p q =
     (if q \<le> p then int (length (idec (p div q)))
      else 1 - int (length (idec ((q + p - 1) div p - 1))))"

definition scaled :: "int \<Rightarrow> int \<Rightarrow> int \<Rightarrow> int \<times> int" where
  "scaled p q x = (if 0 \<le> x then (p * 10 ^ nat x, q) else (p, q * 10 ^ nat (- x)))"

text \<open>With \<open>k\<close> digits: the nearest of the two candidates that reads back as the number.\<close>

definition digits_of_length :: "jnum \<Rightarrow> int \<Rightarrow> int \<Rightarrow> int \<Rightarrow> nat \<Rightarrow> int option" where
  "digits_of_length v p q n k =
     (let (a, b) = scaled p q (int k - n);
          low = a div b;
          back = (\<lambda>s. let (c, d) = scaled s 1 (n - int k) in to_double False c d = v);
          near = round_div a b;
          far = (if near = low then low + 1 else low)
      in if back near then Some near else if back far then Some far else None)"

fun shortest_digits :: "jnum \<Rightarrow> int \<Rightarrow> int \<Rightarrow> int \<Rightarrow> nat list \<Rightarrow> int \<times> nat" where
  "shortest_digits v p q n [] = (0, 0)"
| "shortest_digits v p q n (k # ks) =
     (case digits_of_length v p q n k of
        Some s \<Rightarrow> (s, k)
      | None \<Rightarrow> shortest_digits v p q n ks)"

definition exponent_text :: "int \<Rightarrow> jstr" where
  "exponent_text e = js ''e'' @ (if e < 0 then js ''-'' else js ''+'') @ idec (abs e)"

definition layout_digits :: "jstr \<Rightarrow> int \<Rightarrow> jstr" where
  "layout_digits ds n =
     (let k = int (length ds) in
      if k \<le> n \<and> n \<le> 21 then ds @ replicate (nat (n - k)) 48
      else if 0 < n \<and> n \<le> 21 then take (nat n) ds @ js ''.'' @ drop (nat n) ds
      else if - 6 < n \<and> n \<le> 0 then js ''0.'' @ replicate (nat (- n)) 48 @ ds
      else if k = 1 then ds @ exponent_text (n - 1)
      else take 1 ds @ js ''.'' @ drop 1 ds @ exponent_text (n - 1))"

definition number_text :: "jnum \<Rightarrow> jstr" where
  "number_text v =
     (case v of
        Infinite neg \<Rightarrow> (if neg then js ''-Infinity'' else js ''Infinity'')
      | Finite neg m e \<Rightarrow>
          if m = 0 then js ''0''
          else (let (p, q) = double_ratio m e;
                    n = decimal_point p q;
                    (s, k) = shortest_digits (Finite False m e) p q n [1..<18];
                    ds = idec s;
                    significant = rev (dropWhile (\<lambda>c. c = 48) (rev ds))
                in (if neg then js ''-'' else [])
                   @ layout_digits significant (n + int (length ds) - int k)))"

section \<open>\<open>JSON.stringify\<close>\<close>

definition in_key_order :: "(jstr \<times> 'v) list \<Rightarrow> 'v list" where
  "in_key_order es = map (\<lambda>k. the (map_of es k)) (own_keys es)"

text \<open>\<open>gap\<close> is the indentation unit, \<open>ind\<close> the indentation of the line the value begins on.\<close>

definition bracketed :: "jstr \<Rightarrow> jstr \<Rightarrow> jstr \<Rightarrow> jstr \<Rightarrow> jstr list \<Rightarrow> jstr" where
  "bracketed gap ind open close parts =
     (if parts = [] then open @ close
      else if gap = [] then open @ join_with (js '','') parts @ close
      else open @ [10] @ ind @ gap @ join_with (js '','' @ [10] @ ind @ gap) parts
           @ [10] @ ind @ close)"

fun stringify :: "jstr \<Rightarrow> jstr \<Rightarrow> jval \<Rightarrow> jstr" where
  "stringify gap ind JNull = js ''null''"
| "stringify gap ind (JBool b) = (if b then js ''true'' else js ''false'')"
| "stringify gap ind (JNum n) = (case n of Infinite _ \<Rightarrow> js ''null'' | _ \<Rightarrow> number_text n)"
| "stringify gap ind (JStr s) = stringify_string s"
| "stringify gap ind (JArr xs) =
     bracketed gap ind (js ''['') (js '']'') (map (stringify gap (ind @ gap)) xs)"
| "stringify gap ind (JObj ms) =
     bracketed gap ind (js ''{'') (js ''}'')
       (in_key_order
          (map (\<lambda>(k, v). (k, stringify_string k @ (if gap = [] then js '':'' else js '': '')
                              @ stringify gap (ind @ gap) v)) ms))"

text \<open>The third argument is cut to ten characters.\<close>

definition JSON_stringify :: "jstr \<Rightarrow> jval \<Rightarrow> jstr" where
  "JSON_stringify space v = stringify (take 10 space) [] v"

end
