(* ===== verification/Pointers.thy ===== *)
theory Pointers
  imports Json
begin

text \<open>
  \<open>packs/pointers.ts\<close>: RFC 6901 pointers, the one address space of the page.  The functions keep
  their source names.  \<open>undefined\<close> is \<^term>\<open>None\<close>.  A path step that the source passes as a number
  is written in decimal (\<open>String(part)\<close>), so a path is a list of strings.
\<close>

section \<open>Writing and reading a pointer\<close>

fun escape_token :: "jstr \<Rightarrow> jstr" where
  "escape_token [] = []"
| "escape_token (c # cs) =
     (if c = tilde then js ''~0'' @ escape_token cs
      else if c = slash then js ''~1'' @ escape_token cs
      else c # escape_token cs)"

fun pointer :: "jstr list \<Rightarrow> jstr" where
  "pointer [] = []"
| "pointer (p # ps) = slash # escape_token p @ pointer ps"

fun decode_token :: "jstr \<Rightarrow> jstr option" where
  "decode_token [] = Some []"
| "decode_token (c # cs) =
     (if c \<noteq> tilde then map_option ((#) c) (decode_token cs)
      else (case cs of
              [] \<Rightarrow> None
            | n # r \<Rightarrow>
                if n = uc CHR ''0'' then map_option ((#) tilde) (decode_token r)
                else if n = uc CHR ''1'' then map_option ((#) slash) (decode_token r)
                else None))"

fun decode_tokens :: "jstr list \<Rightarrow> jstr list option" where
  "decode_tokens [] = Some []"
| "decode_tokens (t # ts) =
     (case decode_token t of
        None \<Rightarrow> None
      | Some p \<Rightarrow> map_option ((#) p) (decode_tokens ts))"

definition parsePointer :: "jstr \<Rightarrow> jstr list option" where
  "parsePointer text =
     (if text = [] then Some []
      else if hd text \<noteq> slash then None
      else decode_tokens (split_on slash (tl text)))"

definition child :: "jstr \<Rightarrow> jstr \<Rightarrow> jstr" where
  "child at step =
     (case parsePointer at of None \<Rightarrow> at | Some parts \<Rightarrow> pointer (parts @ [step]))"

section \<open>The one evaluator\<close>

definition arrayIndex :: "jstr \<Rightarrow> nat option" where
  "arrayIndex token = (if is_index token then Some (nat (digits_value token)) else None)"

definition step_into :: "jval \<Rightarrow> jstr \<Rightarrow> jval option" where
  "step_into value part =
     (case value of
        JArr xs \<Rightarrow>
          (case arrayIndex part of
             None \<Rightarrow> None
           | Some i \<Rightarrow> if length xs \<le> i then None else Some (xs ! i))
      | JObj ms \<Rightarrow> map_of ms part
      | _ \<Rightarrow> None)"

fun value_down :: "jval \<Rightarrow> jstr list \<Rightarrow> jval option" where
  "value_down v [] = Some v"
| "value_down v (p # ps) =
     (case step_into v p of None \<Rightarrow> None | Some w \<Rightarrow> value_down w ps)"

definition valueAt :: "jval \<Rightarrow> jstr \<Rightarrow> jval option" where
  "valueAt document at =
     (case parsePointer at of None \<Rightarrow> None | Some parts \<Rightarrow> value_down document parts)"

definition declaredAt :: "jval \<Rightarrow> jstr \<Rightarrow> bool" where
  "declaredAt document at \<longleftrightarrow> valueAt document at \<noteq> None"

section \<open>Ancestors, element ids and fragments\<close>

definition parentPointers :: "jstr \<Rightarrow> jstr list" where
  "parentPointers text =
     (case parsePointer text of
        None \<Rightarrow> []
      | Some parts \<Rightarrow> map (\<lambda>n. pointer (take n parts)) (rev [0..<length parts]))"

definition elementIdFor :: "jstr \<Rightarrow> jstr option" where
  "elementIdFor text = (if text = [] then None else Some text)"

text \<open>\<open>pointerFromHash\<close>; the standard \<open>decodeURIComponent\<close> is its first argument, \<^term>\<open>None\<close> where it throws.\<close>

definition pointerFromHash :: "(jstr \<Rightarrow> jstr option) \<Rightarrow> jstr \<Rightarrow> jstr option" where
  "pointerFromHash decode hash =
     (if length hash < 2 then None
      else (case decode (tl hash) of
              None \<Rightarrow> None
            | Some d \<Rightarrow> if prefix (js ''/'') d then Some d else None))"

section \<open>Reading back what was written\<close>

lemma escape_token_no_slash [simp]: "slash \<notin> set (escape_token p)"
  by (induction p rule: escape_token.induct) auto

lemma decode_escape [simp]: "decode_token (escape_token p) = Some p"
  by (induction p rule: escape_token.induct) auto

lemma escape_decode: "decode_token t = Some p \<Longrightarrow> slash \<notin> set t \<Longrightarrow> escape_token p = t"
  by (induction t arbitrary: p rule: decode_token.induct)
     (auto split: if_splits list.splits)

lemma pointer_join:
  "ps \<noteq> [] \<Longrightarrow> pointer ps = slash # join_with [slash] (map escape_token ps)"
  by (induction ps rule: induct_list012) auto

lemma decode_escape_tokens [simp]: "decode_tokens (map escape_token ps) = Some ps"
  by (induction ps) auto

lemma escape_decode_tokens:
  "\<lbrakk>decode_tokens ts = Some ps; \<forall>t \<in> set ts. slash \<notin> set t\<rbrakk> \<Longrightarrow> map escape_token ps = ts"
  by (induction ts arbitrary: ps) (auto simp: escape_decode split: option.splits)

lemma decode_tokens_length: "decode_tokens ts = Some ps \<Longrightarrow> length ps = length ts"
  by (induction ts arbitrary: ps) (auto split: option.splits)

lemma parsePointer_pointer_eq [simp]: "parsePointer (pointer ps) = Some ps"
proof (cases "ps = []")
  case False
  then have "split_on slash (tl (pointer ps)) = map escape_token ps"
    by (simp add: pointer_join split_join)
  with False show ?thesis
    by (simp add: parsePointer_def pointer_join)
qed (simp add: parsePointer_def)

lemma pointer_parsePointer_eq: "parsePointer t = Some ps \<Longrightarrow> pointer ps = t"
proof (cases "t = []")
  case False
  assume "parsePointer t = Some ps"
  with False have hd: "hd t = slash" and ts: "decode_tokens (split_on slash (tl t)) = Some ps"
    by (auto simp: parsePointer_def split: if_splits)
  have "map escape_token ps = split_on slash (tl t)"
    using ts by (rule escape_decode_tokens) (simp add: split_on_parts)
  moreover from ts have "ps \<noteq> []"
    using decode_tokens_length [OF ts] by auto
  ultimately have "pointer ps = slash # tl t"
    by (simp add: pointer_join join_split)
  with False hd show ?thesis by (metis list.collapse)
qed (simp add: parsePointer_def)

lemma pointer_inj [simp]: "pointer ps = pointer qs \<longleftrightarrow> ps = qs"
  by (metis option.inject parsePointer_pointer_eq)

lemma pointer_append: "pointer (ps @ qs) = pointer ps @ pointer qs"
  by (induction ps) auto

lemma pointer_eq_Nil [simp]: "pointer ps = [] \<longleftrightarrow> ps = []"
  by (cases ps) auto

lemma value_down_append:
  "value_down v (ps @ qs) =
     (case value_down v ps of None \<Rightarrow> None | Some w \<Rightarrow> value_down w qs)"
  by (induction v ps rule: value_down.induct) (auto split: option.splits)

lemma valueAt_pointer [simp]: "valueAt v (pointer ps) = value_down v ps"
  by (simp add: valueAt_def)

lemma child_pointer [simp]: "child (pointer ps) k = pointer (ps @ [k])"
  by (simp add: child_def)

lemma parentPointers_pointer:
  "parentPointers (pointer ps) = map (\<lambda>n. pointer (take n ps)) (rev [0..<length ps])"
  by (simp add: parentPointers_def)

lemma declared_prefix: "value_down v (ps @ qs) \<noteq> None \<Longrightarrow> value_down v ps \<noteq> None"
  by (auto simp: value_down_append split: option.splits)

lemma parsePointer_cases:
  obtains ps where "parsePointer t = Some ps" "t = pointer ps" | "parsePointer t = None"
  using pointer_parsePointer_eq by (cases "parsePointer t") auto

section \<open>Properties\<close>

text \<open>
  writing and reading a pointer are inverse: a text reads as a path exactly when it is that
  path written, so a path has one spelling and an ill-formed text has none.
\<close>

theorem parsePointer_iff: "parsePointer t = Some ps \<longleftrightarrow> t = pointer ps"
  using pointer_parsePointer_eq by (cases "t = pointer ps") auto

text \<open>
  Extending an address by one step and reading is reading and then taking that step; an address
  that does not read as a pointer is left as it is and denotes nothing.
\<close>

theorem valueAt_child:
  "valueAt v (child p k) = (case valueAt v p of None \<Rightarrow> None | Some w \<Rightarrow> step_into w k)"
  by (cases p rule: parsePointer_cases)
    (auto simp: valueAt_def child_def value_down_append split: option.splits)

text \<open>
  the parents of a child are the pointer it hangs from and then that pointer's own parents,
  nearest first, and in a document that declares the child every one of them is declared.
\<close>

theorem parentPointers_declared:
  assumes "declaredAt v (pointer (ps @ [k]))"
  shows "parentPointers (child (pointer ps) k) = pointer ps # parentPointers (pointer ps)
     \<and> list_all (declaredAt v) (parentPointers (child (pointer ps) k))"
proof
  show "parentPointers (child (pointer ps) k) = pointer ps # parentPointers (pointer ps)"
    by (simp add: parentPointers_pointer)
  have d: "declaredAt v (pointer (take n ps))" for n
  proof -
    have "(take n ps @ drop n ps) @ [k] = ps @ [k]" by simp
    then have "take n ps @ drop n ps @ [k] = ps @ [k]" by (simp only: append_assoc)
    then show ?thesis
      using assms declared_prefix [of v "take n ps" "drop n ps @ [k]"]
      by (simp only: declaredAt_def valueAt_pointer) simp
  qed
  from d d [of "length ps"]
  show "list_all (declaredAt v) (parentPointers (child (pointer ps) k))"
    by (auto simp: parentPointers_pointer list_all_iff)
qed

theorem parentPointers_declared_witness:
  "parentPointers (pointer [js ''a'', js ''0'']) = [pointer [js ''a''], pointer []]
   \<and> list_all (declaredAt (JObj [(js ''a'', JArr [JNull])])) [pointer [js ''a''], pointer []]"
proof -
  have i: "is_index (js ''0'')" "digits_value (js ''0'') = 0"
    by (simp_all add: is_index_def digits_value_def digit_value_def)
  have "declaredAt (JObj [(js ''a'', JArr [JNull])]) (pointer ([js ''a''] @ [js ''0'']))"
    using i by (simp only: declaredAt_def valueAt_pointer) (simp add: step_into_def arrayIndex_def)
  from parentPointers_declared [OF this] show ?thesis
    by (simp add: parentPointers_pointer del: pointer.simps js_Cons)
qed

end
