(* ===== verification/Document_Text.thy ===== *)
theory Document_Text
  imports Pointers
begin

text \<open>
  \<open>packs/documentText.ts\<close>, the definitions: the scanner that records where every value of a JSON
  text sits, and the edits that splice the text at those places.  What they satisfy is proved in
  \<open>Document_Tree\<close> and \<open>Document_Edits\<close>.
\<close>

section \<open>The index\<close>

record span =
  span_pointer :: jstr
  valueStart :: nat
  valueEnd :: nat
  memberStart :: nat
  memberEnd :: nat

text \<open>
  Why a text did not scan: one of the scanner's own sentences with the byte it names, or the
  \<open>SyntaxError\<close> the standard \<open>JSON.parse\<close> throws on a string literal.  \<open>OutOfFuel\<close> belongs to the
  model alone; \<open>indexDocument\<close> never answers it (\<open>Document_Scan.indexDocument_total\<close>).
\<close>

datatype scan_error = ScanError string nat | StringSyntaxError | OutOfFuel

record scan =
  pos :: nat
  spans :: "(jstr \<times> span) list"
  duplicates :: "(jstr \<times> jstr) list"

type_synonym 'a scanned = "(scan_error \<times> scan) + ('a \<times> scan)"

record document_index =
  ix_spans :: "(jstr \<times> span) list"
  ix_duplicates :: "(jstr \<times> jstr) list"
  ix_value :: "jval option"
  ix_error :: "scan_error option"

definition fail :: "string \<Rightarrow> scan \<Rightarrow> 'a scanned" where
  "fail why st = Inl (ScanError why (pos st), st)"

function skip :: "jstr \<Rightarrow> nat \<Rightarrow> nat" where
  "skip text at = (if at < length text \<and> isSpace (text ! at) then skip text (Suc at) else at)"
  by pat_completeness auto
termination
  by (relation "measure (\<lambda>(text, at). length text - at)") auto

declare skip.simps [simp del]

definition skipped :: "jstr \<Rightarrow> scan \<Rightarrow> scan" where
  "skipped text st = st\<lparr>pos := skip text (pos st)\<rparr>"

definition advance :: "nat \<Rightarrow> scan \<Rightarrow> scan" where
  "advance n st = st\<lparr>pos := pos st + n\<rparr>"

definition read_literal :: "jstr \<Rightarrow> jstr \<Rightarrow> jval \<Rightarrow> scan \<Rightarrow> jval scanned" where
  "read_literal text word v st =
     (if prefix word (drop (pos st) text) then Inr (v, advance (length word) st)
      else fail ''expected a value'' st)"

text \<open>The loop of \<open>readString\<close>: one past the closing quote, or where the text ran out.\<close>

function string_end :: "jstr \<Rightarrow> nat \<Rightarrow> nat + nat" where
  "string_end text at =
     (if at < length text then
        (if text ! at = backslash then string_end text (at + 2)
         else if text ! at = quote_mark then Inr (Suc at)
         else string_end text (Suc at))
      else Inl at)"
  by pat_completeness auto
termination
  by (relation "measure (\<lambda>(text, at). length text - at)") auto

declare string_end.simps [simp del]

definition readString :: "jstr \<Rightarrow> scan \<Rightarrow> jstr scanned" where
  "readString text st =
     (if char_at text (pos st) \<noteq> Some quote_mark then fail ''expected a string'' st
      else (case string_end text (Suc (pos st)) of
              Inl a \<Rightarrow> fail ''the string does not end'' (st\<lparr>pos := a\<rparr>)
            | Inr e \<Rightarrow>
                (case parse_string (slice text (pos st) e) of
                   None \<Rightarrow> Inl (StringSyntaxError, st\<lparr>pos := e\<rparr>)
                 | Some s \<Rightarrow> Inr (s, st\<lparr>pos := e\<rparr>))))"

definition number_char :: "code_unit \<Rightarrow> bool" where
  "number_char c \<longleftrightarrow> is_digit c \<or> c \<in> set (js ''eE+.-'')"

function number_end :: "jstr \<Rightarrow> nat \<Rightarrow> nat" where
  "number_end text at =
     (if at < length text \<and> number_char (text ! at) then number_end text (Suc at) else at)"
  by pat_completeness auto
termination
  by (relation "measure (\<lambda>(text, at). length text - at)") auto

declare number_end.simps [simp del]

definition readNumber :: "jstr \<Rightarrow> scan \<Rightarrow> jval scanned" where
  "readNumber text st =
     (let start = pos st;
          at = (if char_at text start = Some (uc CHR ''-'') then Suc start else start);
          e = number_end text at;
          raw = slice text start e
      in case number_of raw of
           None \<Rightarrow> fail ''expected a number'' (st\<lparr>pos := e\<rparr>)
         | Some n \<Rightarrow>
             if raw = [] then fail ''expected a number'' (st\<lparr>pos := e\<rparr>)
             else Inr (JNum n, st\<lparr>pos := e\<rparr>))"

text \<open>\<open>record\<close>: the first span under a pointer wins.\<close>

definition add_span :: "jstr \<times> span \<Rightarrow> (jstr \<times> span) list \<Rightarrow> (jstr \<times> span) list" where
  "add_span e es = (if fst e \<in> fst ` set es then es else es @ [e])"

definition span_of :: "jstr list \<Rightarrow> nat \<Rightarrow> nat \<Rightarrow> nat \<Rightarrow> span" where
  "span_of path vs ve ms =
     \<lparr>span_pointer = pointer path, valueStart = vs, valueEnd = ve, memberStart = ms, memberEnd = ve\<rparr>"

definition record_span :: "jstr list \<Rightarrow> nat \<Rightarrow> nat \<Rightarrow> scan \<Rightarrow> scan" where
  "record_span path vs ms st =
     st\<lparr>spans := add_span (pointer path, span_of path vs (pos st) ms) (spans st)\<rparr>"

text \<open>
  \<open>readValue\<close> with the two loops it holds, in the pieces between the recursive calls: the scalar
  branches; a member's name, separator and where its value begins; what an object holds after one
  more member; and the comma or closing bracket that decides whether the loop goes on.  The source
  keeps a set \<open>seen\<close> beside the object it fills; the set is always the names the object has, and
  the model asks those.
\<close>

definition read_scalar :: "jstr \<Rightarrow> scan \<Rightarrow> jval scanned" where
  "read_scalar text st =
     (let c = char_at text (pos st) in
      if c = Some quote_mark then
        (case readString text st of Inl e \<Rightarrow> Inl e | Inr (s, st') \<Rightarrow> Inr (JStr s, st'))
      else if c = Some (uc CHR ''t'') then read_literal text (js ''true'') (JBool True) st
      else if c = Some (uc CHR ''f'') then read_literal text (js ''false'') (JBool False) st
      else if c = Some (uc CHR ''n'') then read_literal text (js ''null'') JNull st
      else readNumber text st)"

definition read_name :: "jstr \<Rightarrow> scan \<Rightarrow> (jstr \<times> nat) scanned" where
  "read_name text st0 =
     (let st = skipped text st0 in
      case readString text st of
        Inl e \<Rightarrow> Inl e
      | Inr (name, st1) \<Rightarrow>
          (let st2 = skipped text st1 in
           if char_at text (pos st2) \<noteq> Some colon then fail ''expected a member separator'' st2
           else Inr ((name, pos st), advance 1 st2)))"

definition add_member ::
  "jstr list \<Rightarrow> jstr \<Rightarrow> jval \<Rightarrow> (jstr \<times> jval) list \<Rightarrow> scan \<Rightarrow> (jstr \<times> jval) list \<times> scan" where
  "add_member path name member object st =
     (if name \<in> fst ` set object
      then (object, st\<lparr>duplicates := duplicates st @ [(pointer (path @ [name]), name)]\<rparr>)
      else (object @ [(name, member)], st))"

definition after_item :: "jstr \<Rightarrow> code_unit \<Rightarrow> string \<Rightarrow> scan \<Rightarrow> bool scanned" where
  "after_item text close why st0 =
     (let st = skipped text st0 in
      if char_at text (pos st) = Some comma then Inr (True, advance 1 st)
      else if char_at text (pos st) = Some close then Inr (False, advance 1 st)
      else fail why st)"

definition recorded :: "jstr list \<Rightarrow> nat \<Rightarrow> nat \<Rightarrow> jval scanned \<Rightarrow> jval scanned" where
  "recorded path vs ms r =
     (case r of Inl e \<Rightarrow> Inl e | Inr (v, st) \<Rightarrow> Inr (v, record_span path vs ms st))"

definition closes :: "jstr \<Rightarrow> code_unit \<Rightarrow> scan \<Rightarrow> bool" where
  "closes text close st \<longleftrightarrow> char_at text (pos st) = Some close"

function (sequential) read_value :: "nat \<Rightarrow> jstr \<Rightarrow> jstr list \<Rightarrow> nat \<Rightarrow> scan \<Rightarrow> jval scanned"
and read_object :: "nat \<Rightarrow> jstr \<Rightarrow> jstr list \<Rightarrow> scan \<Rightarrow> jval scanned"
and read_members :: "nat \<Rightarrow> jstr \<Rightarrow> jstr list \<Rightarrow> (jstr \<times> jval) list \<Rightarrow> scan \<Rightarrow> jval scanned"
and read_array :: "nat \<Rightarrow> jstr \<Rightarrow> jstr list \<Rightarrow> scan \<Rightarrow> jval scanned"
and read_elements :: "nat \<Rightarrow> jstr \<Rightarrow> jstr list \<Rightarrow> jval list \<Rightarrow> scan \<Rightarrow> jval scanned"
where
  "read_value 0 text path ms st0 = Inl (OutOfFuel, st0)"
| "read_value (Suc f) text path ms st0 =
     (let st = skipped text st0;
          c = char_at text (pos st)
      in recorded path (pos st) ms
           (if c = Some open_brace then read_object f text path (skipped text (advance 1 st))
            else if c = Some open_bracket then read_array f text path (skipped text (advance 1 st))
            else read_scalar text st))"
| "read_object 0 text path st = Inl (OutOfFuel, st)"
| "read_object (Suc f) text path st =
     (if closes text close_brace st then Inr (JObj [], advance 1 st)
      else read_members f text path [] st)"
| "read_members 0 text path object st = Inl (OutOfFuel, st)"
| "read_members (Suc f) text path object st =
     (case read_name text st of
        Inl e \<Rightarrow> Inl e
      | Inr ((name, nameStart), st1) \<Rightarrow>
          (case read_value f text (path @ [name]) nameStart st1 of
             Inl e \<Rightarrow> Inl e
           | Inr (member, st2) \<Rightarrow>
               (let (object', st3) = add_member path name member object st2 in
                case after_item text close_brace ''expected a comma or the end of the object'' st3 of
                  Inl e \<Rightarrow> Inl e
                | Inr (again, st4) \<Rightarrow>
                    if again then read_members f text path object' st4
                    else Inr (JObj object', st4))))"
| "read_array 0 text path st = Inl (OutOfFuel, st)"
| "read_array (Suc f) text path st =
     (if closes text close_bracket st then Inr (JArr [], advance 1 st)
      else read_elements f text path [] st)"
| "read_elements 0 text path array st0 = Inl (OutOfFuel, st0)"
| "read_elements (Suc f) text path array st0 =
     (let st = skipped text st0 in
      case read_value f text (path @ [dec (length array)]) (pos st) st of
        Inl e \<Rightarrow> Inl e
      | Inr (v, st1) \<Rightarrow>
          (case after_item text close_bracket ''expected a comma or the end of the array'' st1 of
             Inl e \<Rightarrow> Inl e
           | Inr (again, st2) \<Rightarrow>
               if again then read_elements f text path (array @ [v]) st2
               else Inr (JArr (array @ [v]), st2)))"
  by pat_completeness auto
termination
  by (relation "measure (case_sum (case_sum fst fst) (case_sum fst (case_sum fst fst)))") auto

definition indexDocument :: "jstr \<Rightarrow> document_index" where
  "indexDocument text =
     (let st0 = skipped text \<lparr>pos = 0, spans = [], duplicates = []\<rparr>;
          failed = (\<lambda>(e, st). \<lparr>ix_spans = spans st, ix_duplicates = duplicates st,
                              ix_value = None, ix_error = Some e\<rparr>)
      in case read_value (3 * length text + 3) text [] (pos st0) st0 of
           Inl e \<Rightarrow> failed e
         | Inr (v, st) \<Rightarrow>
             (let st' = skipped text st in
              if pos st' \<noteq> length text
              then failed (ScanError ''there are bytes after the document'' (pos st'), st')
              else \<lparr>ix_spans = spans st', ix_duplicates = duplicates st',
                    ix_value = Some v, ix_error = None\<rparr>))"

definition spanAt :: "document_index \<Rightarrow> jstr \<Rightarrow> span option" where
  "spanAt index ptr = map_of (ix_spans index) ptr"

section \<open>The edits\<close>

definition replaceValue :: "jstr \<Rightarrow> document_index \<Rightarrow> jstr \<Rightarrow> jstr \<Rightarrow> jstr" where
  "replaceValue text index ptr json =
     (case spanAt index ptr of
        None \<Rightarrow> text
      | Some sp \<Rightarrow> take (valueStart sp) text @ json @ drop (valueEnd sp) text)"

text \<open>
  The backward loop \<open>back >= 0 && isSpace(text[back])\<close> from \<open>start - 1\<close>: the model keeps \<open>back + 1\<close>,
  the start of the run of layout, which is a natural number.
\<close>

fun layout_start :: "jstr \<Rightarrow> nat \<Rightarrow> nat" where
  "layout_start text 0 = 0"
| "layout_start text (Suc b) =
     (if b < length text \<and> isSpace (text ! b) then layout_start text b else Suc b)"

definition char_before :: "jstr \<Rightarrow> nat \<Rightarrow> code_unit option" where
  "char_before text n = (case n of 0 \<Rightarrow> None | Suc b \<Rightarrow> char_at text b)"

definition removeMember :: "jstr \<Rightarrow> document_index \<Rightarrow> jstr \<Rightarrow> jstr" where
  "removeMember text index ptr =
     (case spanAt index ptr of
        None \<Rightarrow> text
      | Some sp \<Rightarrow>
          if ptr = [] then text else
          (let layoutStart = layout_start text (memberStart sp);
               ahead = skip text (memberEnd sp);
               (start, e) =
                 (if char_at text ahead = Some comma then (layoutStart, Suc ahead)
                  else if char_before text layoutStart = Some comma
                  then (layoutStart - 1, memberEnd sp)
                  else (layoutStart, memberEnd sp))
           in take start text @ drop e text))"

datatype placement = After jstr | First | Last

definition child_rest :: "jstr \<Rightarrow> jstr \<Rightarrow> jstr option" where
  "child_rest container ptr =
     (if prefix (container @ [slash]) ptr then Some (drop (Suc (length container)) ptr) else None)"

definition childSpans :: "document_index \<Rightarrow> jstr \<Rightarrow> bool \<Rightarrow> span list" where
  "childSpans index container array =
     sort_key memberStart
       (map snd
          (filter
             (\<lambda>(ptr, sp).
                case child_rest container ptr of
                  None \<Rightarrow> False
                | Some rest \<Rightarrow> slash \<notin> set rest \<and> (array \<longrightarrow> is_index rest))
             (ix_spans index)))"

definition trailingLayout :: "jstr \<Rightarrow> nat \<Rightarrow> bool \<Rightarrow> jstr" where
  "trailingLayout text me is_last =
     (if is_last then []
      else (let ahead = skip text me
            in if char_at text ahead = Some comma then slice text me ahead else []))"

definition leadingLayout :: "jstr \<Rightarrow> nat \<Rightarrow> jstr" where
  "leadingLayout text ms = slice text (layout_start text ms) ms"

fun find_index :: "('a \<Rightarrow> bool) \<Rightarrow> 'a list \<Rightarrow> nat option" where
  "find_index P [] = None"
| "find_index P (x # xs) = (if P x then Some 0 else map_option Suc (find_index P xs))"

definition placementIndex :: "span list \<Rightarrow> placement \<Rightarrow> nat" where
  "placementIndex members placement =
     (case placement of
        First \<Rightarrow> 0
      | After ptr \<Rightarrow>
          (case find_index (\<lambda>sp. span_pointer sp = ptr) members of
             None \<Rightarrow> length members
           | Some found \<Rightarrow> Suc found)
      | Last \<Rightarrow> length members)"

definition written_member :: "jstr option \<Rightarrow> jstr \<Rightarrow> jstr" where
  "written_member name json =
     (case name of None \<Rightarrow> json | Some n \<Rightarrow> stringify_string n @ js '': '' @ json)"

definition insertMember ::
  "jstr \<Rightarrow> document_index \<Rightarrow> jstr \<Rightarrow> jstr option \<Rightarrow> jstr \<Rightarrow> placement \<Rightarrow> jstr" where
  "insertMember text index containerPointer name json placement =
     (case spanAt index containerPointer of
        None \<Rightarrow> text
      | Some container \<Rightarrow>
          (let open = char_at text (valueStart container) in
           if open \<noteq> Some open_brace \<and> open \<noteq> Some open_bracket then text
           else if open = Some open_brace \<and> name = None then text
           else if open = Some open_bracket \<and> name \<noteq> None then text
           else
             (let members = childSpans index containerPointer (open = Some open_bracket);
                  written = written_member name json
              in if members = [] then
                   take (Suc (valueStart container)) text @ js '' '' @ written @ js '' ''
                   @ drop (valueEnd container - 1) text
                 else
                   (let at = placementIndex members placement;
                        model = members ! min at (length members - 1);
                        layout = leadingLayout text (memberStart model)
                    in if length members \<le> at then
                         (let la = last members
                          in take (memberEnd la) text @ [comma] @ layout @ written
                             @ drop (memberEnd la) text)
                       else
                         (let start = memberStart (members ! at) - length layout
                          in take start text @ layout @ written @ [comma] @ drop start text)))))"

definition splice_move :: "nat \<Rightarrow> nat \<Rightarrow> 'a list \<Rightarrow> 'a list" where
  "splice_move from to xs =
     (let rest = take from xs @ drop (Suc from) xs
      in take to rest @ [xs ! from] @ drop to rest)"

definition moveElement :: "jstr \<Rightarrow> document_index \<Rightarrow> jstr \<Rightarrow> int \<Rightarrow> int \<Rightarrow> jstr" where
  "moveElement text index arrayPointer from to =
     (case spanAt index arrayPointer of
        None \<Rightarrow> text
      | Some container \<Rightarrow>
          if char_at text (valueStart container) \<noteq> Some open_bracket then text else
          (let elements = childSpans index arrayPointer True;
               n = length elements
           in if from = to then text
              else if from < 0 \<or> to < 0 \<or> int n \<le> from \<or> int n \<le> to then text
              else
                (let layouts = map (\<lambda>sp. leadingLayout text (memberStart sp)) elements;
                     trails = map (\<lambda>i. trailingLayout text (memberEnd (elements ! i)) (i = n - 1))
                                [0..<n];
                     bodies = splice_move (nat from) (nat to)
                                (map (\<lambda>sp. slice text (memberStart sp) (memberEnd sp)) elements);
                     start = memberStart (elements ! 0) - length (layouts ! 0);
                     rebuilt = concat
                       (map (\<lambda>i. layouts ! i @ bodies ! i
                                  @ (if i = n - 1 then [] else trails ! i @ [comma])) [0..<n])
                 in take start text @ rebuilt @ drop (memberEnd (last elements)) text)))"

end
