(* ===== verification/Document_Tree.thy ===== *)
theory Document_Tree
  imports Document_Text
begin

text \<open>
  What the scanner of \<open>documentText.ts\<close> accepts and records, stated over layout trees: a JSON
  value together with every byte it is written with.  \<open>render\<close> writes a tree, \<open>tree_value\<close> reads
  its value, \<open>nodes\<close> says where each value sits.  The scanner accepts exactly the renderings of
  well-formed trees between two runs of layout, and its index is the one the tree prescribes.
\<close>

section \<open>Layout trees\<close>

datatype tree =
    Leaf jstr
  | Obj jstr "member list"
  | Arr jstr "element list"
and member = Member (lead: jstr) (raw_name: jstr) (gap1: jstr) (gap2: jstr) (member_tree: tree) (trail: jstr)
and element = Element (elead: jstr) (element_tree: tree) (etrail: jstr)

definition ws :: "jstr \<Rightarrow> bool" where
  "ws w \<longleftrightarrow> list_all isSpace w"

definition name_of :: "jstr \<Rightarrow> jstr" where
  "name_of raw = the (parse_string raw)"

definition member_name :: "member \<Rightarrow> jstr" where
  "member_name m = name_of (raw_name m)"

definition raw_string :: "jstr \<Rightarrow> bool" where
  "raw_string t \<longleftrightarrow>
     char_at t 0 = Some quote_mark \<and> string_end t 1 = Inr (length t) \<and> parse_string t \<noteq> None"

definition raw_number :: "jstr \<Rightarrow> bool" where
  "raw_number t \<longleftrightarrow> t \<noteq> [] \<and> list_all number_char t \<and> number_of t \<noteq> None"

definition raw_leaf :: "jstr \<Rightarrow> bool" where
  "raw_leaf t \<longleftrightarrow>
     t = js ''true'' \<or> t = js ''false'' \<or> t = js ''null'' \<or> raw_string t \<or> raw_number t"

definition leaf_value :: "jstr \<Rightarrow> jval" where
  "leaf_value t =
     (if t = js ''true'' then JBool True
      else if t = js ''false'' then JBool False
      else if t = js ''null'' then JNull
      else if hd t = quote_mark then JStr (name_of t)
      else JNum (the (number_of t)))"

definition add_first :: "(jstr \<times> 'v) \<Rightarrow> (jstr \<times> 'v) list \<Rightarrow> (jstr \<times> 'v) list" where
  "add_first e es = (if fst e \<in> fst ` set es then es else es @ [e])"

primrec render :: "tree \<Rightarrow> jstr"
and render_member :: "member \<Rightarrow> jstr"
and render_element :: "element \<Rightarrow> jstr"
where
  "render (Leaf t) = t"
| "render (Obj w ms) =
     open_brace # (if ms = [] then w else join_with [comma] (map render_member ms)) @ [close_brace]"
| "render (Arr w es) =
     open_bracket # (if es = [] then w else join_with [comma] (map render_element es)) @ [close_bracket]"
| "render_member (Member l n a b c t) = l @ n @ a @ colon # b @ render c @ t"
| "render_element (Element l c t) = l @ render c @ t"

primrec wf_tree :: "tree \<Rightarrow> bool"
and wf_member :: "member \<Rightarrow> bool"
and wf_element :: "element \<Rightarrow> bool"
where
  "wf_tree (Leaf t) = raw_leaf t"
| "wf_tree (Obj w ms) = (ws w \<and> list_all wf_member ms)"
| "wf_tree (Arr w es) = (ws w \<and> list_all wf_element es)"
| "wf_member (Member l n a b c t) = (ws l \<and> raw_string n \<and> ws a \<and> ws b \<and> wf_tree c \<and> ws t)"
| "wf_element (Element l c t) = (ws l \<and> wf_tree c \<and> ws t)"

primrec tree_value :: "tree \<Rightarrow> jval"
and tree_member :: "member \<Rightarrow> jstr \<times> jval"
and tree_element :: "element \<Rightarrow> jval"
where
  "tree_value (Leaf t) = leaf_value t"
| "tree_value (Obj w ms) = JObj (fold add_first (map tree_member ms) [])"
| "tree_value (Arr w es) = JArr (map tree_element es)"
| "tree_member (Member l n a b c t) = (name_of n, tree_value c)"
| "tree_element (Element l c t) = tree_value c"

text \<open>Where each value sits: the spans in the order the scanner records them.\<close>

function (sequential) nodes :: "jstr list \<Rightarrow> nat \<Rightarrow> nat \<Rightarrow> tree \<Rightarrow> (jstr \<times> span) list"
and member_nodes :: "jstr list \<Rightarrow> nat \<Rightarrow> member list \<Rightarrow> (jstr \<times> span) list"
and element_nodes :: "jstr list \<Rightarrow> nat \<Rightarrow> nat \<Rightarrow> element list \<Rightarrow> (jstr \<times> span) list"
where
  "nodes p s m (Leaf t) = [(pointer p, span_of p s (s + length t) m)]"
| "nodes p s m (Obj w ms) =
     member_nodes p (Suc s) ms @ [(pointer p, span_of p s (s + length (render (Obj w ms))) m)]"
| "nodes p s m (Arr w es) =
     element_nodes p 0 (Suc s) es @ [(pointer p, span_of p s (s + length (render (Arr w es))) m)]"
| "member_nodes p s [] = []"
| "member_nodes p s (Member l n a b c t # ms) =
     nodes (p @ [name_of n]) (s + length l + length n + length a + 1 + length b) (s + length l) c
     @ member_nodes p (s + length (render_member (Member l n a b c t)) + 1) ms"
| "element_nodes p i s [] = []"
| "element_nodes p i s (Element l c t # es) =
     nodes (p @ [dec i]) (s + length l) (s + length l) c
     @ element_nodes p (Suc i) (s + length (render_element (Element l c t)) + 1) es"
  by pat_completeness auto
termination
  by (relation "measure (case_sum (\<lambda>(p, s, m, c). size c)
        (case_sum (\<lambda>(p, s, ms). size_list size ms) (\<lambda>(p, i, s, es). size_list size es)))") auto

function (sequential) dups :: "jstr list \<Rightarrow> tree \<Rightarrow> (jstr \<times> jstr) list"
and member_dups :: "jstr list \<Rightarrow> jstr set \<Rightarrow> member list \<Rightarrow> (jstr \<times> jstr) list"
and element_dups :: "jstr list \<Rightarrow> nat \<Rightarrow> element list \<Rightarrow> (jstr \<times> jstr) list"
where
  "dups p (Leaf t) = []"
| "dups p (Obj w ms) = member_dups p {} ms"
| "dups p (Arr w es) = element_dups p 0 es"
| "member_dups p seen [] = []"
| "member_dups p seen (Member l n a b c t # ms) =
     dups (p @ [name_of n]) c
     @ (if name_of n \<in> seen then [(pointer (p @ [name_of n]), name_of n)] else [])
     @ member_dups p (insert (name_of n) seen) ms"
| "element_dups p i [] = []"
| "element_dups p i (Element l c t # es) = dups (p @ [dec i]) c @ element_dups p (Suc i) es"
  by pat_completeness auto
termination
  by (relation "measure (case_sum (\<lambda>(p, c). size c)
        (case_sum (\<lambda>(p, s, ms). size_list size ms) (\<lambda>(p, i, es). size_list size es)))") auto

definition add_spans :: "(jstr \<times> span) list \<Rightarrow> (jstr \<times> span) list \<Rightarrow> (jstr \<times> span) list" where
  "add_spans es sps = fold add_span es sps"

definition after_tree :: "jstr list \<Rightarrow> nat \<Rightarrow> nat \<Rightarrow> tree \<Rightarrow> scan \<Rightarrow> scan" where
  "after_tree p s m c st =
     \<lparr>pos = s + length (render c), spans = add_spans (nodes p s m c) (spans st),
      duplicates = duplicates st @ dups p c\<rparr>"

text \<open>A number must not run into what follows it.\<close>

definition follows :: "tree \<Rightarrow> jstr \<Rightarrow> bool" where
  "follows c post \<longleftrightarrow>
     (case c of Leaf t \<Rightarrow> raw_number t \<longrightarrow> post = [] \<or> \<not> number_char (hd post) | _ \<Rightarrow> True)"

section \<open>The scanner's loops on a known text\<close>

lemma ws_simps [simp]:
  "ws []" "ws (c # w) \<longleftrightarrow> isSpace c \<and> ws w" "ws (v @ w) \<longleftrightarrow> ws v \<and> ws w"
  by (auto simp: ws_def)

lemma skip_eq: "k \<le> length src \<Longrightarrow> skip src k = k + length (takeWhile isSpace (drop k src))"
proof (induction src k rule: skip.induct)
  case (1 src k)
  show ?case
  proof (cases "k < length src")
    case True
    then have d: "drop k src = src ! k # drop (Suc k) src" by (simp add: Cons_nth_drop_Suc)
    with 1 True show ?thesis by (simp add: skip.simps [of src k])
  next
    case False
    with 1(2) show ?thesis by (simp add: skip.simps [of src "length src"])
  qed
qed

lemma skip_beyond: "length src \<le> k \<Longrightarrow> skip src k = k"
  by (simp add: skip.simps)

lemma skip_le: "k \<le> length src \<Longrightarrow> skip src k \<le> length src"
  by (metis length_drop length_takeWhile_le le_diff_conv2 add.commute skip_eq)

lemma skip_ge: "k \<le> skip src k"
  by (cases "k \<le> length src") (simp_all add: skip_eq skip_beyond)

lemma takeWhile_ws: "ws w \<Longrightarrow> r = [] \<or> \<not> isSpace (hd r) \<Longrightarrow> takeWhile isSpace (w @ r) = w"
  by (induction w) (cases r; auto)+

lemma skip_drop:
  assumes "drop k src = w @ r" "ws w" "r = [] \<or> \<not> isSpace (hd r)"
  shows "skip src k = k + length w"
proof (cases "k \<le> length src")
  case True
  with assms show ?thesis by (simp add: skip_eq takeWhile_ws)
qed (use assms in \<open>simp add: skip_beyond\<close>)

lemma drop_add: "drop k src = xs @ ys \<Longrightarrow> drop (k + length xs) src = ys"
  by (metis append_eq_conv_conj drop_drop add.commute)

lemma skip_split:
  obtains w r where "drop k src = w @ r" "ws w" "r = [] \<or> \<not> isSpace (hd r)"
    "skip src k = k + length w" "drop (skip src k) src = r"
proof
  let ?w = "takeWhile isSpace (drop k src)" and ?r = "dropWhile isSpace (drop k src)"
  show d: "drop k src = ?w @ ?r" by simp
  show w: "ws ?w" by (auto simp: ws_def list_all_iff dest: set_takeWhileD)
  show r: "?r = [] \<or> \<not> isSpace (hd ?r)"
    using hd_dropWhile [of isSpace "drop k src"] by blast
  show s: "skip src k = k + length ?w" using d w r by (rule skip_drop)
  show "drop (skip src k) src = ?r" unfolding s using d by (rule drop_add)
qed

lemma skip_idem [simp]: "skip src (skip src k) = skip src k"
proof -
  obtain w r where r: "r = [] \<or> \<not> isSpace (hd r)" and d: "drop (skip src k) src = r"
    by (rule skip_split)
  show ?thesis using skip_drop [of "skip src k" src "[]" r] d r by simp
qed

lemma skipped_idem [simp]: "skipped src (skipped src st) = skipped src st"
  by (simp add: skipped_def)

lemma number_end_eq:
  "k \<le> length src \<Longrightarrow> number_end src k = k + length (takeWhile number_char (drop k src))"
proof (induction src k rule: number_end.induct)
  case (1 src k)
  show ?case
  proof (cases "k < length src")
    case True
    then have d: "drop k src = src ! k # drop (Suc k) src" by (simp add: Cons_nth_drop_Suc)
    with 1 True show ?thesis by (simp add: number_end.simps [of src k])
  next
    case False
    with 1(2) show ?thesis by (simp add: number_end.simps [of src "length src"])
  qed
qed

lemma string_end_local:
  "\<lbrakk>string_end t i = Inr e; drop k src = t @ r\<rbrakk> \<Longrightarrow> string_end src (k + i) = Inr (k + e)"
proof (induction t i rule: string_end.induct)
  case (1 t i)
  have i: "i < length t" using "1.prems" by (auto simp: string_end.simps [of t i] split: if_splits)
  have "k + i < length src"
    using i "1.prems"(2) by (metis add.commute drop_eq_Nil2 leD length_append length_drop
        less_diff_conv trans_less_add1)
  moreover have "src ! (k + i) = t ! i"
    using i "1.prems"(2) by (metis calculation le_add1 less_imp_le_nat nth_append nth_drop order_trans)
  ultimately show ?case
    using 1 i by (auto simp: string_end.simps [of t i] string_end.simps [of src "k + i"]
        add.assoc split: if_splits)
qed

lemma string_end_bounds: "string_end t i = Inr e \<Longrightarrow> i < e \<and> e \<le> length t"
proof (induction t i rule: string_end.induct)
  case (1 t i)
  then show ?case
    by (subst (asm) (3) string_end.simps) (fastforce split: if_splits)
qed

lemma string_end_take:
  "\<lbrakk>string_end t i = Inr e; e \<le> n\<rbrakk> \<Longrightarrow> string_end (take n t) i = Inr e"
proof (induction t i rule: string_end.induct)
  case (1 t i)
  have "i < e" "e \<le> length t" using string_end_bounds [OF "1.prems"(1)] by auto
  with 1 show ?case
    by (auto simp: string_end.simps [of t i] string_end.simps [of "take n t" i] split: if_splits)
qed

lemma string_end_drop:
  "\<lbrakk>string_end t i = Inr e; a \<le> i\<rbrakk> \<Longrightarrow> string_end (drop a t) (i - a) = Inr (e - a)"
proof (induction t i rule: string_end.induct)
  case (1 t i)
  have b: "i < e" "e \<le> length t" using string_end_bounds [OF "1.prems"(1)] by auto
  have "i - a < length (drop a t)" "drop a t ! (i - a) = t ! i"
    using b 1(4) by auto
  moreover have "Suc i - a = Suc (i - a)" "i + 2 - a = i - a + 2" using 1(4) by auto
  ultimately show ?case
    using 1 b by (auto simp: string_end.simps [of t i] string_end.simps [of "drop a t" "i - a"]
        split: if_splits)
qed

end
