(* ===== verification/Document_Scan.thy ===== *)
theory Document_Scan
  imports Document_Tree
begin

text \<open>
  The scanner of \<open>documentText.ts\<close> against the layout trees: what it accepts is a rendering
  (\<open>read_value_sound\<close>), every rendering is accepted (\<open>read_value_render\<close>), the fuel
  \<open>indexDocument\<close> starts with is never used up, and the index is the one the tree prescribes.
\<close>

section \<open>Strings, numbers and the other leaves\<close>

lemma drop_length_le: "drop k src = xs @ ys \<Longrightarrow> xs \<noteq> [] \<Longrightarrow> k + length xs + length ys = length src"
  by (metis add.assoc append_is_Nil_conv drop_eq_Nil2 length_append length_drop le_add_diff_inverse
      nat_le_linear)

lemma char_at_drop_Cons: "drop k src = c # r \<Longrightarrow> char_at src k = Some c"
  by (simp add: char_at_drop)

lemma char_at_drop_Nil: "drop k src = [] \<Longrightarrow> char_at src k = None"
  by (simp add: char_at_drop)

lemma slice_drop: "drop k src = xs @ ys \<Longrightarrow> slice src k (k + length xs) = xs"
  by (simp add: slice_def)

lemma raw_string_hd: "raw_string t \<Longrightarrow> \<exists>r. t = quote_mark # r"
  by (cases t) (auto simp: raw_string_def char_at_def)

lemma readString_raw:
  assumes "raw_string n" "drop (pos st) src = n @ r"
  shows "readString src st = Inr (name_of n, st\<lparr>pos := pos st + length n\<rparr>)"
proof -
  obtain r' where n: "n = quote_mark # r'" using raw_string_hd [OF assms(1)] by blast
  have "string_end n 1 = Inr (length n)" using assms(1) by (simp add: raw_string_def)
  from string_end_local [OF this assms(2)]
  have e: "string_end src (Suc (pos st)) = Inr (pos st + length n)" by simp
  have c: "char_at src (pos st) = Some quote_mark" using assms(2) n by (simp add: char_at_drop)
  have s: "slice src (pos st) (pos st + length n) = n" using assms(2) by (rule slice_drop)
  have p: "parse_string n = Some (name_of n)"
    using assms(1) by (auto simp: raw_string_def name_of_def)
  show ?thesis using e c s p by (simp add: readString_def)
qed

lemma readString_sound:
  assumes "readString src st = Inr (s, st')"
  shows "\<exists>n r. raw_string n \<and> drop (pos st) src = n @ r \<and> s = name_of n
           \<and> st' = st\<lparr>pos := pos st + length n\<rparr>"
proof -
  let ?k = "pos st"
  obtain e where c: "char_at src ?k = Some quote_mark" and e: "string_end src (Suc ?k) = Inr e"
    and p: "parse_string (slice src ?k e) = Some s" and st': "st' = st\<lparr>pos := e\<rparr>"
    using assms by (auto simp: readString_def fail_def split: if_splits sum.splits option.splits)
  have b: "Suc ?k < e" "e \<le> length src" using string_end_bounds [OF e] by auto
  define n where "n = slice src ?k e"
  have len: "length n = e - ?k" using b by (simp add: n_def)
  have d: "drop ?k src = n @ drop e src"
    using b by (simp add: n_def slice_def)
      (metis append_take_drop_id drop_drop le_add_diff_inverse2 less_imp_le_nat Suc_lessD)
  have "string_end (drop ?k src) 1 = Inr (e - ?k)"
    using string_end_drop [OF e, of ?k] by simp
  then have "string_end (take (e - ?k) (drop ?k src)) 1 = Inr (e - ?k)"
    by (rule string_end_take) simp
  then have "string_end n 1 = Inr (length n)" using len by (simp add: n_def slice_def)
  moreover have "char_at n 0 = Some quote_mark"
    using c d b len by (cases n) (auto simp: char_at_drop)
  ultimately have "raw_string n" using p by (simp add: raw_string_def n_def)
  moreover have "s = name_of n" using p by (simp add: name_of_def n_def)
  moreover have "st' = st\<lparr>pos := ?k + length n\<rparr>" using st' len b by simp
  ultimately show ?thesis using d by blast
qed

lemma readNumber_eq:
  "pos st \<le> length src \<Longrightarrow>
   readNumber src st =
     (let raw = takeWhile number_char (drop (pos st) src); st' = st\<lparr>pos := pos st + length raw\<rparr>
      in case number_of raw of
           None \<Rightarrow> fail ''expected a number'' st'
         | Some n \<Rightarrow> Inr (JNum n, st'))"
proof -
  assume k: "pos st \<le> length src"
  let ?k = "pos st" and ?raw = "takeWhile number_char (drop (pos st) src)"
  have minus: "number_char (uc CHR ''-'')" by (simp add: number_char_def)
  have e: "number_end src (if char_at src ?k = Some (uc CHR ''-'') then Suc ?k else ?k)
             = ?k + length ?raw"
  proof (cases "char_at src ?k = Some (uc CHR ''-'')")
    case True
    then have "drop ?k src = uc CHR ''-'' # drop (Suc ?k) src" by (rule char_at_Some_drop)
    moreover have "Suc ?k \<le> length src" using True char_at_SomeD by force
    ultimately show ?thesis using True minus by (simp add: number_end_eq)
  qed (simp add: number_end_eq k)
  have s: "slice src ?k (?k + length ?raw) = ?raw"
    by (rule slice_drop [of _ _ _ "dropWhile number_char (drop ?k src)"]) simp
  show ?thesis
    using e s by (cases "number_of ?raw") (auto simp: readNumber_def Let_def)
qed

definition scalar_start :: "jstr \<Rightarrow> bool" where
  "scalar_start t \<longleftrightarrow> t \<noteq> [] \<and> \<not> isSpace (hd t) \<and> hd t \<noteq> open_brace \<and> hd t \<noteq> open_bracket"

lemma number_char_start:
  "number_char c \<Longrightarrow>
     \<not> isSpace c \<and> c \<noteq> open_brace \<and> c \<noteq> open_bracket \<and> c \<noteq> quote_mark \<and> c \<noteq> 116 \<and> c \<noteq> 102
     \<and> c \<noteq> 110 \<and> c \<noteq> comma \<and> c \<noteq> close_brace \<and> c \<noteq> close_bracket"
  by (auto simp: number_char_def is_digit_def isSpace_def)

lemma raw_leaf_start: "raw_leaf t \<Longrightarrow> scalar_start t"
  unfolding raw_leaf_def
proof (elim disjE)
  assume "raw_string t"
  then show ?thesis by (auto simp: scalar_start_def isSpace_def dest!: raw_string_hd)
next
  assume "raw_number t"
  then show ?thesis
    using number_char_start by (cases t) (auto simp: scalar_start_def raw_number_def)
qed (simp_all add: scalar_start_def isSpace_def)

lemma takeWhile_number:
  "list_all number_char t \<Longrightarrow> r = [] \<or> \<not> number_char (hd r) \<Longrightarrow> takeWhile number_char (t @ r) = t"
  by (induction t) (cases r; auto)+

lemma read_scalar_leaf:
  assumes t: "raw_leaf t" and d: "drop (pos st) src = t @ r" and f: "follows (Leaf t) r"
  shows "read_scalar src st = Inr (leaf_value t, st\<lparr>pos := pos st + length t\<rparr>)"
proof -
  have ne: "t \<noteq> []" using raw_leaf_start [OF t] by (simp add: scalar_start_def)
  then have c: "char_at src (pos st) = Some (hd t)" using d by (cases t) (auto simp: char_at_drop)
  consider "t = js ''true''" | "t = js ''false''" | "t = js ''null''"
    | "raw_string t" "t \<noteq> js ''true''" "t \<noteq> js ''false''" "t \<noteq> js ''null''"
    | "raw_number t" "\<not> raw_string t" "t \<noteq> js ''true''" "t \<noteq> js ''false''" "t \<noteq> js ''null''"
    using t by (auto simp: raw_leaf_def)
  then show ?thesis
  proof cases
    case 4
    then have "hd t = quote_mark" using raw_string_hd by force
    with 4 c show ?thesis
      by (simp add: read_scalar_def readString_raw [OF 4(1) d] leaf_value_def)
  next
    case 5
    then have all: "list_all number_char t" and n: "number_of t \<noteq> None"
      by (simp_all add: raw_number_def)
    have h: "number_char (hd t)" using all ne by (cases t) auto
    have "takeWhile number_char (drop (pos st) src) = t"
      unfolding d using all f 5(1) by (intro takeWhile_number) (auto simp: follows_def)
    moreover have "pos st \<le> length src" using drop_length_le [OF d ne] by simp
    ultimately show ?thesis
      using c n 5 number_char_start [OF h]
      by (auto simp: read_scalar_def readNumber_eq Let_def leaf_value_def)
  qed (use c d in \<open>auto simp: read_scalar_def read_literal_def leaf_value_def advance_def\<close>)
qed

lemma read_literal_sound:
  "read_literal src w v st = Inr (v', st') \<Longrightarrow>
     v' = v \<and> st' = st\<lparr>pos := pos st + length w\<rparr> \<and> (\<exists>r. drop (pos st) src = w @ r)"
  by (auto simp: read_literal_def fail_def advance_def prefix_def split: if_splits)

lemma read_scalar_sound:
  assumes r: "read_scalar src st = Inr (v, st')" and k: "pos st \<le> length src"
  shows "\<exists>t post. raw_leaf t \<and> drop (pos st) src = t @ post \<and> follows (Leaf t) post
           \<and> v = leaf_value t \<and> st' = st\<lparr>pos := pos st + length t\<rparr>"
proof -
  let ?c = "char_at src (pos st)"
  have literal: ?thesis
    if "read_literal src w v0 st = Inr (v, st')" "raw_leaf w" "leaf_value w = v0" "\<not> raw_number w" for w v0
    using read_literal_sound [OF that(1)] that(2-4) by (auto simp: follows_def)
  have not_num: "\<not> raw_number (js ''true'')" "\<not> raw_number (js ''false'')" "\<not> raw_number (js ''null'')"
    by (simp_all add: raw_number_def number_char_def is_digit_def)
  have leaves: "raw_leaf (js ''true'')" "raw_leaf (js ''false'')" "raw_leaf (js ''null'')"
    by (simp_all add: raw_leaf_def)
  consider (s) "?c = Some quote_mark" | (t) "?c = Some (uc CHR ''t'')" | (f) "?c = Some (uc CHR ''f'')"
    | (n) "?c = Some (uc CHR ''n'')"
    | (num) "?c \<noteq> Some quote_mark" "?c \<noteq> Some (uc CHR ''t'')" "?c \<noteq> Some (uc CHR ''f'')"
        "?c \<noteq> Some (uc CHR ''n'')"
    by blast
  then show ?thesis
  proof cases
    case s
    then obtain str where str: "readString src st = Inr (str, st')" "v = JStr str"
      using r by (auto simp: read_scalar_def split: sum.splits)
    then obtain n post where n: "raw_string n" "drop (pos st) src = n @ post" "str = name_of n"
      "st' = st\<lparr>pos := pos st + length n\<rparr>"
      using readString_sound by blast
    obtain q where q: "n = quote_mark # q" using raw_string_hd [OF n(1)] by blast
    have "\<not> raw_number n" using q number_char_start by (auto simp: raw_number_def)
    with n q str show ?thesis
      by (intro exI [of _ n] exI [of _ post]) (auto simp: raw_leaf_def follows_def leaf_value_def)
  next
    case t
    then show ?thesis using r not_num leaves
      by (intro literal [of "js ''true''" "JBool True"]) (simp_all add: read_scalar_def leaf_value_def)
  next
    case f
    then show ?thesis using r not_num leaves
      by (intro literal [of "js ''false''" "JBool False"]) (simp_all add: read_scalar_def leaf_value_def)
  next
    case n
    then show ?thesis using r not_num leaves
      by (intro literal [of "js ''null''" "JNull"]) (simp_all add: read_scalar_def leaf_value_def)
  next
    case num
    let ?raw = "takeWhile number_char (drop (pos st) src)"
    let ?post = "dropWhile number_char (drop (pos st) src)"
    obtain x where x: "number_of ?raw = Some x" "v = JNum x" "st' = st\<lparr>pos := pos st + length ?raw\<rparr>"
      using num r k by (auto simp: read_scalar_def readNumber_eq fail_def Let_def split: option.splits)
    then have ne: "?raw \<noteq> []" by auto
    have all: "list_all number_char ?raw" by (auto simp: list_all_iff dest: set_takeWhileD)
    with x ne have raw: "raw_number ?raw" by (simp add: raw_number_def)
    have "?post = [] \<or> \<not> number_char (hd ?post)"
      using hd_dropWhile [of number_char "drop (pos st) src"] by blast
    moreover have "leaf_value ?raw = JNum x"
    proof -
      have "number_char (hd ?raw)" using all ne by (cases ?raw) auto
      then have "hd ?raw \<noteq> 116 \<and> hd ?raw \<noteq> 102 \<and> hd ?raw \<noteq> 110 \<and> hd ?raw \<noteq> quote_mark"
        using number_char_start by blast
      then show ?thesis using x by (auto simp: leaf_value_def)
    qed
    ultimately show ?thesis using raw x
      by (intro exI [of _ ?raw] exI [of _ ?post]) (auto simp: raw_leaf_def follows_def)
  qed
qed

section \<open>The steps between the recursive calls\<close>

lemma skipped_drop:
  "\<lbrakk>drop (pos st) src = w @ r; ws w; r = [] \<or> \<not> isSpace (hd r)\<rbrakk>
     \<Longrightarrow> skipped src st = st\<lparr>pos := pos st + length w\<rparr>"
  by (simp add: skipped_def skip_drop)

lemma skipped_split:
  obtains w r where "drop (pos st) src = w @ r" "ws w" "r = [] \<or> \<not> isSpace (hd r)"
    "skipped src st = st\<lparr>pos := pos st + length w\<rparr>" "drop (pos st + length w) src = r"
  by (rule skip_split [of "pos st" src]) (auto simp: skipped_def)

lemma punctuation_not_space [simp]:
  "\<not> isSpace comma" "\<not> isSpace colon" "\<not> isSpace quote_mark" "\<not> isSpace open_brace"
  "\<not> isSpace close_brace" "\<not> isSpace open_bracket" "\<not> isSpace close_bracket"
  by (simp_all add: isSpace_def)

lemma read_name_render:
  assumes d: "drop (pos st) src = l @ n @ a @ colon # r" and l: "ws l" and n: "raw_string n" and a: "ws a"
  shows "read_name src st
           = Inr ((name_of n, pos st + length l), st\<lparr>pos := pos st + length l + length n + length a + 1\<rparr>)"
proof -
  obtain q where q: "n = quote_mark # q" using raw_string_hd [OF n] by blast
  have s1: "skipped src st = st\<lparr>pos := pos st + length l\<rparr>"
    using d l q by (intro skipped_drop [of _ _ _ "n @ a @ colon # r"]) auto
  have d1: "drop (pos st + length l) src = n @ a @ colon # r" using d by (rule drop_add)
  have d2: "drop (pos st + length l + length n) src = a @ colon # r" using d1 by (rule drop_add)
  have d3: "drop (pos st + length l + length n + length a) src = colon # r" using d2 by (rule drop_add)
  have rs: "readString src (st\<lparr>pos := pos st + length l\<rparr>)
              = Inr (name_of n, st\<lparr>pos := pos st + length l + length n\<rparr>)"
    using readString_raw [OF n, of "st\<lparr>pos := pos st + length l\<rparr>"] d1 by simp
  have s2: "skipped src (st\<lparr>pos := pos st + length l + length n\<rparr>)
              = st\<lparr>pos := pos st + length l + length n + length a\<rparr>"
    using d2 a skipped_drop [of "st\<lparr>pos := pos st + length l + length n\<rparr>" src a "colon # r"] by simp
  show ?thesis
    using s1 rs s2 d3 by (simp add: read_name_def Let_def advance_def char_at_drop)
qed

lemma read_name_sound:
  assumes "read_name src st = Inr ((name, ns), st')"
  shows "\<exists>l n a r. drop (pos st) src = l @ n @ a @ colon # r \<and> ws l \<and> raw_string n \<and> ws a
           \<and> name = name_of n \<and> ns = pos st + length l
           \<and> st' = st\<lparr>pos := pos st + length l + length n + length a + 1\<rparr>"
proof -
  obtain l r1 where l: "drop (pos st) src = l @ r1" "ws l" and
    s1: "skipped src st = st\<lparr>pos := pos st + length l\<rparr>" and d1: "drop (pos st + length l) src = r1"
    by (rule skipped_split)
  obtain st1 where rs: "readString src (st\<lparr>pos := pos st + length l\<rparr>) = Inr (name, st1)"
    and col: "char_at src (pos (skipped src st1)) = Some colon" and ns: "ns = pos st + length l"
    and st': "st' = advance 1 (skipped src st1)"
    using assms by (auto simp: read_name_def s1 fail_def Let_def split: sum.splits if_splits)
  obtain n r2 where n: "raw_string n" "r1 = n @ r2" "name = name_of n"
    "st1 = st\<lparr>pos := pos st + length l + length n\<rparr>"
    using readString_sound [OF rs] d1 by auto
  have d2: "drop (pos st1) src = r2" using drop_add [of "pos st + length l" src n r2] d1 n by simp
  obtain a r3 where a: "drop (pos st1) src = a @ r3" "ws a" and
    s2: "skipped src st1 = st1\<lparr>pos := pos st1 + length a\<rparr>" and d3: "drop (pos st1 + length a) src = r3"
    by (rule skipped_split)
  obtain r where r: "r3 = colon # r"
    using col s2 d3 by (auto simp: char_at_drop split: list.splits)
  show ?thesis
    using l n a d2 r ns st' s2 by (intro exI [of _ l] exI [of _ n] exI [of _ a] exI [of _ r])
      (auto simp: advance_def)
qed

lemma after_item_render:
  assumes d: "drop (pos st) src = t @ c # r" and t: "ws t" and c: "c = comma \<or> c = close"
    and close: "close \<noteq> comma" "\<not> isSpace close"
  shows "after_item src close why st = Inr (c = comma, st\<lparr>pos := pos st + length t + 1\<rparr>)"
proof -
  have "\<not> isSpace c" using c close by auto
  then have s: "skipped src st = st\<lparr>pos := pos st + length t\<rparr>"
    using d t by (intro skipped_drop [of _ _ _ "c # r"]) auto
  have "drop (pos st + length t) src = c # r" using d by (rule drop_add)
  then have "char_at src (pos st + length t) = Some c" by (rule char_at_drop_Cons)
  with s c close show ?thesis by (auto simp: after_item_def Let_def advance_def)
qed

lemma after_item_sound:
  assumes "after_item src close why st = Inr (again, st')"
  shows "\<exists>t r. drop (pos st) src = t @ (if again then comma else close) # r \<and> ws t
           \<and> st' = st\<lparr>pos := pos st + length t + 1\<rparr>"
proof -
  obtain t r where t: "drop (pos st) src = t @ r" "ws t" and
    s: "skipped src st = st\<lparr>pos := pos st + length t\<rparr>" and d: "drop (pos st + length t) src = r"
    by (rule skipped_split)
  have "\<exists>r'. r = (if again then comma else close) # r'"
    using assms d by (auto simp: after_item_def s fail_def Let_def char_at_drop split: if_splits list.splits)
  moreover have "st' = st\<lparr>pos := pos st + length t + 1\<rparr>"
    using assms by (auto simp: after_item_def s fail_def Let_def advance_def split: if_splits)
  ultimately show ?thesis using t by blast
qed

lemma add_spans_simps [simp]:
  "add_spans [] sps = sps"
  "add_spans (e # es) sps = add_spans es (add_span e sps)"
  "add_spans (xs @ ys) sps = add_spans ys (add_spans xs sps)"
  by (simp_all add: add_spans_def)

lemma keys_add_first [simp]: "fst ` set (add_first e es) = insert (fst e) (fst ` set es)"
  by (auto simp: add_first_def)

lemma add_member_eq:
  "add_member p name v obj st =
     (add_first (name, v) obj,
      st\<lparr>duplicates := duplicates st
            @ (if name \<in> fst ` set obj then [(pointer (p @ [name]), name)] else [])\<rparr>)"
  by (auto simp: add_member_def add_first_def)

section \<open>Every rendering is scanned\<close>

definition scans :: "tree \<Rightarrow> bool" where
  "scans c \<longleftrightarrow>
     (\<forall>f src p m st w post.
        wf_tree c \<longrightarrow> ws w \<longrightarrow> drop (pos st) src = w @ render c @ post \<longrightarrow> follows c post
        \<longrightarrow> 2 * length (render c) \<le> f
        \<longrightarrow> read_value f src p m st = Inr (tree_value c, after_tree p (pos st + length w) m c st))"

lemma scansD:
  "\<lbrakk>scans c; wf_tree c; ws w; drop (pos st) src = w @ render c @ post; follows c post; 2 * length (render c) \<le> f\<rbrakk>
     \<Longrightarrow> read_value f src p m st = Inr (tree_value c, after_tree p (pos st + length w) m c st)"
  by (simp add: scans_def)

lemma follows_ws: "ws t \<Longrightarrow> \<not> number_char c \<Longrightarrow> follows d (t @ c # r)"
  using number_char_start by (cases t) (auto simp: follows_def split: tree.split)

lemma closers_not_number [simp]:
  "\<not> number_char comma" "\<not> number_char close_brace" "\<not> number_char close_bracket"
  using number_char_start by blast+

lemma read_members_render:
  "\<lbrakk>\<forall>m \<in> set ms. scans (member_tree m); list_all wf_member ms; ms \<noteq> [];
     drop (pos st) src = join_with [comma] (map render_member ms) @ close_brace # post;
     2 * length (join_with [comma] (map render_member ms)) + 1 \<le> f\<rbrakk>
   \<Longrightarrow> read_members f src p obj st =
         Inr (JObj (fold add_first (map tree_member ms) obj),
              \<lparr>pos = pos st + length (join_with [comma] (map render_member ms)) + 1,
               spans = add_spans (member_nodes p (pos st) ms) (spans st),
               duplicates = duplicates st @ member_dups p (fst ` set obj) ms\<rparr>)"
proof (induction ms arbitrary: f st obj)
  case Nil
  then show ?case by simp
next
  case (Cons m ms)
  obtain l n a b c t where m: "m = Member l n a b c t" by (cases m)
  obtain f' where f: "f = Suc f'" using Cons.prems(5) by (cases f) auto
  define rest where "rest = (if ms = [] then close_brace # post
      else comma # join_with [comma] (map render_member ms) @ close_brace # post)"
  define sep where "sep = (if ms = [] then close_brace else comma)"
  have sep: "rest = sep # tl rest" "sep = comma \<or> sep = close_brace" "\<not> number_char sep"
    by (auto simp: rest_def sep_def)
  have d0: "drop (pos st) src = l @ n @ a @ colon # b @ render c @ t @ rest"
    using Cons.prems(4) by (cases ms) (auto simp: m rest_def)
  have w: "ws l" "raw_string n" "ws a" "ws b" "wf_tree c" "ws t" "scans c"
    using Cons.prems(1,2) by (simp_all add: m)
  have len: "length (join_with [comma] (map render_member (m # ms)))
      = length l + length n + length a + 1 + length b + length (render c) + length t
        + (if ms = [] then 0 else 1 + length (join_with [comma] (map render_member ms)))"
    by (cases ms) (auto simp: m)
  let ?st1 = "st\<lparr>pos := pos st + length l + length n + length a + 1\<rparr>"
  have name: "read_name src st = Inr ((name_of n, pos st + length l), ?st1)"
    using read_name_render [OF _ w(1-3)] d0 by simp
  have d1: "drop (pos ?st1) src = b @ render c @ t @ rest"
    using drop_add [of "pos st" src "l @ n @ a @ [colon]" "b @ render c @ t @ rest"] d0
    by (simp add: add.assoc)
  have foll: "follows c (t @ rest)" using sep follows_ws [OF w(6)] by metis
  let ?st2 = "after_tree (p @ [name_of n]) (pos ?st1 + length b) (pos st + length l) c ?st1"
  have val: "read_value f' src (p @ [name_of n]) (pos st + length l) ?st1 = Inr (tree_value c, ?st2)"
    using scansD [OF w(7,5,4) d1 foll] Cons.prems(5) len f by simp
  let ?d = "if name_of n \<in> fst ` set obj then [(pointer (p @ [name_of n]), name_of n)] else []"
  let ?st3 = "?st2\<lparr>duplicates := duplicates ?st2 @ ?d\<rparr>"
  have d3: "drop (pos ?st3) src = t @ sep # tl rest"
    using drop_add [of "pos ?st1" src "b @ render c" "t @ rest"] d1 sep(1)
    by (simp add: after_tree_def add.assoc)
  have item: "after_item src close_brace why ?st3 = Inr (sep = comma, ?st3\<lparr>pos := pos ?st3 + length t + 1\<rparr>)" for why
    using after_item_render [OF d3 w(6) sep(2)] by simp
  let ?obj = "add_first (name_of n, tree_value c) obj"
  show ?case
  proof (cases "ms = []")
    case True
    then show ?thesis using name val item
      by (simp add: f m sep_def add_member_eq after_tree_def)
  next
    case False
    let ?st4 = "?st3\<lparr>pos := pos ?st3 + length t + 1\<rparr>"
    have "drop (pos ?st3 + length (t @ [sep])) src = tl rest"
      using d3 by (intro drop_add) simp
    then have d4: "drop (pos ?st4) src = join_with [comma] (map render_member ms) @ close_brace # post"
      using False by (simp add: rest_def)
    have "read_members f' src p ?obj ?st4 =
         Inr (JObj (fold add_first (map tree_member ms) ?obj),
              \<lparr>pos = pos ?st4 + length (join_with [comma] (map render_member ms)) + 1,
               spans = add_spans (member_nodes p (pos ?st4) ms) (spans ?st4),
               duplicates = duplicates ?st4 @ member_dups p (fst ` set ?obj) ms\<rparr>)"
      using Cons.IH [of ?st4 f' ?obj] Cons.prems d4 False len f by simp
    then show ?thesis using False name val item
      by (simp add: f m sep_def add_member_eq after_tree_def join_with_Cons add.assoc)
  qed
qed

lemma read_elements_render:
  "\<lbrakk>\<forall>e \<in> set es. scans (element_tree e); list_all wf_element es; es \<noteq> [];
     drop (pos st) src = join_with [comma] (map render_element es) @ close_bracket # post;
     2 * length (join_with [comma] (map render_element es)) + 1 \<le> f\<rbrakk>
   \<Longrightarrow> read_elements f src p arr st =
         Inr (JArr (arr @ map tree_element es),
              \<lparr>pos = pos st + length (join_with [comma] (map render_element es)) + 1,
               spans = add_spans (element_nodes p (length arr) (pos st) es) (spans st),
               duplicates = duplicates st @ element_dups p (length arr) es\<rparr>)"
proof (induction es arbitrary: f st arr)
  case Nil
  then show ?case by simp
next
  case (Cons e es)
  obtain l c t where e: "e = Element l c t" by (cases e)
  obtain f' where f: "f = Suc f'" using Cons.prems(5) by (cases f) auto
  define rest where "rest = (if es = [] then close_bracket # post
      else comma # join_with [comma] (map render_element es) @ close_bracket # post)"
  define sep where "sep = (if es = [] then close_bracket else comma)"
  have sep: "rest = sep # tl rest" "sep = comma \<or> sep = close_bracket" "\<not> number_char sep"
    by (auto simp: rest_def sep_def)
  have d0: "drop (pos st) src = l @ render c @ t @ rest"
    using Cons.prems(4) by (cases es) (auto simp: e rest_def)
  have w: "ws l" "wf_tree c" "ws t" "scans c"
    using Cons.prems(1,2) by (simp_all add: e)
  have len: "length (join_with [comma] (map render_element (e # es)))
      = length l + length (render c) + length t
        + (if es = [] then 0 else 1 + length (join_with [comma] (map render_element es)))"
    by (cases es) (auto simp: e)
  have start: "render c \<noteq> [] \<and> \<not> isSpace (hd (render c))"
    using w(2) raw_leaf_start by (cases c) (auto simp: scalar_start_def)
  let ?st1 = "st\<lparr>pos := pos st + length l\<rparr>"
  have s1: "skipped src st = ?st1"
    using d0 w(1) start by (intro skipped_drop [of _ _ _ "render c @ t @ rest"]) auto
  have d1: "drop (pos ?st1) src = [] @ render c @ t @ rest"
    using drop_add [OF d0] by simp
  have foll: "follows c (t @ rest)" using sep follows_ws [OF w(3)] by metis
  let ?st2 = "after_tree (p @ [dec (length arr)]) (pos ?st1) (pos ?st1) c ?st1"
  have val: "read_value f' src (p @ [dec (length arr)]) (pos ?st1) ?st1 = Inr (tree_value c, ?st2)"
    using scansD [OF w(4,2) _ d1 foll] Cons.prems(5) len f by simp
  have d2: "drop (pos ?st2) src = t @ sep # tl rest"
    using drop_add [of "pos ?st1" src "render c" "t @ rest"] d1 sep(1)
    by (simp add: after_tree_def)
  have item: "after_item src close_bracket why ?st2 = Inr (sep = comma, ?st2\<lparr>pos := pos ?st2 + length t + 1\<rparr>)" for why
    using after_item_render [OF d2 w(3) sep(2)] by simp
  show ?case
  proof (cases "es = []")
    case True
    then show ?thesis using s1 val item
      by (simp add: f e sep_def after_tree_def)
  next
    case False
    let ?st3 = "?st2\<lparr>pos := pos ?st2 + length t + 1\<rparr>"
    have "drop (pos ?st2 + length (t @ [sep])) src = tl rest"
      using d2 by (intro drop_add) simp
    then have d3: "drop (pos ?st3) src = join_with [comma] (map render_element es) @ close_bracket # post"
      using False by (simp add: rest_def)
    have "read_elements f' src p (arr @ [tree_value c]) ?st3 =
         Inr (JArr ((arr @ [tree_value c]) @ map tree_element es),
              \<lparr>pos = pos ?st3 + length (join_with [comma] (map render_element es)) + 1,
               spans = add_spans (element_nodes p (length (arr @ [tree_value c])) (pos ?st3) es) (spans ?st3),
               duplicates = duplicates ?st3 @ element_dups p (length (arr @ [tree_value c])) es\<rparr>)"
      using Cons.IH [of ?st3 f' "arr @ [tree_value c]"] Cons.prems d3 False len f by simp
    then show ?thesis using False s1 val item
      by (simp add: f e sep_def after_tree_def join_with_Cons add.assoc)
  qed
qed

lemma char_after_brackets:
  assumes "ms \<noteq> []" "list_all wf_member ms"
  shows "\<exists>l r. join_with [comma] (map render_member ms) = l @ quote_mark # r \<and> ws l"
proof -
  obtain m ms' where ms: "ms = m # ms'" using assms(1) by (cases ms) auto
  obtain l n a b c t where m: "m = Member l n a b c t" by (cases m)
  obtain q where "n = quote_mark # q" using assms(2) ms m raw_string_hd by auto
  with assms(2) show ?thesis by (cases ms') (auto simp: ms m)
qed

lemma render_start: "wf_tree c \<Longrightarrow> render c \<noteq> [] \<and> \<not> isSpace (hd (render c)) \<and> hd (render c) \<noteq> close_bracket"
proof (cases c)
  case (Leaf t)
  assume "wf_tree c"
  with Leaf have t: "raw_leaf t" by simp
  have "hd t \<noteq> close_bracket"
    using t raw_string_hd [of t] number_char_start [of "hd t"]
    by (cases t) (auto simp: raw_leaf_def raw_number_def)
  with t Leaf show ?thesis using raw_leaf_start by (auto simp: scalar_start_def)
qed auto

lemma char_after_brackets':
  assumes "es \<noteq> []" "list_all wf_element es"
  shows "\<exists>l c r. join_with [comma] (map render_element es) = l @ c # r \<and> ws l
           \<and> \<not> isSpace c \<and> c \<noteq> close_bracket"
proof -
  obtain e es' where es: "es = e # es'" using assms(1) by (cases es) auto
  obtain l c t where e: "e = Element l c t" by (cases e)
  have "wf_tree c" "ws l" using assms(2) es e by auto
  then show ?thesis using render_start [of c]
    by (cases "render c"; cases es') (auto simp: es e)
qed

lemma scans_all: "scans c"
proof (induction c rule: tree.induct [where ?P2.0 = "\<lambda>m. scans (member_tree m)"
      and ?P3.0 = "\<lambda>e. scans (element_tree e)"])
  case (Leaf t)
  show ?case unfolding scans_def
  proof (intro allI impI)
    fix f src p m w post and st :: scan
    assume a: "wf_tree (Leaf t)" "ws w" "drop (pos st) src = w @ render (Leaf t) @ post"
      "follows (Leaf t) post" "2 * length (render (Leaf t)) \<le> f"
    let ?st = "st\<lparr>pos := pos st + length w\<rparr>"
    have st: "scalar_start t" using a(1) raw_leaf_start by simp
    obtain f' where f: "f = Suc f'" using a(5) st by (cases f) (auto simp: scalar_start_def)
    have d: "drop (pos ?st) src = t @ post" using drop_add [OF a(3)] by simp
    have s: "skipped src st = ?st"
      using a st by (intro skipped_drop [of _ _ _ "t @ post"]) (auto simp: scalar_start_def)
    have c: "char_at src (pos ?st) = Some (hd t)"
      using d st by (cases t) (auto simp: char_at_drop scalar_start_def)
    have "read_scalar src ?st = Inr (leaf_value t, ?st\<lparr>pos := pos ?st + length t\<rparr>)"
      using a d by (intro read_scalar_leaf [of t ?st src post]) auto
    then show "read_value f src p m st = Inr (tree_value (Leaf t), after_tree p (pos st + length w) m (Leaf t) st)"
      using st s c by (simp add: f scalar_start_def Let_def recorded_def record_span_def after_tree_def)
  qed
next
  case (Obj w0 ms)
  show ?case unfolding scans_def
  proof (intro allI impI)
    fix f src p m w post and st :: scan
    assume a: "wf_tree (Obj w0 ms)" "ws w" "drop (pos st) src = w @ render (Obj w0 ms) @ post"
      "follows (Obj w0 ms) post" "2 * length (render (Obj w0 ms)) \<le> f"
    let ?st = "st\<lparr>pos := pos st + length w\<rparr>" and ?body = "join_with [comma] (map render_member ms)"
    let ?st1 = "st\<lparr>pos := pos st + length w + 1\<rparr>"
    obtain f' where f: "f = Suc (Suc f')" using a(5) by (cases f rule: nat.exhaust; cases "f - 1") auto
    have s: "skipped src st = ?st"
      using a(2,3) by (intro skipped_drop [of _ _ _ "render (Obj w0 ms) @ post"]) auto
    have d: "drop (pos ?st) src = render (Obj w0 ms) @ post" using drop_add [OF a(3)] by simp
    then have c: "char_at src (pos ?st) = Some open_brace" by (simp add: char_at_drop)
    have d1: "drop (pos ?st1) src = (if ms = [] then w0 else ?body) @ close_brace # post"
      using drop_add [of "pos ?st" src "[open_brace]"] d by simp
    have "read_object (Suc f') src p (skipped src ?st1) =
            Inr (tree_value (Obj w0 ms),
                 \<lparr>pos = pos st + length w + length (render (Obj w0 ms)),
                  spans = add_spans (member_nodes p (Suc (pos st + length w)) ms) (spans st),
                  duplicates = duplicates st @ member_dups p {} ms\<rparr>)"
    proof (cases "ms = []")
      case True
      have s1: "skipped src ?st1 = ?st1\<lparr>pos := pos ?st1 + length w0\<rparr>"
        using a(1) d1 True by (intro skipped_drop [of _ _ _ "close_brace # post"]) auto
      have "drop (pos ?st1 + length w0) src = close_brace # post"
        using d1 True by (intro drop_add) simp
      then show ?thesis using s1 True by (simp add: closes_def char_at_drop advance_def)
    next
      case False
      have all: "list_all wf_member ms" using a(1) by simp
      obtain l r where lr: "?body = l @ quote_mark # r" "ws l" using char_after_brackets [OF False all] by blast
      have s1: "skipped src ?st1 = ?st1\<lparr>pos := pos ?st1 + length l\<rparr>"
        using d1 False lr by (intro skipped_drop [of _ _ _ "quote_mark # r @ close_brace # post"]) auto
      have d2: "drop (pos ?st1 + length l) src = quote_mark # r @ close_brace # post"
        using d1 False lr by (intro drop_add) simp
      have skip: "read_members f' src p [] (skipped src ?st1) = read_members f' src p [] ?st1"
        using a(5) f by (cases f') (simp_all add: read_name_def)
      have "read_members f' src p [] ?st1 =
         Inr (JObj (fold add_first (map tree_member ms) []),
              \<lparr>pos = pos ?st1 + length ?body + 1,
               spans = add_spans (member_nodes p (pos ?st1) ms) (spans ?st1),
               duplicates = duplicates ?st1 @ member_dups p (fst ` set ([] :: (jstr \<times> jval) list)) ms\<rparr>)"
        using Obj all False d1 a(5) f by (intro read_members_render) auto
      then show ?thesis using skip s1 d2 False
        by (simp add: closes_def char_at_drop)
    qed
    then show "read_value f src p m st = Inr (tree_value (Obj w0 ms), after_tree p (pos st + length w) m (Obj w0 ms) st)"
      using s c by (simp add: f Let_def recorded_def record_span_def after_tree_def advance_def)
  qed
next
  case (Arr w0 es)
  show ?case unfolding scans_def
  proof (intro allI impI)
    fix f src p m w post and st :: scan
    assume a: "wf_tree (Arr w0 es)" "ws w" "drop (pos st) src = w @ render (Arr w0 es) @ post"
      "follows (Arr w0 es) post" "2 * length (render (Arr w0 es)) \<le> f"
    let ?st = "st\<lparr>pos := pos st + length w\<rparr>" and ?body = "join_with [comma] (map render_element es)"
    let ?st1 = "st\<lparr>pos := pos st + length w + 1\<rparr>"
    obtain f' where f: "f = Suc (Suc f')" using a(5) by (cases f rule: nat.exhaust; cases "f - 1") auto
    have s: "skipped src st = ?st"
      using a(2,3) by (intro skipped_drop [of _ _ _ "render (Arr w0 es) @ post"]) auto
    have d: "drop (pos ?st) src = render (Arr w0 es) @ post" using drop_add [OF a(3)] by simp
    then have c: "char_at src (pos ?st) = Some open_bracket" by (simp add: char_at_drop)
    have d1: "drop (pos ?st1) src = (if es = [] then w0 else ?body) @ close_bracket # post"
      using drop_add [of "pos ?st" src "[open_bracket]"] d by simp
    have "read_array (Suc f') src p (skipped src ?st1) =
            Inr (tree_value (Arr w0 es),
                 \<lparr>pos = pos st + length w + length (render (Arr w0 es)),
                  spans = add_spans (element_nodes p 0 (Suc (pos st + length w)) es) (spans st),
                  duplicates = duplicates st @ element_dups p 0 es\<rparr>)"
    proof (cases "es = []")
      case True
      have s1: "skipped src ?st1 = ?st1\<lparr>pos := pos ?st1 + length w0\<rparr>"
        using a(1) d1 True by (intro skipped_drop [of _ _ _ "close_bracket # post"]) auto
      have "drop (pos ?st1 + length w0) src = close_bracket # post"
        using d1 True by (intro drop_add) simp
      then show ?thesis using s1 True by (simp add: closes_def char_at_drop advance_def)
    next
      case False
      have all: "list_all wf_element es" using a(1) by simp
      obtain l k r where lr: "?body = l @ k # r" "ws l" "\<not> isSpace k" "k \<noteq> close_bracket"
        using char_after_brackets' [OF False all] by blast
      have s1: "skipped src ?st1 = ?st1\<lparr>pos := pos ?st1 + length l\<rparr>"
        using d1 False lr by (intro skipped_drop [of _ _ _ "k # r @ close_bracket # post"]) auto
      have d2: "drop (pos ?st1 + length l) src = k # r @ close_bracket # post"
        using d1 False lr by (intro drop_add) simp
      have skip: "read_elements f' src p [] (skipped src ?st1) = read_elements f' src p [] ?st1"
        using a(5) f by (cases f') (simp_all add: Let_def)
      have "read_elements f' src p [] ?st1 =
         Inr (JArr ([] @ map tree_element es),
              \<lparr>pos = pos ?st1 + length ?body + 1,
               spans = add_spans (element_nodes p (length ([] :: jval list)) (pos ?st1) es) (spans ?st1),
               duplicates = duplicates ?st1 @ element_dups p (length ([] :: jval list)) es\<rparr>)"
        using Arr all False d1 a(5) f by (intro read_elements_render) auto
      then show ?thesis using skip s1 d2 False lr
        by (simp add: closes_def char_at_drop)
    qed
    then show "read_value f src p m st = Inr (tree_value (Arr w0 es), after_tree p (pos st + length w) m (Arr w0 es) st)"
      using s c by (simp add: f Let_def recorded_def record_span_def after_tree_def advance_def)
  qed
qed simp_all

lemmas read_value_render = scansD [OF scans_all]

section \<open>Whatever is scanned is a rendering\<close>

definition sound_value :: "nat \<Rightarrow> jstr \<Rightarrow> jstr list \<Rightarrow> nat \<Rightarrow> scan \<Rightarrow> bool" where
  "sound_value f src p m st \<longleftrightarrow>
     (\<forall>v st'. pos st \<le> length src \<longrightarrow> read_value f src p m st = Inr (v, st') \<longrightarrow>
        (\<exists>w c post. ws w \<and> wf_tree c \<and> drop (pos st) src = w @ render c @ post \<and> follows c post
           \<and> v = tree_value c \<and> st' = after_tree p (pos st + length w) m c st))"

definition object_result ::
  "jstr list \<Rightarrow> (jstr \<times> jval) list \<Rightarrow> scan \<Rightarrow> member list \<Rightarrow> jval \<times> scan" where
  "object_result p obj st ms =
     (JObj (fold add_first (map tree_member ms) obj),
      \<lparr>pos = pos st + length (join_with [comma] (map render_member ms)) + 1,
       spans = add_spans (member_nodes p (pos st) ms) (spans st),
       duplicates = duplicates st @ member_dups p (fst ` set obj) ms\<rparr>)"

definition array_result ::
  "jstr list \<Rightarrow> jval list \<Rightarrow> scan \<Rightarrow> element list \<Rightarrow> jval \<times> scan" where
  "array_result p arr st es =
     (JArr (arr @ map tree_element es),
      \<lparr>pos = pos st + length (join_with [comma] (map render_element es)) + 1,
       spans = add_spans (element_nodes p (length arr) (pos st) es) (spans st),
       duplicates = duplicates st @ element_dups p (length arr) es\<rparr>)"

definition object_text :: "jstr \<Rightarrow> nat \<Rightarrow> member list \<Rightarrow> bool" where
  "object_text src k ms \<longleftrightarrow> list_all wf_member ms \<and>
     (\<exists>post. drop k src = join_with [comma] (map render_member ms) @ close_brace # post)"

definition array_text :: "jstr \<Rightarrow> nat \<Rightarrow> element list \<Rightarrow> bool" where
  "array_text src k es \<longleftrightarrow> list_all wf_element es \<and>
     (\<exists>post. drop k src = join_with [comma] (map render_element es) @ close_bracket # post)"

definition sound_object :: "nat \<Rightarrow> jstr \<Rightarrow> jstr list \<Rightarrow> scan \<Rightarrow> bool" where
  "sound_object f src p st \<longleftrightarrow>
     (\<forall>r. pos st \<le> length src \<longrightarrow> read_object f src p st = Inr r \<longrightarrow>
        (\<exists>ms. object_text src (pos st) ms \<and> r = object_result p [] st ms))"

definition sound_members :: "nat \<Rightarrow> jstr \<Rightarrow> jstr list \<Rightarrow> (jstr \<times> jval) list \<Rightarrow> scan \<Rightarrow> bool" where
  "sound_members f src p obj st \<longleftrightarrow>
     (\<forall>r. pos st \<le> length src \<longrightarrow> read_members f src p obj st = Inr r \<longrightarrow>
        (\<exists>ms. ms \<noteq> [] \<and> object_text src (pos st) ms \<and> r = object_result p obj st ms))"

definition sound_array :: "nat \<Rightarrow> jstr \<Rightarrow> jstr list \<Rightarrow> scan \<Rightarrow> bool" where
  "sound_array f src p st \<longleftrightarrow>
     (\<forall>r. pos st \<le> length src \<longrightarrow> read_array f src p st = Inr r \<longrightarrow>
        (\<exists>es. array_text src (pos st) es \<and> r = array_result p [] st es))"

definition sound_elements :: "nat \<Rightarrow> jstr \<Rightarrow> jstr list \<Rightarrow> jval list \<Rightarrow> scan \<Rightarrow> bool" where
  "sound_elements f src p arr st \<longleftrightarrow>
     (\<forall>r. pos st \<le> length src \<longrightarrow> read_elements f src p arr st = Inr r \<longrightarrow>
        (\<exists>es. es \<noteq> [] \<and> array_text src (pos st) es \<and> r = array_result p arr st es))"

lemma drop_pos_le: "drop k src = xs @ y # ys \<Longrightarrow> k + length xs + 1 \<le> length src"
  using drop_length_le [of k src "xs @ [y]" ys] by simp

lemma sound_members_step:
  assumes value_ih: "\<And>name ns st1. sound_value f src (p @ [name]) ns st1"
    and members_ih: "\<And>obj st1. sound_members f src p obj st1"
  shows "sound_members (Suc f) src p obj st"
  unfolding sound_members_def
proof (intro allI impI)
  fix r assume le: "pos st \<le> length src" and rd: "read_members (Suc f) src p obj st = Inr r"
  let ?why = "''expected a comma or the end of the object''"
  obtain name ns st1 v st2 again st4 where
    nm: "read_name src st = Inr ((name, ns), st1)" and
    val: "read_value f src (p @ [name]) ns st1 = Inr (v, st2)" and
    item: "after_item src close_brace ?why (snd (add_member p name v obj st2)) = Inr (again, st4)" and
    res: "(if again then read_members f src p (add_first (name, v) obj) st4
           else Inr (JObj (add_first (name, v) obj), st4)) = Inr r"
    using rd by (auto simp: add_member_eq split: sum.splits prod.splits if_splits)
  obtain l n a q where n: "drop (pos st) src = l @ n @ a @ colon # q" "ws l" "raw_string n" "ws a"
    "name = name_of n" "ns = pos st + length l"
    and st1: "st1 = st\<lparr>pos := pos st + length l + length n + length a + 1\<rparr>"
    using read_name_sound [OF nm] by blast
  have d1: "drop (pos st1) src = q"
    using drop_add [of "pos st" src "l @ n @ a @ [colon]" q] n st1 by (simp add: add.assoc)
  have le1: "pos st1 \<le> length src" using drop_pos_le [of "pos st" src "l @ n @ a" colon q] n st1 by simp
  obtain b c post where c: "ws b" "wf_tree c" "q = b @ render c @ post" "v = tree_value c"
    and st2: "st2 = after_tree (p @ [name]) (pos st1 + length b) ns c st1"
    using value_ih [of name ns st1] val le1 d1 unfolding sound_value_def by blast
  obtain t z where t: "post = t @ (if again then comma else close_brace) # z" "ws t"
    and st4: "st4 = (snd (add_member p name v obj st2))\<lparr>pos := pos st2 + length t + 1\<rparr>"
    using after_item_sound [OF item] drop_add [of "pos st1" src "b @ render c" post] d1 c st2
    by (auto simp: add_member_eq after_tree_def add.assoc)
  define m where "m = Member l n a b c t"
  have wm: "wf_member m" using n c t by (simp add: m_def)
  have dm: "drop (pos st) src = render_member m @ (if again then comma else close_brace) # z"
    using n c t by (simp add: m_def)
  have p4: "pos st4 = pos st + length (render_member m) + 1"
    using st4 st2 st1 by (simp add: m_def after_tree_def)
  have d4: "drop (pos st4) src = z"
    using drop_add [of "pos st" src "render_member m @ [if again then comma else close_brace]" z] dm p4
    by (simp add: add.assoc)
  have st4_eq: "st4 = \<lparr>pos = pos st + length (render_member m) + 1,
      spans = add_spans (member_nodes p (pos st) [m]) (spans st),
      duplicates = duplicates st @ member_dups p (fst ` set obj) [m]\<rparr>"
    using p4 st4 st2 st1 n by (auto simp: m_def after_tree_def add_member_eq)
  show "\<exists>ms. ms \<noteq> [] \<and> object_text src (pos st) ms \<and> r = object_result p obj st ms"
  proof (cases again)
    case False
    then have "r = object_result p obj st [m]"
      using res st4_eq c n by (simp add: object_result_def m_def)
    moreover have "object_text src (pos st) [m]" using wm dm False by (simp add: object_text_def)
    ultimately show ?thesis by blast
  next
    case True
    have "pos st4 \<le> length src"
      using drop_pos_le [OF dm] p4 by simp
    moreover have "read_members f src p (add_first (name, v) obj) st4 = Inr r" using res True by simp
    ultimately obtain ms where ms: "ms \<noteq> []" "object_text src (pos st4) ms"
      "r = object_result p (add_first (name, v) obj) st4 ms"
      using members_ih unfolding sound_members_def by blast
    have "object_text src (pos st) (m # ms)"
      using ms wm dm d4 True by (auto simp: object_text_def join_with_Cons)
    moreover have "r = object_result p obj st (m # ms)"
      using ms st4_eq c n by (simp add: object_result_def m_def join_with_Cons)
    ultimately show ?thesis by blast
  qed
qed

lemma sound_elements_step:
  assumes value_ih: "\<And>q ns st1. sound_value f src q ns st1"
    and elements_ih: "\<And>arr st1. sound_elements f src p arr st1"
  shows "sound_elements (Suc f) src p arr st"
  unfolding sound_elements_def
proof (intro allI impI)
  fix r assume le: "pos st \<le> length src" and rd: "read_elements (Suc f) src p arr st = Inr r"
  let ?why = "''expected a comma or the end of the array''" and ?q = "p @ [dec (length arr)]"
  obtain l r1 where l: "drop (pos st) src = l @ r1" "ws l" "r1 = [] \<or> \<not> isSpace (hd r1)" and
    s1: "skipped src st = st\<lparr>pos := pos st + length l\<rparr>" and d1: "drop (pos st + length l) src = r1"
    by (rule skipped_split)
  let ?st1 = "st\<lparr>pos := pos st + length l\<rparr>"
  obtain v st2 again st3 where
    val: "read_value f src ?q (pos ?st1) ?st1 = Inr (v, st2)" and
    item: "after_item src close_bracket ?why st2 = Inr (again, st3)" and
    res: "(if again then read_elements f src p (arr @ [v]) st3
           else Inr (JArr (arr @ [v]), st3)) = Inr r"
    using rd by (auto simp: s1 Let_def split: sum.splits if_splits)
  have le1: "pos ?st1 \<le> length src" using drop_length_le [OF l(1)] le by (cases l) auto
  obtain b c post where c: "ws b" "wf_tree c" "r1 = b @ render c @ post" "v = tree_value c"
    and st2: "st2 = after_tree ?q (pos ?st1 + length b) (pos ?st1) c ?st1"
    using value_ih [of ?q "pos ?st1" ?st1] val le1 d1 unfolding sound_value_def by fastforce
  have b: "b = []"
    using c l(3) render_start [OF c(2)] by (cases b) auto
  obtain t z where t: "post = t @ (if again then comma else close_bracket) # z" "ws t"
    and st3: "st3 = st2\<lparr>pos := pos st2 + length t + 1\<rparr>"
    using after_item_sound [OF item] drop_add [of "pos ?st1" src "render c" post] d1 c st2 b
    by (auto simp: after_tree_def)
  define e where "e = Element l c t"
  have we: "wf_element e" using l c t by (simp add: e_def)
  have de: "drop (pos st) src = render_element e @ (if again then comma else close_bracket) # z"
    using l c t b by (simp add: e_def)
  have p3: "pos st3 = pos st + length (render_element e) + 1"
    using st3 st2 b by (simp add: e_def after_tree_def)
  have d3: "drop (pos st3) src = z"
    using drop_add [of "pos st" src "render_element e @ [if again then comma else close_bracket]" z] de p3
    by (simp add: add.assoc)
  have st3_eq: "st3 = \<lparr>pos = pos st + length (render_element e) + 1,
      spans = add_spans (element_nodes p (length arr) (pos st) [e]) (spans st),
      duplicates = duplicates st @ element_dups p (length arr) [e]\<rparr>"
    using p3 st3 st2 b by (auto simp: e_def after_tree_def)
  show "\<exists>es. es \<noteq> [] \<and> array_text src (pos st) es \<and> r = array_result p arr st es"
  proof (cases again)
    case False
    then have "r = array_result p arr st [e]"
      using res st3_eq c by (simp add: array_result_def e_def)
    moreover have "array_text src (pos st) [e]" using we de False by (simp add: array_text_def)
    ultimately show ?thesis by blast
  next
    case True
    have "pos st3 \<le> length src"
      using drop_pos_le [OF de] p3 by simp
    moreover have "read_elements f src p (arr @ [v]) st3 = Inr r" using res True by simp
    ultimately obtain es where es: "es \<noteq> []" "array_text src (pos st3) es"
      "r = array_result p (arr @ [v]) st3 es"
      using elements_ih unfolding sound_elements_def by blast
    have "array_text src (pos st) (e # es)"
      using es we de d3 True by (auto simp: array_text_def join_with_Cons)
    moreover have "r = array_result p arr st (e # es)"
      using es st3_eq c by (simp add: array_result_def e_def join_with_Cons)
    ultimately show ?thesis by blast
  qed
qed

lemma object_tree:
  assumes w: "ws w" and d: "drop k src = w @ r" and o: "object_text src (k + length w) ms"
  shows "\<exists>w' ms' post. wf_tree (Obj w' ms') \<and> open_brace # drop k src = render (Obj w' ms') @ post
     \<and> map tree_member ms' = map tree_member ms
     \<and> member_nodes p k ms' = member_nodes p (k + length w) ms
     \<and> member_dups p seen ms' = member_dups p seen ms
     \<and> length (render (Obj w' ms')) = length w + length (join_with [comma] (map render_member ms)) + 2"
proof -
  obtain post where wm: "list_all wf_member ms" and
    r: "r = join_with [comma] (map render_member ms) @ close_brace # post"
    using o drop_add [OF d] by (auto simp: object_text_def)
  show ?thesis
  proof (cases ms)
    case Nil
    then show ?thesis using w d r by (intro exI [of _ w] exI [of _ "[]"] exI [of _ post]) auto
  next
    case (Cons m ms0)
    obtain l n a b c t where m: "m = Member l n a b c t" by (cases m)
    show ?thesis
      using w d r wm Cons m
      by (intro exI [of _ "[]"] exI [of _ "Member (w @ l) n a b c t # ms0"] exI [of _ post], cases ms0)
        (auto simp: add_ac)
  qed
qed

lemma array_tree:
  assumes w: "ws w" and d: "drop k src = w @ r" and o: "array_text src (k + length w) es"
  shows "\<exists>w' es' post. wf_tree (Arr w' es') \<and> open_bracket # drop k src = render (Arr w' es') @ post
     \<and> map tree_element es' = map tree_element es
     \<and> element_nodes p i k es' = element_nodes p i (k + length w) es
     \<and> element_dups p i es' = element_dups p i es
     \<and> length (render (Arr w' es')) = length w + length (join_with [comma] (map render_element es)) + 2"
proof -
  obtain post where wm: "list_all wf_element es" and
    r: "r = join_with [comma] (map render_element es) @ close_bracket # post"
    using o drop_add [OF d] by (auto simp: array_text_def)
  show ?thesis
  proof (cases es)
    case Nil
    then show ?thesis using w d r by (intro exI [of _ w] exI [of _ "[]"] exI [of _ post]) auto
  next
    case (Cons e es0)
    obtain l c t where e: "e = Element l c t" by (cases e)
    show ?thesis
      using w d r wm Cons e
      by (intro exI [of _ "[]"] exI [of _ "Element (w @ l) c t # es0"] exI [of _ post], cases es0)
        (auto simp: add_ac)
  qed
qed

lemma sound_value_step:
  assumes obj: "\<And>st1. sound_object f src p st1" and arr: "\<And>st1. sound_array f src p st1"
  shows "sound_value (Suc f) src p m st"
  unfolding sound_value_def
proof (intro allI impI)
  fix v st' assume le: "pos st \<le> length src" and rd: "read_value (Suc f) src p m st = Inr (v, st')"
  obtain w r where w: "drop (pos st) src = w @ r" "ws w" and
    s: "skipped src st = st\<lparr>pos := pos st + length w\<rparr>" and d: "drop (pos st + length w) src = r"
    by (rule skipped_split)
  let ?k = "pos st + length w"
  let ?st = "st\<lparr>pos := ?k\<rparr>" and ?st1 = "skipped src (st\<lparr>pos := Suc ?k\<rparr>)"
  have kle: "?k \<le> length src" using drop_length_le [OF w(1)] le by (cases w) auto
  obtain w1 r1 where w1: "drop (Suc ?k) src = w1 @ r1" "ws w1" and
    s1: "?st1 = st\<lparr>pos := Suc ?k + length w1\<rparr>" and d1: "drop (Suc ?k + length w1) src = r1"
    by (rule skipped_split [of "st\<lparr>pos := Suc ?k\<rparr>" src]) simp
  have le1: "c # drop (Suc ?k) src = drop ?k src \<Longrightarrow> pos ?st1 \<le> length src" for c
    using drop_pos_le [of ?k src "[]" c "drop (Suc ?k) src"] drop_length_le [OF w1(1)] s1
    by (cases w1) auto
  consider (o) "char_at src ?k = Some open_brace" | (a) "char_at src ?k = Some open_bracket"
    | (sc) "char_at src ?k \<noteq> Some open_brace" "char_at src ?k \<noteq> Some open_bracket" by blast
  then show "\<exists>w c post. ws w \<and> wf_tree c \<and> drop (pos st) src = w @ render c @ post \<and> follows c post
           \<and> v = tree_value c \<and> st' = after_tree p (pos st + length w) m c st"
  proof cases
    case o
    then have br: "drop ?k src = open_brace # drop (Suc ?k) src" by (rule char_at_Some_drop)
    obtain v1 st2 where ro: "read_object f src p ?st1 = Inr (v1, st2)"
      and res: "v = v1" "st' = record_span p ?k m st2"
      using rd o s by (auto simp: Let_def recorded_def advance_def split: sum.splits)
    obtain ms where ms: "object_text src (pos ?st1) ms" "(v1, st2) = object_result p [] ?st1 ms"
      using obj ro le1 br unfolding sound_object_def by metis
    obtain w' ms' post where t: "wf_tree (Obj w' ms')"
      "open_brace # drop (Suc ?k) src = render (Obj w' ms') @ post"
      "map tree_member ms' = map tree_member ms"
      "member_nodes p (Suc ?k) ms' = member_nodes p (Suc ?k + length w1) ms"
      "member_dups p {} ms' = member_dups p {} ms"
      "length (render (Obj w' ms')) = length w1 + length (join_with [comma] (map render_member ms)) + 2"
      using object_tree [OF w1(2,1), of ms p "{}"] ms(1) s1 by auto
    show ?thesis
    proof (intro exI conjI)
      show "ws w" by fact
      show "wf_tree (Obj w' ms')" by fact
      show "drop (pos st) src = w @ render (Obj w' ms') @ post" using w d br t(2) by simp
      show "follows (Obj w' ms') post" by (simp add: follows_def)
      show "v = tree_value (Obj w' ms')" using res ms(2) t(3) by (simp add: object_result_def)
      show "st' = after_tree p (pos st + length w) m (Obj w' ms') st"
        using res ms(2) t(4-6) s1
        by (simp add: object_result_def after_tree_def record_span_def add.assoc del: render.simps)
    qed
  next
    case a
    then have br: "drop ?k src = open_bracket # drop (Suc ?k) src" by (rule char_at_Some_drop)
    obtain v1 st2 where ro: "read_array f src p ?st1 = Inr (v1, st2)"
      and res: "v = v1" "st' = record_span p ?k m st2"
      using rd a s by (auto simp: Let_def recorded_def advance_def split: sum.splits)
    obtain es where es: "array_text src (pos ?st1) es" "(v1, st2) = array_result p [] ?st1 es"
      using arr ro le1 br unfolding sound_array_def by metis
    obtain w' es' post where t: "wf_tree (Arr w' es')"
      "open_bracket # drop (Suc ?k) src = render (Arr w' es') @ post"
      "map tree_element es' = map tree_element es"
      "element_nodes p 0 (Suc ?k) es' = element_nodes p 0 (Suc ?k + length w1) es"
      "element_dups p 0 es' = element_dups p 0 es"
      "length (render (Arr w' es')) = length w1 + length (join_with [comma] (map render_element es)) + 2"
      using array_tree [OF w1(2,1), of es p 0] es(1) s1 by auto
    show ?thesis
    proof (intro exI conjI)
      show "ws w" by fact
      show "wf_tree (Arr w' es')" by fact
      show "drop (pos st) src = w @ render (Arr w' es') @ post" using w d br t(2) by simp
      show "follows (Arr w' es') post" by (simp add: follows_def)
      show "v = tree_value (Arr w' es')" using res es(2) t(3) by (simp add: array_result_def)
      show "st' = after_tree p (pos st + length w) m (Arr w' es') st"
        using res es(2) t(4-6) s1
        by (simp add: array_result_def after_tree_def record_span_def add.assoc del: render.simps)
    qed
  next
    case sc
    obtain v1 st2 where ro: "read_scalar src ?st = Inr (v1, st2)"
      and res: "v = v1" "st' = record_span p ?k m st2"
      using rd sc s by (auto simp: Let_def recorded_def split: sum.splits)
    obtain t post where t: "raw_leaf t" "drop ?k src = t @ post" "follows (Leaf t) post"
      "v1 = leaf_value t" "st2 = ?st\<lparr>pos := ?k + length t\<rparr>"
      using read_scalar_sound [OF ro] kle by auto
    show ?thesis
    proof (intro exI conjI)
      show "ws w" "wf_tree (Leaf t)" using w t by simp_all
      show "drop (pos st) src = w @ render (Leaf t) @ post" using w d t(2) by simp
      show "v = tree_value (Leaf t)" "follows (Leaf t) post" using res t by simp_all
      show "st' = after_tree p (pos st + length w) m (Leaf t) st"
        using res t by (simp add: after_tree_def record_span_def)
    qed
  qed
qed

lemma sound_object_step:
  assumes "\<And>obj st1. sound_members f src p obj st1"
  shows "sound_object (Suc f) src p st"
  unfolding sound_object_def
proof (intro allI impI)
  fix r assume le: "pos st \<le> length src" and rd: "read_object (Suc f) src p st = Inr r"
  show "\<exists>ms. object_text src (pos st) ms \<and> r = object_result p [] st ms"
  proof (cases "closes src close_brace st")
    case True
    then have "char_at src (pos st) = Some close_brace" by (simp add: closes_def)
    from char_at_Some_drop [OF this] show ?thesis using rd True
      by (intro exI [of _ "[]"]) (auto simp: object_text_def object_result_def advance_def)
  next
    case False
    then show ?thesis using rd le assms [of "[]" st] unfolding sound_members_def by auto
  qed
qed

lemma sound_array_step:
  assumes "\<And>arr st1. sound_elements f src p arr st1"
  shows "sound_array (Suc f) src p st"
  unfolding sound_array_def
proof (intro allI impI)
  fix r assume le: "pos st \<le> length src" and rd: "read_array (Suc f) src p st = Inr r"
  show "\<exists>es. array_text src (pos st) es \<and> r = array_result p [] st es"
  proof (cases "closes src close_bracket st")
    case True
    then have "char_at src (pos st) = Some close_bracket" by (simp add: closes_def)
    from char_at_Some_drop [OF this] show ?thesis using rd True
      by (intro exI [of _ "[]"]) (auto simp: array_text_def array_result_def advance_def)
  next
    case False
    then show ?thesis using rd le assms [of "[]" st] unfolding sound_elements_def by auto
  qed
qed

lemma read_sound:
  "(\<forall>p m st. sound_value f src p m st) \<and> (\<forall>p st. sound_object f src p st)
   \<and> (\<forall>p obj st. sound_members f src p obj st) \<and> (\<forall>p st. sound_array f src p st)
   \<and> (\<forall>p arr st. sound_elements f src p arr st)"
proof (induction f)
  case 0
  show ?case
    by (simp add: sound_value_def sound_object_def sound_members_def sound_array_def sound_elements_def)
next
  case (Suc f)
  then have v: "\<And>p m st. sound_value f src p m st" and o: "\<And>p st. sound_object f src p st"
    and m: "\<And>p obj st. sound_members f src p obj st" and a: "\<And>p st. sound_array f src p st"
    and e: "\<And>p arr st. sound_elements f src p arr st"
    by simp_all
  show ?case
    by (intro conjI allI sound_value_step [OF o a] sound_object_step [OF m]
        sound_members_step [OF v m] sound_array_step [OF e] sound_elements_step [OF v e])
qed

lemma read_value_sound:
  "\<lbrakk>read_value f src p m st = Inr (v, st'); pos st \<le> length src\<rbrakk> \<Longrightarrow>
     \<exists>w c post. ws w \<and> wf_tree c \<and> drop (pos st) src = w @ render c @ post \<and> follows c post
       \<and> v = tree_value c \<and> st' = after_tree p (pos st + length w) m c st"
  using read_sound [of f src] unfolding sound_value_def by blast

section \<open>The fuel is never used up\<close>

definition spent :: "'a scanned \<Rightarrow> bool" where
  "spent r \<longleftrightarrow> (\<exists>st. r = Inl (OutOfFuel, st))"

definition fueled :: "nat \<Rightarrow> nat \<Rightarrow> jstr \<Rightarrow> scan \<Rightarrow> bool" where
  "fueled c f src st \<longleftrightarrow> pos st \<le> length src \<and> 3 * (length src - pos st) + c \<le> f"

lemma spent_simps [simp]:
  "\<not> spent (Inr x)" "\<not> spent (fail why st)" "spent (recorded p k m r) \<longleftrightarrow> spent r"
  "spent (Inl (e, st)) \<longleftrightarrow> e = OutOfFuel"
  by (auto simp: spent_def fail_def recorded_def split: sum.splits)

lemma not_spent_readers [simp]:
  "\<not> spent (readString src st)" "\<not> spent (readNumber src st)" "\<not> spent (read_literal src w v st)"
  "\<not> spent (after_item src close why st)"
  by (auto simp: readString_def readNumber_def read_literal_def after_item_def Let_def
      split: sum.splits option.splits)

lemma not_spent_read_name [simp]: "\<not> spent (read_name src st)"
  using not_spent_readers(1) [of src "skipped src st", unfolded spent_def]
  by (auto simp: read_name_def Let_def split: sum.splits)

lemma not_spent_read_scalar [simp]: "\<not> spent (read_scalar src st)"
  using not_spent_readers(1) [of src st, unfolded spent_def]
  by (auto simp: read_scalar_def Let_def split: sum.splits)

lemma skipped_pos:
  "pos st \<le> length src \<Longrightarrow> pos st \<le> pos (skipped src st) \<and> pos (skipped src st) \<le> length src"
  by (simp add: skipped_def skip_ge skip_le)

lemma read_name_pos:
  "read_name src st = Inr (x, st') \<Longrightarrow> pos st < pos st' \<and> pos st' \<le> length src"
  using drop_pos_le by (cases x) (fastforce dest!: read_name_sound simp flip: append_assoc)

lemma after_item_pos:
  "after_item src close why st = Inr (again, st') \<Longrightarrow> pos st < pos st' \<and> pos st' \<le> length src"
  using drop_pos_le by (fastforce dest!: after_item_sound)

lemma read_value_pos:
  assumes "read_value f src p m st = Inr (v, st')" "pos st \<le> length src"
  shows "pos st \<le> pos st' \<and> pos st' \<le> length src"
proof -
  obtain w c post where "drop (pos st) src = (w @ render c) @ post"
    "st' = after_tree p (pos st + length w) m c st"
    using read_value_sound [OF assms] by auto
  then show ?thesis
    using drop_length_le [of "pos st" src "w @ render c" post] assms(2)
    by (cases "w @ render c = []") (auto simp: after_tree_def)
qed

lemma add_member_pos: "add_member p name v obj st = (obj', st') \<Longrightarrow> pos st' = pos st"
  by (auto simp: add_member_eq)

lemma skipped_bracket_pos:
  "char_at src (pos st) = Some c \<Longrightarrow>
     Suc (pos st) \<le> pos (skipped src (advance 1 st)) \<and> pos (skipped src (advance 1 st)) \<le> length src"
  using skipped_pos [of "advance 1 st" src] char_at_SomeD [of src "pos st" c] by (simp add: advance_def)

lemma fueled_value_step:
  assumes o: "\<And>st1. fueled 5 f src st1 \<Longrightarrow> \<not> spent (read_object f src p st1)"
    and a: "\<And>st1. fueled 5 f src st1 \<Longrightarrow> \<not> spent (read_array f src p st1)"
    and st: "fueled 3 (Suc f) src st"
  shows "\<not> spent (read_value (Suc f) src p m st)"
proof -
  have "fueled 5 f src (skipped src (advance 1 (skipped src st)))"
    if "char_at src (pos (skipped src st)) = Some c" for c
    using st skipped_pos [of st src] skipped_bracket_pos [OF that] by (auto simp: fueled_def)
  with o a show ?thesis by (simp add: Let_def)
qed

lemma fueled_members_step:
  assumes v: "\<And>name ns st1. fueled 3 f src st1 \<Longrightarrow> \<not> spent (read_value f src (p @ [name]) ns st1)"
    and m: "\<And>obj st1. fueled 4 f src st1 \<Longrightarrow> \<not> spent (read_members f src p obj st1)"
    and st: "fueled 4 (Suc f) src st"
  shows "\<not> spent (read_members (Suc f) src p obj st)"
proof (cases "read_name src st")
  case (Inl e)
  then show ?thesis using not_spent_read_name [of src st] by (cases e) auto
next
  case (Inr x)
  obtain name ns st1 where x: "x = ((name, ns), st1)" by (metis surj_pair)
  then have p1: "pos st < pos st1" "pos st1 \<le> length src" using read_name_pos Inr by blast+
  then have f1: "fueled 3 f src st1" using st by (auto simp: fueled_def)
  show ?thesis
  proof (cases "read_value f src (p @ [name]) ns st1")
    case (Inl e)
    then show ?thesis using v [OF f1, of name ns] Inr x by (cases e) auto
  next
    case (Inr y)
    obtain w st2 where y: "y = (w, st2)" by (cases y)
    have p2: "pos st1 \<le> pos st2" "pos st2 \<le> length src" using read_value_pos Inr y p1 by blast+
    obtain obj' st3 where m3: "add_member p name w obj st2 = (obj', st3)" by force
    note p3 = add_member_pos [OF m3]
    show ?thesis
    proof (cases "after_item src close_brace ''expected a comma or the end of the object'' st3")
      case (Inl e)
      then show ?thesis
        using not_spent_readers(4) [of src close_brace "''expected a comma or the end of the object''" st3]
          Inr x y m3 \<open>read_name src st = Inr x\<close> by (cases e) auto
    next
      case (Inr z)
      obtain again st4 where z: "z = (again, st4)" by (cases z)
      then have "pos st3 < pos st4" "pos st4 \<le> length src" using after_item_pos Inr by blast+
      then have "fueled 4 f src st4" using st p1 p2 p3 by (auto simp: fueled_def)
      then show ?thesis
        using m Inr x y z m3 \<open>read_name src st = Inr x\<close>
          \<open>read_value f src (p @ [name]) ns st1 = Inr y\<close> by simp
    qed
  qed
qed

lemma fueled_elements_step:
  assumes v: "\<And>q ns st1. fueled 3 f src st1 \<Longrightarrow> \<not> spent (read_value f src q ns st1)"
    and m: "\<And>arr st1. fueled 4 f src st1 \<Longrightarrow> \<not> spent (read_elements f src p arr st1)"
    and st: "fueled 4 (Suc f) src st"
  shows "\<not> spent (read_elements (Suc f) src p arr st)"
proof -
  let ?st = "skipped src st" and ?q = "p @ [dec (length arr)]"
  have p1: "pos st \<le> pos ?st" "pos ?st \<le> length src"
    using skipped_pos [of st src] st by (auto simp: fueled_def)
  then have f1: "fueled 3 f src ?st" using st by (auto simp: fueled_def)
  show ?thesis
  proof (cases "read_value f src ?q (pos ?st) ?st")
    case (Inl e)
    then show ?thesis using v [OF f1, of ?q "pos ?st"] by (cases e) (auto simp: Let_def)
  next
    case (Inr y)
    obtain w st2 where y: "y = (w, st2)" by (cases y)
    have p2: "pos ?st \<le> pos st2" "pos st2 \<le> length src" using read_value_pos Inr y p1 by blast+
    show ?thesis
    proof (cases "after_item src close_bracket ''expected a comma or the end of the array'' st2")
      case (Inl e)
      then show ?thesis
        using not_spent_readers(4) [of src close_bracket "''expected a comma or the end of the array''" st2]
          Inr y by (cases e) (auto simp: Let_def)
    next
      case (Inr z)
      obtain again st4 where z: "z = (again, st4)" by (cases z)
      then have "pos st2 < pos st4" "pos st4 \<le> length src" using after_item_pos Inr by blast+
      then have "fueled 4 f src st4" using st p1 p2 by (auto simp: fueled_def)
      then show ?thesis
        using m Inr y z \<open>read_value f src ?q (pos ?st) ?st = Inr y\<close> by (simp add: Let_def)
    qed
  qed
qed

lemma fueled_not_spent:
  "(\<forall>p m st. fueled 3 f src st \<longrightarrow> \<not> spent (read_value f src p m st))
   \<and> (\<forall>p st. fueled 5 f src st \<longrightarrow> \<not> spent (read_object f src p st))
   \<and> (\<forall>p obj st. fueled 4 f src st \<longrightarrow> \<not> spent (read_members f src p obj st))
   \<and> (\<forall>p st. fueled 5 f src st \<longrightarrow> \<not> spent (read_array f src p st))
   \<and> (\<forall>p arr st. fueled 4 f src st \<longrightarrow> \<not> spent (read_elements f src p arr st))"
proof (induction f)
  case 0
  show ?case by (simp add: fueled_def)
next
  case (Suc f)
  have down: "fueled 5 (Suc f) src st \<Longrightarrow> fueled 4 f src st" for st by (auto simp: fueled_def)
  from Suc have v: "\<And>p m st. fueled 3 f src st \<Longrightarrow> \<not> spent (read_value f src p m st)"
    and o: "\<And>p st. fueled 5 f src st \<Longrightarrow> \<not> spent (read_object f src p st)"
    and m: "\<And>p obj st. fueled 4 f src st \<Longrightarrow> \<not> spent (read_members f src p obj st)"
    and a: "\<And>p st. fueled 5 f src st \<Longrightarrow> \<not> spent (read_array f src p st)"
    and e: "\<And>p arr st. fueled 4 f src st \<Longrightarrow> \<not> spent (read_elements f src p arr st)"
    by simp_all
  have "\<forall>p st. fueled 5 (Suc f) src st \<longrightarrow> \<not> spent (read_object (Suc f) src p st)"
    using m down by simp
  moreover have "\<forall>p st. fueled 5 (Suc f) src st \<longrightarrow> \<not> spent (read_array (Suc f) src p st)"
    using e down by simp
  ultimately show ?case
    using fueled_value_step [OF o a] fueled_members_step [OF v m] fueled_elements_step [OF v e]
    by blast
qed

lemma indexDocument_total: "ix_error (indexDocument src) \<noteq> Some OutOfFuel"
proof -
  let ?st = "skipped src \<lparr>pos = 0, spans = [], duplicates = []\<rparr>"
  have "fueled 3 (3 * length src + 3) src ?st"
    using skipped_pos [of "\<lparr>pos = 0, spans = [], duplicates = []\<rparr>" src] by (simp add: fueled_def)
  then have "\<not> spent (read_value (3 * length src + 3) src [] (pos ?st) ?st)"
    using fueled_not_spent by blast
  then show ?thesis
    by (auto simp: indexDocument_def Let_def split: sum.splits prod.splits)
qed

section \<open>The index of a document\<close>

definition tree_index :: "jstr \<Rightarrow> tree \<Rightarrow> document_index" where
  "tree_index w c =
     \<lparr>ix_spans = add_spans (nodes [] (length w) (length w) c) [], ix_duplicates = dups [] c,
      ix_value = Some (tree_value c), ix_error = None\<rparr>"

lemma follows_end: "ws w \<Longrightarrow> follows c w"
  using number_char_start by (cases w) (auto simp: follows_def split: tree.split)

lemma indexDocument_render:
  assumes "wf_tree c" "ws w" "ws w'"
  shows "indexDocument (w @ render c @ w') = tree_index w c"
proof -
  let ?src = "w @ render c @ w'" and ?st = "\<lparr>pos = 0, spans = [], duplicates = []\<rparr>"
  have s0: "skipped ?src ?st = ?st\<lparr>pos := length w\<rparr>"
    using assms(2) render_start [OF assms(1)] skipped_drop [of ?st ?src w "render c @ w'"] by auto
  let ?st1 = "after_tree [] (length w) (length w) c (?st\<lparr>pos := length w\<rparr>)"
  have rv: "read_value (3 * length ?src + 3) ?src [] (length w) (?st\<lparr>pos := length w\<rparr>)
              = Inr (tree_value c, ?st1)"
    using read_value_render [OF assms(1), of "[]" "?st\<lparr>pos := length w\<rparr>" ?src w'
        "3 * length ?src + 3" "[]" "length w"] follows_end [OF assms(3)]
    by simp
  have s1: "skipped ?src ?st1 = ?st1\<lparr>pos := length ?src\<rparr>"
    using skipped_drop [of ?st1 ?src w' "[]"] assms(3) by (simp add: after_tree_def)
  show ?thesis
    using s0 rv s1 by (simp add: indexDocument_def Let_def tree_index_def after_tree_def)
qed

lemma indexDocument_sound:
  assumes "ix_error (indexDocument src) = None"
  obtains w c w' where "src = w @ render c @ w'" "wf_tree c" "ws w" "ws w'" "indexDocument src = tree_index w c"
proof -
  let ?st = "\<lparr>pos = 0, spans = [], duplicates = []\<rparr>"
  obtain w r where w: "drop (pos ?st) src = w @ r" "ws w" "r = [] \<or> \<not> isSpace (hd r)" and
    s0: "skipped src ?st = ?st\<lparr>pos := pos ?st + length w\<rparr>" and d: "drop (pos ?st + length w) src = r"
    by (rule skipped_split)
  obtain v st where rv: "read_value (3 * length src + 3) src [] (length w) (?st\<lparr>pos := length w\<rparr>) = Inr (v, st)"
    and fin: "pos (skipped src st) = length src"
    using assms s0 by (auto simp: indexDocument_def Let_def split: sum.splits if_splits)
  obtain w1 c post where c: "ws w1" "wf_tree c" "drop (length w) src = w1 @ render c @ post"
    and st: "st = after_tree [] (length w + length w1) (length w) c (?st\<lparr>pos := length w\<rparr>)"
    using read_value_sound [OF rv] w(1) by auto
  have "w1 = []" using c w d by (cases w1) auto
  have d1: "drop (pos st) src = post"
    using c(3) st drop_add [of "length w" src "render c" post] \<open>w1 = []\<close> by (simp add: after_tree_def)
  obtain w' r' where w': "drop (pos st) src = w' @ r'" "ws w'" and
    s1: "skipped src st = st\<lparr>pos := pos st + length w'\<rparr>" and d2: "drop (pos st + length w') src = r'"
    by (rule skipped_split)
  have "r' = []" using fin s1 d2 by auto
  then have "src = w @ render c @ w'" using w c d d1 w' \<open>w1 = []\<close> by simp
  with c w w' that [of w c w'] indexDocument_render [of c w w'] show ?thesis by simp
qed

end
