(* ===== verification/Document_Slots.thy ===== *)
theory Document_Slots
  imports Document_Scan
begin

text \<open>
  Addresses inside a layout tree.  A slot is a value with the layout either side of it: the document
  itself, an array element, or what follows a member's colon.  \<open>slot_at\<close> finds the slot a path
  names, \<open>put\<close> exchanges it, and the lemmas say that the text, the index and the value of the
  document change at that slot and nowhere else.
\<close>

section \<open>Reading a decimal address back\<close>

lemma digit_cases:
  assumes "is_digit c"
  obtains n where "n < 10" "c = 48 + of_nat n" "digit_value c = n"
proof -
  have "\<exists>n \<in> set [0..<10]. c = 48 + of_nat n"
    using assms by (auto simp: is_digit_def upt_rec)
  then obtain n where n: "n < 10" "c = 48 + of_nat n" by auto
  with that [of n] digit_value_of_nat [of n] show ?thesis by auto
qed

lemma dec_digits_value:
  "\<lbrakk>ds \<noteq> []; hd ds \<noteq> uc CHR ''0''; list_all is_digit ds\<rbrakk>
     \<Longrightarrow> 0 < digits_value ds \<and> dec (nat (digits_value ds)) = ds"
proof (induction ds rule: rev_induct)
  case (snoc c ds)
  obtain n where n: "n < 10" "c = 48 + of_nat n" "digit_value c = n"
    using digit_cases snoc.prems(3) by auto
  show ?case
  proof (cases "ds = []")
    case True
    have "n \<noteq> 0" using snoc.prems(2) True n(2) by (auto intro!: gr0I)
    then show ?thesis using True n digits_value_snoc [of "[]" c]
      by (subst dec.simps) (simp add: digits_value_def del: of_nat_eq_0_iff)
  next
    case False
    then have ih: "0 < digits_value ds" "dec (nat (digits_value ds)) = ds"
      using snoc by (auto simp: list_all_iff)
    have d: "nat (digits_value (ds @ [c])) = nat (digits_value ds) * 10 + n"
      using n ih by (simp add: nat_add_distrib nat_mult_distrib)
    have "(nat (digits_value ds) * 10 + n) div 10 = nat (digits_value ds)"
      "(nat (digits_value ds) * 10 + n) mod 10 = n" using n(1) by simp_all
    moreover have "\<not> nat (digits_value ds) * 10 + n < 10" using ih(1) by simp
    ultimately have "dec (nat (digits_value (ds @ [c]))) = ds @ [c]"
      unfolding d using ih(2) n(2) by (subst dec.simps) simp
    then show ?thesis using ih by simp
  qed
qed simp

lemma dec_0: "dec 0 = js ''0''"
  by (subst dec.simps) simp

lemma dec_of_index: "is_index t \<Longrightarrow> dec (nat (digits_value t)) = t"
proof -
  have "digits_value (js ''0'') = 0" by (simp add: digits_value_def digit_value_def)
  then show "is_index t \<Longrightarrow> ?thesis" using dec_0 dec_digits_value by (auto simp: is_index_def)
qed

lemma arrayIndex_dec [simp]: "arrayIndex (dec i) = Some i"
  by (simp add: arrayIndex_def)

lemma arrayIndex_eq: "arrayIndex k = Some i \<longleftrightarrow> k = dec i"
  by (auto simp: arrayIndex_def dec_of_index split: if_splits)

section \<open>Slots\<close>

primrec slot_of :: "member \<Rightarrow> element" where
  "slot_of (Member l n a b c t) = Element b c t"

primrec with_slot :: "member \<Rightarrow> element \<Rightarrow> member" where
  "with_slot (Member l n a b c t) e = Member l n a (elead e) (element_tree e) (etrail e)"

primrec slots :: "tree \<Rightarrow> element list" where
  "slots (Leaf t) = []"
| "slots (Obj w ms) = map slot_of ms"
| "slots (Arr w es) = es"

primrec set_slot :: "tree \<Rightarrow> nat \<Rightarrow> element \<Rightarrow> tree" where
  "set_slot (Leaf t) i e = Leaf t"
| "set_slot (Obj w ms) i e = Obj w (ms[i := with_slot (ms ! i) e])"
| "set_slot (Arr w es) i e = Arr w (es[i := e])"

primrec step_index :: "tree \<Rightarrow> jstr \<Rightarrow> nat option" where
  "step_index (Leaf t) k = None"
| "step_index (Obj w ms) k = find_index (\<lambda>m. member_name m = k) ms"
| "step_index (Arr w es) k =
     (case arrayIndex k of None \<Rightarrow> None | Some i \<Rightarrow> if i < length es then Some i else None)"

fun slot_at :: "element \<Rightarrow> jstr list \<Rightarrow> element option" where
  "slot_at e [] = Some e"
| "slot_at e (k # ks) =
     (case step_index (element_tree e) k of
        None \<Rightarrow> None
      | Some i \<Rightarrow> slot_at (slots (element_tree e) ! i) ks)"

fun put :: "element \<Rightarrow> jstr list \<Rightarrow> element \<Rightarrow> element" where
  "put e [] x = x"
| "put e (k # ks) x =
     (case step_index (element_tree e) k of
        None \<Rightarrow> e
      | Some i \<Rightarrow>
          Element (elead e)
            (set_slot (element_tree e) i (put (slots (element_tree e) ! i) ks x)) (etrail e))"

primrec uniq :: "tree \<Rightarrow> bool"
and uniq_member :: "member \<Rightarrow> bool"
and uniq_element :: "element \<Rightarrow> bool"
where
  "uniq (Leaf t) = True"
| "uniq (Obj w ms) = (distinct (map member_name ms) \<and> list_all uniq_member ms)"
| "uniq (Arr w es) = list_all uniq_element es"
| "uniq_member (Member l n a b c t) = uniq c"
| "uniq_element (Element l c t) = uniq c"

lemma find_index_Some:
  "find_index P xs = Some i \<Longrightarrow> i < length xs \<and> P (xs ! i) \<and> (\<forall>j < i. \<not> P (xs ! j))"
proof (induction xs arbitrary: i)
  case (Cons x xs)
  then show ?case by (cases i) (auto simp: less_Suc_eq_0_disj split: if_splits)
qed simp

lemma find_index_None: "find_index P xs = None \<longleftrightarrow> (\<forall>x \<in> set xs. \<not> P x)"
  by (induction xs) auto

lemma find_index_distinct:
  "\<lbrakk>distinct (map f xs); i < length xs\<rbrakk> \<Longrightarrow> find_index (\<lambda>x. f x = f (xs ! i)) xs = Some i"
proof (induction xs arbitrary: i)
  case (Cons x xs)
  then show ?case by (cases i) (auto simp: rev_image_eqI)
qed simp

lemma step_index_length: "step_index c k = Some i \<Longrightarrow> i < length (slots c)"
  by (cases c) (auto dest: find_index_Some split: option.splits if_splits)

lemma member_simps [simp]:
  "member_name (with_slot m e) = member_name m" "slot_of (with_slot m e) = e"
  "member_name (Member l n a b c t) = name_of n"
  by (cases m; cases e; simp add: member_name_def)+

lemma names_update [simp]:
  "i < length ms \<Longrightarrow> map member_name (ms[i := with_slot (ms ! i) e]) = map member_name ms"
  by (metis list_update_id map_update member_simps(1) nth_map)

lemma slots_set_slot: "i < length (slots c) \<Longrightarrow> slots (set_slot c i e) = (slots c)[i := e]"
  by (cases c) (simp_all add: map_update)

lemma find_index_map: "find_index (\<lambda>x. P (f x)) xs = find_index P (map f xs)"
  by (induction xs) auto

lemma step_index_set_slot [simp]:
  assumes "i < length (slots c)"
  shows "step_index (set_slot c i e) k = step_index c k"
proof (cases c)
  case (Obj w ms)
  then show ?thesis using assms names_update [of i ms e]
    by (simp add: find_index_map [of "\<lambda>n. n = k" member_name] del: names_update)
qed (use assms in \<open>simp_all cong: option.case_cong\<close>)

section \<open>What stays well formed\<close>

lemma wf_slots: "wf_tree c \<Longrightarrow> list_all wf_element (slots c)"
proof (cases c)
  case (Obj w ms)
  have "wf_member m \<Longrightarrow> wf_element (slot_of m)" for m by (cases m) simp
  then show "wf_tree c \<Longrightarrow> ?thesis" using Obj by (auto simp: list_all_iff)
qed simp_all

lemma wf_set_slot:
  assumes "wf_tree c" "wf_element e" "i < length (slots c)"
  shows "wf_tree (set_slot c i e)"
proof (cases c)
  case (Obj w ms)
  have "wf_member m \<Longrightarrow> wf_member (with_slot m e)" for m
    using assms(2) by (cases m; cases e) simp
  then show ?thesis using assms Obj
    by (auto simp: list_all_iff dest!: subsetD [OF set_update_subset_insert])
next
  case (Arr w es)
  then show ?thesis using assms
    by (auto simp: list_all_iff dest!: subsetD [OF set_update_subset_insert])
qed (use assms in simp)

lemma uniq_slots: "uniq c \<Longrightarrow> list_all uniq_element (slots c)"
proof (cases c)
  case (Obj w ms)
  have "uniq_member m \<Longrightarrow> uniq_element (slot_of m)" for m by (cases m) simp
  then show "uniq c \<Longrightarrow> ?thesis" using Obj by (auto simp: list_all_iff)
qed simp_all

lemma uniq_set_slot:
  assumes "uniq c" "uniq_element e" "i < length (slots c)"
  shows "uniq (set_slot c i e)"
proof (cases c)
  case (Obj w ms)
  have "uniq_member (with_slot m e)" for m using assms(2) by (cases m; cases e) simp
  then show ?thesis using assms Obj
    by (auto simp: list_all_iff dest!: subsetD [OF set_update_subset_insert])
next
  case (Arr w es)
  then show ?thesis using assms
    by (auto simp: list_all_iff dest!: subsetD [OF set_update_subset_insert])
qed (use assms in simp)

lemma slot_invariant:
  assumes step: "\<And>c. P c \<Longrightarrow> list_all Q (slots c)" and Q: "\<And>e. Q e \<Longrightarrow> P (element_tree e)"
  shows "\<lbrakk>slot_at e q = Some x; Q e\<rbrakk> \<Longrightarrow> Q x"
proof (induction e q rule: slot_at.induct)
  case (2 e k ks)
  then obtain i where i: "step_index (element_tree e) k = Some i"
    "slot_at (slots (element_tree e) ! i) ks = Some x" by (auto split: option.splits)
  have "Q (slots (element_tree e) ! i)"
    using step [OF Q [OF 2(3)]] step_index_length [OF i(1)] by (simp add: list_all_length)
  then show ?case using 2(1) i by blast
qed simp

lemma wf_element_iff: "wf_element e \<longleftrightarrow> ws (elead e) \<and> wf_tree (element_tree e) \<and> ws (etrail e)"
  by (cases e) simp

lemma uniq_element_iff [simp]: "uniq_element e \<longleftrightarrow> uniq (element_tree e)"
  by (cases e) simp

lemma wf_slot_at: "\<lbrakk>slot_at e q = Some x; wf_element e\<rbrakk> \<Longrightarrow> wf_element x"
  using slot_invariant [of wf_tree wf_element] wf_slots by (simp add: wf_element_iff)

lemma uniq_slot_at: "\<lbrakk>slot_at e q = Some x; uniq_element e\<rbrakk> \<Longrightarrow> uniq_element x"
  using slot_invariant [of uniq uniq_element] uniq_slots by simp

lemma wf_put: "\<lbrakk>wf_element e; wf_element x\<rbrakk> \<Longrightarrow> wf_element (put e q x)"
proof (induction e q x rule: put.induct)
  case (2 e k ks x)
  show ?case
  proof (cases "step_index (element_tree e) k")
    case (Some i)
    then have i: "i < length (slots (element_tree e))" by (rule step_index_length)
    then have "wf_element (slots (element_tree e) ! i)"
      using wf_slots [of "element_tree e"] 2(2) by (simp add: list_all_length wf_element_iff)
    then show ?thesis using 2 Some i by (simp add: wf_element_iff wf_set_slot)
  qed (use 2 in simp)
qed simp

lemma uniq_put: "\<lbrakk>uniq_element e; uniq_element x\<rbrakk> \<Longrightarrow> uniq_element (put e q x)"
proof (induction e q x rule: put.induct)
  case (2 e k ks x)
  show ?case
  proof (cases "step_index (element_tree e) k")
    case (Some i)
    then have i: "i < length (slots (element_tree e))" by (rule step_index_length)
    then have "uniq_element (slots (element_tree e) ! i)"
      using uniq_slots [of "element_tree e"] 2(2) by (simp add: list_all_length)
    then show ?thesis using 2 Some i by (simp add: uniq_set_slot)
  qed (use 2 in simp)
qed simp

section \<open>What the text is made of\<close>

lemma join_with_append:
  "\<lbrakk>xs \<noteq> []; ys \<noteq> []\<rbrakk> \<Longrightarrow> join_with s (xs @ ys) = join_with s xs @ s @ join_with s ys"
  by (induction xs rule: induct_list012) (simp_all add: join_with_Cons)

definition items_before :: "'a list \<Rightarrow> 'a list list \<Rightarrow> 'a list" where
  "items_before s xs = concat (map (\<lambda>x. x @ s) xs)"

definition items_after :: "'a list \<Rightarrow> 'a list list \<Rightarrow> 'a list" where
  "items_after s xs = concat (map (\<lambda>x. s @ x) xs)"

lemma join_with_split: "join_with s (xs @ y # ys) = items_before s xs @ y @ items_after s ys"
proof -
  have "join_with s (y # ys) = y @ items_after s ys"
    by (induction ys arbitrary: y) (simp_all add: items_after_def)
  moreover have "join_with s (xs @ y # ys) = items_before s xs @ join_with s (y # ys)"
    by (induction xs) (simp_all add: items_before_def join_with_Cons)
  ultimately show ?thesis by simp
qed

lemma items_before_simps [simp]:
  "items_before s [] = []" "items_before s (x # xs) = x @ s @ items_before s xs"
  "items_before s (xs @ ys) = items_before s xs @ items_before s ys"
  by (simp_all add: items_before_def)

lemma items_after_simps [simp]:
  "items_after s [] = []" "items_after s (x # xs) = s @ x @ items_after s xs"
  "items_after s (xs @ ys) = items_after s xs @ items_after s ys"
  by (simp_all add: items_after_def)

text \<open>The bytes in front of a member's slot, and in front of slot \<open>i\<close> of a value.\<close>

primrec member_head :: "member \<Rightarrow> jstr" where
  "member_head (Member l n a b c t) = l @ n @ a @ [colon]"

lemma render_member_head: "render_member m = member_head m @ render_element (slot_of m)"
  by (cases m) simp

lemma member_head_with_slot [simp]: "member_head (with_slot m e) = member_head m"
  by (cases m; cases e) simp

primrec before_slot :: "tree \<Rightarrow> nat \<Rightarrow> jstr" where
  "before_slot (Leaf t) i = []"
| "before_slot (Obj w ms) i =
     open_brace # items_before [comma] (map render_member (take i ms)) @ member_head (ms ! i)"
| "before_slot (Arr w es) i =
     open_bracket # items_before [comma] (map render_element (take i es))"

lemma render_slot_split:
  assumes "i < length (slots c)"
  obtains post where
    "render c = before_slot c i @ render_element (slots c ! i) @ post"
    "\<And>e. render (set_slot c i e) = before_slot c i @ render_element e @ post"
proof (cases c)
  case (Obj w ms)
  then have i: "i < length ms" using assms by simp
  let ?post = "items_after [comma] (map render_member (drop (Suc i) ms)) @ [close_brace]"
  have split: "ms = take i ms @ ms ! i # drop (Suc i) ms" using i by (rule id_take_nth_drop)
  have "map render_member ms = map render_member (take i ms) @ render_member (ms ! i) # map render_member (drop (Suc i) ms)"
    by (subst split) simp
  moreover have "map render_member (ms[i := m]) =
      map render_member (take i ms) @ render_member m # map render_member (drop (Suc i) ms)" for m
    using i by (simp add: upd_conv_take_nth_drop)
  moreover have "ms \<noteq> []" using i by auto
  ultimately show ?thesis using i Obj
    by (intro that [of ?post]) (simp_all add: join_with_split render_member_head [of "ms ! i"]
        render_member_head [of "with_slot m e" for m e])
next
  case (Arr w es)
  then have i: "i < length es" using assms by simp
  let ?post = "items_after [comma] (map render_element (drop (Suc i) es)) @ [close_bracket]"
  have split: "es = take i es @ es ! i # drop (Suc i) es" using i by (rule id_take_nth_drop)
  have "map render_element es = map render_element (take i es) @ render_element (es ! i) # map render_element (drop (Suc i) es)"
    by (subst split) simp
  moreover have "map render_element (es[i := m]) =
      map render_element (take i es) @ render_element m # map render_element (drop (Suc i) es)" for m
    using i by (simp add: upd_conv_take_nth_drop)
  moreover have "es \<noteq> []" using i by auto
  ultimately show ?thesis using i Arr
    by (intro that [of ?post]) (simp_all add: join_with_split)
qed (use assms in simp)

text \<open>Where the slot a path names begins, counted from the start of the document's text.\<close>

fun origin :: "element \<Rightarrow> jstr list \<Rightarrow> nat" where
  "origin e [] = 0"
| "origin e (k # ks) =
     (case step_index (element_tree e) k of
        None \<Rightarrow> 0
      | Some i \<Rightarrow> length (elead e) + length (before_slot (element_tree e) i)
                   + origin (slots (element_tree e) ! i) ks)"

lemma render_element_eq: "render_element e = elead e @ render (element_tree e) @ etrail e"
  by (cases e) simp

lemma put_split:
  "slot_at e q = Some x \<Longrightarrow>
     \<exists>pre post. length pre = origin e q \<and> render_element e = pre @ render_element x @ post
       \<and> (\<forall>y. render_element (put e q y) = pre @ render_element y @ post)"
proof (induction e q rule: slot_at.induct)
  case (1 e)
  then show ?case by (intro exI [of _ "[]"]) simp
next
  case (2 e k ks)
  then obtain i where i: "step_index (element_tree e) k = Some i"
    "slot_at (slots (element_tree e) ! i) ks = Some x" by (auto split: option.splits)
  let ?c = "element_tree e"
  obtain post where post: "render ?c = before_slot ?c i @ render_element (slots ?c ! i) @ post"
    "\<And>y. render (set_slot ?c i y) = before_slot ?c i @ render_element y @ post"
    using render_slot_split [OF step_index_length [OF i(1)]] by blast
  obtain pre' post' where ih: "length pre' = origin (slots ?c ! i) ks"
    "render_element (slots ?c ! i) = pre' @ render_element x @ post'"
    "\<And>y. render_element (put (slots ?c ! i) ks y) = pre' @ render_element y @ post'"
    using 2(1) [OF i] by blast
  show ?case using i(1) post ih
    by (intro exI [of _ "elead e @ before_slot ?c i @ pre'"] exI [of _ "post' @ post @ etrail e"])
      (simp add: render_element_eq [of e])
qed

section \<open>What the index holds\<close>

definition below :: "jstr list \<Rightarrow> jstr \<times> span \<Rightarrow> bool" where
  "below p e \<longleftrightarrow> (\<exists>r. fst e = pointer (p @ r))"

lemma below_Nil [simp]: "below p (pointer q, sp) \<longleftrightarrow> prefix p q"
  by (auto simp: below_def prefix_def)

lemma below_trans: "below (p @ q) e \<Longrightarrow> below p e"
  by (auto simp: below_def)

lemma nodes_all_below:
  "list_all (below p) (nodes p s m c)"
  "list_all (\<lambda>e. \<exists>x \<in> set ms. below (p @ [member_name x]) e) (member_nodes p s ms)"
  "list_all (\<lambda>e. \<exists>j \<ge> i. j < i + length es \<and> below (p @ [dec j]) e) (element_nodes p i s es)"
proof (induction p s m c and p s ms and p i s es rule: nodes_member_nodes_element_nodes.induct)
  case (3 p s m w es)
  then show ?case by (auto simp: list_all_iff below_trans)
next
  case (2 p s m w ms)
  then show ?case by (auto simp: list_all_iff below_trans)
next
  case (5 p s l n a b c t ms)
  then show ?case by (fastforce simp: list_all_iff)
next
  case (7 p i s l c t es)
  show ?case unfolding list_all_iff
  proof
    fix x assume x: "x \<in> set (element_nodes p i s (Element l c t # es))"
    show "\<exists>j \<ge> i. j < i + length (Element l c t # es) \<and> below (p @ [dec j]) x"
    proof (cases "below (p @ [dec i]) x")
      case True
      then show ?thesis by (intro exI [of _ i]) simp
    next
      case False
      then obtain j where "Suc i \<le> j" "j < Suc i + length es" "below (p @ [dec j]) x"
        using x 7 by (auto simp: list_all_iff)
      then show ?thesis by (intro exI [of _ j]) simp
    qed
  qed
qed simp_all

lemma below_unique: "\<lbrakk>below (p @ [k]) e; below (p @ k' # ks) e\<rbrakk> \<Longrightarrow> k = k'"
  by (auto simp: below_def)

lemma member_nodes_append:
  "member_nodes p s (xs @ ys) =
     member_nodes p s xs @ member_nodes p (s + length (items_before [comma] (map render_member xs))) ys"
proof (induction xs arbitrary: s)
  case (Cons m xs)
  then show ?case by (cases m) (simp add: add_ac)
qed simp

lemma element_nodes_append:
  "element_nodes p i s (xs @ ys) =
     element_nodes p i s xs
     @ element_nodes p (i + length xs) (s + length (items_before [comma] (map render_element xs))) ys"
proof (induction xs arbitrary: i s)
  case (Cons e xs)
  then show ?case by (cases e) (simp add: add_ac)
qed simp

text \<open>Where the member, or the element, that carries slot \<open>i\<close> begins.\<close>

primrec item_start :: "tree \<Rightarrow> nat \<Rightarrow> nat" where
  "item_start (Leaf t) i = 0"
| "item_start (Obj w ms) i =
     1 + length (items_before [comma] (map render_member (take i ms))) + length (lead (ms ! i))"
| "item_start (Arr w es) i =
     1 + length (items_before [comma] (map render_element (take i es))) + length (elead (es ! i))"

lemma nodes_step:
  assumes i: "step_index c k = Some i" and u: "uniq c"
  shows "filter (below (p @ k # ks)) (nodes p s m c) =
     filter (below (p @ k # ks))
       (nodes (p @ [k]) (s + length (before_slot c i) + length (elead (slots c ! i)))
          (s + item_start c i) (element_tree (slots c ! i)))"
proof (cases c)
  case (Obj w ms)
  have il: "i < length ms" and k: "member_name (ms ! i) = k"
    using i Obj by (auto dest: find_index_Some)
  define xs ys x where "xs = take i ms" and "ys = drop (Suc i) ms" and "x = ms ! i"
  have ms: "ms = xs @ x # ys" and len: "i = length xs"
    using id_take_nth_drop [OF il] il by (simp_all add: xs_def ys_def x_def)
  have d: "\<forall>y \<in> set xs \<union> set ys. member_name y \<noteq> k"
  proof -
    have "distinct (map member_name (xs @ x # ys))" using u Obj unfolding ms by simp
    then show ?thesis using k unfolding x_def [symmetric] by (auto simp: image_iff)
  qed
  have out: "filter (below (p @ k # ks)) (member_nodes p s' zs) = []" if "set zs \<subseteq> set xs \<union> set ys" for zs s'
    using nodes_all_below(2) [of zs p s'] d that below_unique
    by (fastforce simp: filter_empty_conv list_all_iff)
  obtain l n a b d t where x: "x = Member l n a b d t" by (cases x)
  have sl: "slots c ! i = slot_of x" using il Obj x_def by simp
  have "nodes p s m c = member_nodes p (Suc s) (xs @ [x] @ ys) @ [(pointer p, span_of p s (s + length (render c)) m)]"
    by (simp add: Obj ms del: render.simps member_nodes.simps(2))
  then have "filter (below (p @ k # ks)) (nodes p s m c) =
      filter (below (p @ k # ks))
        (member_nodes p (Suc s + length (items_before [comma] (map render_member xs))) [x])"
    using out [of xs] out [of ys] by (simp only: member_nodes_append filter_append) (simp add: prefix_def)
  then show ?thesis using k
    unfolding x_def [symmetric] by (simp add: sl) (simp add: Obj x xs_def [symmetric] x_def [symmetric] add_ac)
next
  case (Arr w es)
  have il: "i < length es" and k: "k = dec i"
    using i Arr by (auto simp: arrayIndex_eq split: option.splits if_splits)
  define xs ys x where "xs = take i es" and "ys = drop (Suc i) es" and "x = es ! i"
  have es: "es = xs @ x # ys" and len: "i = length xs"
    using id_take_nth_drop [OF il] il by (simp_all add: xs_def ys_def x_def)
  have out: "filter (below (p @ k # ks)) (element_nodes p j s' zs) = []"
    if "j + length zs \<le> i \<or> i < j" for j zs s'
    using nodes_all_below(3) [of j zs p s'] that below_unique k
    by (fastforce simp: filter_empty_conv list_all_iff)
  obtain l d t where x: "x = Element l d t" by (cases x)
  have "nodes p s m c = element_nodes p 0 (Suc s) (xs @ [x] @ ys) @ [(pointer p, span_of p s (s + length (render c)) m)]"
    by (simp add: Arr es del: render.simps element_nodes.simps(2))
  then have "filter (below (p @ k # ks)) (nodes p s m c) =
      filter (below (p @ k # ks))
        (element_nodes p i (Suc s + length (items_before [comma] (map render_element xs))) [x])"
    using out [of 0 xs] out [of "Suc i" ys] len by (simp only: element_nodes_append filter_append) (simp add: prefix_def)
  then show ?thesis using k
    unfolding x_def [symmetric] by (simp add: Arr x xs_def [symmetric] x_def [symmetric] add_ac)
qed (use i in simp)

lemma nodes_below:
  "\<lbrakk>slot_at e q = Some x; uniq_element e\<rbrakk> \<Longrightarrow>
     \<exists>m'. filter (below (p @ q)) (nodes p (s + length (elead e)) m (element_tree e)) =
            nodes (p @ q) (s + origin e q + length (elead x)) m' (element_tree x)"
proof (induction e q arbitrary: p s m rule: slot_at.induct)
  case (1 e)
  have "filter (below p) (nodes p s' m c) = nodes p s' m c" for s' m c
    using nodes_all_below(1) by (simp add: filter_id_conv list_all_iff)
  then show ?case using 1 by auto
next
  case (2 e k ks)
  let ?c = "element_tree e"
  obtain i where i: "step_index ?c k = Some i" "slot_at (slots ?c ! i) ks = Some x"
    using 2(2) by (auto split: option.splits)
  have u: "uniq_element (slots ?c ! i)"
    using uniq_slots [of ?c] 2(3) step_index_length [OF i(1)] by (simp add: list_all_length)
  from 2(1) [OF i u, of "p @ [k]" "s + length (elead e) + length (before_slot ?c i)"
      "s + length (elead e) + item_start ?c i"]
  show ?case using nodes_step [OF i(1), of p ks "s + length (elead e)" m] 2(3) i(1)
    by (simp add: add_ac)
qed

lemma below_disjoint: "\<lbrakk>below (p @ [k]) e; below (p @ [k']) e'; k \<noteq> k'\<rbrakk> \<Longrightarrow> fst e \<noteq> fst e'"
  by (auto simp: below_def)

lemma below_not_own: "below (p @ [k]) e \<Longrightarrow> fst e \<noteq> pointer p"
  by (auto simp: below_def)

lemma member_not_own: "e \<in> set (member_nodes p s ms) \<Longrightarrow> fst e \<noteq> pointer p"
  using nodes_all_below(2) [of ms p s] below_not_own unfolding list_all_iff by blast

lemma element_not_own: "e \<in> set (element_nodes p i s es) \<Longrightarrow> fst e \<noteq> pointer p"
  using nodes_all_below(3) [of i es p s] below_not_own unfolding list_all_iff by blast

lemma distinct_keys_append:
  assumes "distinct (map fst es)" "distinct (map fst es')"
    and "\<And>e e'. \<lbrakk>e \<in> set es; e' \<in> set es'\<rbrakk> \<Longrightarrow> fst e \<noteq> fst e'"
  shows "distinct (map fst (es @ es'))"
  using assms by fastforce

lemma distinct_nodes:
  "uniq c \<Longrightarrow> distinct (map fst (nodes p s m c))"
  "\<lbrakk>distinct (map member_name ms); list_all uniq_member ms\<rbrakk> \<Longrightarrow> distinct (map fst (member_nodes p s ms))"
  "list_all uniq_element es \<Longrightarrow> distinct (map fst (element_nodes p i s es))"
proof (induction p s m c and p s ms and p i s es rule: nodes_member_nodes_element_nodes.induct)
  case (2 p s m w ms)
  show ?case unfolding nodes.simps
    by (rule distinct_keys_append) (use 2 member_not_own in auto)
next
  case (3 p s m w es)
  show ?case unfolding nodes.simps
    by (rule distinct_keys_append) (use 3 element_not_own in \<open>auto simp del: uniq_element_iff\<close>)
next
  case (5 p s l n a b c t ms)
  show ?case unfolding member_nodes.simps
  proof (rule distinct_keys_append)
    fix e e' assume "e \<in> set (nodes (p @ [name_of n]) (s + length l + length n + length a + 1 + length b) (s + length l) c)"
      and "e' \<in> set (member_nodes p (s + length (render_member (Member l n a b c t)) + 1) ms)"
    then have "below (p @ [name_of n]) e" and "\<exists>x \<in> set ms. below (p @ [member_name x]) e'"
      using nodes_all_below(1) nodes_all_below(2) [of ms p "s + length (render_member (Member l n a b c t)) + 1"]
      unfolding list_all_iff by blast+
    with 5(3) show "fst e \<noteq> fst e'" by (auto simp: image_iff dest: below_disjoint)
  qed (use 5 in auto)
next
  case (7 p i s l c t es)
  show ?case unfolding element_nodes.simps
  proof (rule distinct_keys_append)
    fix e e' assume "e \<in> set (nodes (p @ [dec i]) (s + length l) (s + length l) c)"
      and "e' \<in> set (element_nodes p (Suc i) (s + length (render_element (Element l c t)) + 1) es)"
    then have "below (p @ [dec i]) e" and "\<exists>j \<ge> Suc i. below (p @ [dec j]) e'"
      using nodes_all_below(1) nodes_all_below(3) [of "Suc i" es p "s + length (render_element (Element l c t)) + 1"]
      unfolding list_all_iff by blast+
    then show "fst e \<noteq> fst e'" by (metis Suc_n_not_le_n below_disjoint dec_inj)
  qed (use 7 in auto)
qed simp_all

lemma add_spans_distinct:
  "distinct (map fst (sps @ es)) \<Longrightarrow> add_spans es sps = sps @ es"
  by (induction es arbitrary: sps) (auto simp: add_span_def image_iff)

lemma dups_Nil:
  "dups p c = [] \<longleftrightarrow> uniq c"
  "member_dups p seen ms = [] \<longleftrightarrow>
     distinct (map member_name ms) \<and> seen \<inter> set (map member_name ms) = {} \<and> list_all uniq_member ms"
  "element_dups p i es = [] \<longleftrightarrow> list_all uniq_element es"
  by (induction p c and p seen ms and p i es rule: dups_member_dups_element_dups.induct)
    (auto simp del: uniq_element_iff)

section \<open>What the value is\<close>

lemma fold_add_first_distinct:
  "distinct (map fst (acc @ es)) \<Longrightarrow> fold add_first es acc = acc @ es"
  by (induction es arbitrary: acc) (auto simp: add_first_def image_iff)

lemma fst_tree_member [simp]: "fst (tree_member m) = member_name m"
  by (cases m) simp

lemma snd_tree_member [simp]: "snd (tree_member m) = tree_element (slot_of m)"
  by (cases m) simp

lemma tree_element_eq [simp]: "tree_element e = tree_value (element_tree e)"
  by (cases e) simp

lemma tree_value_Obj: "uniq (Obj w ms) \<Longrightarrow> tree_value (Obj w ms) = JObj (map tree_member ms)"
  using fold_add_first_distinct [of "[]" "map tree_member ms"] by (simp add: comp_def)

lemma leaf_not_container [simp]: "leaf_value t \<noteq> JObj ms" "leaf_value t \<noteq> JArr xs"
  by (simp_all add: leaf_value_def)

lemma map_of_find_index:
  "map_of es k = (case find_index (\<lambda>e. fst e = k) es of None \<Rightarrow> None | Some i \<Rightarrow> Some (snd (es ! i)))"
  by (induction es) (auto split: option.splits)

lemma step_into_value:
  assumes "uniq c"
  shows "step_into (tree_value c) k =
     (case step_index c k of None \<Rightarrow> None | Some i \<Rightarrow> Some (tree_element (slots c ! i)))"
proof (cases c)
  case (Leaf t)
  then show ?thesis by (simp add: step_into_def leaf_value_def)
next
  case (Obj w ms)
  have "find_index (\<lambda>e. fst e = k) (map tree_member ms) = find_index (\<lambda>m. member_name m = k) ms"
    by (induction ms) simp_all
  then show ?thesis using assms Obj tree_value_Obj [of w ms]
    by (auto simp: step_into_def map_of_find_index dest: find_index_Some split: option.split)
next
  case (Arr w es)
  then show ?thesis by (auto simp: step_into_def split: option.split)
qed

lemma value_down_slot:
  "uniq_element e \<Longrightarrow> value_down (tree_element e) q = map_option tree_element (slot_at e q)"
proof (induction e q rule: slot_at.induct)
  case (2 e k ks)
  show ?case
  proof (cases "step_index (element_tree e) k")
    case (Some i)
    then have "uniq_element (slots (element_tree e) ! i)"
      using uniq_slots [of "element_tree e"] 2(2) step_index_length [OF Some] by (simp add: list_all_length)
    with 2 Some show ?thesis by (simp add: step_into_value)
  qed (use 2 in \<open>simp add: step_into_value\<close>)
qed simp

text \<open>The value with the one a path names exchanged, where the path names one.\<close>

fun update_at :: "jstr list \<Rightarrow> (jval \<Rightarrow> jval) \<Rightarrow> jval \<Rightarrow> jval" where
  "update_at [] f v = f v"
| "update_at (k # ks) f v =
     (case v of
        JObj ms \<Rightarrow> JObj (map (\<lambda>(n, w). (n, if n = k then update_at ks f w else w)) ms)
      | JArr xs \<Rightarrow>
          (case arrayIndex k of
             None \<Rightarrow> v
           | Some i \<Rightarrow> if i < length xs then JArr (xs[i := update_at ks f (xs ! i)]) else v)
      | _ \<Rightarrow> v)"

lemma tree_value_set_slot:
  assumes u: "uniq c" "uniq_element x" and i: "step_index c k = Some i"
    and x: "tree_element x = update_at ks f (tree_element (slots c ! i))"
  shows "tree_value (set_slot c i x) = update_at (k # ks) f (tree_value c)"
proof (cases c)
  case (Obj w ms)
  have il: "i < length ms" and k: "member_name (ms ! i) = k"
    using i Obj by (auto dest: find_index_Some)
  have d: "distinct (map member_name ms)" using u Obj by simp
  have "map tree_member (ms[i := with_slot (ms ! i) x]) =
      map ((\<lambda>(n, w). (n, if n = k then update_at ks f w else w)) \<circ> tree_member) ms"
  proof (rule nth_equalityI)
    fix j assume "j < length (map tree_member (ms[i := with_slot (ms ! i) x]))"
    then have j: "j < length ms" by simp
    have "member_name (ms ! j) = k \<longleftrightarrow> j = i"
      using d il j k by (metis length_map nth_eq_iff_index_eq nth_map)
    then show "map tree_member (ms[i := with_slot (ms ! i) x]) ! j =
        map ((\<lambda>(n, w). (n, if n = k then update_at ks f w else w)) \<circ> tree_member) ms ! j"
      using j x il Obj by (auto simp: nth_list_update prod_eq_iff case_prod_unfold)
  qed simp
  moreover have "uniq (set_slot c i x)" using u Obj il by (intro uniq_set_slot) simp_all
  ultimately show ?thesis using u Obj tree_value_Obj [of w ms]
      tree_value_Obj [of w "ms[i := with_slot (ms ! i) x]"] by simp
next
  case (Arr w es)
  then show ?thesis using i x by (auto simp: map_update split: option.splits if_splits)
qed (use i in simp)

lemma update_at_absent: "uniq c \<Longrightarrow> step_index c k = None \<Longrightarrow> update_at (k # ks) f (tree_value c) = tree_value c"
proof (cases c)
  case (Obj w ms)
  then show "\<lbrakk>uniq c; step_index c k = None\<rbrakk> \<Longrightarrow> ?thesis"
    using tree_value_Obj [of w ms]
    by (auto simp: find_index_None case_prod_unfold prod_eq_iff intro!: map_idI)
qed (auto simp: leaf_value_def split: option.splits)

lemma tree_value_put:
  assumes "uniq_element e" "\<And>d. slot_at e q = Some d \<Longrightarrow> uniq_element x \<and> tree_element x = f (tree_element d)"
  shows "tree_element (put e q x) = update_at q f (tree_element e) \<and> uniq_element (put e q x)"
  using assms
proof (induction e q x rule: put.induct)
  case (2 e k ks x)
  show ?case
  proof (cases "step_index (element_tree e) k")
    case (Some i)
    have u: "uniq_element (slots (element_tree e) ! i)"
      using uniq_slots [of "element_tree e"] 2(2) step_index_length [OF Some] by (simp add: list_all_length)
    have "tree_element (put (slots (element_tree e) ! i) ks x) = update_at ks f (tree_element (slots (element_tree e) ! i))
        \<and> uniq_element (put (slots (element_tree e) ! i) ks x)"
      using 2(1) [OF Some u] 2(3) Some by simp
    then show ?thesis
      using 2(2) Some step_index_length [OF Some]
        tree_value_set_slot [OF _ _ Some, of "put (slots (element_tree e) ! i) ks x" ks f]
      by (simp add: uniq_set_slot del: update_at.simps)
  qed (use 2 update_at_absent [of "element_tree e" k ks f] in \<open>simp del: update_at.simps\<close>)
qed simp

end
