(* ===== verification/Document_Edits.thy ===== *)
theory Document_Edits
  imports Document_Slots
begin

text \<open>
  The edits of \<open>documentText.ts\<close> against what a document says.  \<open>reads text v\<close> is the state the form
  editor requires of its buffer: the text scans, no member name repeats, and its value is \<open>v\<close>.  Every
  edit takes such a text to such a text, its value the old one changed at the named address only.
\<close>

section \<open>Documents\<close>

definition reads :: "jstr \<Rightarrow> jval \<Rightarrow> bool" where
  "reads text v \<longleftrightarrow>
     ix_error (indexDocument text) = None \<and> ix_duplicates (indexDocument text) = []
     \<and> ix_value (indexDocument text) = Some v"

definition index_of :: "element \<Rightarrow> document_index" where
  "index_of e = tree_index (elead e) (element_tree e)"

definition document :: "element \<Rightarrow> bool" where
  "document e \<longleftrightarrow> wf_element e \<and> uniq_element e"

lemma indexDocument_element: "wf_element e \<Longrightarrow> indexDocument (render_element e) = index_of e"
  by (cases e) (simp add: indexDocument_render index_of_def)

lemma reads_document: "document e \<Longrightarrow> reads (render_element e) (tree_element e)"
  by (simp add: reads_def document_def indexDocument_element) (simp add: index_of_def tree_index_def dups_Nil)

lemma reads_cases:
  assumes "reads src v"
  obtains e where "src = render_element e" "document e" "v = tree_element e"
    "indexDocument src = index_of e"
proof -
  obtain w c w' where c: "src = w @ render c @ w'" "wf_tree c" "ws w" "ws w'" "indexDocument src = tree_index w c"
    using assms indexDocument_sound [of src] by (auto simp: reads_def)
  then have "uniq c" "v = tree_value c" using assms by (auto simp: reads_def tree_index_def dups_Nil)
  with c that [of "Element w c w'"] show ?thesis by (simp add: document_def index_of_def)
qed

lemma index_spans: "document e \<Longrightarrow> ix_spans (index_of e) = nodes [] (length (elead e)) (length (elead e)) (element_tree e)"
  using add_spans_distinct [of "[]"] distinct_nodes(1)
  by (simp add: index_of_def tree_index_def document_def)

lemma map_of_filter_key: "(\<And>v. P (k, v)) \<Longrightarrow> map_of (filter P es) k = map_of es k"
  by (induction es) auto

lemma nodes_own: "uniq c \<Longrightarrow> map_of (nodes p s m c) (pointer p) = Some (span_of p s (s + length (render c)) m)"
proof (cases c)
  case (Obj w ms)
  have "map_of (member_nodes p (Suc s) ms) (pointer p) = None"
    using member_not_own by (fastforce simp: map_of_eq_None_iff)
  then show ?thesis using Obj by (simp add: map_add_def del: render.simps)
next
  case (Arr w es)
  have "map_of (element_nodes p 0 (Suc s) es) (pointer p) = None"
    using element_not_own by (fastforce simp: map_of_eq_None_iff)
  then show ?thesis using Arr by (simp add: map_add_def del: render.simps)
qed simp

text \<open>Everything the index says at and below a path is what the slot alone would say there.\<close>

lemma spans_below:
  assumes d: "document e" and x: "slot_at e q = Some x"
  obtains m where
    "filter (below q) (ix_spans (index_of e)) = nodes q (origin e q + length (elead x)) m (element_tree x)"
    "\<And>r. map_of (ix_spans (index_of e)) (pointer (q @ r))
            = map_of (nodes q (origin e q + length (elead x)) m (element_tree x)) (pointer (q @ r))"
proof -
  obtain m where m: "filter (below q) (nodes [] (length (elead e)) (length (elead e)) (element_tree e))
      = nodes q (origin e q + length (elead x)) m (element_tree x)"
    using nodes_below [OF x, of "[]" 0] d by (auto simp: document_def)
  then show ?thesis
    using that [of m] map_of_filter_key [of "below q"]
    by (simp add: index_spans [OF d]) (metis below_Nil prefixI)
qed

lemma spanAt_slot:
  assumes d: "document e" and x: "slot_at e q = Some x"
  obtains m where "spanAt (index_of e) (pointer q) =
     Some (span_of q (origin e q + length (elead x))
       (origin e q + length (elead x) + length (render (element_tree x))) m)"
proof -
  have "uniq (element_tree x)" using uniq_slot_at [OF x] d by (simp add: document_def)
  with spans_below [OF assms] nodes_own show ?thesis
    by (metis append_Nil2 spanAt_def that)
qed

lemma key_slot:
  "\<lbrakk>(pointer (p @ q), sp) \<in> set (nodes p s m (element_tree e)); uniq_element e\<rbrakk> \<Longrightarrow> slot_at e q \<noteq> None"
proof (induction q arbitrary: p s m e)
  case (Cons k ks)
  let ?c = "element_tree e" and ?x = "(pointer (p @ k # ks), sp)"
  have b: "below (p @ k # ks) ?x" by simp
  have u: "uniq ?c" using Cons(3) by simp
  have "step_index ?c k \<noteq> None"
  proof (cases ?c)
    case (Leaf t)
    then show ?thesis using Cons(2) by simp
  next
    case (Obj w ms)
    then have "?x \<in> set (member_nodes p (Suc s) ms)" using Cons(2) by auto
    then obtain y where "y \<in> set ms" "below (p @ [member_name y]) ?x"
      using nodes_all_below(2) [of ms p "Suc s"] unfolding list_all_iff by blast
    then show ?thesis using Obj below_unique [OF _ b] by (auto simp: find_index_None)
  next
    case (Arr w es)
    then have "?x \<in> set (element_nodes p 0 (Suc s) es)" using Cons(2) by auto
    then obtain j where "j < length es" "below (p @ [dec j]) ?x"
      using nodes_all_below(3) [of 0 es p "Suc s"] unfolding list_all_iff by auto
    then show ?thesis using Arr below_unique [OF _ b, of "dec j"] by auto
  qed
  then obtain i where i: "step_index ?c k = Some i" by blast
  let ?y = "slots ?c ! i"
  have "?x \<in> set (filter (below (p @ k # ks)) (nodes p s m ?c))" using Cons(2) b by simp
  then have "?x \<in> set (nodes (p @ [k]) (s + length (before_slot ?c i) + length (elead ?y))
      (s + item_start ?c i) (element_tree ?y))"
    unfolding nodes_step [OF i u, of p ks s m] by (simp only: set_filter mem_Collect_eq)
  moreover have "uniq_element ?y"
    using uniq_slots [of ?c] Cons(3) step_index_length [OF i] by (simp add: list_all_length)
  ultimately show ?case using Cons(1) [of "p @ [k]" _ _ ?y] i by simp
qed simp

lemma spanAt_none:
  assumes "document e" "slot_at e q = None"
  shows "spanAt (index_of e) (pointer q) = None"
proof -
  have "pointer q \<notin> fst ` set (ix_spans (index_of e))"
    using key_slot [of "[]" q] assms by (fastforce simp: index_spans document_def)
  then show ?thesis by (simp add: spanAt_def map_of_eq_None_iff)
qed

lemma set_slot_same: "i < length (slots c) \<Longrightarrow> set_slot c i (slots c ! i) = c"
proof (cases c)
  case (Obj w ms)
  have "with_slot m (slot_of m) = m" for m by (cases m) simp
  then show "i < length (slots c) \<Longrightarrow> ?thesis" using Obj by simp
qed simp_all

lemma update_at_none:
  "\<lbrakk>slot_at e q = None; uniq_element e\<rbrakk> \<Longrightarrow> update_at q f (tree_element e) = tree_element e"
proof (induction e q rule: slot_at.induct)
  case (2 e k ks)
  let ?c = "element_tree e"
  show ?case
  proof (cases "step_index ?c k")
    case None
    then show ?thesis using 2(3) update_at_absent [of ?c k ks f] by (simp del: update_at.simps)
  next
    case (Some i)
    let ?y = "slots ?c ! i"
    have il: "i < length (slots ?c)" by (rule step_index_length [OF Some])
    have u: "uniq_element ?y" using uniq_slots [of ?c] 2(3) il by (simp add: list_all_length)
    have "tree_element ?y = update_at ks f (tree_element ?y)" using 2 Some u by simp
    from tree_value_set_slot [OF _ u Some this] show ?thesis
      using 2(3) set_slot_same [OF il] by (simp del: update_at.simps)
  qed
qed simp

section \<open>Replacing a value\<close>

text \<open>
  One edit: the text is the old one with the slot a path names exchanged, and the value in that slot
  is the old value changed by \<open>f\<close>.  Where the path names no slot, nothing changes.
\<close>

definition edited :: "jstr \<Rightarrow> jstr list \<Rightarrow> (jval \<Rightarrow> jval) \<Rightarrow> jstr \<Rightarrow> bool" where
  "edited src q f src' \<longleftrightarrow>
     (\<exists>e y. document e \<and> src = render_element e \<and> document y \<and> src' = render_element (put e q y)
        \<and> (\<forall>x. slot_at e q = Some x \<longrightarrow> tree_element y = f (tree_element x)))"

lemma document_slot_at: "\<lbrakk>slot_at e q = Some x; document e\<rbrakk> \<Longrightarrow> document x"
  using wf_slot_at uniq_slot_at unfolding document_def by blast

lemma document_put: "\<lbrakk>document e; document x\<rbrakk> \<Longrightarrow> document (put e q x)"
  using wf_put uniq_put unfolding document_def by blast

lemma put_same: "slot_at e q = Some x \<Longrightarrow> put e q x = e"
proof (induction e q x rule: put.induct)
  case (2 e k ks x)
  then show ?case
    using set_slot_same [of _ "element_tree e"] step_index_length [of "element_tree e" k]
    by (cases e) (auto split: option.splits)
qed simp

lemma update_at_same:
  assumes "slot_at e q = Some x" "uniq_element e" "f (tree_element x) = tree_element x"
  shows "update_at q f (tree_element e) = tree_element e"
  using tree_value_put [of e q x f] put_same [OF assms(1)] assms uniq_slot_at [OF assms(1,2)] by simp

lemma put_none: "slot_at e q = None \<Longrightarrow> put e q x = e"
proof (induction e q x rule: put.induct)
  case (2 e k ks x)
  then show ?case
    using set_slot_same [of _ "element_tree e"] step_index_length [of "element_tree e" k]
    by (cases e) (auto split: option.splits)
qed simp

lemma edited_same:
  assumes "document e" "\<And>x. slot_at e q = Some x \<Longrightarrow> f (tree_element x) = tree_element x"
  shows "edited (render_element e) q f (render_element e)"
proof (cases "slot_at e q")
  case None
  then show ?thesis using assms unfolding edited_def
    by (intro exI [of _ e] exI [of _ e]) (simp add: put_none)
next
  case (Some x)
  then show ?thesis using assms document_slot_at [OF Some] unfolding edited_def
    by (intro exI [of _ e] exI [of _ x]) (simp add: put_same)
qed

lemma edited_none: "\<lbrakk>document e; slot_at e q = None\<rbrakk> \<Longrightarrow> edited (render_element e) q f (render_element e)"
  using edited_same [of e q f] by simp

lemma edited_put:
  "\<lbrakk>document e; slot_at e q = Some x; document y; tree_element y = f (tree_element x)\<rbrakk>
     \<Longrightarrow> edited (render_element e) q f (render_element (put e q y))"
  unfolding edited_def by (intro exI [of _ e] exI [of _ y]) simp

lemma edited_reads:
  assumes v: "reads src v" and e: "edited src q f src'"
  shows "reads src' (update_at q f v)"
proof -
  obtain e y where e: "document e" "src = render_element e" "document y" "src' = render_element (put e q y)"
    "\<And>x. slot_at e q = Some x \<Longrightarrow> tree_element y = f (tree_element x)"
    using e unfolding edited_def by blast
  have "v = tree_element e"
    using v reads_document [OF e(1)] by (simp add: reads_def e(2))
  then have "tree_element (put e q y) = update_at q f v"
    using tree_value_put [of e q y f] e by (simp add: document_def)
  then show ?thesis using reads_document [OF document_put [OF e(1,3), of q]] e(4) by simp
qed

section \<open>The bytes of a value, and what an edit leaves alone\<close>

definition value_text :: "jstr \<Rightarrow> jstr list \<Rightarrow> jstr option" where
  "value_text src q =
     (case spanAt (indexDocument src) (pointer q) of
        None \<Rightarrow> None
      | Some sp \<Rightarrow> Some (slice src (valueStart sp) (valueEnd sp)))"

lemma value_text_slot:
  assumes d: "document e"
  shows "value_text (render_element e) q = map_option (\<lambda>x. render (element_tree x)) (slot_at e q)"
proof (cases "slot_at e q")
  case None
  then show ?thesis using spanAt_none [OF d None] indexDocument_element d
    by (simp add: value_text_def document_def)
next
  case (Some x)
  obtain m where m: "spanAt (index_of e) (pointer q) =
     Some (span_of q (origin e q + length (elead x))
       (origin e q + length (elead x) + length (render (element_tree x))) m)"
    using spanAt_slot [OF d Some] by blast
  obtain pre post where p: "length pre = origin e q" "render_element e = pre @ render_element x @ post"
    using put_split [OF Some] by blast
  have "render_element e = (pre @ elead x) @ render (element_tree x) @ etrail x @ post"
    using p(2) by (simp add: render_element_eq [of x])
  moreover have "length (pre @ elead x) = origin e q + length (elead x)" using p(1) by simp
  ultimately have "slice (render_element e) (origin e q + length (elead x))
      (origin e q + length (elead x) + length (render (element_tree x))) = render (element_tree x)"
    using slice_append_mid by metis
  then show ?thesis using m Some indexDocument_element d
    by (simp add: value_text_def document_def span_of_def)
qed

lemma document_bare: "document x \<Longrightarrow> document (Element [] (element_tree x) [])"
  by (simp add: document_def wf_element_iff)

lemma value_text_reads:
  assumes "reads src v"
  shows "(case value_text src q of
            None \<Rightarrow> value_down v q = None
          | Some t \<Rightarrow> \<exists>w. value_down v q = Some w \<and> reads t w)"
proof -
  obtain e where e: "src = render_element e" "document e" "v = tree_element e"
    using assms by (rule reads_cases)
  have down: "value_down v q = map_option tree_element (slot_at e q)"
    using value_down_slot e by (simp add: document_def)
  show ?thesis
  proof (cases "slot_at e q")
    case (Some x)
    have "reads (render (element_tree x)) (tree_element x)"
      using reads_document [OF document_bare [OF document_slot_at [OF Some e(2)]]] by simp
    then show ?thesis using Some down value_text_slot [OF e(2)] e(1) by simp
  qed (use down value_text_slot [OF e(2)] e(1) in simp)
qed

lemma step_index_inj: "\<lbrakk>step_index c k = Some i; step_index c k' = Some i\<rbrakk> \<Longrightarrow> k = k'"
  by (cases c) (auto dest!: find_index_Some simp: arrayIndex_eq split: option.splits if_splits)

lemma slot_at_put_other:
  "\<lbrakk>\<not> prefix q r; \<not> prefix r q\<rbrakk> \<Longrightarrow> slot_at (put e q x) r = slot_at e r"
proof (induction e q x arbitrary: r rule: put.induct)
  case (2 e k ks x)
  let ?c = "element_tree e"
  obtain k' rs where r: "r = k' # rs" using 2(3) by (cases r) auto
  show ?case
  proof (cases "step_index ?c k")
    case (Some i)
    have il: "i < length (slots ?c)" by (rule step_index_length [OF Some])
    show ?thesis
    proof (cases "step_index ?c k' = Some i")
      case True
      then have "k' = k" using step_index_inj Some by blast
      then show ?thesis using 2 Some r il by (simp add: slots_set_slot)
    next
      case False
      then show ?thesis using Some r il
        by (auto simp: slots_set_slot nth_list_update split: option.split)
    qed
  qed simp
qed simp

lemma edited_frame:
  assumes e: "edited src q f src'" and r: "\<not> prefix q r" "\<not> prefix r q"
  shows "value_text src' r = value_text src r"
proof -
  obtain e y where e: "document e" "src = render_element e" "document y" "src' = render_element (put e q y)"
    using e unfolding edited_def by blast
  show ?thesis
    using value_text_slot [OF e(1)] value_text_slot [OF document_put [OF e(1,3)]] slot_at_put_other [OF r] e
    by simp
qed

definition around :: "element \<Rightarrow> element \<Rightarrow> element" where
  "around x j = Element (elead x @ elead j) (element_tree j) (etrail j @ etrail x)"

lemma document_around: "\<lbrakk>document x; document j\<rbrakk> \<Longrightarrow> document (around x j)"
  by (simp add: document_def around_def wf_element_iff)

lemma replaceValue_slot:
  assumes d: "document e" and x: "slot_at e q = Some x"
  shows "replaceValue (render_element e) (index_of e) (pointer q) (render_element j)
           = render_element (put e q (around x j))"
proof -
  obtain pre post where p: "length pre = origin e q" "render_element e = pre @ render_element x @ post"
    "\<And>y. render_element (put e q y) = pre @ render_element y @ post"
    using put_split [OF x] by blast
  obtain m where "spanAt (index_of e) (pointer q) =
     Some (span_of q (origin e q + length (elead x))
       (origin e q + length (elead x) + length (render (element_tree x))) m)"
    using spanAt_slot [OF assms] by blast
  moreover have "render_element e = pre @ elead x @ render (element_tree x) @ etrail x @ post"
    using p(2) by (simp add: render_element_eq [of x])
  moreover have "render_element (put e q (around x j)) = pre @ elead x @ render_element j @ etrail x @ post"
    using p(3) by (simp add: render_element_eq [of j] render_element_eq [of "around x j"] around_def)
  ultimately show ?thesis by (simp add: replaceValue_def span_of_def p(1) [symmetric])
qed

lemma edited_replaceValue:
  assumes v: "reads src v" and j: "reads json j"
  shows "edited src q (\<lambda>_. j) (replaceValue src (indexDocument src) (pointer q) json)"
proof -
  obtain e where e: "src = render_element e" "document e" "v = tree_element e" "indexDocument src = index_of e"
    using v by (rule reads_cases)
  obtain d where d: "json = render_element d" "document d" "j = tree_element d"
    using j by (rule reads_cases)
  show ?thesis
  proof (cases "slot_at e q")
    case None
    then show ?thesis using e spanAt_none [OF e(2) None] edited_none [OF e(2) None]
      by (simp add: replaceValue_def)
  next
    case (Some x)
    have "document (around x d)" using document_around document_slot_at Some e(2) d(2) by blast
    moreover have "tree_element (around x d) = j" using d(3) by (simp add: around_def)
    ultimately show ?thesis
      using edited_put [OF e(2) Some, of "around x d" "\<lambda>_. j"] replaceValue_slot [OF e(2) Some] e d(1) by simp
  qed
qed

section \<open>The children of a container\<close>

lemma slash_split:
  "\<lbrakk>slash \<notin> set a; slash \<notin> set b; prefix (a @ slash # x) (b @ y); y = [] \<or> hd y = slash\<rbrakk>
     \<Longrightarrow> a = b \<and> prefix (slash # x) y"
proof (induction a arbitrary: b)
  case Nil
  then show ?case by (cases b) (auto simp: prefix_Cons)
next
  case (Cons c a)
  show ?case
  proof (cases b)
    case Nil
    then show ?thesis using Cons.prems by (cases y) (auto simp: prefix_Cons)
  next
    case (Cons c' b')
    then show ?thesis using Cons.prems Cons.IH [of b'] by auto
  qed
qed

lemma pointer_hd: "pointer p = [] \<or> hd (pointer p) = slash"
  by (cases p) auto

lemma prefix_pointer: "prefix (pointer q @ [slash]) (pointer r) \<longleftrightarrow> (\<exists>k ks. r = q @ k # ks)"
proof
  assume "prefix (pointer q @ [slash]) (pointer r)"
  then show "\<exists>k ks. r = q @ k # ks"
  proof (induction q arbitrary: r)
    case Nil
    then show ?case by (cases r) auto
  next
    case (Cons p ps)
    then obtain p' rs where r: "r = p' # rs" by (cases r) auto
    have "\<exists>x. pointer ps @ [slash] = slash # x" by (cases ps) auto
    then obtain x where x: "pointer ps @ [slash] = slash # x" by blast
    have "prefix (escape_token p @ slash # x) (escape_token p' @ pointer rs)"
      using Cons.prems r x by simp
    from slash_split [OF _ _ this pointer_hd]
    have "escape_token p = escape_token p' \<and> prefix (pointer ps @ [slash]) (pointer rs)"
      using x by simp
    moreover have "p = p'" using calculation decode_escape by (metis option.inject)
    ultimately show ?case using Cons.IH r by auto
  qed
next
  assume "\<exists>k ks. r = q @ k # ks"
  then show "prefix (pointer q @ [slash]) (pointer r)" by (auto simp: pointer_append)
qed

definition is_child :: "jstr list \<Rightarrow> bool \<Rightarrow> jstr \<times> span \<Rightarrow> bool" where
  "is_child q array = (\<lambda>(ptr, sp).
     case child_rest (pointer q) ptr of
       None \<Rightarrow> False
     | Some rest \<Rightarrow> slash \<notin> set rest \<and> (array \<longrightarrow> is_index rest))"

lemma slash_in_pointer: "ks \<noteq> [] \<Longrightarrow> slash \<in> set (pointer ks)"
  by (cases ks) auto

lemma is_child_iff:
  "is_child q array (pointer r, sp) \<longleftrightarrow>
     (\<exists>k. r = q @ [k] \<and> (array \<longrightarrow> is_index (escape_token k)))"
proof (cases "\<exists>k ks. r = q @ k # ks")
  case True
  then obtain k ks where r: "r = q @ k # ks" by blast
  then have "child_rest (pointer q) (pointer r) = Some (escape_token k @ pointer ks)"
    using prefix_pointer [of q r] by (simp add: child_rest_def pointer_append)
  then show ?thesis using r slash_in_pointer [of ks] by (cases "ks = []") (auto simp: is_child_def)
next
  case False
  then have "child_rest (pointer q) (pointer r) = None"
    using prefix_pointer [of q r] by (simp add: child_rest_def)
  then show ?thesis using False by (auto simp: is_child_def)
qed

lemma escape_digits: "list_all is_digit k \<Longrightarrow> escape_token k = k"
  by (induction k) (auto dest: is_digit_plain)

lemma is_child_dec [simp]: "is_child q array (pointer (q @ [dec i]), sp)"
proof -
  have "escape_token (dec i) = dec i" using escape_digits dec_digits by (simp add: list_all_iff)
  then show ?thesis by (simp add: is_child_iff)
qed

lemma nodes_own_last:
  obtains inner where
    "nodes p s m c = inner @ [(pointer p, span_of p s (s + length (render c)) m)]"
    "\<And>e. e \<in> set inner \<Longrightarrow> \<exists>k. below (p @ [k]) e"
proof (cases c)
  case (Obj w ms)
  then show ?thesis
    using that [of "member_nodes p (Suc s) ms"] nodes_all_below(2) [of ms p "Suc s"]
    unfolding list_all_iff by (metis nodes.simps(2))
next
  case (Arr w es)
  then show ?thesis
    using that [of "element_nodes p 0 (Suc s) es"] nodes_all_below(3) [of 0 es p "Suc s"]
    unfolding list_all_iff by (metis nodes.simps(3))
qed (use that [of "[]"] in simp)

lemma children_of_child:
  assumes "is_child q array (pointer (q @ [k]), undefined)"
  shows "filter (is_child q array) (nodes (q @ [k]) s m c)
     = [(pointer (q @ [k]), span_of (q @ [k]) s (s + length (render c)) m)]"
proof -
  obtain inner where i: "nodes (q @ [k]) s m c = inner @ [(pointer (q @ [k]), span_of (q @ [k]) s (s + length (render c)) m)]"
    "\<And>e. e \<in> set inner \<Longrightarrow> \<exists>k'. below ((q @ [k]) @ [k']) e"
    using nodes_own_last [of "q @ [k]" s m c] by metis
  have "\<not> is_child q array e" if "e \<in> set inner" for e
    using i(2) [OF that] by (cases e) (auto simp: below_def is_child_iff)
  then show ?thesis using i(1) assms by (auto simp: is_child_iff filter_empty_conv)
qed

text \<open>
  A container's items: the layout in front of a member or an element, its bytes, and the layout
  behind it.
\<close>

type_synonym item = "jstr \<times> jstr \<times> jstr"

primrec member_item :: "member \<Rightarrow> item" where
  "member_item (Member l n a b c t) = (l, n @ a @ colon # b @ render c, t)"

primrec element_item :: "element \<Rightarrow> item" where
  "element_item (Element l c t) = (l, render c, t)"

fun flat :: "item \<Rightarrow> jstr" where
  "flat (l, b, t) = l @ b @ t"

primrec items :: "tree \<Rightarrow> item list" where
  "items (Leaf t) = []"
| "items (Obj w ms) = map member_item ms"
| "items (Arr w es) = map element_item es"

primrec keys :: "tree \<Rightarrow> jstr list" where
  "keys (Leaf t) = []"
| "keys (Obj w ms) = map member_name ms"
| "keys (Arr w es) = map dec [0..<length es]"

text \<open>What hangs below a container, in the order of its text: a name for a member, none for an element.\<close>

primrec branches :: "tree \<Rightarrow> (jstr \<times> tree) list" where
  "branches (Leaf t) = []"
| "branches (Obj w ms) = map (\<lambda>m. (member_name m, element_tree (slot_of m))) ms"
| "branches (Arr w es) = map (\<lambda>e. ([], element_tree e)) es"

primrec is_arr :: "tree \<Rightarrow> bool" where
  "is_arr (Leaf t) = False"
| "is_arr (Obj w ms) = False"
| "is_arr (Arr w es) = True"

primrec is_container :: "tree \<Rightarrow> bool" where
  "is_container (Leaf t) = False"
| "is_container (Obj w ms) = True"
| "is_container (Arr w es) = True"

definition opener :: "tree \<Rightarrow> code_unit" where
  "opener d = (if is_arr d then open_bracket else open_brace)"

definition closer :: "tree \<Rightarrow> code_unit" where
  "closer d = (if is_arr d then close_bracket else close_brace)"

lemma flat_member_item [simp]: "flat (member_item m) = render_member m"
  by (cases m) simp

lemma flat_element_item [simp]: "flat (element_item e) = render_element e"
  by (cases e) simp

lemma render_items:
  "\<lbrakk>is_container d; items d \<noteq> []\<rbrakk> \<Longrightarrow>
     render d = opener d # join_with [comma] (map flat (items d)) @ [closer d]"
  by (cases d) (simp_all add: opener_def closer_def comp_def)

definition view :: "span \<Rightarrow> jstr \<times> nat \<times> nat" where
  "view sp = (span_pointer sp, memberStart sp, memberEnd sp)"

lemma view_span_of [simp]: "view (span_of p vs ve ms) = (pointer p, ms, ve)"
  by (simp add: view_def span_of_def)

fun item_views :: "jstr list \<Rightarrow> nat \<Rightarrow> jstr list \<Rightarrow> item list \<Rightarrow> (jstr \<times> nat \<times> nat) list" where
  "item_views q s (k # ks) ((l, b, t) # its) =
     (pointer (q @ [k]), s + length l, s + length l + length b)
     # item_views q (s + length l + length b + length t + 1) ks its"
| "item_views q s ks its = []"

lemma filter_children_members:
  "map (view \<circ> snd) (filter (is_child q False) (member_nodes q s ms))
     = item_views q s (map member_name ms) (map member_item ms)"
proof (induction ms arbitrary: s)
  case (Cons m ms)
  obtain l n a b c t where m: "m = Member l n a b c t" by (cases m)
  have "is_child q False (pointer (q @ [name_of n]), undefined)" by (simp add: is_child_iff)
  from children_of_child [OF this] show ?case
    by (simp add: m Cons.IH [unfolded comp_def] add_ac)
qed simp

lemma filter_children_elements:
  "map (view \<circ> snd) (filter (is_child q True) (element_nodes q i s es))
     = item_views q s (map dec [i..<i + length es]) (map element_item es)"
proof (induction es arbitrary: i s)
  case (Cons e es)
  obtain l c t where e: "e = Element l c t" by (cases e)
  show ?case
    by (simp add: e Cons.IH [unfolded comp_def] add_ac children_of_child upt_conv_Cons del: upt_Suc)
qed simp

lemma length_item_views [simp]: "length (item_views q s ks its) = min (length ks) (length its)"
  by (induction q s ks its rule: item_views.induct) auto

lemma item_views_nth:
  "\<lbrakk>i < length its; length ks = length its; its ! i = (l, b, t)\<rbrakk> \<Longrightarrow>
     item_views q s ks its ! i =
       (pointer (q @ [ks ! i]),
        s + length (items_before [comma] (map flat (take i its))) + length l,
        s + length (items_before [comma] (map flat (take i its))) + length l + length b)"
proof (induction q s ks its arbitrary: i rule: item_views.induct)
  case (1 q s k ks l' b' t' its)
  then show ?case by (cases i) (simp_all add: add_ac)
qed simp_all

lemma sorted_item_views: "sorted (map (fst \<circ> snd) (item_views q s ks its))
    \<and> (\<forall>x \<in> set (item_views q s ks its). s \<le> fst (snd x))"
  by (induction q s ks its rule: item_views.induct) fastforce+

lemma children_of_own: "filter (is_child q array) [(pointer q, sp)] = []"
  by (simp add: is_child_iff)

lemma childSpans_views:
  assumes d: "document e" and x: "slot_at e q = Some x" and c: "is_container (element_tree x)"
  shows "map view (childSpans (index_of e) (pointer q) (is_arr (element_tree x)))
    = item_views q (origin e q + length (elead x) + 1) (keys (element_tree x)) (items (element_tree x))"
proof -
  let ?c = "element_tree x" and ?vs = "origin e q + length (elead x)"
  let ?child = "is_child q (is_arr ?c)"
  obtain m where m: "filter (below q) (ix_spans (index_of e)) = nodes q ?vs m ?c"
    using spans_below [OF d x] by blast
  have "below q p" if ch: "?child p" and p: "p \<in> set (ix_spans (index_of e))" for p
  proof -
    obtain r where "fst p = pointer r"
      using p nodes_all_below(1) [of "[]"] unfolding index_spans [OF d] list_all_iff below_def by force
    then show ?thesis using ch by (cases p) (auto simp: is_child_iff)
  qed
  then have "filter ?child (ix_spans (index_of e)) = filter ?child (filter (below q) (ix_spans (index_of e)))"
    by (auto simp: filter_filter intro: filter_cong)
  then have f: "filter ?child (ix_spans (index_of e)) = filter ?child (nodes q ?vs m ?c)"
    using m by simp
  have views: "map (view \<circ> snd) (filter ?child (nodes q ?vs m ?c)) = item_views q (Suc ?vs) (keys ?c) (items ?c)"
    using c children_of_own filter_children_members filter_children_elements [of q 0]
    by (cases ?c) (simp_all del: filter.simps)
  let ?found = "map snd (filter ?child (ix_spans (index_of e)))"
  have "map memberStart ?found = map (fst \<circ> snd) (map (view \<circ> snd) (filter ?child (nodes q ?vs m ?c)))"
    using f by (simp add: view_def)
  then have "sorted (map memberStart ?found)"
    unfolding views using sorted_item_views by auto
  then have "childSpans (index_of e) (pointer q) (is_arr ?c) = ?found"
    by (simp add: childSpans_def is_child_def sort_key_id_if_sorted)
  then show ?thesis using f views by simp
qed

text \<open>The bytes around a container, and the container exchanged for another one.\<close>

definition with_tree :: "element \<Rightarrow> tree \<Rightarrow> element" where
  "with_tree x d = Element (elead x) d (etrail x)"

lemma with_tree_simps [simp]:
  "element_tree (with_tree x d) = d" "elead (with_tree x d) = elead x" "etrail (with_tree x d) = etrail x"
  by (simp_all add: with_tree_def)

lemma container_split:
  assumes "slot_at e q = Some x"
  obtains PRE POST where "length PRE = origin e q + length (elead x)"
    "render_element e = PRE @ render (element_tree x) @ POST"
    "\<And>d. render_element (put e q (with_tree x d)) = PRE @ render d @ POST"
proof -
  obtain pre post where p: "length pre = origin e q" "render_element e = pre @ render_element x @ post"
    "\<And>y. render_element (put e q y) = pre @ render_element y @ post"
    using put_split [OF assms] by blast
  show ?thesis
    by (rule that [of "pre @ elead x" "etrail x @ post"])
      (simp_all add: p(1) p(2) p(3) render_element_eq [of x] render_element_eq [of "with_tree x d" for d])
qed

lemma span_pointer_key:
  "list_all (\<lambda>e. span_pointer (snd e) = fst e) (nodes p s m c)"
  "list_all (\<lambda>e. span_pointer (snd e) = fst e) (member_nodes p s ms)"
  "list_all (\<lambda>e. span_pointer (snd e) = fst e) (element_nodes p i s es)"
  by (induction p s m c and p s ms and p i s es rule: nodes_member_nodes_element_nodes.induct)
    (simp_all add: span_of_def)

lemma length_keys [simp]: "length (keys d) = length (items d)"
  by (cases d) simp_all

lemma spanAt_child:
  assumes d: "document e" and x: "slot_at e q = Some x" and c: "is_container (element_tree x)"
    and i: "i < length (items (element_tree x))" and it: "items (element_tree x) ! i = (l, b, t)"
  obtains sp where "spanAt (index_of e) (pointer (q @ [keys (element_tree x) ! i])) = Some sp"
    "memberStart sp = origin e q + length (elead x) + 1
       + length (items_before [comma] (map flat (take i (items (element_tree x))))) + length l"
    "memberEnd sp = memberStart sp + length b"
proof -
  let ?c = "element_tree x" and ?found = "childSpans (index_of e) (pointer q) (is_arr (element_tree x))"
  note views = childSpans_views [OF d x c]
  have len: "length ?found = length (items ?c)"
    using arg_cong [OF views, of length] by simp
  define sp where "sp = ?found ! i"
  have "view sp = item_views q (origin e q + length (elead x) + 1) (keys ?c) (items ?c) ! i"
    using arg_cong [OF views, of "\<lambda>vs. vs ! i"] i len by (simp add: sp_def)
  then have v: "view sp = (pointer (q @ [keys ?c ! i]),
        origin e q + length (elead x) + 1 + length (items_before [comma] (map flat (take i (items ?c)))) + length l,
        origin e q + length (elead x) + 1 + length (items_before [comma] (map flat (take i (items ?c)))) + length l
          + length b)"
    using item_views_nth [OF i _ it, of "keys ?c"] by simp
  have "sp \<in> set ?found" using i len by (simp add: sp_def)
  then obtain ptr where "(ptr, sp) \<in> set (ix_spans (index_of e))"
    by (auto simp: childSpans_def)
  moreover have "span_pointer sp = pointer (q @ [keys ?c ! i])" using v by (simp add: view_def)
  ultimately have "(pointer (q @ [keys ?c ! i]), sp) \<in> set (ix_spans (index_of e))"
    using span_pointer_key(1) by (fastforce simp: index_spans [OF d] list_all_iff)
  moreover have "distinct (map fst (ix_spans (index_of e)))"
    using distinct_nodes(1) d by (simp add: index_spans document_def)
  ultimately have "spanAt (index_of e) (pointer (q @ [keys ?c ! i])) = Some sp"
    by (simp add: spanAt_def)
  then show ?thesis using that v by (simp add: view_def)
qed

section \<open>Removing a member\<close>

lemma layout_start_end: "A = [] \<or> \<not> isSpace (last A) \<Longrightarrow> layout_start (A @ B) (length A) = length A"
  by (cases A rule: rev_cases) simp_all

lemma layout_start_run:
  "\<lbrakk>ws w; A = [] \<or> \<not> isSpace (last A)\<rbrakk> \<Longrightarrow> layout_start (A @ w @ B) (length A + length w) = length A"
proof (induction w arbitrary: B rule: rev_induct)
  case (snoc c w)
  have "layout_start (A @ w @ c # B) (length A + length w) = length A" using snoc by simp
  moreover have "(A @ w @ c # B) ! (length A + length w) = c"
    by (metis append_assoc length_append nth_append_length)
  ultimately show ?case using snoc.prems by simp
qed (use layout_start_end in simp)

lemma skip_run: "\<lbrakk>ws w; \<not> isSpace c\<rbrakk> \<Longrightarrow> skip (A @ w @ c # B) (length A) = length A + length w"
  by (rule skip_drop [of _ _ w "c # B"]) simp_all

lemma char_before_end: "char_before (A @ B) (length A) = (if A = [] then None else Some (last A))"
  by (cases A rule: rev_cases) (simp_all add: char_before_def)

lemma items_before_join: "xs \<noteq> [] \<Longrightarrow> items_before s xs = join_with s xs @ s"
  by (induction xs rule: induct_list012) simp_all

lemma join_with_after: "ys \<noteq> [] \<Longrightarrow> items_after s ys = s @ join_with s ys"
  by (induction ys rule: induct_list012) simp_all

lemma removeMember_bytes:
  assumes sp: "spanAt ix ptr = Some sp" "ptr \<noteq> []"
    and src: "src = PRE @ op # join_with [comma] (map flat (xs @ (l, b, t) # ys)) @ cl # POST"
    and st: "memberStart sp = length PRE + 1 + length (items_before [comma] (map flat xs)) + length l"
    and en: "memberEnd sp = memberStart sp + length b"
    and w: "ws l" "ws t" and op: "\<not> isSpace op" "op \<noteq> comma" and cl: "\<not> isSpace cl" "cl \<noteq> comma"
  shows "removeMember src ix ptr = PRE @ op #
    (if ys = [] then join_with [comma] (map flat xs) @ t else join_with [comma] (map flat (xs @ ys))) @ cl # POST"
proof -
  define A where "A = PRE @ op # items_before [comma] (map flat xs)"
  define c R where "c = (if ys = [] then cl else comma)"
    and "R = (if ys = [] then POST else join_with [comma] (map flat ys) @ cl # POST)"
  have la: "last A = (if xs = [] then op else comma)" "A \<noteq> []"
    by (simp_all add: A_def items_before_join)
  have rest: "items_after [comma] (map flat ys) @ cl # POST = c # R"
    by (simp add: c_def R_def join_with_after)
  have s: "src = A @ l @ b @ t @ c # R"
    using rest by (simp add: src A_def join_with_split)
  have c: "\<not> isSpace c" using cl by (simp add: c_def)
  have ls: "layout_start src (memberStart sp) = length A"
    using layout_start_run [OF w(1), of A "b @ t @ c # R"] la op by (simp add: s st A_def add_ac)
  have sk: "skip src (memberEnd sp) = length A + length l + length b + length t"
    using skip_run [OF w(2) c, of "A @ l @ b" R] by (simp add: s en st A_def add_ac)
  have ahead: "char_at src (length A + length l + length b + length t) = Some c"
    using char_at_mid [of "A @ l @ b @ t" c R] by (simp add: s add_ac)
  have bk: "char_before src (length A) = Some (last A)"
    using la by (simp add: s char_before_end)
  have en': "memberEnd sp = length A + length l + length b" by (simp add: en st A_def)
  show ?thesis
  proof (cases "ys = []")
    case False
    then have "removeMember src ix ptr = take (length A) src @ drop (Suc (length A + length l + length b + length t)) src"
      using sp ls sk ahead by (simp add: removeMember_def c_def)
    also have "\<dots> = A @ R" by (simp add: s)
    also have "\<dots> = PRE @ op # join_with [comma] (map flat (xs @ ys)) @ cl # POST"
      using False by (cases "xs = []") (simp_all add: A_def R_def items_before_join join_with_append)
    finally show ?thesis using False by simp
  next
    case True
    then have "removeMember src ix ptr = take (if xs = [] then length A else length A - 1) src @ drop (memberEnd sp) src"
      using sp ls sk ahead bk la op cl by (simp add: removeMember_def c_def)
    also have "\<dots> = (if xs = [] then A else butlast A) @ t @ cl # POST"
      using True by (simp add: s en' c_def R_def butlast_conv_take)
    also have "\<dots> = PRE @ op # join_with [comma] (map flat xs) @ t @ cl # POST"
      by (simp add: A_def items_before_join butlast_append)
    finally show ?thesis using True by simp
  qed
qed

fun drop_child :: "jstr \<Rightarrow> jval \<Rightarrow> jval" where
  "drop_child k (JObj ms) = JObj (filter (\<lambda>(n, w). n \<noteq> k) ms)"
| "drop_child k (JArr xs) =
     (case arrayIndex k of None \<Rightarrow> JArr xs | Some i \<Rightarrow> JArr (take i xs @ drop (Suc i) xs))"
| "drop_child k v = v"

fun on_last :: "('a \<Rightarrow> 'a) \<Rightarrow> 'a list \<Rightarrow> 'a list" where
  "on_last f [] = []"
| "on_last f [x] = [f x]"
| "on_last f (x # y # zs) = x # on_last f (y # zs)"

lemma on_last_map: "(\<And>x. g (f x) = g x) \<Longrightarrow> map g (on_last f xs) = map g xs"
  by (induction f xs rule: on_last.induct) simp_all

lemma on_last_all: "\<lbrakk>list_all P xs; \<And>x. P x \<Longrightarrow> P (f x)\<rbrakk> \<Longrightarrow> list_all P (on_last f xs)"
  by (induction f xs rule: on_last.induct) simp_all

lemma on_last_Nil [simp]: "on_last f xs = [] \<longleftrightarrow> xs = []"
  by (induction f xs rule: on_last.induct) simp_all

lemma on_last_join:
  "\<lbrakk>xs \<noteq> []; \<And>x. r (f x) = r x @ t\<rbrakk> \<Longrightarrow> join_with s (map r (on_last f xs)) = join_with s (map r xs) @ t"
  by (induction f xs rule: on_last.induct) (simp_all add: join_with_Cons)

primrec trail_member :: "jstr \<Rightarrow> member \<Rightarrow> member" where
  "trail_member t' (Member l n a b c t) = Member l n a b c (t @ t')"

primrec trail_element :: "jstr \<Rightarrow> element \<Rightarrow> element" where
  "trail_element t' (Element l c t) = Element l c (t @ t')"

lemma trail_simps [simp]:
  "element_tree (slot_of (trail_member t m)) = element_tree (slot_of m)"
  "render_member (trail_member t m) = render_member m @ t" "member_name (trail_member t m) = member_name m"
  "tree_member (trail_member t m) = tree_member m" "uniq_member (trail_member t m) = uniq_member m"
  "ws t \<Longrightarrow> wf_member (trail_member t m) = wf_member m"
  "render_element (trail_element t e) = render_element e @ t"
  "element_tree (trail_element t e) = element_tree e"
  "ws t \<Longrightarrow> wf_element (trail_element t e) = wf_element e"
  by (cases m; simp)+ (cases e; simp)+

lemma filter_distinct:
  "\<lbrakk>distinct (map f xs); i < length xs; f (xs ! i) = k\<rbrakk>
     \<Longrightarrow> filter (\<lambda>x. f x \<noteq> k) xs = take i xs @ drop (Suc i) xs"
proof (induction xs arbitrary: i)
  case (Cons x xs)
  show ?case
  proof (cases i)
    case 0
    then have "f x \<notin> f ` set xs" "k = f x" using Cons.prems by auto
    then have "\<forall>y \<in> set xs. f y \<noteq> k" by (metis imageI)
    then show ?thesis using 0 Cons.prems by simp
  next
    case (Suc j)
    then have "f x \<noteq> k" using Cons.prems by auto
    then show ?thesis using Suc Cons by simp
  qed
qed simp

text \<open>What is left of a container's bytes, and a tree that has exactly those.\<close>

definition removed_bytes :: "tree \<Rightarrow> nat \<Rightarrow> jstr" where
  "removed_bytes d i =
     (let xs = take i (items d); ys = drop (Suc i) (items d); t = snd (snd (items d ! i)) in
      opener d #
      (if ys = [] then join_with [comma] (map flat xs) @ t else join_with [comma] (map flat (xs @ ys)))
      @ [closer d])"

lemma removed_object:
  assumes d: "wf_tree (Obj w ms)" "uniq (Obj w ms)" and i: "i < length ms" and k: "member_name (ms ! i) = k"
  shows "\<exists>d'. wf_tree d' \<and> uniq d' \<and> render d' = removed_bytes (Obj w ms) i
    \<and> tree_value d' = drop_child k (tree_value (Obj w ms)) \<and> \<not> is_arr d'
    \<and> branches d' = take i (branches (Obj w ms)) @ drop (Suc i) (branches (Obj w ms))"
proof -
  obtain l n a b c t where m: "ms ! i = Member l n a b c t" by (cases "ms ! i")
  have "wf_member (ms ! i)" using d i by (simp add: list_all_length)
  then have t: "ws t" by (simp add: m)
  let ?rest = "take i ms @ drop (Suc i) ms" and ?first = "take i ms"
  have "map tree_member ?rest = filter (\<lambda>(n, w). n \<noteq> k) (map tree_member ms)"
    using filter_distinct [of "fst" "map tree_member ms" i k] d i k
    by (simp add: comp_def case_prod_unfold take_map drop_map)
  then have v: "JObj (map tree_member ?rest) = drop_child k (tree_value (Obj w ms))"
    using tree_value_Obj [OF d(2)] by (simp del: tree_value.simps)
  have all: "list_all wf_member ?rest" "list_all uniq_member ?rest"
    using d by (auto simp: list_all_iff dest: in_set_takeD in_set_dropD)
  have "distinct (map member_name ms)" using d by simp
  then have dist: "distinct (map member_name ?rest)"
    using filter_distinct [of member_name ms i k] i k by (metis distinct_map_filter)
  show ?thesis
  proof (cases "drop (Suc i) ms = []")
    case False
    then show ?thesis using all dist d v tree_value_Obj [of w ?rest]
      by (intro exI [of _ "Obj w ?rest"])
        (simp_all add: removed_bytes_def opener_def closer_def take_map drop_map comp_def del: tree_value.simps)
  next
    case True
    let ?ms = "on_last (trail_member t) ?first"
    have "uniq (Obj t ?ms)" "wf_tree (Obj t ?ms)"
      using all dist True t by (simp_all add: on_last_map on_last_all)
    moreover have "tree_value (Obj t ?ms) = drop_child k (tree_value (Obj w ms))"
      using tree_value_Obj [OF calculation(1)] v True by (simp add: on_last_map del: tree_value.simps)
    moreover have "render (Obj t ?ms) = removed_bytes (Obj w ms) i"
      using True i by (simp add: removed_bytes_def opener_def closer_def take_map drop_map comp_def m on_last_join)
    moreover have "branches (Obj t ?ms) = take i (branches (Obj w ms)) @ drop (Suc i) (branches (Obj w ms))"
      using True by (simp add: on_last_map take_map drop_map)
    ultimately show ?thesis by (intro exI [of _ "Obj t ?ms"]) simp
  qed
qed

lemma removed_array:
  assumes d: "wf_tree (Arr w es)" "uniq (Arr w es)" and i: "i < length es"
  shows "\<exists>d'. wf_tree d' \<and> uniq d' \<and> render d' = removed_bytes (Arr w es) i
    \<and> tree_value d' = drop_child (dec i) (tree_value (Arr w es)) \<and> is_arr d'
    \<and> branches d' = take i (branches (Arr w es)) @ drop (Suc i) (branches (Arr w es))"
proof -
  obtain l c t where e: "es ! i = Element l c t" by (cases "es ! i")
  have "wf_element (es ! i)" using d i by (simp add: list_all_length)
  then have t: "ws t" by (simp add: e)
  let ?rest = "take i es @ drop (Suc i) es" and ?first = "take i es"
  have all: "list_all wf_element ?rest" "list_all uniq_element ?rest"
    using d by (auto simp: list_all_iff dest: in_set_takeD in_set_dropD)
  have v: "JArr (map tree_element ?rest) = drop_child (dec i) (tree_value (Arr w es))"
    by (simp add: take_map drop_map)
  show ?thesis
  proof (cases "drop (Suc i) es = []")
    case False
    then show ?thesis using all d v
      by (intro exI [of _ "Arr w ?rest"])
        (simp_all add: removed_bytes_def opener_def closer_def take_map drop_map comp_def del: uniq_element_iff)
  next
    case True
    let ?es = "on_last (trail_element t) ?first"
    have "wf_tree (Arr t ?es)" "uniq (Arr t ?es)"
      using all True t by (auto intro!: on_last_all simp del: on_last.simps)
    moreover have "tree_value (Arr t ?es) = drop_child (dec i) (tree_value (Arr w es))"
      using v True by (simp add: on_last_map)
    moreover have "render (Arr t ?es) = removed_bytes (Arr w es) i"
      using True i by (simp add: removed_bytes_def opener_def closer_def take_map drop_map comp_def e on_last_join)
    moreover have "branches (Arr t ?es) = take i (branches (Arr w es)) @ drop (Suc i) (branches (Arr w es))"
      using True by (simp add: on_last_map take_map drop_map)
    ultimately show ?thesis by (intro exI [of _ "Arr t ?es"]) simp
  qed
qed

lemma document_with_tree: "\<lbrakk>document x; wf_tree d; uniq d\<rbrakk> \<Longrightarrow> document (with_tree x d)"
  by (simp add: document_def wf_element_iff)

lemma edited_put_tree:
  assumes e: "document e" "slot_at e q = Some x" and d: "wf_tree d" "uniq d" "tree_value d = f (tree_element x)"
  shows "edited (render_element e) q f (render_element (put e q (with_tree x d)))"
  using edited_put [OF e document_with_tree [OF document_slot_at [OF e(2,1)] d(1,2)], of f] d(3) by simp

lemma item_layout: "\<lbrakk>wf_tree d; i < length (items d); items d ! i = (l, b, t)\<rbrakk> \<Longrightarrow> ws l \<and> ws t"
proof (cases d)
  case (Obj w ms)
  assume a: "wf_tree d" "i < length (items d)" "items d ! i = (l, b, t)"
  then have "wf_member (ms ! i)" using Obj by (simp add: list_all_length)
  then show ?thesis using a Obj by (cases "ms ! i") simp
next
  case (Arr w es)
  assume a: "wf_tree d" "i < length (items d)" "items d ! i = (l, b, t)"
  then have "wf_element (es ! i)" using Arr by (simp add: list_all_length)
  then show ?thesis using a Arr by (cases "es ! i") simp
qed simp

lemma brackets [simp]:
  "\<not> isSpace (opener d)" "opener d \<noteq> comma" "\<not> isSpace (closer d)" "closer d \<noteq> comma"
  by (simp_all add: opener_def closer_def)

lemma step_index_items:
  "step_index d k = Some i \<Longrightarrow> is_container d \<and> i < length (items d) \<and> keys d ! i = k"
  by (cases d) (auto simp: arrayIndex_eq dest: find_index_Some split: option.splits if_splits)

lemma removed_tree:
  assumes "wf_tree d" "uniq d" "step_index d k = Some i"
  shows "\<exists>d'. wf_tree d' \<and> uniq d' \<and> render d' = removed_bytes d i \<and> tree_value d' = drop_child k (tree_value d)
    \<and> is_arr d' = is_arr d \<and> branches d' = take i (branches d) @ drop (Suc i) (branches d)"
proof (cases d)
  case (Obj w ms)
  then show ?thesis using removed_object [of w ms i k] assms find_index_Some by auto
next
  case (Arr w es)
  then have "k = dec i" using assms(3) by (auto simp: arrayIndex_eq split: option.splits if_splits)
  then show ?thesis using Arr removed_array [of w es i] assms step_index_items [OF assms(3)] by simp
qed (use assms in simp)

lemma removeMember_slot:
  assumes e: "document e" "slot_at e q = Some x" and k: "step_index (element_tree x) k = Some i"
    and d': "render d' = removed_bytes (element_tree x) i"
  shows "removeMember (render_element e) (index_of e) (pointer (q @ [k])) = render_element (put e q (with_tree x d'))"
proof -
  let ?c = "element_tree x"
  have c: "is_container ?c" "i < length (items ?c)" "keys ?c ! i = k" using step_index_items [OF k] by auto
  obtain l b t where it: "items ?c ! i = (l, b, t)" by (metis prod_cases3)
  obtain PRE POST where P: "length PRE = origin e q + length (elead x)"
    "render_element e = PRE @ render ?c @ POST"
    "\<And>d. render_element (put e q (with_tree x d)) = PRE @ render d @ POST"
    using container_split [OF e(2)] by blast
  obtain sp where sp: "spanAt (index_of e) (pointer (q @ [k])) = Some sp"
    "memberStart sp = length PRE + 1 + length (items_before [comma] (map flat (take i (items ?c)))) + length l"
    "memberEnd sp = memberStart sp + length b"
    using spanAt_child [OF e c(1,2) it] c(3) P(1) by metis
  have split: "items ?c = take i (items ?c) @ (l, b, t) # drop (Suc i) (items ?c)"
    using id_take_nth_drop [OF c(2)] it by simp
  have ne: "items ?c \<noteq> []" using c(2) by auto
  have src: "render_element e = PRE @ opener ?c
      # join_with [comma] (map flat (take i (items ?c) @ (l, b, t) # drop (Suc i) (items ?c))) @ closer ?c # POST"
    using P(2) render_items [OF c(1) ne] split by simp
  have w: "wf_tree ?c" using document_slot_at [OF e(2,1)] by (simp add: document_def wf_element_iff)
  show ?thesis
    using removeMember_bytes [OF sp(1) _ src sp(2,3)] item_layout [OF w c(2) it] P(3) d'
    by (simp add: removed_bytes_def Let_def it)
qed

lemma edited_removeMember:
  assumes v: "reads src v"
  shows "edited src q (drop_child k) (removeMember src (indexDocument src) (pointer (q @ [k])))"
proof -
  obtain e where e: "src = render_element e" "document e" "v = tree_element e" "indexDocument src = index_of e"
    using v by (rule reads_cases)
  have unchanged: "removeMember src (indexDocument src) (pointer (q @ [k])) = src" if "slot_at e (q @ [k]) = None"
    using spanAt_none [OF e(2) that] e by (simp add: removeMember_def)
  have slot_snoc: "slot_at e (q @ [k]) = (case slot_at e q of None \<Rightarrow> None | Some x \<Rightarrow> slot_at x [k])"
    by (induction e q rule: slot_at.induct) (auto split: option.splits)
  show ?thesis
  proof (cases "slot_at e q")
    case None
    then show ?thesis using unchanged slot_snoc e edited_none [OF e(2) None] by simp
  next
    case (Some x)
    let ?c = "element_tree x"
    have x: "wf_tree ?c" "uniq ?c" using document_slot_at [OF Some e(2)] by (simp_all add: document_def wf_element_iff)
    show ?thesis
    proof (cases "step_index ?c k")
      case None
      have "drop_child k (tree_value ?c) = tree_value ?c"
      proof (cases ?c)
        case (Obj w ms)
        then show ?thesis using None tree_value_Obj [of w ms] x
          by (auto simp: find_index_None filter_id_conv) (metis fst_conv fst_tree_member)
      next
        case (Arr w es)
        then show ?thesis using None by (auto split: option.splits if_splits)
      qed (simp add: leaf_value_def)
      then show ?thesis
        using unchanged slot_snoc Some None e edited_same [OF e(2), of q "drop_child k"] by simp
    next
      fix i assume i: "step_index ?c k = Some i"
      obtain d where d: "wf_tree d" "uniq d" "render d = removed_bytes ?c i" "tree_value d = drop_child k (tree_value ?c)"
        using removed_tree [OF x i] by blast
      show ?thesis
        using removeMember_slot [OF e(2) Some i d(3)] edited_put_tree [OF e(2) Some d(1,2), of "drop_child k"] d(4) e
        by simp
    qed
  qed
qed

end
