(* ===== verification/Document_Strings.thy ===== *)
theory Document_Strings
  imports Document_Scan
begin

text \<open>
  \<open>JSON.stringify\<close> on a string against the two readers of string literals: \<open>JSON.parse\<close> gives the
  string back, and the scanner's loop ends where the literal ends, whatever stands behind it.
\<close>

section \<open>A string literal read back\<close>

lemma hex_value_digit: "n < 16 \<Longrightarrow> hex_value (hex_digit n) = Some n"
proof -
  assume "n < 16"
  then have "n \<in> set [0..<16]" by simp
  moreover have "list_all (\<lambda>n. hex_value (hex_digit n) = Some n) [0..<16]"
    by (simp add: upt_rec hex_value_def hex_digit_def is_digit_def digit_value_def)
  ultimately show ?thesis by (simp add: list_all_iff)
qed

lemma hex_digit_plain: "n < 16 \<Longrightarrow> hex_digit n \<noteq> backslash \<and> hex_digit n \<noteq> quote_mark"
proof -
  assume "n < 16"
  then have "n \<in> set [0..<16]" by simp
  moreover have "list_all (\<lambda>n. hex_digit n \<noteq> backslash \<and> hex_digit n \<noteq> quote_mark) [0..<16]"
    by (simp add: upt_rec hex_digit_def)
  ultimately show ?thesis by (simp add: list_all_iff)
qed

lemma nibbles: "n div 4096 * 4096 + n div 256 mod 16 * 256 + n div 16 mod 16 * 16 + n mod 16 = (n :: nat)"
proof -
  have d: "n div 256 = n div 16 div 16" "n div 4096 = n div 16 div 16 div 16"
    by (simp_all flip: div_mult2_eq)
  have "n div 16 * 16 + n mod 16 = n" "n div 16 div 16 * 16 + n div 16 mod 16 = n div 16"
    "n div 16 div 16 div 16 * 16 + n div 16 div 16 mod 16 = n div 16 div 16"
    by (simp_all only: div_mult_mod_eq)
  then show ?thesis unfolding d by linarith
qed

lemma hex4_unicode: "unat c div 4096 < 16 \<Longrightarrow>
  hex4 ([hex_digit (unat c div 4096), hex_digit (unat c div 256 mod 16),
            hex_digit (unat c div 16 mod 16), hex_digit (unat c mod 16)] @ r) = Some (c, r)"
  using nibbles [of "unat c"] by (simp add: hex4_def hex_value_digit)

lemma unat_nibble: "unat (c :: code_unit) div 4096 < 16"
  using unsigned_less [of c, where 'a = nat] by (simp add: less_mult_imp_div_less)

lemma string_body_unicode: "string_body (unicode_escape c @ r) = map_option (apfst ((#) c)) (string_body r)"
  using hex4_unicode [OF unat_nibble] by (simp add: unicode_escape_def Let_def)

lemma string_body_short:
  "short_escape c = Some e \<Longrightarrow> string_body (backslash # e # r) = map_option (apfst ((#) c)) (string_body r)"
  by (auto simp: short_escape_def unescape_def split: if_splits)

lemma string_body_plain:
  "\<lbrakk>c \<noteq> quote_mark; c \<noteq> backslash; \<not> c < 0x20\<rbrakk> \<Longrightarrow> string_body (c # r) = map_option (apfst ((#) c)) (string_body r)"
  by simp

lemma short_escape_None: "short_escape c = None \<Longrightarrow> c \<noteq> quote_mark \<and> c \<noteq> backslash"
  by (auto simp: short_escape_def split: if_splits)

lemma low_plain: "is_low c \<Longrightarrow> c \<noteq> quote_mark \<and> c \<noteq> backslash \<and> \<not> c < 0x20 \<and> \<not> is_high c \<and> short_escape c = None"
  by (auto simp: is_low_def is_high_def short_escape_def word_le_nat_alt word_less_nat_alt)

lemma string_body_quote: "string_body (quote_body s @ quote_mark # r) = Some (s, r)"
proof (induction s rule: quote_body.induct)
  case (2 c cs)
  show ?case
  proof (cases "short_escape c")
    case (Some e)
    then show ?thesis using 2 string_body_short by simp
  next
    case None
    note plain = short_escape_None [OF None]
    show ?thesis
    proof (cases "is_high c \<and> cs \<noteq> [] \<and> is_low (hd cs) \<and> \<not> c < 0x20")
      case True
      then show ?thesis using 2 None plain low_plain [of "hd cs"] by (cases cs) (simp_all add: string_body_plain)
    next
      case False
      then show ?thesis using 2 None plain string_body_unicode [of c] by auto
    qed
  qed
qed simp

lemma parse_stringify [simp]: "parse_string (stringify_string s) = Some s"
  using string_body_quote [of s "[]"] by (simp add: parse_string_def stringify_string_def)

section \<open>Where a written string ends\<close>

lemma string_end_plain:
  "\<lbrakk>c \<noteq> backslash; c \<noteq> quote_mark\<rbrakk> \<Longrightarrow> string_end (A @ c # r) (length A) = string_end (A @ c # r) (Suc (length A))"
  by (simp add: string_end.simps [of _ "length A"])

lemma string_end_escape:
  "string_end (A @ backslash # e # r) (length A) = string_end (A @ backslash # e # r) (length A + 2)"
  by (simp add: string_end.simps [of _ "length A"])

lemma string_end_plains:
  "list_all (\<lambda>c. c \<noteq> backslash \<and> c \<noteq> quote_mark) w
     \<Longrightarrow> string_end (A @ w @ r) (length A) = string_end (A @ w @ r) (length A + length w)"
proof (induction w arbitrary: A)
  case (Cons c w)
  then show ?case using string_end_plain [of c A "w @ r"] Cons.IH [of "A @ [c]"] by simp
qed simp

lemma string_end_unicode:
  "string_end (A @ unicode_escape c @ r) (length A)
     = string_end (A @ unicode_escape c @ r) (length A + length (unicode_escape c))"
proof -
  let ?h = "[hex_digit (unat c div 4096), hex_digit (unat c div 256 mod 16),
            hex_digit (unat c div 16 mod 16), hex_digit (unat c mod 16)]"
  have "list_all (\<lambda>c. c \<noteq> backslash \<and> c \<noteq> quote_mark) ?h"
    using hex_digit_plain unat_nibble [of c] by simp
  from string_end_plains [OF this, of "A @ js [CHR 0x5C, CHR ''u'']" r]
  show ?thesis using string_end_escape [of A "uc CHR ''u''" "?h @ r"]
    by (simp add: unicode_escape_def Let_def)
qed

lemma string_end_quote_body:
  "string_end (A @ quote_body s @ quote_mark # r) (length A) = Inr (length A + length (quote_body s) + 1)"
proof (induction s arbitrary: A rule: quote_body.induct)
  case 1
  show ?case by (simp add: string_end.simps)
next
  case (2 c cs)
  show ?case
  proof (cases "short_escape c")
    case (Some e)
    then have "string_end ((A @ [backslash, e]) @ quote_body cs @ quote_mark # r) (length (A @ [backslash, e]))
        = Inr (length (A @ [backslash, e]) + length (quote_body cs) + 1)"
      using 2 by blast
    then show ?thesis
      using Some string_end_escape [of A e "quote_body cs @ quote_mark # r"] by simp
  next
    case None
    note plain = short_escape_None [OF None]
    consider (escape) "quote_body (c # cs) = unicode_escape c @ quote_body cs"
        "\<And>A. string_end (A @ quote_body cs @ quote_mark # r) (length A) = Inr (length A + length (quote_body cs) + 1)"
      | (pair) d ds where "cs = d # ds" "is_low d" "quote_body (c # cs) = c # d # quote_body ds"
        "\<And>A. string_end (A @ quote_body ds @ quote_mark # r) (length A) = Inr (length A + length (quote_body ds) + 1)"
      | (single) "quote_body (c # cs) = c # quote_body cs"
        "\<And>A. string_end (A @ quote_body cs @ quote_mark # r) (length A) = Inr (length A + length (quote_body cs) + 1)"
    proof (cases "\<not> c < 0x20 \<and> is_high c \<and> cs \<noteq> [] \<and> is_low (hd cs)")
      case True
      then show ?thesis using 2 None by (intro pair [of "hd cs" "tl cs"]) auto
    next
      case False
      then have "string_end (A @ quote_body cs @ quote_mark # r) (length A) = Inr (length A + length (quote_body cs) + 1)" for A
        using 2 None by blast
      moreover have "quote_body (c # cs) = unicode_escape c @ quote_body cs \<or> quote_body (c # cs) = c # quote_body cs"
        using False None by auto
      ultimately show ?thesis using escape single by blast
    qed
    then show ?thesis
    proof cases
      case escape
      then show ?thesis
        using string_end_unicode [of A c "quote_body cs @ quote_mark # r"] escape(2) [of "A @ unicode_escape c"]
        by simp
    next
      case pair
      then show ?thesis
        using string_end_plains [of "[c, d]" A "quote_body ds @ quote_mark # r"] plain low_plain [of d]
          pair(4) [of "A @ [c, d]"] by simp
    next
      case single
      then show ?thesis
        using string_end_plain [of c A "quote_body cs @ quote_mark # r"] plain single(2) [of "A @ [c]"] by simp
    qed
  qed
qed

lemma raw_string_stringify [simp]: "raw_string (stringify_string s)"
  using string_end_quote_body [of "[quote_mark]" s "[]"]
  by (simp add: raw_string_def) (simp add: stringify_string_def char_at_def)

lemma name_of_stringify [simp]: "name_of (stringify_string s) = s"
  by (simp add: name_of_def)

end
