(* ===== verification/Document_Inserts.thy ===== *)
theory Document_Inserts
  imports Document_Edits Document_Strings "HOL-Library.Multiset"
begin

text \<open>
  \<open>insertMember\<close> and \<open>moveElement\<close> of \<open>documentText.ts\<close> against what a document says: an insertion
  adds exactly one member at the place asked for, a move permutes the elements of one array, and the
  layout of every slot stays where it was.
\<close>

section \<open>Inserting a member\<close>

definition child_keys :: "jval \<Rightarrow> jstr list" where
  "child_keys v = (case v of JObj ms \<Rightarrow> map fst ms | JArr xs \<Rightarrow> map dec [0..<length xs] | _ \<Rightarrow> [])"

definition place :: "jstr list \<Rightarrow> jstr list \<Rightarrow> placement \<Rightarrow> nat" where
  "place q ks placement =
     (case placement of
        First \<Rightarrow> 0
      | Last \<Rightarrow> length ks
      | After ptr \<Rightarrow> (case find_index (\<lambda>k. pointer (q @ [k]) = ptr) ks of
                     None \<Rightarrow> length ks | Some i \<Rightarrow> Suc i))"

fun insert_child :: "nat \<Rightarrow> jstr option \<Rightarrow> jval \<Rightarrow> jval \<Rightarrow> jval" where
  "insert_child k (Some n) j (JObj ms) = JObj (take k ms @ (n, j) # drop k ms)"
| "insert_child k None j (JArr xs) = JArr (take k xs @ j # drop k xs)"
| "insert_child k name j v = v"

definition inserted_items :: "item list \<Rightarrow> nat \<Rightarrow> jstr \<Rightarrow> item list" where
  "inserted_items its k written =
     (if length its \<le> k
      then butlast its @ [(fst (last its), fst (snd (last its)), []), (fst (last its), written, snd (snd (last its)))]
      else take k its @ (fst (its ! k), written, []) # drop k its)"

definition inserted_bytes :: "tree \<Rightarrow> nat \<Rightarrow> jstr \<Rightarrow> jstr" where
  "inserted_bytes d k written =
     opener d #
     (if items d = [] then js '' '' @ written @ js '' ''
      else join_with [comma] (map flat (inserted_items (items d) k written)))
     @ [closer d]"

lemma length_child_keys: "is_container d \<Longrightarrow> uniq d \<Longrightarrow> child_keys (tree_value d) = keys d"
  by (cases d) (auto simp: child_keys_def tree_value_Obj simp del: tree_value.simps(2))

lemma place_le: "place q ks placement \<le> length ks"
  by (auto simp: place_def dest: find_index_Some split: placement.split option.split)

lemma find_index_cong_map:
  "map f xs = map g ys \<Longrightarrow> find_index (\<lambda>x. f x = p) xs = find_index (\<lambda>y. g y = p) ys"
  using find_index_map [of "\<lambda>z. z = p" f xs] find_index_map [of "\<lambda>z. z = p" g ys] by simp

lemma fst_item_views: "length ks = length its \<Longrightarrow> map fst (item_views q s ks its) = map (\<lambda>k. pointer (q @ [k])) ks"
  by (induction q s ks its rule: item_views.induct) auto

lemma leadingLayout_bytes:
  "\<lbrakk>ws l; A = [] \<or> \<not> isSpace (last A); n = length A + length l\<rbrakk> \<Longrightarrow> leadingLayout (A @ l @ B) n = l"
  by (simp add: leadingLayout_def layout_start_run slice_def)

text \<open>The members of a container as its spans give them, in terms of its items.\<close>

definition item_start_at :: "nat \<Rightarrow> item list \<Rightarrow> nat \<Rightarrow> nat" where
  "item_start_at s its i = s + length (items_before [comma] (map flat (take i its))) + length (fst (its ! i))"

lemma children:
  assumes d: "document e" and x: "slot_at e q = Some x" and c: "is_container (element_tree x)"
  defines "its \<equiv> items (element_tree x)" and "s \<equiv> origin e q + length (elead x) + 1"
    and "found \<equiv> childSpans (index_of e) (pointer q) (is_arr (element_tree x))"
  shows "length found = length its"
    "i < length its \<Longrightarrow> memberStart (found ! i) = item_start_at s its i"
    "i < length its \<Longrightarrow> memberEnd (found ! i) = item_start_at s its i + length (fst (snd (its ! i)))"
    "map span_pointer found = map (\<lambda>k. pointer (q @ [k])) (keys (element_tree x))"
proof -
  have views: "map view found = item_views q s (keys (element_tree x)) its"
    using childSpans_views [OF d x c] by (simp add: found_def its_def s_def)
  have len: "length (keys (element_tree x)) = length its" by (simp add: its_def)
  show l: "length found = length its" using arg_cong [OF views, of length] len by simp
  have "map span_pointer found = map fst (map view found)" by (simp add: view_def)
  then show "map span_pointer found = map (\<lambda>k. pointer (q @ [k])) (keys (element_tree x))"
    using fst_item_views [OF len] by (simp add: views)
  assume i: "i < length its"
  have "view (found ! i) = item_views q s (keys (element_tree x)) its ! i"
    using arg_cong [OF views, of "\<lambda>vs. vs ! i"] i l by simp
  also have "\<dots> = (pointer (q @ [keys (element_tree x) ! i]), item_start_at s its i,
      item_start_at s its i + length (fst (snd (its ! i))))"
    using item_views_nth [OF i len, of _ _ _ q s] by (metis item_start_at_def prod.collapse)
  finally show "memberStart (found ! i) = item_start_at s its i"
    "memberEnd (found ! i) = item_start_at s its i + length (fst (snd (its ! i)))"
    by (simp_all add: view_def)
qed

lemma items_split:
  assumes "i < length its" "its ! i = (l, b, t)"
  shows "join_with s (map flat its) = items_before s (map flat (take i its)) @ l @ b @ t @ items_after s (map flat (drop (Suc i) its))"
proof -
  have "its = take i its @ (l, b, t) # drop (Suc i) its" using id_take_nth_drop [OF assms(1)] assms(2) by simp
  from arg_cong [OF this, of "map flat"]
  have "map flat its = map flat (take i its) @ (l @ b @ t) # map flat (drop (Suc i) its)"
    by (simp only: map_append list.map flat.simps)
  then show ?thesis by (simp only: join_with_split append_assoc)
qed

lemma inserted_join:
  assumes "its \<noteq> []"
  shows "join_with [comma] (map flat (inserted_items its k written)) =
     (if length its \<le> k
      then items_before [comma] (map flat (butlast its)) @ fst (last its) @ fst (snd (last its))
             @ comma # fst (last its) @ written @ snd (snd (last its))
      else items_before [comma] (map flat (take k its)) @ fst (its ! k) @ written @ comma
             # join_with [comma] (map flat (drop k its)))"
proof (cases "length its \<le> k")
  case True
  then show ?thesis by (simp add: inserted_items_def join_with_split)
next
  case False
  then have "map flat (drop k its) \<noteq> []" by simp
  then show ?thesis using False by (simp add: inserted_items_def join_with_split join_with_after)
qed

text \<open>The bytes before item \<open>i\<close> of the container, up to its own layout.\<close>

lemma container_head:
  assumes c: "is_container d" "wf_tree d" and i: "i < length (items d)" and src: "src = PRE @ render d @ POST"
    and it: "items d ! i = (l, b, t)"
  defines "A \<equiv> PRE @ opener d # items_before [comma] (map flat (take i (items d)))"
  shows "src = A @ l @ b @ t @ items_after [comma] (map flat (drop (Suc i) (items d))) @ closer d # POST"
    "length A = length PRE + 1 + length (items_before [comma] (map flat (take i (items d))))"
    "A \<noteq> []" "\<not> isSpace (last A)" "ws l" "ws t"
proof -
  have "items d \<noteq> []" using i by auto
  then show "src = A @ l @ b @ t @ items_after [comma] (map flat (drop (Suc i) (items d))) @ closer d # POST"
    using render_items [OF c(1)] items_split [OF i it, of "[comma]"] by (simp add: src A_def)
  show "length A = length PRE + 1 + length (items_before [comma] (map flat (take i (items d))))" "A \<noteq> []"
    by (simp_all add: A_def)
  show "\<not> isSpace (last A)" by (cases "take i (items d) = []") (auto simp: A_def items_before_join)
  show "ws l" "ws t" using item_layout [OF c(2) i it] by simp_all
qed

lemma container_span:
  assumes e: "document e" "slot_at e q = Some x"
  obtains PRE POST sp where "render_element e = PRE @ render (element_tree x) @ POST"
    "length PRE = origin e q + length (elead x)"
    "\<And>d. render_element (put e q (with_tree x d)) = PRE @ render d @ POST"
    "spanAt (index_of e) (pointer q) = Some sp" "valueStart sp = length PRE"
    "valueEnd sp = length PRE + length (render (element_tree x))"
proof -
  obtain PRE POST where P: "length PRE = origin e q + length (elead x)"
    "render_element e = PRE @ render (element_tree x) @ POST"
    "\<And>d. render_element (put e q (with_tree x d)) = PRE @ render d @ POST"
    using container_split [OF e(2)] by blast
  obtain m where "spanAt (index_of e) (pointer q) =
     Some (span_of q (origin e q + length (elead x))
       (origin e q + length (elead x) + length (render (element_tree x))) m)"
    using spanAt_slot [OF e] by blast
  with P that show ?thesis by (simp add: span_of_def)
qed

lemma container_first: "is_container d \<Longrightarrow> render d = opener d # tl (render d)"
  by (cases d) (simp_all add: opener_def)

lemma container_empty: "is_container d \<Longrightarrow> items d = [] \<Longrightarrow> \<exists>w. render d = opener d # w @ [closer d]"
  by (cases d) (simp_all add: opener_def closer_def)

lemma opener_arr: "opener d = open_bracket \<longleftrightarrow> is_arr d" "opener d = open_brace \<longleftrightarrow> \<not> is_arr d"
  by (simp_all add: opener_def)

lemma insertMember_slot:
  assumes e: "document e" "slot_at e q = Some x" and c: "is_container (element_tree x)"
    and name: "name = None \<longleftrightarrow> is_arr (element_tree x)"
    and d': "render d' = inserted_bytes (element_tree x) (place q (keys (element_tree x)) placement)
               (written_member name json)"
  shows "insertMember (render_element e) (index_of e) (pointer q) name json placement
           = render_element (put e q (with_tree x d'))"
proof -
  let ?d = "element_tree x" and ?its = "items (element_tree x)" and ?written = "written_member name json"
  obtain PRE POST sp where P: "render_element e = PRE @ render ?d @ POST"
    "length PRE = origin e q + length (elead x)"
    "\<And>d. render_element (put e q (with_tree x d)) = PRE @ render d @ POST"
    "spanAt (index_of e) (pointer q) = Some sp" "valueStart sp = length PRE"
    "valueEnd sp = length PRE + length (render ?d)"
    using container_span [OF e] by blast
  let ?src = "render_element e" and ?found = "childSpans (index_of e) (pointer q) (is_arr ?d)"
  let ?k = "placementIndex ?found placement"
  have op: "char_at ?src (valueStart sp) = Some (opener ?d)"
    using P container_first [OF c] by (metis append_Cons char_at_mid)
  have w: "wf_tree ?d" using document_slot_at [OF e(2,1)] by (simp add: document_def wf_element_iff)
  note ch = children [OF e c]
  have k: "?k = place q (keys ?d) placement"
    using find_index_cong_map [OF ch(4)] ch(1) by (simp add: placementIndex_def place_def cong: option.case_cong split: placement.split)
  have kn: "?k \<le> length ?its" using place_le [of q "keys ?d"] k by simp
  have ins: "insertMember ?src (index_of e) (pointer q) name json placement =
     (if ?found = [] then take (Suc (length PRE)) ?src @ js '' '' @ ?written @ js '' '' @ drop (valueEnd sp - 1) ?src
      else (let layout = leadingLayout ?src (memberStart (?found ! min ?k (length ?found - 1))) in
        if length ?found \<le> ?k
        then take (memberEnd (last ?found)) ?src @ [comma] @ layout @ ?written @ drop (memberEnd (last ?found)) ?src
        else take (memberStart (?found ! ?k) - length layout) ?src @ layout @ ?written @ [comma]
             @ drop (memberStart (?found ! ?k) - length layout) ?src))"
    using P(4,5) op name by (auto simp: insertMember_def Let_def opener_arr opener_def)
  show ?thesis
  proof (cases "?its = []")
    case True
    then obtain w where "render ?d = opener ?d # w @ [closer ?d]" using container_empty [OF c] by blast
    then show ?thesis using ins True ch(1) P d' by (simp add: inserted_bytes_def)
  next
    case False
    define i where "i = min ?k (length ?its - 1)"
    have "0 < length ?its" using False by simp
    then have i: "i < length ?its" unfolding i_def by linarith
    obtain l b t where it: "?its ! i = (l, b, t)" by (metis prod_cases3)
    let ?A = "PRE @ opener ?d # items_before [comma] (map flat (take i ?its))"
    note head = container_head [OF c w i P(1) it]
    have st: "memberStart (?found ! i) = length ?A + length l"
      using ch(2) [OF i] head(2) P(2) it by (simp add: item_start_at_def)
    have en: "memberEnd (?found ! i) = length ?A + length l + length b"
      using ch(2,3) [OF i] st it by simp
    have layout: "leadingLayout ?src (memberStart (?found ! i)) = l"
      unfolding st by (subst head(1), rule leadingLayout_bytes) (use head in simp_all)
    show ?thesis
    proof (cases "length ?its \<le> ?k")
      case True
      then have il: "i = length ?its - 1" by (simp add: i_def)
      have "?found \<noteq> []" using ch(1) False by (metis length_0_conv)
      then have la: "last ?found = ?found ! i" "last ?its = (l, b, t)" "butlast ?its = take i ?its"
          "drop (Suc i) ?its = []"
        using False ch(1) it il by (simp_all add: last_conv_nth butlast_conv_take)
      have "insertMember ?src (index_of e) (pointer q) name json placement =
          take (length ?A + length l + length b) ?src @ comma # l @ ?written @ drop (length ?A + length l + length b) ?src"
        using ins False True ch(1) layout en la(1) by (auto simp: Let_def i_def)
      also have "\<dots> = ?A @ l @ b @ comma # l @ ?written @ t @ closer ?d # POST"
        by (subst (1 2) head(1)) (simp add: la(4))
      also have "\<dots> = render_element (put e q (with_tree x d'))"
        using P(3) d' False True la k by (simp add: inserted_bytes_def inserted_join)
      finally show ?thesis .
    next
      case False
      then have ik: "i = ?k" by (simp add: i_def)
      have "insertMember ?src (index_of e) (pointer q) name json placement =
          take (length ?A) ?src @ l @ ?written @ comma # drop (length ?A) ?src"
        using ins i False ch(1) layout st ik by (auto simp: Let_def i_def)
      also have "\<dots> = ?A @ l @ ?written @ comma # l @ b @ t @ items_after [comma] (map flat (drop (Suc i) ?its)) @ closer ?d # POST"
        by (subst (1 2) head(1)) simp
      also have "\<dots> = ?A @ l @ ?written @ comma # join_with [comma] (map flat (drop i ?its)) @ closer ?d # POST"
        using items_split [of 0 "drop i ?its" l b t "[comma]"] i it by simp
      finally show ?thesis
        using P(3) d' i False it ik k by (auto simp: inserted_bytes_def inserted_join)
    qed
  qed
qed

lemma take_drop_nth_all: "list_all P xs \<Longrightarrow> list_all P (take k xs) \<and> list_all P (drop k xs)"
  by (auto simp: list_all_iff dest: in_set_takeD in_set_dropD)

primrec bare_member :: "member \<Rightarrow> member" where
  "bare_member (Member l n a b c t) = Member l n a b c []"

primrec bare_element :: "element \<Rightarrow> element" where
  "bare_element (Element l c t) = Element l c []"

lemma bare_simps [simp]:
  "member_item (bare_member m) = (fst (member_item m), fst (snd (member_item m)), [])"
  "member_name (bare_member m) = member_name m" "tree_member (bare_member m) = tree_member m"
  "uniq_member (bare_member m) = uniq_member m" "wf_member m \<Longrightarrow> wf_member (bare_member m)"
  "element_item (bare_element e) = (fst (element_item e), fst (snd (element_item e)), [])"
  "element_tree (bare_element e) = element_tree e" "wf_element e \<Longrightarrow> wf_element (bare_element e)"
  by (cases m; simp)+ (cases e; simp)+

lemma last_map_item: "xs \<noteq> [] \<Longrightarrow> last (map f xs) = f (last xs)"
  by (rule last_map)

text \<open>A member written with layout \<open>l\<close> in front and \<open>t\<close> behind.\<close>

definition new_member :: "jstr \<Rightarrow> jstr \<Rightarrow> element \<Rightarrow> jstr \<Rightarrow> member" where
  "new_member l n j t = Member l (stringify_string n) [] (js '' '' @ elead j) (element_tree j) (etrail j @ t)"

definition new_element :: "jstr \<Rightarrow> element \<Rightarrow> jstr \<Rightarrow> element" where
  "new_element l j t = Element (l @ elead j) (element_tree j) (etrail j @ t)"

lemma space_is_ws [simp]: "ws (js '' '')" "isSpace 32"
  by (simp_all add: isSpace_def)

lemma new_member_simps [simp]:
  "render_member (new_member l n j t) = l @ written_member (Some n) (render_element j) @ t"
  "member_name (new_member l n j t) = n" "tree_member (new_member l n j t) = (n, tree_element j)"
  "document j \<Longrightarrow> uniq_member (new_member l n j t)"
  "\<lbrakk>document j; ws l; ws t\<rbrakk> \<Longrightarrow> wf_member (new_member l n j t)"
  "render_element (new_element l j t) = l @ written_member None (render_element j) @ t"
  "tree_element (new_element l j t) = tree_element j" "document j \<Longrightarrow> uniq_element (new_element l j t)"
  "\<lbrakk>document j; ws l; ws t\<rbrakk> \<Longrightarrow> wf_element (new_element l j t)"
  by (simp_all add: new_member_def new_element_def written_member_def render_element_eq document_def wf_element_iff)

definition inserted_at :: "('a \<Rightarrow> 'a) \<Rightarrow> (jstr \<Rightarrow> jstr \<Rightarrow> 'a) \<Rightarrow> ('a \<Rightarrow> item) \<Rightarrow> nat \<Rightarrow> 'a list \<Rightarrow> 'a list" where
  "inserted_at bare new item k xs =
     (if xs = [] then [new (js '' '') (js '' '')]
      else if length xs \<le> k
      then butlast xs @ [bare (last xs), new (fst (item (last xs))) (snd (snd (item (last xs))))]
      else take k xs @ new (fst (item (xs ! k))) [] # drop k xs)"

lemma inserted_at_map:
  assumes "\<And>x. g (bare x) = g x" "\<And>l t. g (new l t) = y" "k \<le> length xs"
  shows "map g (inserted_at bare new item k xs) = take k (map g xs) @ y # drop k (map g xs)"
proof (cases "xs = []")
  case False
  then have "map g (butlast xs) @ [g (last xs)] = map g xs"
    by (metis append_butlast_last_id list.simps(8,9) map_append)
  with False assms show ?thesis by (auto simp: inserted_at_def take_map drop_map)
qed (simp add: inserted_at_def assms)

lemma inserted_at_all:
  assumes "\<And>x. P x \<Longrightarrow> P (bare x)" "\<And>x. P x \<Longrightarrow> Q (fst (item x)) \<and> Q (snd (snd (item x)))"
    "\<And>l t. \<lbrakk>Q l; Q t\<rbrakk> \<Longrightarrow> P (new l t)" "Q []" "Q (js '' '')" "list_all P xs"
  shows "list_all P (inserted_at bare new item k xs)"
proof (cases "xs = []")
  case False
  then have "P (last xs)" "length xs > k \<Longrightarrow> P (xs ! k)"
    using assms(6) by (simp_all add: list_all_iff)
  moreover have "list_all P (butlast xs)" using assms(6) by (auto simp: list_all_iff dest: in_set_butlastD)
  ultimately show ?thesis using False assms take_drop_nth_all [OF assms(6)] by (auto simp: inserted_at_def)
qed (use assms in \<open>simp add: inserted_at_def\<close>)

lemma inserted_at_render:
  assumes "\<And>x. item (bare x) = (fst (item x), fst (snd (item x)), [])"
    "\<And>l t. flat (item (new l t)) = l @ written @ t"
  shows "join_with [comma] (map (flat \<circ> item) (inserted_at bare new item k xs))
     = (if xs = [] then js '' '' @ written @ js '' ''
        else join_with [comma] (map flat (inserted_items (map item xs) k written)))"
proof -
  have "map (flat \<circ> item) (inserted_at bare new item k xs) = map flat (inserted_items (map item xs) k written)"
    if "xs \<noteq> []"
  proof -
    have "flat (item (bare x)) = fst (item x) @ fst (snd (item x))" for x by (simp add: assms(1))
    moreover have "flat (a, b, []) = a @ b" for a b by simp
    moreover have "flat (a, written, c) = a @ written @ c" for a c by simp
    ultimately show ?thesis using that assms(2)
      by (simp add: inserted_at_def inserted_items_def last_map take_map drop_map map_butlast
          del: flat.simps)
  qed
  then show ?thesis by (simp add: inserted_at_def assms(2) del: flat.simps)
qed

lemma inserted_members:
  fixes w :: jstr and ms :: "member list" and n :: jstr and j :: element and k :: nat
  assumes d: "wf_tree (Obj w ms)" "uniq (Obj w ms)" and n: "n \<notin> set (map member_name ms)"
    and j: "document j" and k: "k \<le> length ms"
  defines "d' \<equiv> Obj w (inserted_at bare_member (\<lambda>l t. new_member l n j t) member_item k ms)"
  shows "wf_tree d' \<and> uniq d'
    \<and> render d' = inserted_bytes (Obj w ms) k (written_member (Some n) (render_element j))
    \<and> tree_value d' = insert_child k (Some n) (tree_element j) (tree_value (Obj w ms))"
proof -
  let ?ms = "inserted_at bare_member (\<lambda>l t. new_member l n j t) member_item k ms"
  have item: "wf_member m \<Longrightarrow> ws (fst (member_item m)) \<and> ws (snd (snd (member_item m)))" for m
    by (cases m) simp
  have wf: "list_all wf_member ?ms"
    using d j by (intro inserted_at_all [where Q = ws]) (simp_all add: item)
  have un: "list_all uniq_member ?ms"
    using d j by (intro inserted_at_all [where Q = "\<lambda>_. True"]) simp_all
  have "map member_name ?ms = take k (map member_name ms) @ n # drop k (map member_name ms)"
    using k by (intro inserted_at_map) simp_all
  moreover have "distinct (take k (map member_name ms) @ n # drop k (map member_name ms))"
  proof -
    have dist: "distinct (take k (map member_name ms) @ drop k (map member_name ms))"
      and mem: "n \<notin> set (take k (map member_name ms) @ drop k (map member_name ms))"
      using d n by simp_all
    show ?thesis using dist mem unfolding distinct_append set_append by auto
  qed
  ultimately have u: "uniq (Obj w ?ms)" using un by simp
  have "map tree_member ?ms = take k (map tree_member ms) @ (n, tree_element j) # drop k (map tree_member ms)"
    using k by (intro inserted_at_map) simp_all
  then have v: "tree_value (Obj w ?ms) = insert_child k (Some n) (tree_element j) (tree_value (Obj w ms))"
    using tree_value_Obj [OF u] tree_value_Obj [OF d(2)] by (simp del: tree_value.simps tree_element_eq)
  have "?ms \<noteq> []" by (simp add: inserted_at_def)
  then have "render (Obj w ?ms) = inserted_bytes (Obj w ms) k (written_member (Some n) (render_element j))"
    using inserted_at_render [of member_item bare_member "\<lambda>l t. new_member l n j t"
        "written_member (Some n) (render_element j)" k ms]
    by (simp add: inserted_bytes_def opener_def closer_def comp_def)
  then show ?thesis using wf d u v unfolding d'_def by simp
qed

lemma inserted_object:
  assumes "wf_tree (Obj w ms)" "uniq (Obj w ms)" "n \<notin> set (map member_name ms)" "document j" "k \<le> length ms"
  shows "\<exists>d'. wf_tree d' \<and> uniq d'
    \<and> render d' = inserted_bytes (Obj w ms) k (written_member (Some n) (render_element j))
    \<and> tree_value d' = insert_child k (Some n) (tree_element j) (tree_value (Obj w ms))"
  by (rule exI [where x = "Obj w (inserted_at bare_member (\<lambda>l t. new_member l n j t) member_item k ms)"])
    (rule inserted_members [OF assms])


lemma inserted_elements:
  fixes w :: jstr and es :: "element list" and j :: element and k :: nat
  assumes d: "wf_tree (Arr w es)" "uniq (Arr w es)" and j: "document j" and k: "k \<le> length es"
  defines "d' \<equiv> Arr w (inserted_at bare_element (\<lambda>l t. new_element l j t) element_item k es)"
  shows "wf_tree d' \<and> uniq d'
    \<and> render d' = inserted_bytes (Arr w es) k (written_member None (render_element j))
    \<and> tree_value d' = insert_child k None (tree_element j) (tree_value (Arr w es))"
proof -
  let ?es = "inserted_at bare_element (\<lambda>l t. new_element l j t) element_item k es"
  have item: "wf_element e \<Longrightarrow> ws (fst (element_item e)) \<and> ws (snd (snd (element_item e)))" for e
    by (cases e) simp
  have wf: "list_all wf_element ?es"
    using d j by (intro inserted_at_all [where Q = ws]) (simp_all add: item)
  have un: "list_all uniq_element ?es"
    using d j new_member_simps(8) by (intro inserted_at_all [where Q = "\<lambda>_. True"]) auto
  have "map tree_element ?es = take k (map tree_element es) @ tree_element j # drop k (map tree_element es)"
    using k new_member_simps(7) by (intro inserted_at_map) simp_all
  then have v: "tree_value (Arr w ?es) = insert_child k None (tree_element j) (tree_value (Arr w es))"
    by (simp del: tree_element_eq)
  have "?es \<noteq> []" by (simp add: inserted_at_def)
  then have "render (Arr w ?es) = inserted_bytes (Arr w es) k (written_member None (render_element j))"
    using inserted_at_render [of element_item bare_element "\<lambda>l t. new_element l j t"
        "written_member None (render_element j)" k es]
    by (simp add: inserted_bytes_def opener_def closer_def comp_def)
  then show ?thesis using wf d un v unfolding d'_def by (simp del: uniq_element_iff)
qed

lemma inserted_array:
  assumes "wf_tree (Arr w es)" "uniq (Arr w es)" "document j" "k \<le> length es"
  shows "\<exists>d'. wf_tree d' \<and> uniq d'
    \<and> render d' = inserted_bytes (Arr w es) k (written_member None (render_element j))
    \<and> tree_value d' = insert_child k None (tree_element j) (tree_value (Arr w es))"
  by (rule exI [where x = "Arr w (inserted_at bare_element (\<lambda>l t. new_element l j t) element_item k es)"])
    (rule inserted_elements [OF assms])

lemma insertMember_leaf:
  assumes e: "document e" "slot_at e q = Some x" and t: "element_tree x = Leaf t"
  shows "insertMember (render_element e) (index_of e) (pointer q) name json placement = render_element e"
proof -
  obtain PRE POST sp where P: "render_element e = PRE @ render (element_tree x) @ POST"
    "spanAt (index_of e) (pointer q) = Some sp" "valueStart sp = length PRE"
    using container_span [OF e] by metis
  have "wf_tree (element_tree x)" using document_slot_at [OF e(2,1)] by (simp add: document_def wf_element_iff)
  then obtain c r where c: "render (element_tree x) = c # r" "c \<noteq> open_brace" "c \<noteq> open_bracket"
    using raw_leaf_start [of t] t by (cases t) (auto simp: scalar_start_def)
  have "char_at (render_element e) (valueStart sp) = Some c" using P c by simp
  then show ?thesis using P c by (simp add: insertMember_def Let_def)
qed

text \<open>The member is added where \<open>placement\<close> says, and nowhere when the container is not one.\<close>

lemma edited_insertMember:
  assumes v: "reads src v" and j: "reads json j"
    and fresh: "\<And>n ms. \<lbrakk>name = Some n; value_down v q = Some (JObj ms)\<rbrakk> \<Longrightarrow> n \<notin> fst ` set ms"
  shows "edited src q (\<lambda>w. insert_child (place q (child_keys w) placement) name j w)
           (insertMember src (indexDocument src) (pointer q) name json placement)"
proof -
  obtain e where e: "src = render_element e" "document e" "v = tree_element e" "indexDocument src = index_of e"
    using v by (rule reads_cases)
  obtain d where d: "json = render_element d" "document d" "j = tree_element d"
    using j by (rule reads_cases)
  let ?f = "\<lambda>w. insert_child (place q (child_keys w) placement) name j w"
  have ue: "uniq_element e" using e(2) by (simp add: document_def)
  show ?thesis
  proof (cases "slot_at e q")
    case None
    then show ?thesis using e spanAt_none [OF e(2) None] edited_none [OF e(2) None]
      by (simp add: insertMember_def)
  next
    case (Some x)
    let ?c = "element_tree x"
    have x: "wf_tree ?c" "uniq ?c" using document_slot_at [OF Some e(2)] by (simp_all add: document_def wf_element_iff)
    have down: "value_down v q = Some (tree_value ?c)" using value_down_slot [OF ue, of q] Some e(3) by simp
    have same: ?thesis if "?f (tree_value ?c) = tree_value ?c"
      "insertMember src (indexDocument src) (pointer q) name json placement = src"
      using that Some e edited_same [OF e(2), of q ?f] by simp
    have keys: "child_keys (tree_value ?c) = keys ?c" if "is_container ?c"
      using length_child_keys that x by blast
    have go: ?thesis if c: "is_container ?c" and name: "name = None \<longleftrightarrow> is_arr ?c"
      and t: "\<exists>d'. wf_tree d' \<and> uniq d' \<and> render d' = inserted_bytes ?c (place q (keys ?c) placement) (written_member name json)
        \<and> tree_value d' = insert_child (place q (keys ?c) placement) name j (tree_value ?c)"
    proof -
      obtain d' where d': "wf_tree d'" "uniq d'"
        "render d' = inserted_bytes ?c (place q (keys ?c) placement) (written_member name json)"
        "tree_value d' = ?f (tree_value ?c)"
        using t keys [OF c] by auto
      show ?thesis
        using insertMember_slot [OF e(2) Some c name d'(3)] edited_put_tree [OF e(2) Some d'(1,2), of ?f] d'(4) e
        by simp
    qed
    show ?thesis
    proof (cases ?c)
      case (Leaf t)
      have "?f (tree_value ?c) = tree_value ?c" using Leaf by (cases name) (simp_all add: leaf_value_def)
      then show ?thesis using same insertMember_leaf [OF e(2) Some Leaf] e by simp
    next
      case (Obj w ms)
      show ?thesis
      proof (cases name)
        case None
        obtain PRE POST sp where P: "render_element e = PRE @ render ?c @ POST"
          "spanAt (index_of e) (pointer q) = Some sp" "valueStart sp = length PRE"
          using container_span [OF e(2) Some] by metis
        then have "char_at src (valueStart sp) = Some open_brace" using Obj e(1) by simp
        then show ?thesis using same P None Obj e tree_value_Obj [of w ms] x
          by (simp add: insertMember_def Let_def del: tree_value.simps)
      next
        fix n assume n: "name = Some n"
        have "n \<notin> set (map member_name ms)"
          using fresh [OF n] down Obj tree_value_Obj [of w ms] x by (fastforce simp: image_image)
        from inserted_object [OF x [unfolded Obj] this d(2), of "place q (keys ?c) placement"]
        show ?thesis using go Obj n d place_le [of q "keys ?c"] by simp
      qed
    next
      case (Arr w es)
      show ?thesis
      proof (cases name)
        case None
        from inserted_array [OF x [unfolded Arr] d(2), of "place q (keys ?c) placement"]
        show ?thesis using go Arr None d place_le [of q "keys ?c"] by simp
      next
        fix n assume n: "name = Some n"
        obtain PRE POST sp where P: "render_element e = PRE @ render ?c @ POST"
          "spanAt (index_of e) (pointer q) = Some sp" "valueStart sp = length PRE"
          using container_span [OF e(2) Some] by metis
        then have "char_at src (valueStart sp) = Some open_bracket" using Arr e(1) by simp
        then show ?thesis using same P n Arr e by (simp add: insertMember_def Let_def)
      qed
    qed
  qed
qed

text \<open>A member that is added leaves the bytes of its siblings' values as they are.\<close>

definition member_text :: "member \<Rightarrow> jstr \<times> jstr" where
  "member_text m = (member_name m, render (element_tree (slot_of m)))"

lemma member_text_simps [simp]: "member_text (bare_member m) = member_text m" "fst (member_text m) = member_name m"
  "member_text (new_member l n j t) = (n, render (element_tree j))"
  by (cases m; simp add: member_text_def new_member_def)+

lemma value_text_member:
  assumes "document e" "element_tree e = Obj w ms"
  shows "value_text (render_element e) [m] = map_of (map member_text ms) m"
proof -
  have "map_of (map member_text ms) m = map_option (\<lambda>i. render (element_tree (slot_of (ms ! i)))) (find_index (\<lambda>x. member_name x = m) ms)"
    unfolding member_text_def by (induction ms) (auto simp: option.map_comp comp_def)
  then show ?thesis using value_text_slot [OF assms(1), of "[m]"] assms(2) find_index_Some [of "\<lambda>x. member_name x = m" ms]
    by (auto split: option.split)
qed

lemma map_of_skip: "m \<noteq> n \<Longrightarrow> map_of (xs @ (n, x) # ys) m = map_of (xs @ ys) m"
  by (induction xs) auto

lemma insertMember_keeps_siblings:
  assumes v: "reads src (JObj vs)" and j: "reads json j" and n: "n \<notin> fst ` set vs" "m \<noteq> n"
  shows "value_text (insertMember src (indexDocument src) (pointer []) (Some n) json placement) [m] = value_text src [m]"
proof -
  obtain e where e: "src = render_element e" "document e" "JObj vs = tree_element e" "indexDocument src = index_of e"
    using v by (rule reads_cases)
  obtain d where d: "json = render_element d" "document d" "j = tree_element d"
    using j by (rule reads_cases)
  have t: "wf_tree (element_tree e)" "uniq (element_tree e)" using e(2) by (simp_all add: document_def wf_element_iff)
  obtain w ms where o: "element_tree e = Obj w ms"
  proof (cases "element_tree e")
    case (Leaf t)
    then show ?thesis using e(3) leaf_not_container(1) [of t vs] by simp
  qed (use that e(3) in simp_all)
  have "vs = map tree_member ms" using e(3) o tree_value_Obj [of w ms] t by simp
  then have fresh: "n \<notin> set (map member_name ms)" using n(1) by (simp add: image_image)
  let ?k = "place [] (keys (element_tree e)) placement"
  have k: "?k \<le> length ms" using place_le [of "[]" "keys (element_tree e)" placement] o by simp
  let ?ms = "inserted_at bare_member (\<lambda>l t. new_member l n d t) member_item ?k ms"
  note i = inserted_members [OF t [unfolded o] fresh d(2) k]
  have "insertMember src (indexDocument src) (pointer []) (Some n) json placement = render_element (with_tree e (Obj w ?ms))"
    using insertMember_slot [OF e(2), of "[]" e "Some n" "Obj w ?ms" placement json] i o e(1,4) d(1) by simp
  moreover have "document (with_tree e (Obj w ?ms))" using i e(2) by (simp add: document_def wf_element_iff)
  moreover have "map member_text ?ms = take ?k (map member_text ms) @ (n, render (element_tree d)) # drop ?k (map member_text ms)"
    by (rule inserted_at_map) (simp_all add: k)
  ultimately have "value_text (insertMember src (indexDocument src) (pointer []) (Some n) json placement) [m]
      = map_of (take ?k (map member_text ms) @ (n, render (element_tree d)) # drop ?k (map member_text ms)) m"
    using value_text_member [of "with_tree e (Obj w ?ms)" w ?ms m] by (simp del: map_of_append)
  also have "\<dots> = map_of (take ?k (map member_text ms) @ drop ?k (map member_text ms)) m"
    by (rule map_of_skip [OF n(2)])
  also have "\<dots> = value_text src [m]" using value_text_member [OF e(2) o, of m] e(1) by (simp del: map_of_append)
  finally show ?thesis .
qed

section \<open>Moving an element\<close>

lemma map_splice_move: "a < length xs \<Longrightarrow> map f (splice_move a b xs) = splice_move a b (map f xs)"
  by (simp add: splice_move_def Let_def take_map drop_map)

lemma length_splice_move: "\<lbrakk>a < length xs; b < length xs\<rbrakk> \<Longrightarrow> length (splice_move a b xs) = length xs"
  by (simp add: splice_move_def Let_def)

lemma mset_splice_move: "a < length xs \<Longrightarrow> mset (splice_move a b xs) = mset xs"
proof -
  assume a: "a < length xs"
  let ?rest = "take a xs @ drop (Suc a) xs"
  have "mset (splice_move a b xs) = add_mset (xs ! a) (mset (take b ?rest @ drop b ?rest))"
    by (simp add: splice_move_def Let_def)
  also have "\<dots> = add_mset (xs ! a) (mset ?rest)" by (simp only: append_take_drop_id)
  also have "\<dots> = mset (take a xs @ xs ! a # drop (Suc a) xs)" by simp
  also have "\<dots> = mset xs" using id_take_nth_drop [OF a] by simp
  finally show ?thesis .
qed

lemma set_splice_move: "a < length xs \<Longrightarrow> set (splice_move a b xs) = set xs"
  using mset_splice_move by (metis set_mset_mset)

fun move_child :: "int \<Rightarrow> int \<Rightarrow> jval \<Rightarrow> jval" where
  "move_child a b (JArr xs) =
     JArr (if a = b \<or> a < 0 \<or> b < 0 \<or> int (length xs) \<le> a \<or> int (length xs) \<le> b then xs
           else splice_move (nat a) (nat b) xs)"
| "move_child a b v = v"

lemma concat_slots:
  "0 < n \<Longrightarrow> concat (map (\<lambda>i. f i @ (if i = n - 1 then [] else g i @ s)) [0..<n]) @ g (n - 1)
     = join_with s (map (\<lambda>i. f i @ g i) [0..<n])"
proof (cases n)
  case (Suc m)
  have "map (\<lambda>i. f i @ (if i = m then [] else g i @ s)) [0..<m] = map (\<lambda>i. (f i @ g i) @ s) [0..<m]"
    by simp
  from arg_cong [OF this, of concat]
  show ?thesis by (simp add: Suc join_with_split items_before_def comp_def)
qed simp

definition moved_items :: "nat \<Rightarrow> nat \<Rightarrow> item list \<Rightarrow> item list" where
  "moved_items a b its =
     map (\<lambda>i. (fst (its ! i), splice_move a b (map (fst \<circ> snd) its) ! i, snd (snd (its ! i)))) [0..<length its]"

lemma trailingLayout_bytes:
  assumes "ws t" "\<not> isSpace c" "n = length A"
  shows "trailingLayout (A @ t @ c # B) n False = (if c = comma then t else [])"
proof -
  have "char_at (A @ t @ c # B) (length A + length t) = Some c" using char_at_mid [of "A @ t" c B] by simp
  then show ?thesis using assms skip_run [OF assms(1,2), of A B] by (simp add: trailingLayout_def slice_def)
qed

lemma moveElement_slot:
  assumes e: "document e" "slot_at e q = Some x" and arr: "is_arr (element_tree x)"
    and r: "0 \<le> a" "a < int (length (items (element_tree x)))" "0 \<le> b" "b < int (length (items (element_tree x)))" "a \<noteq> b"
    and d': "render d' = open_bracket
      # join_with [comma] (map flat (moved_items (nat a) (nat b) (items (element_tree x)))) @ [close_bracket]"
  shows "moveElement (render_element e) (index_of e) (pointer q) a b = render_element (put e q (with_tree x d'))"
proof -
  let ?d = "element_tree x" and ?its = "items (element_tree x)"
  let ?n = "length ?its" and ?src = "render_element e"
  have c: "is_container ?d" using arr by (cases ?d) simp_all
  have n: "0 < ?n" using r by linarith
  obtain PRE POST sp where P: "?src = PRE @ render ?d @ POST"
    "length PRE = origin e q + length (elead x)"
    "\<And>d. render_element (put e q (with_tree x d)) = PRE @ render d @ POST"
    "spanAt (index_of e) (pointer q) = Some sp" "valueStart sp = length PRE"
    using container_span [OF e] by metis
  have w: "wf_tree ?d" using document_slot_at [OF e(2,1)] by (simp add: document_def wf_element_iff)
  define found where "found = childSpans (index_of e) (pointer q) (is_arr ?d)"
  note ch = children [OF e c, folded found_def]
  have found: "childSpans (index_of e) (pointer q) True = found" using arr by (simp add: found_def)
  define l b0 t where "l = (\<lambda>i. fst (?its ! i))" and "b0 = (\<lambda>i. fst (snd (?its ! i)))"
    and "t = (\<lambda>i. snd (snd (?its ! i)))"
  define A where "A = (\<lambda>i. PRE @ open_bracket # items_before [comma] (map flat (take i ?its)))"
  define R where "R = (\<lambda>i. items_after [comma] (map flat (drop (Suc i) ?its)) @ close_bracket # POST)"
  have op: "opener ?d = open_bracket" "closer ?d = close_bracket" using arr by (simp_all add: opener_def closer_def)
  have head: "?src = A i @ l i @ b0 i @ t i @ R i"
    "A i \<noteq> []" "\<not> isSpace (last (A i))" "ws (l i)" "ws (t i)"
    "memberStart (found ! i) = length (A i) + length (l i)"
    "memberEnd (found ! i) = length (A i) + length (l i) + length (b0 i)" if i: "i < ?n" for i
    using container_head [OF c w i P(1), of "l i" "b0 i" "t i"] ch(2,3) [OF i] P(2) op
    by (simp_all add: A_def R_def l_def b0_def t_def item_start_at_def)
  have layout: "leadingLayout ?src (memberStart (found ! i)) = l i" if i: "i < ?n" for i
    unfolding head(6) [OF i] by (subst head(1) [OF i], rule leadingLayout_bytes) (use head [OF i] in simp_all)
  have body: "slice ?src (memberStart (found ! i)) (memberEnd (found ! i)) = b0 i" if i: "i < ?n" for i
    unfolding head(6,7) [OF i] by (subst head(1) [OF i]) (simp add: slice_def)
  have trail: "trailingLayout ?src (memberEnd (found ! i)) False = t i" if i: "i < ?n" "i \<noteq> ?n - 1" for i
  proof -
    have "drop (Suc i) ?its \<noteq> []" using i by auto
    then have "R i = comma # tl (R i)" by (simp add: R_def join_with_after)
    then have "?src = (A i @ l i @ b0 i) @ t i @ comma # tl (R i)" using head(1) [OF i(1)] by simp
    then show ?thesis
      using trailingLayout_bytes [of "t i" comma "memberEnd (found ! i)" "A i @ l i @ b0 i" "tl (R i)"]
        head(5,7) [OF i(1)] by (simp add: add.assoc)
  qed
  let ?bodies = "splice_move (nat a) (nat b) (map (fst \<circ> snd) ?its)"
  have bodies: "map (\<lambda>sp. slice ?src (memberStart sp) (memberEnd sp)) found = map (fst \<circ> snd) ?its"
    using ch(1) body by (intro nth_equalityI) (simp_all add: b0_def)
  have rebuilt: "concat (map (\<lambda>i. map (\<lambda>sp. leadingLayout ?src (memberStart sp)) found ! i @ ?bodies ! i
        @ (if i = ?n - 1 then [] else map (\<lambda>i. trailingLayout ?src (memberEnd (found ! i)) (i = ?n - 1)) [0..<?n] ! i @ [comma]))
        [0..<?n])
      = concat (map (\<lambda>i. (l i @ ?bodies ! i) @ (if i = ?n - 1 then [] else t i @ [comma])) [0..<?n])"
    by (intro arg_cong [of _ _ concat] map_cong refl) (use layout trail ch(1) in auto)
  have joined: "concat (map (\<lambda>i. (l i @ ?bodies ! i) @ (if i = ?n - 1 then [] else t i @ [comma])) [0..<?n]) @ t (?n - 1)
      = join_with [comma] (map flat (moved_items (nat a) (nat b) ?its))"
    using concat_slots [OF n, of "\<lambda>i. l i @ ?bodies ! i" t "[comma]"]
    by (simp add: moved_items_def l_def t_def comp_def)
  have la: "last found = found ! (?n - 1)" using ch(1) n by (metis last_conv_nth length_0_conv less_not_refl)
  have open1: "char_at ?src (valueStart sp) = Some open_bracket"
    using P container_first [OF c] op by (metis append_Cons char_at_mid)
  have st: "memberStart (found ! 0) - length (leadingLayout ?src (memberStart (found ! 0))) = length PRE + 1"
    using layout [OF n] head(6) [OF n] by (simp add: A_def)
  have "moveElement ?src (index_of e) (pointer q) a b =
      take (length PRE + 1) ?src
      @ concat (map (\<lambda>i. (l i @ ?bodies ! i) @ (if i = ?n - 1 then [] else t i @ [comma])) [0..<?n])
      @ drop (memberEnd (found ! (?n - 1))) ?src"
  proof -
    have "map (\<lambda>sp. leadingLayout ?src (memberStart sp)) found ! 0 = leadingLayout ?src (memberStart (found ! 0))"
      using ch(1) n by simp
    then show ?thesis
      using P(4) open1 r ch(1) n la st
      by (simp add: moveElement_def Let_def bodies found rebuilt [unfolded One_nat_def])
  qed
  also have "take (length PRE + 1) ?src = PRE @ [open_bracket]"
  proof -
    obtain z where "render ?d = open_bracket # z" using container_first [OF c] op by metis
    then show ?thesis by (simp add: P(1))
  qed
  also have "drop (memberEnd (found ! (?n - 1))) ?src = t (?n - 1) @ close_bracket # POST"
  proof -
    have i: "?n - 1 < ?n" using n by simp
    show ?thesis unfolding head(7) [OF i] by (subst head(1) [OF i]) (simp add: R_def)
  qed
  finally show ?thesis unfolding P(3) d' joined [symmetric] by (simp add: comp_def)
qed

lemma tree_element_fun: "tree_element = (\<lambda>e. tree_value (element_tree e))"
  by (rule ext) simp

lemma moveElement_out:
  "a = b \<or> a < 0 \<or> b < 0 \<or> int (length (childSpans ix ptr True)) \<le> a
     \<or> int (length (childSpans ix ptr True)) \<le> b \<Longrightarrow> moveElement src ix ptr a b = src"
  unfolding moveElement_def Let_def by (cases "spanAt ix ptr") (simp_all only: option.case if_True simp_thms split: if_split, blast)

lemma moved_array:
  assumes d: "wf_tree (Arr w es)" "uniq (Arr w es)" and r: "a < length es" "b < length es"
  shows "\<exists>d'. wf_tree d' \<and> uniq d'
    \<and> render d' = open_bracket # join_with [comma] (map flat (moved_items a b (items (Arr w es)))) @ [close_bracket]
    \<and> tree_value d' = JArr (splice_move a b (map tree_element es)) \<and> is_arr d'
    \<and> branches d' = splice_move a b (branches (Arr w es))"
proof -
  let ?ts = "splice_move a b (map element_tree es)"
  let ?es = "map (\<lambda>i. Element (elead (es ! i)) (?ts ! i) (etrail (es ! i))) [0..<length es]"
  have len: "length ?ts = length es" using r by (simp add: length_splice_move)
  have ts: "list_all wf_tree ?ts" "list_all uniq ?ts"
    using d set_splice_move [of a "map element_tree es" b] r by (auto simp: list_all_iff wf_element_iff)
  have es: "list_all wf_element es" using d by simp
  have "list_all wf_element ?es" using es ts(1) len
    by (auto simp: list_all_length wf_element_iff)
  moreover have "list_all uniq_element ?es" using ts(2) len by (auto simp: list_all_length)
  moreover have "map element_item ?es = moved_items a b (map element_item es)"
  proof (rule nth_equalityI)
    fix i assume "i < length (map element_item ?es)"
    then have i: "i < length es" by simp
    have "map (fst \<circ> snd) (map element_item es) = map render (map element_tree es)"
      by (auto intro!: map_cong) (metis element.exhaust_sel element_item.simps fst_conv snd_conv)
    then have "splice_move a b (map (fst \<circ> snd) (map element_item es)) ! i = render (?ts ! i)"
      using map_splice_move [of a "map element_tree es" render b] r len i by (metis length_map nth_map)
    moreover have "element_item (es ! i) = (elead (es ! i), render (element_tree (es ! i)), etrail (es ! i))"
      by (cases "es ! i") simp
    ultimately show "map element_item ?es ! i = moved_items a b (map element_item es) ! i"
      using i by (simp add: moved_items_def)
  qed (simp add: moved_items_def)
  then have "map flat (map element_item ?es) = map flat (moved_items a b (map element_item es))"
    by (rule arg_cong)
  then have "map render_element ?es = map flat (moved_items a b (map element_item es))"
    by (simp only: map_map comp_def flat_element_item)
  moreover have "map tree_element ?es = splice_move a b (map tree_element es)"
  proof -
    have "map tree_element ?es = map tree_value ?ts"
      using len by (intro nth_equalityI) simp_all
    also have "\<dots> = splice_move a b (map tree_element es)"
      using r by (simp add: map_splice_move comp_def tree_element_fun)
    finally show ?thesis .
  qed
  moreover have "?es \<noteq> []" using r by auto
  moreover have "branches (Arr w ?es) = splice_move a b (branches (Arr w es))"
  proof -
    have "branches (Arr w ?es) = map (Pair []) ?ts" using len by (intro nth_equalityI) simp_all
    then show ?thesis using r by (simp add: map_splice_move comp_def)
  qed
  ultimately show ?thesis using d
    by (intro exI [of _ "Arr w ?es"]) (simp del: uniq_element_iff tree_element_eq)
qed

lemma moveElement_other:
  assumes e: "document e" "slot_at e q = Some x" and t: "\<not> is_arr (element_tree x)"
  shows "moveElement (render_element e) (index_of e) (pointer q) a b = render_element e"
proof -
  obtain PRE POST sp where P: "render_element e = PRE @ render (element_tree x) @ POST"
    "spanAt (index_of e) (pointer q) = Some sp" "valueStart sp = length PRE"
    using container_span [OF e] by metis
  have "wf_tree (element_tree x)" using document_slot_at [OF e(2,1)] by (simp add: document_def wf_element_iff)
  then have "\<exists>c r. render (element_tree x) = c # r \<and> c \<noteq> open_bracket"
  proof (cases "element_tree x")
    case (Leaf u)
    with \<open>wf_tree (element_tree x)\<close> show ?thesis
      using raw_leaf_start [of u] by (cases u) (auto simp: scalar_start_def)
  qed (use t in simp_all)
  then have "char_at (render_element e) (valueStart sp) \<noteq> Some open_bracket" using P by auto
  then show ?thesis using P by (simp add: moveElement_def)
qed

lemma edited_moveElement:
  assumes v: "reads src v"
  shows "edited src q (move_child a b) (moveElement src (indexDocument src) (pointer q) a b)"
proof -
  obtain e where e: "src = render_element e" "document e" "v = tree_element e" "indexDocument src = index_of e"
    using v by (rule reads_cases)
  have ue: "uniq_element e" using e(2) by (simp add: document_def)
  show ?thesis
  proof (cases "slot_at e q")
    case None
    then show ?thesis using e spanAt_none [OF e(2) None] edited_none [OF e(2) None]
      by (simp add: moveElement_def)
  next
    case (Some x)
    let ?c = "element_tree x"
    have x: "wf_tree ?c" "uniq ?c" using document_slot_at [OF Some e(2)] by (simp_all add: document_def wf_element_iff)
    have same: ?thesis if "move_child a b (tree_value ?c) = tree_value ?c"
      "moveElement src (indexDocument src) (pointer q) a b = src"
      using that Some e edited_same [OF e(2), of q "move_child a b"] by simp
    show ?thesis
    proof (cases "is_arr ?c")
      case False
      then have "move_child a b (tree_value ?c) = tree_value ?c"
        by (cases ?c) (simp_all add: leaf_value_def)
      then show ?thesis using same moveElement_other [OF e(2) Some False] e by simp
    next
      case True
      then obtain w es where arr: "?c = Arr w es" by (cases ?c) simp_all
      let ?n = "int (length es)"
      show ?thesis
      proof (cases "a = b \<or> a < 0 \<or> b < 0 \<or> ?n \<le> a \<or> ?n \<le> b")
        case out: True
        then have "move_child a b (tree_value ?c) = tree_value ?c" using arr by auto
        moreover have "length (childSpans (index_of e) (pointer q) True) = length es"
          using children(1) [OF e(2) Some] arr by simp
        then have "moveElement src (indexDocument src) (pointer q) a b = src"
          using out e moveElement_out [of a b "index_of e" "pointer q" src] by simp
        ultimately show ?thesis by (rule same)
      next
        case False
        then have r: "0 \<le> a" "a < ?n" "0 \<le> b" "b < ?n" "a \<noteq> b" by auto
        then have rn: "nat a < length es" "nat b < length es" by auto
        obtain d where d: "wf_tree d" "uniq d"
          "render d = open_bracket # join_with [comma] (map flat (moved_items (nat a) (nat b) (items ?c))) @ [close_bracket]"
          "tree_value d = JArr (splice_move (nat a) (nat b) (map tree_element es))"
          using moved_array [OF x [unfolded arr] rn] arr by auto
        have "tree_value d = move_child a b (tree_value ?c)" using d(4) arr False by simp
        then show ?thesis
          using moveElement_slot [OF e(2) Some True _ _ _ _ r(5) d(3)] edited_put_tree [OF e(2) Some d(1,2), of "move_child a b"] e r arr
          by simp
      qed
    qed
  qed
qed

section \<open>What \<open>update_at\<close> changes\<close>

lemma map_of_map_if:
  "map_of (map (\<lambda>(n, w). (n, if n = k then g w else w)) ms) k' =
     (if k' = k then map_option g (map_of ms k') else map_of ms k')"
  by (induction ms) auto

lemma step_into_update:
  "step_into (update_at (k # ks) f v) k' =
     (if k' = k then map_option (update_at ks f) (step_into v k') else step_into v k')"
proof (cases v)
  case (JArr xs)
  have "k' = k" if "arrayIndex k' = Some i" "arrayIndex k = Some i" for i
    using that by (simp add: arrayIndex_eq)
  then show ?thesis using JArr by (auto simp: step_into_def nth_list_update split: option.split)
qed (simp_all add: step_into_def map_of_map_if)

lemma value_down_update_at: "value_down (update_at q f v) q = map_option f (value_down v q)"
proof (induction q arbitrary: v)
  case (Cons k ks)
  then show ?case
    using step_into_update [of k ks f v k] by (auto simp del: update_at.simps split: option.split)
qed simp

lemma value_down_update_other:
  "\<lbrakk>\<not> prefix q r; \<not> prefix r q\<rbrakk> \<Longrightarrow> value_down (update_at q f v) r = value_down v r"
proof (induction q arbitrary: r v)
  case (Cons k ks)
  obtain k' rs where r: "r = k' # rs" using Cons.prems by (cases r) auto
  show ?case
    using step_into_update [of k ks f v k'] Cons.IH [of rs] Cons.prems r
    by (auto simp del: update_at.simps split: option.split)
qed simp

section \<open>Sample documents\<close>

lemma sample_true: "reads (js ''true'') (JBool True)"
  using reads_document [of "Element [] (Leaf (js ''true'')) []"]
  by (simp add: document_def raw_leaf_def leaf_value_def)

lemma sample_object:
  "reads (js ''{ \"a\": true, \"b\": null }'') (JObj [(js ''a'', JBool True), (js ''b'', JNull)])"
proof -
  let ?m = "\<lambda>l n v t. Member l (stringify_string n) [] (js '' '') (Leaf v) t"
  let ?d = "Element [] (Obj [] [?m (js '' '') (js ''a'') (js ''true'') [], ?m (js '' '') (js ''b'') (js ''null'') (js '' '')]) []"
  have q: "stringify_string [c] = [quote_mark, c, quote_mark]" if "c = 97 \<or> c = 98" for c
    using that by (auto simp: stringify_string_def short_escape_def is_high_def is_low_def)
  have n: "member_name (?m l (js x) v t) = js x" for l x v t by simp
  have "document ?d" using n by (simp add: document_def raw_leaf_def isSpace_def del: member_simps)
      (simp add: member_name_def)
  from reads_document [OF this] show ?thesis
    by (simp add: q leaf_value_def add_first_def) (simp add: q [symmetric])
qed

lemma sample_array: "reads (js ''[ true , null]'') (JArr [JBool True, JNull])"
  using reads_document [of "Element [] (Arr [] [Element (js '' '') (Leaf (js ''true'')) (js '' ''),
      Element (js '' '') (Leaf (js ''null'')) []]) []"]
  by (simp add: document_def raw_leaf_def leaf_value_def isSpace_def)

lemma valueAt_root [simp]: "valueAt v [] = Some v"
  by (simp add: valueAt_def parsePointer_def)

section \<open>Properties\<close>

text \<open>
  C1: the scanner accepts a text exactly when it is a layout tree written out between two runs of
  layout; and of every such text its index is the one the tree prescribes: every span, every duplicate, the value.
\<close>

theorem indexDocument_accepts:
  "(ix_error (indexDocument src) = None \<longleftrightarrow>
      (\<exists>w c w'. src = w @ render c @ w' \<and> wf_tree c \<and> ws w \<and> ws w'))
   \<and> (\<forall>w c w'. src = w @ render c @ w' \<and> wf_tree c \<and> ws w \<and> ws w' \<longrightarrow> indexDocument src = tree_index w c)"
proof -
  have "\<exists>w c w'. src = w @ render c @ w' \<and> wf_tree c \<and> ws w \<and> ws w'" if "ix_error (indexDocument src) = None"
    using indexDocument_sound [OF that] by metis
  then show ?thesis using indexDocument_render by (auto simp: tree_index_def)
qed

theorem indexDocument_accepts_witness:
  "ix_error (indexDocument (js '' null'')) = None \<and> indexDocument (js '' null'') = tree_index (js '' '') (Leaf (js ''null''))"
proof -
  have "js '' null'' = js '' '' @ render (Leaf (js ''null'')) @ []" "wf_tree (Leaf (js ''null''))" "ws (js '' '')" "ws []"
    by (simp_all add: raw_leaf_def isSpace_def)
  then show ?thesis using indexDocument_accepts [of "js '' null''"] by blast
qed

text \<open>
  C5: the scanner answers on every text: the steps it is given are never used up, so it returns a
  value or one of its own refusals.
\<close>

theorem indexDocument_answers:
  "ix_error (indexDocument src) \<noteq> Some OutOfFuel
   \<and> (ix_error (indexDocument src) = None \<longleftrightarrow> ix_value (indexDocument src) \<noteq> None)"
  using indexDocument_total by (auto simp: indexDocument_def Let_def split: sum.splits prod.splits)

text \<open>
  C4: the span under a pointer is where that value is: the bytes it delimits are themselves a JSON
  text whose value is the one the pointer denotes, and there is a span exactly where there is a value.
\<close>

theorem spans_locate:
  assumes "reads src v"
  shows "case value_text src q of
           None \<Rightarrow> valueAt v (pointer q) = None
         | Some t \<Rightarrow> \<exists>w. valueAt v (pointer q) = Some w \<and> reads t w"
  using value_text_reads [OF assms, of q] by (simp cong: option.case_cong)

theorem spans_locate_witness:
  "case value_text (js ''[ true , null]'') [dec 1] of
     None \<Rightarrow> valueAt (JArr [JBool True, JNull]) (pointer [dec 1]) = None
   | Some t \<Rightarrow> \<exists>w. valueAt (JArr [JBool True, JNull]) (pointer [dec 1]) = Some w \<and> reads t w"
  by (rule spans_locate [OF sample_array])

text \<open>
  C2: after \<open>replaceValue\<close> at a declared address the text still scans, the address holds the value
  that was written, and every value neither above nor below that address is what it was.
\<close>

theorem replaceValue_writes:
  assumes "reads src v" "reads json j" "declaredAt v (pointer q)"
  shows "\<exists>v'. reads (replaceValue src (indexDocument src) (pointer q) json) v'
     \<and> valueAt v' (pointer q) = Some j
     \<and> list_all (\<lambda>r. prefix q r \<or> prefix r q \<or> valueAt v' (pointer r) = valueAt v (pointer r)) rs"
proof (intro exI conjI)
  show "reads (replaceValue src (indexDocument src) (pointer q) json) (update_at q (\<lambda>_. j) v)"
    using edited_reads [OF assms(1) edited_replaceValue [OF assms(1,2)]] .
  show "valueAt (update_at q (\<lambda>_. j) v) (pointer q) = Some j"
    using assms(3) by (auto simp: declaredAt_def value_down_update_at)
  show "list_all (\<lambda>r. prefix q r \<or> prefix r q
      \<or> valueAt (update_at q (\<lambda>_. j) v) (pointer r) = valueAt v (pointer r)) rs"
    using value_down_update_other [of q _ "\<lambda>_. j" v] by (auto simp: list_all_iff)
qed

theorem replaceValue_writes_witness:
  "\<exists>v'. reads (replaceValue (js ''[ true , null]'') (indexDocument (js ''[ true , null]'')) (pointer [dec 1]) (js ''true'')) v'
     \<and> valueAt v' (pointer [dec 1]) = Some (JBool True)
     \<and> list_all (\<lambda>r. prefix [dec 1] r \<or> prefix r [dec 1]
          \<or> valueAt v' (pointer r) = valueAt (JArr [JBool True, JNull]) (pointer r)) [[dec 0]]"
  by (rule replaceValue_writes [OF sample_array sample_true])
    (simp add: declaredAt_def step_into_def del: pointer.simps)

text \<open>\<open>removeMember\<close> takes out exactly the member, or the element, its pointer names: the text that
  is left scans, with one comma gone, and its value is the old one without that child.
\<close>

theorem removeMember_drops:
  assumes "reads src v"
  shows "reads (removeMember src (indexDocument src) (pointer (q @ [k]))) (update_at q (drop_child k) v)"
  using edited_reads [OF assms edited_removeMember [OF assms]] .

theorem removeMember_drops_witness:
  "reads (removeMember (js ''{ \"a\": true, \"b\": null }'') (indexDocument (js ''{ \"a\": true, \"b\": null }''))
      (pointer [js ''b''])) (JObj [(js ''a'', JBool True)])"
  using removeMember_drops [OF sample_object, of "[]" "js ''b''"] by simp

text \<open>\<open>insertMember\<close> adds exactly one member, at the place its placement says, and the text scans
  afterwards; a name the object already has is the one thing the caller must not ask for.
\<close>

theorem insertMember_adds:
  assumes "reads src v" "reads json j"
    and "\<And>n ms. \<lbrakk>name = Some n; valueAt v (pointer q) = Some (JObj ms)\<rbrakk> \<Longrightarrow> n \<notin> fst ` set ms"
  shows "reads (insertMember src (indexDocument src) (pointer q) name json placement)
           (update_at q (\<lambda>w. insert_child (place q (child_keys w) placement) name j w) v)"
  using edited_reads [OF assms(1) edited_insertMember [OF assms(1,2)]] assms(3) by simp

theorem insertMember_adds_witness:
  "reads (insertMember (js ''{ \"a\": true, \"b\": null }'') (indexDocument (js ''{ \"a\": true, \"b\": null }''))
      (pointer []) (Some (js ''c'')) (js ''true'') (After (pointer [js ''a''])))
     (JObj [(js ''a'', JBool True), (js ''c'', JBool True), (js ''b'', JNull)])"
proof -
  let ?v = "JObj [(js ''a'', JBool True), (js ''b'', JNull)]"
  have "reads (insertMember (js ''{ \"a\": true, \"b\": null }'') (indexDocument (js ''{ \"a\": true, \"b\": null }''))
      (pointer []) (Some (js ''c'')) (js ''true'') (After (pointer [js ''a''])))
     (update_at [] (\<lambda>w. insert_child (place [] (child_keys w) (After (pointer [js ''a'']))) (Some (js ''c'')) (JBool True) w) ?v)"
    by (rule insertMember_adds [OF sample_object sample_true]) auto
  then show ?thesis by (simp add: place_def child_keys_def del: js_Cons)
qed

text \<open>\<open>moveElement\<close> permutes the elements of the array it names, the moved one arriving at the index
  asked for and the others keeping their order; out of range, or in place, nothing changes.
\<close>

theorem moveElement_permutes:
  assumes "reads src v" "valueAt v (pointer q) = Some (JArr xs)"
  shows "\<exists>v' ys. reads (moveElement src (indexDocument src) (pointer q) a b) v'
     \<and> v' = update_at q (move_child a b) v \<and> valueAt v' (pointer q) = Some (JArr ys)
     \<and> mset ys = mset xs
     \<and> ys = (if a = b \<or> a < 0 \<or> b < 0 \<or> int (length xs) \<le> a \<or> int (length xs) \<le> b then xs
             else splice_move (nat a) (nat b) xs)"
proof (intro exI conjI)
  show "reads (moveElement src (indexDocument src) (pointer q) a b) (update_at q (move_child a b) v)"
    using edited_reads [OF assms(1) edited_moveElement [OF assms(1)]] .
  let ?ys = "if a = b \<or> a < 0 \<or> b < 0 \<or> int (length xs) \<le> a \<or> int (length xs) \<le> b then xs
             else splice_move (nat a) (nat b) xs"
  show "valueAt (update_at q (move_child a b) v) (pointer q) = Some (JArr ?ys)"
    using assms(2) by (simp add: value_down_update_at)
  show "mset ?ys = mset xs" by (auto intro!: mset_splice_move)
qed (rule refl)+

theorem moveElement_permutes_witness:
  "\<exists>v' ys. reads (moveElement (js ''[ true , null]'') (indexDocument (js ''[ true , null]'')) (pointer []) 1 0) v'
     \<and> v' = update_at [] (move_child 1 0) (JArr [JBool True, JNull]) \<and> valueAt v' (pointer []) = Some (JArr ys)
     \<and> mset ys = mset [JBool True, JNull]
     \<and> ys = (if (1::int) = 0 \<or> (1::int) < 0 \<or> (0::int) < 0 \<or> int (length [JBool True, JNull]) \<le> 1
                \<or> int (length [JBool True, JNull]) \<le> 0
             then [JBool True, JNull] else splice_move (nat 1) (nat 0) [JBool True, JNull])"
  by (rule moveElement_permutes [OF sample_array]) simp

end
