(* ===== verification/Stringify.thy ===== *)
theory Stringify
  imports Json_Text Document_Inserts
begin

text \<open>
  What \<open>JSON.stringify\<close> writes is a layout tree, so the scanner reads it back: whatever the
  indentation, the text's value is the one that was written.
\<close>

text \<open>
  Values whose text says what they are: no member name twice and none that is an array index, so
  that members are written in the order they are held, and only numbers whose text reads back as
  the number.  The language promises that of every finite number but \<open>-0\<close>; the model decides it
  number by number, by evaluation.
\<close>

definition stable_number :: "jnum \<Rightarrow> bool" where
  "stable_number n \<longleftrightarrow>
     (case n of Infinite _ \<Rightarrow> False | _ \<Rightarrow> raw_number (number_text n) \<and> number_of (number_text n) = Some n)"

fun stable :: "jval \<Rightarrow> bool" where
  "stable (JNum n) = stable_number n"
| "stable (JArr xs) = list_all stable xs"
| "stable (JObj ms) =
     (distinct (map fst ms) \<and> list_all (\<lambda>(k, v). \<not> array_index_name k \<and> stable v) ms)"
| "stable v = True"

primrec lead_member :: "jstr \<Rightarrow> member \<Rightarrow> member" where
  "lead_member l' (Member l n a b c t) = Member (l' @ l) n a b c t"

fun written_tree :: "jstr \<Rightarrow> jstr \<Rightarrow> jval \<Rightarrow> tree" where
  "written_tree gap ind (JArr xs) =
     (let l = (if gap = [] then [] else [10] @ ind @ gap);
          t = (if gap = [] then [] else [10] @ ind)
      in Arr [] (on_last (trail_element t)
           (map (\<lambda>x. Element l (written_tree gap (ind @ gap) x) []) xs)))"
| "written_tree gap ind (JObj ms) =
     (let l = (if gap = [] then [] else [10] @ ind @ gap);
          t = (if gap = [] then [] else [10] @ ind);
          b = (if gap = [] then [] else js '' '')
      in Obj [] (on_last (trail_member t)
           (map (\<lambda>(k, v). Member l (stringify_string k) [] b (written_tree gap (ind @ gap) v) []) ms)))"
| "written_tree gap ind v = Leaf (stringify gap ind v)"

lemma raw_leaf_words [simp]:
  "raw_leaf (js ''true'')" "raw_leaf (js ''false'')" "raw_leaf (js ''null'')" "raw_leaf (stringify_string s)"
  by (simp_all add: raw_leaf_def)

lemma hd_stringify [simp]: "hd (stringify_string s) = quote_mark"
  by (simp add: stringify_string_def)

lemma leaf_value_words [simp]:
  "leaf_value (js ''true'') = JBool True" "leaf_value (js ''false'') = JBool False"
  "leaf_value (js ''null'') = JNull"
  by (simp_all add: leaf_value_def)

lemma leaf_value_string [simp]: "leaf_value (stringify_string s) = JStr s"
proof -
  obtain r where r: "stringify_string s = quote_mark # r" by (simp add: stringify_string_def)
  have "leaf_value (quote_mark # r) = JStr (name_of (quote_mark # r))"
    by (simp add: leaf_value_def)
  then show ?thesis unfolding r [symmetric] by simp
qed

lemma leaf_value_number: "raw_number t \<Longrightarrow> leaf_value t = JNum (the (number_of t))"
proof -
  assume t: "raw_number t"
  then have "number_char (hd t)" by (cases t) (auto simp: raw_number_def)
  from number_char_start [OF this] show ?thesis by (auto simp: leaf_value_def)
qed

lemma in_key_order_plain:
  assumes "distinct (map fst es)" "list_all (\<lambda>k. \<not> array_index_name k) (map fst es)"
  shows "in_key_order es = map snd es"
proof -
  have "filter array_index_name (map fst es) = []" "filter (\<lambda>k. \<not> array_index_name k) (map fst es) = map fst es"
    using assms(2) by (auto simp: list_all_iff filter_empty_conv filter_id_conv)
  then have "own_keys es = map fst es" by (simp add: own_keys_def Let_def)
  then show ?thesis using assms(1)
    by (auto simp: in_key_order_def intro!: map_cong)
qed

lemma join_on_last:
  assumes "\<And>x. r (f x) = r x @ t"
  shows "join_with s (map r (on_last f xs)) = (if xs = [] then [] else join_with s (map r xs) @ t)"
  using on_last_join [of xs r f t s] assms by (cases xs) auto

lemma join_leading:
  "xs \<noteq> [] \<Longrightarrow> l @ join_with (s @ l) xs = join_with s (map (\<lambda>x. l @ x) xs)"
  by (induction xs rule: induct_list012) simp_all

lemma bracketed_parts:
  assumes "gap = [] \<longrightarrow> l = [] \<and> t = []" "gap \<noteq> [] \<longrightarrow> l = [10] @ ind @ gap \<and> t = [10] @ ind"
  shows "bracketed gap ind open close parts =
     open @ (if parts = [] then [] else join_with (js '','') (map (\<lambda>x. l @ x) parts) @ t) @ close"
proof (cases "gap = []")
  case True
  moreover have "map ((@) []) parts = parts" by (induction parts) simp_all
  ultimately show ?thesis using assms by (simp add: bracketed_def)
next
  case False
  then have lt: "l = [10] @ ind @ gap" "t = [10] @ ind" using assms by simp_all
  show ?thesis
  proof (cases "parts = []")
    case False
    have "bracketed gap ind open close parts = open @ (l @ join_with (js '','' @ l) parts) @ t @ close"
      using False \<open>gap \<noteq> []\<close> by (simp add: bracketed_def lt)
    then show ?thesis unfolding join_leading [OF False] using False by simp
  qed (simp add: bracketed_def)
qed

lemma ws_newline: "ws gap \<Longrightarrow> ws ind \<Longrightarrow> ws ([10] @ ind @ gap)"
  by (simp add: isSpace_def)

text \<open>The tree is well formed, its rendering is the written text and its value the one written.\<close>

lemma written_tree:
  "\<lbrakk>stable v; ws gap; ws ind\<rbrakk> \<Longrightarrow>
     wf_tree (written_tree gap ind v) \<and> uniq (written_tree gap ind v)
     \<and> render (written_tree gap ind v) = stringify gap ind v
     \<and> tree_value (written_tree gap ind v) = v"
proof (induction gap ind v rule: written_tree.induct)
  case (1 gap ind xs)
  define l t where "l = (if gap = [] then [] else [10] @ ind @ gap)" and "t = (if gap = [] then [] else [10] @ ind)"
  have lt: "ws l" "ws t" using 1 by (auto simp: l_def t_def isSpace_def)
  let ?tree = "written_tree gap (ind @ gap)"
  let ?es = "map (\<lambda>x. Element l (?tree x) []) xs"
  have tree: "written_tree gap ind (JArr xs) = Arr [] (on_last (trail_element t) ?es)"
    by (simp add: l_def t_def Let_def)
  have ih: "wf_tree (?tree x)" "uniq (?tree x)" "render (?tree x) = stringify gap (ind @ gap) x"
    "tree_value (?tree x) = x" if "x \<in> set xs" for x
    using 1 that by (auto simp: list_all_iff)
  have "list_all wf_element (on_last (trail_element t) ?es)"
    using ih(1) lt by (intro on_last_all) (auto simp: list_all_iff)
  moreover have "list_all uniq_element (on_last (trail_element t) ?es)"
    using ih(2) by (intro on_last_all) (auto simp: list_all_iff)
  moreover have "map tree_element (on_last (trail_element t) ?es) = xs"
    using ih(4) by (subst on_last_map) (auto intro: map_idI)
  moreover have "render (Arr [] (on_last (trail_element t) ?es)) = stringify gap ind (JArr xs)"
  proof -
    have "map render_element ?es = map (\<lambda>x. l @ x) (map (stringify gap (ind @ gap)) xs)"
      using ih(3) by simp
    then have "join_with [comma] (map render_element (on_last (trail_element t) ?es))
        = (if xs = [] then [] else join_with [comma] (map (\<lambda>x. l @ x) (map (stringify gap (ind @ gap)) xs)) @ t)"
      by (subst join_on_last [where t = t]) (simp_all del: map_map)
    moreover have "stringify gap ind (JArr xs)
        = js ''['' @ (if xs = [] then [] else join_with (js '','') (map (\<lambda>x. l @ x) (map (stringify gap (ind @ gap)) xs)) @ t) @ js '']''"
      using bracketed_parts [of gap l t ind "js ''[''" "js '']''" "map (stringify gap (ind @ gap)) xs"]
      by (simp add: l_def t_def del: map_map)
    ultimately show ?thesis by (simp del: map_map stringify.simps)
  qed
  ultimately show ?case unfolding tree by (simp del: tree_element_eq uniq_element_iff)
next
  case (2 gap ind ms)
  define l t where "l = (if gap = [] then [] else [10] @ ind @ gap)" and "t = (if gap = [] then [] else [10] @ ind)"
  define b where "b = (if gap = [] then [] else js '' '')"
  have lt: "ws l" "ws t" "ws b" using 2 by (auto simp: l_def t_def b_def isSpace_def)
  let ?tree = "written_tree gap (ind @ gap)"
  let ?m = "\<lambda>(k, v). Member l (stringify_string k) [] b (?tree v) []"
  let ?ms = "map ?m ms"
  have tree: "written_tree gap ind (JObj ms) = Obj [] (on_last (trail_member t) ?ms)"
    by (simp add: l_def t_def b_def Let_def)
  have ih: "wf_tree (?tree v)" "uniq (?tree v)" "render (?tree v) = stringify gap (ind @ gap) v"
    "tree_value (?tree v) = v" if "(k, v) \<in> set ms" for k v
    using 2 that by (fastforce simp: list_all_iff)+
  have dist: "distinct (map fst ms)" and plain: "list_all (\<lambda>k. \<not> array_index_name k) (map fst ms)"
    using 2 by (auto simp: list_all_iff)
  have "list_all wf_member (on_last (trail_member t) ?ms)"
    using ih(1) lt by (intro on_last_all) (auto simp: list_all_iff)
  moreover have u: "uniq (Obj [] (on_last (trail_member t) ?ms))"
  proof -
    have "map member_name ?ms = map fst ms" by auto
    then have "distinct (map member_name (on_last (trail_member t) ?ms))"
      using dist by (subst on_last_map) (simp_all del: map_map)
    moreover have "list_all uniq_member (on_last (trail_member t) ?ms)"
      using ih(2) by (intro on_last_all) (auto simp: list_all_iff)
    ultimately show ?thesis by simp
  qed
  moreover have "tree_value (Obj [] (on_last (trail_member t) ?ms)) = JObj ms"
  proof -
    have "map tree_member ?ms = ms" using ih(4) by (auto intro: map_idI)
    then show ?thesis unfolding tree_value_Obj [OF u] by (subst on_last_map) simp_all
  qed
  moreover have "render (Obj [] (on_last (trail_member t) ?ms)) = stringify gap ind (JObj ms)"
  proof -
    let ?entry = "\<lambda>(k, v). (k, stringify_string k @ (if gap = [] then js '':'' else js '': '') @ stringify gap (ind @ gap) v)"
    have parts: "in_key_order (map ?entry ms) = map snd (map ?entry ms)"
    proof -
      have "map fst (map ?entry ms) = map fst ms" by auto
      then show ?thesis using in_key_order_plain [of "map ?entry ms"] dist plain by (simp del: map_map add: map_map [symmetric])
    qed
    have "map render_member ?ms = map (\<lambda>x. l @ x) (map snd (map ?entry ms))"
      using ih(3) by (auto simp: b_def)
    then have "join_with [comma] (map render_member (on_last (trail_member t) ?ms))
        = (if ms = [] then [] else join_with [comma] (map (\<lambda>x. l @ x) (map snd (map ?entry ms))) @ t)"
      by (subst join_on_last [where t = t]) (simp_all del: map_map)
    moreover have "stringify gap ind (JObj ms)
        = js ''{'' @ (if ms = [] then [] else join_with (js '','') (map (\<lambda>x. l @ x) (map snd (map ?entry ms))) @ t) @ js ''}''"
      using bracketed_parts [of gap l t ind "js ''{''" "js ''}''" "map snd (map ?entry ms)"]
      by (simp add: l_def t_def parts del: map_map)
    ultimately show ?thesis by (simp del: map_map stringify.simps)
  qed
  ultimately show ?case unfolding tree by simp
next
  case "3_3"
  then show ?case by (auto simp: stable_number_def raw_leaf_def leaf_value_number split: jnum.splits)
next
  case "3_4"
  then show ?case by (simp del: leaf_value_string add: leaf_value_string [simplified])
qed (auto simp: raw_leaf_def leaf_value_def)

lemma reads_stringify:
  assumes "stable v" "ws gap" "ws ind"
  shows "reads (stringify gap ind v) v"
proof -
  let ?e = "Element [] (written_tree gap ind v) []"
  have "document ?e" using written_tree [OF assms] by (simp add: document_def)
  from reads_document [OF this] show ?thesis using written_tree [OF assms] by simp
qed

lemma reads_JSON_stringify: "stable v \<Longrightarrow> reads (JSON_stringify [] v) v"
  by (simp add: JSON_stringify_def reads_stringify)

end
