(* ===== verification/Shape.thy ===== *)
theory Shape
  imports Pointers
begin

text \<open>
  \<open>packs/edit/shape.ts\<close>: what the pack schema offers the editor, as the closed lists of the source.
  A regular expression over pointers, \<open>/^\/sources\/\d+\/title$/\<close>, is the list of its segments and is
  matched against the pointer split at its slashes; the two remaining expressions are matchers.
\<close>

section \<open>Pointer shapes\<close>

datatype segment = Word string | OneOf "string list" | Digits

fun segment_test :: "segment \<Rightarrow> jstr \<Rightarrow> bool" where
  "segment_test (Word w) t = (t = js w)"
| "segment_test (OneOf ws) t = (t \<in> set (map js ws))"
| "segment_test Digits t = (t \<noteq> [] \<and> list_all is_digit t)"

definition shape_test :: "segment list \<Rightarrow> jstr \<Rightarrow> bool" where
  "shape_test segs ptr =
     (let parts = split_on slash ptr in hd parts = [] \<and> list_all2 segment_test segs (tl parts))"

definition NON_EMPTY_STRINGS :: "segment list list" where
  "NON_EMPTY_STRINGS =
     [[Word ''title''],
      [Word ''description''],
      [Word ''decision'', OneOf [''intent'', ''question'']],
      [Word ''evidenceRequirements'', Digits, Word ''description''],
      [Word ''sources'', Digits, OneOf [''title'', ''publisher'', ''rights'']],
      [Word ''sources'', Digits, Word ''locator'', Word ''value''],
      [Word ''sources'', Digits, Word ''citation'', OneOf [''location'', ''excerpt'']],
      [Word ''outcomes'', Digits, OneOf [''label'', ''description'']],
      [Word ''rules'', Digits, OneOf [''description'', ''rationale'']],
      [Word ''exceptions'', Digits, Word ''description''],
      [Word ''escalation'', Word ''message''],
      [Word ''escalation'', Word ''target'', Word ''name''],
      [Word ''metadata'', Word ''authors'', Digits],
      [Word ''metadata'', Word ''license''],
      [Word ''metadata'', Word ''reviews'', Digits, OneOf [''reviewer'', ''note'']]]"

definition isNonEmptyString :: "jstr \<Rightarrow> bool" where
  "isNonEmptyString ptr = list_ex (\<lambda>shape. shape_test shape ptr) NON_EMPTY_STRINGS"

section \<open>Ids, decimals and closed lists\<close>

definition is_lower :: "code_unit \<Rightarrow> bool" where
  "is_lower c \<longleftrightarrow> 97 \<le> c \<and> c \<le> 122"

text \<open>\<open>^[a-z][a-z0-9]*(?:-[a-z0-9]+)*$\<close>: words of letters and digits, joined by hyphens.\<close>

definition LOCAL_ID :: "jstr \<Rightarrow> bool" where
  "LOCAL_ID t =
     (let parts = split_on (uc CHR ''-'') t in
      list_all (\<lambda>p. p \<noteq> [] \<and> list_all (\<lambda>c. is_lower c \<or> is_digit c) p) parts \<and> is_lower (hd (hd parts)))"

text \<open>\<open>^-?(?:0|[1-9][0-9]*)(?:\.[0-9]+)?$\<close>.\<close>

definition DECIMAL_STRING :: "jstr \<Rightarrow> bool" where
  "DECIMAL_STRING t =
     (let u = (if t \<noteq> [] \<and> hd t = uc CHR ''-'' then tl t else t) in
      case split_on (uc CHR ''.'') u of
        [w] \<Rightarrow> is_index w
      | [w, f] \<Rightarrow> is_index w \<and> f \<noteq> [] \<and> list_all is_digit f
      | _ \<Rightarrow> False)"

definition ENUMS_conditionOp :: "string list" where
  "ENUMS_conditionOp = [''literal'', ''all'', ''any'', ''not'', ''fact'', ''evidence-present'']"

definition ENUMS_factOperator :: "string list" where
  "ENUMS_factOperator =
     [''equals'', ''not-equals'', ''greater-than'', ''greater-than-or-equal'', ''less-than'',
      ''less-than-or-equal'', ''in'']"

definition ENUMS :: "(string \<times> string list) list" where
  "ENUMS =
     [(''onUnknown'', [''ignore'', ''escalate'']),
      (''effect'', [''suppress-rule'', ''force-outcome'', ''escalate'']),
      (''triggers'', [''not-applicable'', ''missing-required-evidence'', ''unknown'', ''conflict'', ''no-match'']),
      (''targetKind'', [''human-role'', ''queue'', ''system'']),
      (''locatorKind'', [''uri'', ''repository'', ''path'', ''other'']),
      (''evidenceKind'', [''document'', ''fact'', ''measurement'', ''attestation'']),
      (''reviewDisposition'', [''approved'', ''changes-requested'', ''rejected'']),
      (''conditionOp'', ENUMS_conditionOp),
      (''factOperator'', ENUMS_factOperator)]"

datatype operand_control = Decimal | ListControl | JsonControl

definition operandControl :: "jstr \<Rightarrow> operand_control" where
  "operandControl operator =
     (if operator \<in> set (map js [''greater-than'', ''greater-than-or-equal'', ''less-than'', ''less-than-or-equal''])
      then Decimal
      else if operator = js ''in'' then ListControl
      else JsonControl)"

definition CONDITION_MEMBERS :: "(jstr \<times> jstr list) list" where
  "CONDITION_MEMBERS =
     [(js ''literal'', map js [''op'', ''value'']),
      (js ''all'', map js [''op'', ''conditions'']),
      (js ''any'', map js [''op'', ''conditions'']),
      (js ''not'', map js [''op'', ''condition'']),
      (js ''fact'', map js [''op'', ''path'', ''operator'', ''value'']),
      (js ''evidence-present'', map js [''op'', ''evidenceRequirement''])]"

section \<open>Member order and starters\<close>

definition MEMBER_ORDER :: "(segment list \<times> jstr list) list" where
  "MEMBER_ORDER =
     [([], map js [''specVersion'', ''id'', ''version'', ''title'', ''description'', ''decision'',
         ''applicability'', ''evidenceRequirements'', ''sources'', ''outcomes'', ''rules'',
         ''exceptions'', ''fallbackOutcome'', ''escalation'', ''metadata'', ''extensions'']),
      ([Word ''decision''], map js [''intent'', ''question'', ''extensions'']),
      ([Word ''evidenceRequirements'', Digits],
         map js [''id'', ''description'', ''required'', ''kind'', ''extensions'']),
      ([Word ''sources'', Digits],
         map js [''id'', ''title'', ''publisher'', ''publishedAt'', ''locator'', ''citation'',
           ''rights'', ''extensions'']),
      ([Word ''sources'', Digits, Word ''locator''], map js [''kind'', ''value'']),
      ([Word ''sources'', Digits, Word ''citation''], map js [''location'', ''excerpt'']),
      ([Word ''outcomes'', Digits], map js [''id'', ''label'', ''description'', ''extensions'']),
      ([Word ''rules'', Digits],
         map js [''id'', ''description'', ''when'', ''outcome'', ''onUnknown'',
           ''evidenceRequirementRefs'', ''sourceRefs'', ''rationale'', ''extensions'']),
      ([Word ''exceptions'', Digits],
         map js [''id'', ''description'', ''when'', ''effect'', ''targetRule'', ''outcome'',
           ''onUnknown'', ''sourceRefs'', ''extensions'']),
      ([Word ''escalation''], map js [''triggers'', ''target'', ''message'', ''extensions'']),
      ([Word ''escalation'', Word ''target''], map js [''kind'', ''name'']),
      ([Word ''metadata''],
         map js [''authors'', ''createdAt'', ''license'', ''requiredExtensions'', ''reviews'', ''extensions''])]"

fun find_shape :: "(segment list \<times> 'a) list \<Rightarrow> jstr \<Rightarrow> 'a option" where
  "find_shape [] ptr = None"
| "find_shape ((shape, x) # es) ptr = (if shape_test shape ptr then Some x else find_shape es ptr)"

definition memberOrder :: "jstr \<Rightarrow> jstr list" where
  "memberOrder containerPointer =
     (case find_shape MEMBER_ORDER containerPointer of Some members \<Rightarrow> members | None \<Rightarrow> [])"

definition STARTERS :: "(segment list \<times> jstr) list" where
  "STARTERS =
     [([Word ''description''], js ''\"\"''),
      ([Word ''applicability''], js ''{ \"op\": \"literal\", \"value\": true }''),
      ([Word ''evidenceRequirements''], js ''[]''),
      ([Word ''sources''], js ''[]''),
      ([Word ''exceptions''], js ''[]''),
      ([Word ''fallbackOutcome''], js ''\"\"''),
      ([Word ''escalation''],
         js ''{ \"triggers\": [], \"target\": { \"kind\": \"human-role\", \"name\": \"\" } }''),
      ([Word ''metadata''], js ''{}''),
      ([Word ''extensions''], js ''{}''),
      ([Word ''sources'', Digits, Word ''locator''], js ''{ \"kind\": \"uri\", \"value\": \"\" }''),
      ([Word ''sources'', Digits, Word ''citation''], js ''{ \"location\": \"\", \"excerpt\": \"\" }''),
      ([Word ''escalation'', Word ''target''], js ''{ \"kind\": \"human-role\", \"name\": \"\" }'')]"

definition starterFor :: "jstr \<Rightarrow> jstr option" where
  "starterFor ptr = find_shape STARTERS ptr"

section \<open>Shapes and paths\<close>

fun matches_path :: "segment list \<Rightarrow> jstr list \<Rightarrow> bool" where
  "matches_path segs parts = list_all2 segment_test segs (map escape_token parts)"

lemma shape_test_pointer: "shape_test segs (pointer ps) = matches_path segs ps"
proof (cases "ps = []")
  case True
  then show ?thesis by (simp add: shape_test_def Let_def)
next
  case False
  then have "split_on slash (pointer ps) = [] # map escape_token ps"
    by (simp add: pointer_join split_join)
  then show ?thesis by (simp add: shape_test_def Let_def)
qed

lemma find_shape_mem: "find_shape es ptr = Some x \<Longrightarrow> x \<in> snd ` set es"
  by (induction es) (auto split: if_splits)

lemma uc_inj: "uc c = uc d \<longleftrightarrow> c = d"
proof
  assume e: "uc c = uc d"
  obtain b0 b1 b2 b3 b4 b5 b6 b7 where c: "c = Char b0 b1 b2 b3 b4 b5 b6 b7" by (cases c)
  obtain d0 d1 d2 d3 d4 d5 d6 d7 where d: "d = Char d0 d1 d2 d3 d4 d5 d6 d7" by (cases d)
  let ?bs = "[b0, b1, b2, b3, b4, b5, b6, b7]" and ?ds = "[d0, d1, d2, d3, d4, d5, d6, d7]"
  have "(horner_sum of_bool 2 ?bs :: code_unit) = horner_sum of_bool 2 ?ds"
    using e by (simp add: c d of_char_def)
  then have "bit (horner_sum of_bool 2 ?bs :: code_unit) n = bit (horner_sum of_bool 2 ?ds :: code_unit) n" for n
    by simp
  then have "n < 8 \<Longrightarrow> ?bs ! n = ?ds ! n" for n
    by (simp only: bit_horner_sum_bit_word_iff) (simp add: eval_nat_numeral, blast)
  then have "\<forall>n \<in> set [0..<8]. ?bs ! n = ?ds ! n" by simp
  then show "c = d" by (simp add: upt_rec c d)
qed simp

lemma js_inj [simp]: "js s = js t \<longleftrightarrow> s = t"
  unfolding js_def by (intro inj_map_eq_map injI) (simp add: uc_inj)

end
