(* ===== verification/Writes.thy ===== *)
theory Writes
  imports Stringify Shape
begin

text \<open>
  \<open>packs/edit/writes.ts\<close>: the one place a form edit becomes text.  A buffer is the text and the
  index of that text; every write splices through \<open>Document_Text\<close> and indexes again.  The lemmas
  give each write the document it must leave: \<open>put_value\<close> for a member that is written wherever it
  is, including where it is not, and the schema's order for where an absent one goes.
\<close>

section \<open>The buffer and its writes\<close>

record buffer =
  b_text :: jstr
  b_index :: document_index

definition buffered :: "jstr \<Rightarrow> buffer" where
  "buffered text = \<lparr>b_text = text, b_index = indexDocument text\<rparr>"

definition bytesAt :: "buffer \<Rightarrow> jstr \<Rightarrow> jstr option" where
  "bytesAt current ptr =
     (case spanAt (b_index current) ptr of
        None \<Rightarrow> None
      | Some sp \<Rightarrow> Some (slice (b_text current) (valueStart sp) (valueEnd sp)))"

definition JSON_string :: "jstr \<Rightarrow> jstr" where
  "JSON_string s = JSON_stringify [] (JStr s)"

fun nearest_earlier :: "document_index \<Rightarrow> jstr list \<Rightarrow> jstr list \<Rightarrow> placement" where
  "nearest_earlier index parts [] = First"
| "nearest_earlier index parts (n # earlier) =
     (if spanAt index (pointer (parts @ [n])) \<noteq> None then After (pointer (parts @ [n]))
      else nearest_earlier index parts earlier)"

definition placeFor :: "buffer \<Rightarrow> jstr \<Rightarrow> jstr \<Rightarrow> placement" where
  "placeFor current container name =
     (let order = memberOrder container in
      case find_index (\<lambda>m. m = name) order of
        None \<Rightarrow> Last
      | Some at_ \<Rightarrow>
          nearest_earlier (b_index current) (case parsePointer container of None \<Rightarrow> [] | Some ps \<Rightarrow> ps)
            (rev (take at_ order)))"

definition place_json :: "buffer \<Rightarrow> jstr \<Rightarrow> jstr \<Rightarrow> buffer" where
  "place_json current ptr json =
     (if spanAt (b_index current) ptr \<noteq> None
      then buffered (replaceValue (b_text current) (b_index current) ptr json)
      else
        (case parsePointer ptr of
           None \<Rightarrow> current
         | Some parts \<Rightarrow>
             if parts = [] then current
             else
               (let name = last parts; container = pointer (butlast parts) in
                case spanAt (b_index current) container of
                  None \<Rightarrow> current
                | Some containerSpan \<Rightarrow>
                    if char_at (b_text current) (valueStart containerSpan) \<noteq> Some open_brace then current
                    else buffered
                      (insertMember (b_text current) (b_index current) container (Some name) json
                        (placeFor current container name)))))"

definition removeAt :: "buffer \<Rightarrow> jstr \<Rightarrow> buffer" where
  "removeAt current ptr = buffered (removeMember (b_text current) (b_index current) ptr)"

definition setString :: "buffer \<Rightarrow> jstr \<Rightarrow> jstr \<Rightarrow> buffer" where
  "setString current ptr value =
     (if value = [] \<and> isNonEmptyString ptr
      then if spanAt (b_index current) ptr = None then current
           else buffered (removeMember (b_text current) (b_index current) ptr)
      else place_json current ptr (JSON_string value))"

definition setEnum :: "buffer \<Rightarrow> jstr \<Rightarrow> jstr \<Rightarrow> buffer" where
  "setEnum current ptr value =
     (if value = []
      then if spanAt (b_index current) ptr = None then current
           else buffered (removeMember (b_text current) (b_index current) ptr)
      else place_json current ptr (JSON_string value))"

definition setBoolean :: "buffer \<Rightarrow> jstr \<Rightarrow> bool \<Rightarrow> buffer" where
  "setBoolean current ptr value = place_json current ptr (if value then js ''true'' else js ''false'')"

definition setStringList :: "buffer \<Rightarrow> jstr \<Rightarrow> jstr list \<Rightarrow> buffer" where
  "setStringList current ptr values = place_json current ptr (JSON_stringify [] (JArr (map JStr values)))"

definition setRawJson :: "buffer \<Rightarrow> jstr \<Rightarrow> jstr \<Rightarrow> buffer" where
  "setRawJson current ptr json = place_json current ptr json"

text \<open>The optional placement of the source defaults to \<open>{ last: true }\<close> in \<open>placementIndex\<close>.\<close>

definition addMember :: "buffer \<Rightarrow> jstr \<Rightarrow> jstr \<Rightarrow> jstr \<Rightarrow> placement \<Rightarrow> buffer" where
  "addMember current containerPointer name json placement =
     buffered (insertMember (b_text current) (b_index current) containerPointer (Some name) json placement)"

definition addElement :: "buffer \<Rightarrow> jstr \<Rightarrow> jstr \<Rightarrow> placement \<Rightarrow> buffer" where
  "addElement current arrayPointer json placement =
     buffered (insertMember (b_text current) (b_index current) arrayPointer None json placement)"

definition moveRule :: "buffer \<Rightarrow> jstr \<Rightarrow> int \<Rightarrow> int \<Rightarrow> buffer" where
  "moveRule current arrayPointer from to =
     buffered (moveElement (b_text current) (b_index current) arrayPointer from to)"

section \<open>Always in step\<close>

definition in_step :: "buffer \<Rightarrow> bool" where
  "in_step b \<longleftrightarrow> b_index b = indexDocument (b_text b)"

lemma buffered_simps [simp]:
  "b_text (buffered t) = t" "b_index (buffered t) = indexDocument t" "in_step (buffered t)"
  by (simp_all add: buffered_def in_step_def)

lemmas write_defs = place_json_def setString_def setEnum_def setBoolean_def setStringList_def
  setRawJson_def removeAt_def addMember_def addElement_def moveRule_def

lemma in_step_place: "in_step b \<Longrightarrow> in_step (place_json b p j)"
  by (simp add: place_json_def Let_def split: option.split)

section \<open>What is declared\<close>

lemma spanAt_declared:
  assumes "reads src v"
  shows "spanAt (indexDocument src) (pointer q) = None \<longleftrightarrow> value_down v q = None"
  using value_text_reads [OF assms, of q] by (auto simp: value_text_def split: option.splits)

lemma container_char:
  assumes "reads src v" "spanAt (indexDocument src) (pointer q) = Some sp"
  shows "char_at src (valueStart sp) = Some open_brace \<longleftrightarrow> (\<exists>ms. value_down v q = Some (JObj ms))"
proof -
  obtain e where e: "src = render_element e" "document e" "v = tree_element e" "indexDocument src = index_of e"
    using assms(1) by (rule reads_cases)
  obtain x where x: "slot_at e q = Some x"
    using spanAt_none [OF e(2), of q] assms(2) e(4) by (cases "slot_at e q") auto
  have down: "value_down v q = Some (tree_element x)"
    using value_down_slot [of e q] e x by (simp add: document_def)
  obtain PRE POST where P: "render_element e = PRE @ render (element_tree x) @ POST" and vs: "valueStart sp = length PRE"
    using container_span [OF e(2) x] assms(2) e(4) by (metis option.inject)
  have d: "document x" using document_slot_at [OF x e(2)] .
  show ?thesis
  proof (cases "element_tree x")
    case (Leaf t)
    then have "raw_leaf t" using d by (simp add: document_def wf_element_iff)
    then obtain c r where c: "t = c # r" "c \<noteq> open_brace"
      using raw_leaf_start [of t] by (cases t) (auto simp: scalar_start_def)
    then have "char_at src (length PRE) \<noteq> Some open_brace" using P e(1) Leaf by simp
    moreover have "\<nexists>ms. tree_element x = JObj ms" using Leaf by (simp add: leaf_value_def)
    ultimately show ?thesis using vs down by simp
  next
    case (Obj w ms)
    then have "char_at src (length PRE) = Some open_brace"
      using P e(1) Obj by simp
    moreover have "\<exists>ms. tree_element x = JObj ms"
      using Obj d by (simp add: document_def tree_value_Obj uniq_element_iff del: tree_value.simps uniq.simps)
    ultimately show ?thesis using vs down by simp
  next
    case (Arr w es)
    then have "char_at src (length PRE) = Some open_bracket"
      using P e(1) Arr by simp
    then show ?thesis using vs down Arr by simp
  qed
qed

section \<open>The document a write leaves\<close>

text \<open>Where the schema puts an absent member: after the nearest earlier member the object has.\<close>

fun after_nearest :: "jstr list \<Rightarrow> jstr list \<Rightarrow> nat" where
  "after_nearest ks [] = 0"
| "after_nearest ks (n # earlier) =
     (case find_index (\<lambda>k. k = n) ks of Some i \<Rightarrow> Suc i | None \<Rightarrow> after_nearest ks earlier)"

definition schema_index :: "jstr list \<Rightarrow> jstr \<Rightarrow> jstr list \<Rightarrow> nat" where
  "schema_index order n ks =
     (case find_index (\<lambda>m. m = n) order of
        None \<Rightarrow> length ks
      | Some i \<Rightarrow> after_nearest ks (rev (take i order)))"

definition put_value :: "jstr list \<Rightarrow> jval \<Rightarrow> jval \<Rightarrow> jval" where
  "put_value q j v =
     (if value_down v q \<noteq> None then update_at q (\<lambda>_. j) v
      else if q = [] then v
      else (case value_down v (butlast q) of
              Some (JObj ms) \<Rightarrow>
                update_at (butlast q)
                  (insert_child (schema_index (memberOrder (pointer (butlast q))) (last q) (map fst ms))
                    (Some (last q)) j) v
            | _ \<Rightarrow> v))"

text \<open>A document that scans has no name twice in any object.\<close>

fun once :: "jval \<Rightarrow> bool" where
  "once (JArr xs) = list_all once xs"
| "once (JObj ms) = (distinct (map fst ms) \<and> list_all (\<lambda>(k, v). once v) ms)"
| "once v = True"

lemma once_leaf: "once (leaf_value t)"
  by (simp add: leaf_value_def)

lemma once_tree: "uniq c \<Longrightarrow> once (tree_value c)"
proof (induction c rule: tree.induct [where ?P2.0 = "\<lambda>m. uniq_member m \<longrightarrow> once (snd (tree_member m))"
      and ?P3.0 = "\<lambda>e. uniq_element e \<longrightarrow> once (tree_element e)"])
  case (Obj w ms)
  have "map fst (map tree_member ms) = map member_name ms" by simp
  then show ?case using Obj unfolding tree_value_Obj [OF Obj.prems]
    by (auto simp: list_all_iff simp del: map_map dest!: arg_cong [where f = snd])
next
  case (Arr w es)
  then show ?case by (auto simp: list_all_iff simp del: tree_element_eq)
qed (auto simp: once_leaf)

lemma reads_once: "reads src v \<Longrightarrow> once v"
  by (rule reads_cases, assumption) (auto simp: document_def uniq_element_iff intro: once_tree)

lemma update_at_cong: "\<lbrakk>once v; value_down v q = Some w; f w = g w\<rbrakk> \<Longrightarrow> update_at q f v = update_at q g v"
proof (induction q arbitrary: v)
  case (Cons k ks)
  then obtain u where u: "step_into v k = Some u" "value_down u ks = Some w" by (auto split: option.splits)
  show ?case
  proof (cases v)
    case (JArr xs)
    then show ?thesis using Cons u
      by (auto simp: step_into_def list_all_length split: option.splits if_splits)
  next
    case (JObj ms)
    then have "update_at ks f z = update_at ks g z" if "(k, z) \<in> set ms" for z
      using Cons u that by (auto simp: step_into_def list_all_iff)
    then show ?thesis using JObj by (auto intro: map_cong)
  qed (use u in \<open>simp_all add: step_into_def\<close>)
qed simp

lemma update_at_append: "update_at (p @ q) f v = update_at p (update_at q f) v"
  by (induction p arbitrary: v) (auto split: jval.split option.split)

lemma step_into_obj: "step_into (JObj ms) k = map_of ms k"
  by (simp add: step_into_def)

lemma value_down_snoc_obj:
  "value_down v q = Some (JObj ms) \<Longrightarrow> value_down v (q @ [k]) = map_of ms k"
  by (simp add: value_down_append step_into_obj split: option.split)

lemma place_nearest:
  assumes v: "reads src v" "value_down v q = Some (JObj ms)"
  shows "place q (map fst ms) (nearest_earlier (indexDocument src) q es) = after_nearest (map fst ms) es"
proof (induction es)
  case (Cons n es)
  have "spanAt (indexDocument src) (pointer (q @ [n])) = None \<longleftrightarrow> n \<notin> fst ` set ms"
    using spanAt_declared [OF v(1), of "q @ [n]"] v(2) by (simp add: value_down_snoc_obj map_of_eq_None_iff)
  moreover have "find_index (\<lambda>k. k = n) (map fst ms) = None \<longleftrightarrow> n \<notin> fst ` set ms"
    by (auto simp: find_index_None)
  ultimately show ?case using Cons
    by (auto simp: place_def simp del: pointer.simps split: option.split)
qed (simp add: place_def)

lemma placeFor_index:
  assumes "reads src v" "value_down v q = Some (JObj ms)"
  shows "place q (map fst ms) (placeFor (buffered src) (pointer q) n)
     = schema_index (memberOrder (pointer q)) n (map fst ms)"
  using place_nearest [OF assms]
  by (simp add: placeFor_def schema_index_def Let_def place_def del: pointer.simps split: option.split)

lemma in_step_buffered: "in_step b \<longleftrightarrow> b = buffered (b_text b)"
  by (cases b) (simp add: in_step_def buffered_def)

lemma place_reads:
  assumes b: "in_step b" and v: "reads (b_text b) v" and j: "reads json j"
  shows "reads (b_text (place_json b (pointer q) json)) (put_value q j v)"
proof -
  obtain src where src: "b = buffered src" using b in_step_buffered by blast
  have v: "reads src v" using v src by simp
  show ?thesis
  proof (cases "value_down v q")
    case (Some w)
    then have "spanAt (indexDocument src) (pointer q) \<noteq> None" using spanAt_declared [OF v] by simp
    then show ?thesis using edited_reads [OF v edited_replaceValue [OF v j]] Some
      by (simp add: src place_json_def put_value_def)
  next
    case None
    note absent = this
    have no: "spanAt (indexDocument src) (pointer q) = None" using None spanAt_declared [OF v] by simp
    show ?thesis
    proof (cases "q = []")
      case True
      then show ?thesis using None by simp
    next
      case False
      let ?c = "butlast q" and ?n = "last q"
      show ?thesis
      proof (cases "\<exists>ms. value_down v ?c = Some (JObj ms)")
        case True
        then obtain ms where ms: "value_down v ?c = Some (JObj ms)" by blast
        obtain sp where sp: "spanAt (indexDocument src) (pointer ?c) = Some sp"
          using spanAt_declared [OF v, of ?c] ms by auto
        have "char_at src (valueStart sp) = Some open_brace" using container_char [OF v sp] ms by blast
        then have eq: "b_text (place_json b (pointer q) json)
            = insertMember src (indexDocument src) (pointer ?c) (Some ?n) json (placeFor b (pointer ?c) ?n)"
          using no False sp by (simp add: src place_json_def Let_def del: pointer.simps)
        have "value_down v (?c @ [?n]) = None" using absent False by simp
        then have fresh: "?n \<notin> fst ` set ms"
          using ms by (simp add: value_down_snoc_obj map_of_eq_None_iff del: append_butlast_last_id)
        have "reads (b_text (place_json b (pointer q) json))
            (update_at ?c (\<lambda>w. insert_child (place ?c (child_keys w) (placeFor b (pointer ?c) ?n)) (Some ?n) j w) v)"
          unfolding eq using fresh ms by (intro edited_reads [OF v edited_insertMember [OF v j]]) auto
        moreover have "update_at ?c (\<lambda>w. insert_child (place ?c (child_keys w) (placeFor b (pointer ?c) ?n)) (Some ?n) j w) v
            = put_value q j v"
          using absent False ms placeFor_index [OF v ms, of ?n]
          unfolding put_value_def src child_keys_def
          by (simp del: update_at.simps pointer.simps) (rule update_at_cong [OF reads_once [OF v] ms], simp)
        ultimately show ?thesis by simp
      next
        case no_object: False
        have "place_json b (pointer q) json = b"
        proof (cases "spanAt (indexDocument src) (pointer ?c)")
          case (Some sp)
          then have "char_at src (valueStart sp) \<noteq> Some open_brace"
            using container_char [OF v Some] no_object by blast
          then show ?thesis using no False Some by (simp add: src place_json_def Let_def del: pointer.simps)
        qed (use no False in \<open>simp add: src place_json_def Let_def del: pointer.simps\<close>)
        moreover have "put_value q j v = v"
          using absent False no_object by (simp add: put_value_def split: option.split jval.split)
        ultimately show ?thesis using v src by simp
      qed
    qed
  qed
qed

section \<open>The schema's order\<close>

text \<open>The members the schema lists stand in the order it lists them in.\<close>

definition schema_ordered :: "jstr list \<Rightarrow> jstr list \<Rightarrow> bool" where
  "schema_ordered order ks \<longleftrightarrow> filter (\<lambda>k. k \<in> set order) ks = filter (\<lambda>n. n \<in> set ks) order"

lemma after_nearest_cases:
  obtains "set es \<inter> set ks = {}" "after_nearest ks es = 0"
  | E1 e E2 K1 K2 where "es = E1 @ e # E2" "set E1 \<inter> set ks = {}" "ks = K1 @ e # K2" "e \<notin> set K1"
      "after_nearest ks es = Suc (length K1)"
proof (induction es arbitrary: thesis)
  case (Cons n es)
  show ?case
  proof (cases "find_index (\<lambda>k. k = n) ks")
    case None
    then have n: "n \<notin> set ks" by (auto simp: find_index_None)
    show ?thesis
    proof (rule Cons.IH)
      fix E1 e E2 K1 K2
      assume "es = E1 @ e # E2" "set E1 \<inter> set ks = {}" "ks = K1 @ e # K2" "e \<notin> set K1"
        "after_nearest ks es = Suc (length K1)"
      then show thesis using n None by (intro Cons.prems(2) [of "n # E1" e E2 K1 K2]) simp_all
    qed (use Cons.prems(1) n None in simp)
  next
    case (Some i)
    then have i: "i < length ks" "ks ! i = n" "\<forall>j < i. ks ! j \<noteq> n" using find_index_Some by blast+
    then have "ks = take i ks @ n # drop (Suc i) ks" "n \<notin> set (take i ks)"
      using id_take_nth_drop [of i ks] by (auto simp: in_set_conv_nth)
    then show ?thesis using Cons.prems(2) [of "[]" n es "take i ks" "drop (Suc i) ks"] Some i by simp
  qed
qed simp

lemma distinct_split_eq:
  "\<lbrakk>xs @ e # ys = us @ e # vs; e \<notin> set xs; e \<notin> set us\<rbrakk> \<Longrightarrow> xs = us \<and> ys = vs"
proof (induction xs arbitrary: us)
  case Nil
  then show ?case by (cases us) auto
next
  case (Cons x xs)
  then show ?case by (cases us) auto
qed

lemma schema_ordered_insert:
  assumes o: "schema_ordered order ks" and d: "distinct order" and n: "n \<notin> set ks"
  defines "i \<equiv> schema_index order n ks"
  shows "schema_ordered order (take i ks @ n # drop i ks)"
proof (cases "find_index (\<lambda>m. m = n) order")
  case None
  then have "n \<notin> set order" by (auto simp: find_index_None)
  then have "filter (\<lambda>m. m \<in> set (ks @ [n])) order = filter (\<lambda>m. m \<in> set ks) order"
    by (auto intro: filter_cong)
  then show ?thesis using o \<open>n \<notin> set order\<close> None by (simp add: i_def schema_index_def schema_ordered_def)
next
  case (Some a)
  let ?F = "filter (\<lambda>k. k \<in> set order)" and ?G = "filter (\<lambda>m. m \<in> set ks)"
  let ?A = "take a order" and ?B = "drop (Suc a) order"
  have a: "a < length order" "order ! a = n" using Some find_index_Some by blast+
  then have order: "order = ?A @ n # ?B" using id_take_nth_drop [of a order] by simp
  have nAB: "n \<notin> set ?A" "n \<notin> set ?B" using d order by (metis distinct.simps(2) distinct_append not_distinct_conv_prefix)+
  have G': "filter (\<lambda>m. m = n \<or> m \<in> set ks) order = ?G ?A @ n # ?G ?B"
  proof -
    have "filter (\<lambda>m. m = n \<or> m \<in> set ks) xs = ?G xs" if "n \<notin> set xs" for xs
      using that by (auto intro: filter_cong)
    then show ?thesis using nAB by (subst order) simp
  qed
  have "?G order = ?G ?A @ ?G ?B" using n by (subst order) simp
  then have FG: "?F ks = ?G ?A @ ?G ?B" using o unfolding schema_ordered_def by simp
  have i: "i = after_nearest ks (rev ?A)" using Some by (simp add: i_def schema_index_def)
  have n_order: "n \<in> set order" using a by auto
  show ?thesis
  proof (rule after_nearest_cases [of "rev ?A" ks])
    assume "set (rev ?A) \<inter> set ks = {}" "after_nearest ks (rev ?A) = 0"
    moreover from this have "?G ?A = []" by (auto simp: filter_empty_conv)
    ultimately show ?thesis using G' FG n_order by (simp add: schema_ordered_def i)
  next
    fix E1 e E2 K1 K2
    assume E: "rev ?A = E1 @ e # E2" "set E1 \<inter> set ks = {}" "ks = K1 @ e # K2" "e \<notin> set K1"
      "after_nearest ks (rev ?A) = Suc (length K1)"
    have A: "?A = rev E2 @ e # rev E1" using arg_cong [OF E(1), of rev] by simp
    have "e \<in> set ?A" by (simp add: A)
    then have e: "e \<in> set order" by (rule in_set_takeD)
    have "distinct ?A" using d by simp
    then have e2: "e \<notin> set E2" unfolding A by simp
    have "?G (rev E1) = []" using E(2) by (auto simp: filter_empty_conv)
    then have GA: "?G ?A = ?G (rev E2) @ [e]" unfolding A using E(3) by simp
    have "?F K1 @ e # ?F K2 = ?G (rev E2) @ e # ?G ?B" using FG GA e E(3) by simp
    then have "?F K1 = ?G (rev E2)" "?F K2 = ?G ?B"
      using distinct_split_eq [of "?F K1" e "?F K2" "?G (rev E2)" "?G ?B"] E(4) e2 by simp_all
    then have "?F (K1 @ e # n # K2) = ?G ?A @ n # ?G ?B" using GA e n_order by simp
    moreover have "take i ks @ n # drop i ks = K1 @ e # n # K2" using E by (simp add: i)
    moreover have "filter (\<lambda>m. m \<in> set (K1 @ e # n # K2)) order = filter (\<lambda>m. m = n \<or> m \<in> set ks) order"
      using E(3) by (auto intro: filter_cong)
    ultimately show ?thesis using G' by (simp add: schema_ordered_def)
  qed
qed

lemma distinct_memberOrder: "distinct (memberOrder p)"
proof (cases "find_shape MEMBER_ORDER p")
  case (Some ms)
  have "list_all distinct (map snd MEMBER_ORDER)" by (simp add: MEMBER_ORDER_def del: js_Cons)
  then show ?thesis using find_shape_mem [OF Some] Some by (auto simp: memberOrder_def list_all_iff)
qed (simp add: memberOrder_def)

section \<open>Every write\<close>

lemma value_down_put_value:
  assumes "declaredAt v (pointer q) \<or> q \<noteq> [] \<and> (\<exists>ms. value_down v (butlast q) = Some (JObj ms))"
  shows "value_down (put_value q j v) q = Some j"
proof (cases "value_down v q")
  case (Some w)
  then show ?thesis by (simp add: put_value_def value_down_update_at)
next
  case None
  then obtain ms where q: "q \<noteq> []" and ms: "value_down v (butlast q) = Some (JObj ms)"
    using assms by (auto simp: declaredAt_def)
  let ?i = "schema_index (memberOrder (pointer (butlast q))) (last q) (map fst ms)"
  have "value_down v (butlast q @ [last q]) = None" using None q by simp
  then have fresh: "last q \<notin> fst ` set ms"
    using ms by (simp add: value_down_snoc_obj map_of_eq_None_iff del: append_butlast_last_id)
  have "value_down (put_value q j v) (butlast q) = Some (JObj (take ?i ms @ (last q, j) # drop ?i ms))"
    using None q ms by (simp add: put_value_def value_down_update_at)
  then have "value_down (put_value q j v) (butlast q @ [last q])
      = map_of (take ?i ms @ (last q, j) # drop ?i ms) (last q)"
    by (rule value_down_snoc_obj)
  moreover have "map_of (take ?i ms) (last q) = None"
    using fresh by (auto simp: map_of_eq_None_iff dest: in_set_takeD)
  ultimately show ?thesis using q by (simp add: map_add_def)
qed

lemma reads_string: "reads (JSON_string s) (JStr s)"
  by (simp add: JSON_string_def reads_JSON_stringify)

lemma reads_boolean: "reads (if b then js ''true'' else js ''false'') (JBool b)"
  using reads_JSON_stringify [of "JBool b"] by (simp add: JSON_stringify_def del: js_Cons)

lemma reads_string_list: "reads (JSON_stringify [] (JArr (map JStr ss))) (JArr (map JStr ss))"
  by (rule reads_JSON_stringify) (simp add: list_all_iff)

definition drop_value :: "jstr list \<Rightarrow> jval \<Rightarrow> jval" where
  "drop_value q v =
     (if q = [] \<or> value_down v q = None then v else update_at (butlast q) (drop_child (last q)) v)"

lemma remove_reads:
  assumes "in_step b" "reads (b_text b) v"
  shows "reads (removeMember (b_text b) (b_index b) (pointer q)) (drop_value q v)"
proof (cases "q = [] \<or> value_down v q = None")
  case True
  then have "removeMember (b_text b) (b_index b) (pointer q) = b_text b"
    using assms spanAt_declared [OF assms(2), of q]
    by (auto simp: removeMember_def in_step_def split: option.split)
  then show ?thesis using True assms by (auto simp: drop_value_def)
next
  case False
  then have "butlast q @ [last q] = q" by simp
  then show ?thesis
    using edited_reads [OF assms(2) edited_removeMember [OF assms(2), where q = "butlast q" and k = "last q"]] assms(1)
    unfolding drop_value_def if_not_P [OF False] by (simp add: in_step_def)
qed

text \<open>The writes a form makes, with what a caller of the raw ones has to know.\<close>

inductive form_write :: "buffer \<Rightarrow> buffer \<Rightarrow> bool" where
  writes_string: "form_write b (setString b (pointer q) s)"
| writes_enum: "form_write b (setEnum b (pointer q) s)"
| writes_boolean: "form_write b (setBoolean b (pointer q) t)"
| writes_list: "form_write b (setStringList b (pointer q) ss)"
| writes_raw: "reads json j \<Longrightarrow> form_write b (setRawJson b (pointer q) json)"
| removes: "form_write b (removeAt b (pointer q))"
| adds_member: "\<lbrakk>reads json j; bytesAt b (pointer (q @ [n])) = None\<rbrakk>
    \<Longrightarrow> form_write b (addMember b (pointer q) n json placement)"
| adds_element: "reads json j \<Longrightarrow> form_write b (addElement b (pointer q) json placement)"
| moves_rule: "form_write b (moveRule b (pointer q) i k)"

lemma form_write_readable:
  assumes "form_write b b'" "in_step b" "reads (b_text b) v"
  shows "in_step b' \<and> (\<exists>v'. reads (b_text b') v')"
proof -
  have place: "in_step (place_json b (pointer q) json) \<and> (\<exists>v'. reads (b_text (place_json b (pointer q) json)) v')"
    if "reads json j" for q json j
    using in_step_place place_reads assms(2,3) that by blast
  have remove: "\<exists>v'. reads (removeMember (b_text b) (b_index b) (pointer q)) v'" for q
    using remove_reads assms(2,3) by blast
  have ix: "b_index b = indexDocument (b_text b)" using assms(2) by (simp add: in_step_def)
  from assms(1) show ?thesis
  proof cases
    case (adds_member json j q n placement)
    have "n \<notin> fst ` set ms" if "value_down v q = Some (JObj ms)" for ms
      using adds_member(3) that value_down_snoc_obj [OF that, of n] spanAt_declared [OF assms(3), of "q @ [n]"]
      by (auto simp: bytesAt_def ix map_of_eq_None_iff split: option.splits)
    then show ?thesis
      using edited_reads [OF assms(3) edited_insertMember [OF assms(3) adds_member(2)], of "Some n" q placement]
        adds_member(1)
      unfolding addMember_def ix by (auto simp del: pointer.simps)
  next
    case (adds_element json j q placement)
    then show ?thesis
      using edited_reads [OF assms(3) edited_insertMember [OF assms(3) adds_element(2), where name = None]]
      unfolding addElement_def ix by (auto simp del: pointer.simps)
  next
    case (moves_rule q i k)
    then show ?thesis
      using edited_reads [OF assms(3) edited_moveElement [OF assms(3)]] unfolding moveRule_def ix by auto
  qed (use place [OF reads_string] place [OF reads_boolean] place [OF reads_string_list] place remove assms(2,3)
      in \<open>auto simp: setString_def setEnum_def setBoolean_def setStringList_def setRawJson_def removeAt_def
         simp del: pointer.simps\<close>)
qed

section \<open>Properties\<close>


definition sample_pack :: jval where
  "sample_pack = JObj [(js ''id'', JStr (js ''p'')), (js ''title'', JStr (js ''t''))]"

lemma reads_sample_pack: "reads (JSON_stringify [] sample_pack) sample_pack"
  by (rule reads_JSON_stringify)
    (simp add: sample_pack_def array_index_name_def arrayIndex_def is_index_def is_digit_def)


text \<open>
  a blank written to a member the schema says is a non-empty string takes the member out, and any
  other string reads back as itself.
\<close>

theorem setString_reads:
  assumes "in_step b" "reads (b_text b) v"
  shows "reads (b_text (setString b (pointer q) s))
     (if s = [] \<and> isNonEmptyString (pointer q) then drop_value q v else put_value q (JStr s) v)"
proof -
  have "spanAt (b_index b) (pointer q) = None \<longleftrightarrow> value_down v q = None"
    using spanAt_declared [OF assms(2)] assms(1) by (simp add: in_step_def)
  note declared = this
  show ?thesis
  proof (cases "s = [] \<and> isNonEmptyString (pointer q)")
    case True
    have "value_down v q = None \<Longrightarrow> drop_value q v = v" by (simp add: drop_value_def)
    then show ?thesis using remove_reads [OF assms, of q] assms(2) declared
      unfolding setString_def if_P [OF True] by (cases "spanAt (b_index b) (pointer q)") simp_all
  next
    case False
    show ?thesis using place_reads [OF assms reads_string, of q s] unfolding setString_def if_not_P [OF False] .
  qed
qed

theorem setString_reads_witness:
  "reads (b_text (setString (buffered (JSON_stringify [] sample_pack)) (pointer [js ''title'']) []))
     (JObj [(js ''id'', JStr (js ''p''))])"
proof -
  let ?b = "buffered (JSON_stringify [] sample_pack)"
  have "isNonEmptyString (pointer [js ''title''])"
    unfolding isNonEmptyString_def NON_EMPTY_STRINGS_def by (simp add: shape_test_pointer del: pointer.simps)
  moreover have "reads (b_text (setString ?b (pointer [js ''title'']) []))
     (if ([] :: jstr) = [] \<and> isNonEmptyString (pointer [js ''title'']) then drop_value [js ''title''] sample_pack
      else put_value [js ''title''] (JStr []) sample_pack)"
    by (rule setString_reads) (simp_all add: reads_sample_pack)
  ultimately show ?thesis by (simp add: drop_value_def sample_pack_def step_into_obj del: js_Cons pointer.simps)
qed

text \<open>an object whose known members stand in the schema's order still has them in that order after a
  form has written a member it did not have.
\<close>

theorem setRawJson_keeps_schema_order:
  assumes "in_step b" "reads (b_text b) v" "reads json j" "valueAt v (pointer q) = Some (JObj ms)"
    and "schema_ordered (memberOrder (pointer q)) (map fst ms)"
  shows "\<exists>v' ms'. reads (b_text (setRawJson b (pointer (q @ [n])) json)) v'
     \<and> valueAt v' (pointer q) = Some (JObj ms') \<and> map_of ms' n = Some j
     \<and> schema_ordered (memberOrder (pointer q)) (map fst ms')"
proof -
  let ?v = "put_value (q @ [n]) j v"
  have ms: "value_down v q = Some (JObj ms)" using assms(4) by simp
  have r: "reads (b_text (setRawJson b (pointer (q @ [n])) json)) ?v"
    using place_reads [OF assms(1-3)] by (simp add: setRawJson_def)
  have "value_down ?v (q @ [n]) = Some j" by (rule value_down_put_value) (simp add: ms)
  moreover have "\<exists>ms'. value_down ?v q = Some (JObj ms') \<and> schema_ordered (memberOrder (pointer q)) (map fst ms')"
  proof (cases "map_of ms n")
    case None
    then have "n \<notin> set (map fst ms)" by (simp add: map_of_eq_None_iff)
    from schema_ordered_insert [OF assms(5) distinct_memberOrder this] show ?thesis
      using None ms by (simp add: put_value_def value_down_snoc_obj value_down_update_at take_map drop_map)
  next
    case (Some w)
    have "value_down ?v q = Some (update_at [n] (\<lambda>_. j) (JObj ms))"
      using Some ms by (simp add: put_value_def value_down_snoc_obj update_at_append value_down_update_at
          del: update_at.simps)
    moreover have "map fst (map (\<lambda>(k, u). (k, if k = n then update_at [] (\<lambda>_. j) u else u)) ms) = map fst ms"
      by auto
    ultimately show ?thesis using assms(5) by (simp del: map_map)
  qed
  ultimately show ?thesis using r value_down_snoc_obj by (auto intro!: exI)
qed

theorem setRawJson_keeps_schema_order_witness:
  "\<exists>v' ms'. reads (b_text (setRawJson (buffered (JSON_stringify [] sample_pack)) (pointer ([] @ [js ''version'']))
       (JSON_string (js ''1'')))) v'
     \<and> valueAt v' (pointer []) = Some (JObj ms') \<and> map_of ms' (js ''version'') = Some (JStr (js ''1''))
     \<and> schema_ordered (memberOrder (pointer [])) (map fst ms')"
proof (rule setRawJson_keeps_schema_order [where v = sample_pack, OF _ _ reads_string])
  show "schema_ordered (memberOrder (pointer [])) (map fst [(js ''id'', JStr (js ''p'')), (js ''title'', JStr (js ''t''))])"
    by (simp add: schema_ordered_def memberOrder_def MEMBER_ORDER_def shape_test_def del: js_Cons)
qed (simp_all only: buffered_simps reads_sample_pack, simp_all only: valueAt_pointer value_down.simps sample_pack_def)

text \<open>
  C8: through any sequence of a form's writes the buffer's index stays the index of its text and the
  text stays one document that scans, with no name twice: of strings, words, truth values and lists, removals and
  moves, whatever they are and wherever, and of raw values and added ones that read as JSON without a name twice,
  added members having a name the object does not have.
\<close>

theorem form_writes_in_step:
  assumes "form_write\<^sup>*\<^sup>* b b'" "in_step b" "reads (b_text b) v"
  shows "in_step b' \<and> ix_error (b_index b') = None \<and> ix_duplicates (b_index b') = []"
proof -
  from assms(1) have "in_step b' \<and> (\<exists>v'. reads (b_text b') v')"
    by induction (use assms(2,3) form_write_readable in \<open>blast+\<close>)
  then show ?thesis by (auto simp: in_step_def reads_def)
qed

theorem form_writes_in_step_witness:
  "in_step (moveRule (setString (buffered (js ''[ true , null]'')) (pointer [dec 0]) (js ''x'')) (pointer []) 1 0)
   \<and> ix_error (b_index (moveRule (setString (buffered (js ''[ true , null]'')) (pointer [dec 0]) (js ''x'')) (pointer []) 1 0)) = None
   \<and> ix_duplicates (b_index (moveRule (setString (buffered (js ''[ true , null]'')) (pointer [dec 0]) (js ''x'')) (pointer []) 1 0)) = []"
proof (rule form_writes_in_step)
  show "form_write\<^sup>*\<^sup>* (buffered (js ''[ true , null]''))
     (moveRule (setString (buffered (js ''[ true , null]'')) (pointer [dec 0]) (js ''x'')) (pointer []) 1 0)"
    by (rule rtranclp.rtrancl_into_rtrancl [OF r_into_rtranclp]) (rule form_write.intros)+
qed (simp_all only: buffered_simps, rule sample_array)

end
