(* ===== verification/Document_Gate.thy ===== *)
theory Document_Gate
  imports Document_Inserts
begin

text \<open>
  \<open>agreesWithParse\<close> of \<open>documentText.ts\<close>, the question whose answer gates form editing: does this
  desk's reading of the bytes agree with \<open>JSON.parse\<close>?  The lemmas relate the two parsers on the
  layout trees and conclude that an empty answer is exactly a document the edits are proved for.
\<close>

section \<open>The comparison\<close>

text \<open>The sentence of a disagreement, by its case; the pointer is the member's own.\<close>

datatype disagreement_reason =
    Repeated jstr
  | DeskCouldNotRead scan_error
  | NotJson "scan_error option"
  | ArraysDiffer
  | MembersDiffer
  | OnlyOneReading jstr
  | ValuesDiffer

type_synonym disagreement = "jstr \<times> disagreement_reason"

fun js_same :: "jval \<Rightarrow> jval \<Rightarrow> bool" where
  "js_same (JNum a) (JNum b) = num_eq a b"
| "js_same (JStr s) (JStr t) = (s = t)"
| "js_same (JBool a) (JBool b) = (a = b)"
| "js_same JNull JNull = True"
| "js_same _ _ = False"

definition union_names :: "(jstr \<times> jval) list \<Rightarrow> (jstr \<times> jval) list \<Rightarrow> jstr list" where
  "union_names ms ns = own_keys ms @ filter (\<lambda>k. k \<notin> set (own_keys ms)) (own_keys ns)"

lemma map_of_size: "map_of ms k = Some v \<Longrightarrow> size v < size_list (size_prod (\<lambda>_. 0) size) ms"
  by (induction ms) (auto split: if_splits)

function firstDifference :: "jval \<Rightarrow> jval \<Rightarrow> jstr list \<Rightarrow> disagreement option"
and differs_in_elements :: "jval list \<Rightarrow> jval list \<Rightarrow> jstr list \<Rightarrow> nat \<Rightarrow> disagreement option"
and differs_in_members ::
  "jstr list \<Rightarrow> (jstr \<times> jval) list \<Rightarrow> (jstr \<times> jval) list \<Rightarrow> jstr list \<Rightarrow> disagreement option"
where
  "firstDifference mine theirs path =
     (case (mine, theirs) of
        (JArr xs, JArr ys) \<Rightarrow>
          if length xs \<noteq> length ys then Some (pointer path, ArraysDiffer)
          else differs_in_elements xs ys path 0
      | (JArr xs, _) \<Rightarrow> Some (pointer path, ArraysDiffer)
      | (_, JArr ys) \<Rightarrow> Some (pointer path, ArraysDiffer)
      | (JObj ms, JObj ns) \<Rightarrow> differs_in_members (union_names ms ns) ms ns path
      | (JObj ms, _) \<Rightarrow> Some (pointer path, MembersDiffer)
      | (_, JObj ns) \<Rightarrow> Some (pointer path, MembersDiffer)
      | _ \<Rightarrow> if js_same mine theirs then None else Some (pointer path, ValuesDiffer))"
| "differs_in_elements xs ys path i =
     (case (xs, ys) of
        (x # xs', y # ys') \<Rightarrow>
          (case firstDifference x y (path @ [dec i]) of
             Some d \<Rightarrow> Some d
           | None \<Rightarrow> differs_in_elements xs' ys' path (Suc i))
      | _ \<Rightarrow> None)"
| "differs_in_members names ms ns path =
     (case names of
        [] \<Rightarrow> None
      | n # names' \<Rightarrow>
          (case (map_of ms n, map_of ns n) of
             (Some v, Some w) \<Rightarrow>
               (case firstDifference v w (path @ [n]) of
                  Some d \<Rightarrow> Some d
                | None \<Rightarrow> differs_in_members names' ms ns path)
           | _ \<Rightarrow> Some (pointer (path @ [n]), OnlyOneReading n)))"
  by pat_completeness auto
termination
  by (relation "measures
      [case_sum (\<lambda>(v, w, p). size v)
         (case_sum (\<lambda>(xs, ys, p, i). size_list size xs)
            (\<lambda>(ks, ms, ns, p). size_list (size_prod (\<lambda>_. 0) size) ms)),
       case_sum (\<lambda>_. 0) (case_sum (\<lambda>_. 0) (\<lambda>(ks, ms, ns, p). Suc (length ks)))]")
     (auto dest: map_of_size [OF sym])

declare firstDifference.simps [simp del] differs_in_elements.simps [simp del] differs_in_members.simps [simp del]

definition agreesWithParse :: "jstr \<Rightarrow> document_index \<Rightarrow> disagreement list" where
  "agreesWithParse src index =
     (let repeated = map (\<lambda>(p, n). (p, Repeated n)) (ix_duplicates index)
      in case ix_error index of
           Some e \<Rightarrow>
             repeated @ [([], if JSON_parse src \<noteq> None then DeskCouldNotRead e else NotJson (Some e))]
         | None \<Rightarrow>
             (case JSON_parse src of
                None \<Rightarrow> repeated @ [([], NotJson None)]
              | Some parsed \<Rightarrow>
                  repeated @ (case firstDifference (the (ix_value index)) parsed [] of
                                None \<Rightarrow> [] | Some d \<Rightarrow> [d])))"

section \<open>A reading agrees with itself\<close>

lemma no_difference:
  "mine = theirs \<Longrightarrow> firstDifference mine theirs path = None"
  "xs = ys \<Longrightarrow> differs_in_elements xs ys path i = None"
  "\<lbrakk>ms = ns; set names \<subseteq> fst ` set ms\<rbrakk> \<Longrightarrow> differs_in_members names ms ns path = None"
proof (induction mine theirs path and xs ys path i and names ms ns path
    rule: firstDifference_differs_in_elements_differs_in_members.induct)
  case (1 mine theirs path)
  have names: "set (union_names ms ms) \<subseteq> fst ` set ms" for ms :: "(jstr \<times> jval) list"
    by (auto simp: union_names_def)
  show ?case
  proof (cases mine)
    case (JArr xs)
    then show ?thesis using 1 by (simp add: firstDifference.simps)
  next
    case (JObj ms)
    then show ?thesis using 1 names [of ms] by (simp add: firstDifference.simps)
  qed (use 1 in \<open>simp_all add: firstDifference.simps\<close>)
next
  case (2 xs ys path i)
  show ?case
  proof (cases ys)
    case Nil
    then show ?thesis using 2 by (simp add: differs_in_elements.simps [of "[]"])
  next
    case (Cons y zs)
    then show ?thesis using 2 by (simp add: differs_in_elements.simps [of "y # zs"])
  qed
next
  case (3 names ms ns path)
  show ?case
  proof (cases names)
    case (Cons n names')
    then obtain v where v: "map_of ms n = Some v"
      using "3.prems" by (cases "map_of ms n") (auto simp: map_of_eq_None_iff)
    then show ?thesis using 3 Cons by (simp add: differs_in_members.simps [of "n # names'"])
  qed (simp add: differs_in_members.simps)
qed

section \<open>\<open>JSON.parse\<close> on a rendering\<close>

lemma skip_ws_run: "ws w \<Longrightarrow> r = [] \<or> \<not> isSpace (hd r) \<Longrightarrow> skip_ws (w @ r) = r"
  by (induction w) (cases r; auto simp: skip_ws_def)+

lemma string_body_append:
  "string_body t = Some (s, r) \<Longrightarrow> string_body (t @ u) = Some (s, r @ u)"
proof (induction t arbitrary: s rule: string_body.induct)
  case (2 c cs)
  have hex: "hex4 (x @ u) = Some (k, y @ u)" if "hex4 x = Some (k, y)" for x k y
    using that by (auto simp: hex4_def split: list.splits option.splits)
  show ?case
  proof (cases "c = quote_mark \<or> c < 0x20 \<or> c \<noteq> backslash")
    case True
    then show ?thesis using 2 by (auto split: if_splits)
  next
    case False
    then obtain e cs' where cs: "cs = e # cs'" using "2.prems" by (cases cs) auto
    show ?thesis
    proof (cases "e = uc CHR ''u''")
      case True
      then obtain k y where k: "hex4 cs' = Some (k, y)" using "2.prems" False cs by (auto split: option.splits)
      then show ?thesis using 2 False cs True hex [OF k] by auto
    next
      case e: False
      then obtain k where k: "unescape e = Some k" using "2.prems" False cs by (auto split: option.splits)
      then show ?thesis using 2 False cs e by auto
    qed
  qed
qed simp

lemma string_body_raw: "raw_string n \<Longrightarrow> \<exists>b. n = quote_mark # b \<and> string_body (b @ post) = Some (name_of n, post)"
proof -
  assume n: "raw_string n"
  then obtain b where b: "n = quote_mark # b" using raw_string_hd by blast
  have "parse_string n = Some (name_of n)" using n by (auto simp: raw_string_def name_of_def)
  then have "string_body b = Some (name_of n, [])"
    by (auto simp: parse_string_def b split: option.splits list.splits prod.splits)
  from string_body_append [OF this, of post] b show ?thesis by simp
qed

text \<open>What the number grammar leaves behind still begins with a character a number may hold.\<close>

definition stuck :: "jstr \<Rightarrow> bool" where
  "stuck r \<longleftrightarrow> r \<noteq> [] \<and> number_char (hd r)"

lemma json_digits_sound: "json_digits t = Some (d, r) \<Longrightarrow> t = d @ r \<and> list_all number_char d"
  by (auto simp: json_digits_def Let_def list_all_iff number_char_def dest: set_takeWhileD split: if_splits)

lemma json_int_sound: "json_int t = Some (d, r) \<Longrightarrow> t = d @ r \<and> list_all number_char d"
  by (auto simp: json_int_def number_char_def is_digit_def dest: json_digits_sound split: list.splits if_splits)

lemma json_frac_sound: "json_frac t = Some (d, r) \<Longrightarrow> t = d @ r \<and> list_all number_char d"
  by (auto simp: json_frac_def number_char_def is_digit_def dest: json_digits_sound split: list.splits if_splits)

lemma json_exp_sound: "json_exp t = Some (d, r) \<Longrightarrow> t = d @ r \<and> list_all number_char d"
  by (auto simp: json_exp_def number_char_def is_digit_def dest: json_digits_sound split: list.splits if_splits)

lemma json_number_sound: "json_number t = Some (d, r) \<Longrightarrow> t = d @ r \<and> list_all number_char d"
proof -
  assume a: "json_number t = Some (d, r)"
  obtain sgn t1 where s: "(case t of [] \<Rightarrow> ([], t) | c # r \<Rightarrow> if c = uc CHR ''-'' then ([c], r) else ([], t)) = (sgn, t1)"
    by (rule prod.exhaust)
  then have "t = sgn @ t1 \<and> list_all number_char sgn"
    by (auto simp: number_char_def is_digit_def split: list.splits if_splits)
  moreover obtain i r1 fr r2 ex where n: "json_int t1 = Some (i, r1)" "json_frac r1 = Some (fr, r2)"
      "json_exp r2 = Some (ex, r)" "d = sgn @ i @ fr @ ex"
    using a unfolding json_number_def s by (auto split: option.splits)
  ultimately show ?thesis
    using json_int_sound [OF n(1)] json_frac_sound [OF n(2)] json_exp_sound [OF n(3)] by simp
qed

lemma skip_ws_stuck: "stuck r \<Longrightarrow> skip_ws r = r \<and> hd r \<noteq> comma \<and> hd r \<noteq> close_brace \<and> hd r \<noteq> close_bracket"
  using number_char_start [of "hd r"] by (cases r) (auto simp: stuck_def skip_ws_def)

definition parses :: "tree \<Rightarrow> bool" where
  "parses c \<longleftrightarrow>
     (\<forall>f w post u r. wf_tree c \<longrightarrow> uniq c \<longrightarrow> ws w \<longrightarrow> follows c post
        \<longrightarrow> jp_value f (w @ render c @ post) = Some (u, r) \<longrightarrow> (u = tree_value c \<and> r = post) \<or> stuck r)"

lemma parsesD:
  "\<lbrakk>parses c; wf_tree c; uniq c; ws w; follows c post; jp_value f (w @ render c @ post) = Some (u, r)\<rbrakk>
     \<Longrightarrow> (u = tree_value c \<and> r = post) \<or> stuck r"
  by (simp add: parses_def)

lemma map_set_fresh: "k \<notin> fst ` set es \<Longrightarrow> map_set k v es = es @ [(k, v)]"
  by (induction es) auto

lemma jp_members_render:
  "\<lbrakk>\<forall>m \<in> set ms. parses (member_tree m); list_all wf_member ms; list_all uniq_member ms; ms \<noteq> [];
     distinct (map fst acc @ map member_name ms);
     jp_members f acc (join_with [comma] (map render_member ms) @ close_brace # post) = Some (u, r)\<rbrakk>
   \<Longrightarrow> u = JObj (acc @ map tree_member ms) \<and> r = post"
proof (induction ms arbitrary: f acc)
  case (Cons m ms)
  obtain l n a b c t where m: "m = Member l n a b c t" by (cases m)
  obtain f' where f: "f = Suc f'" using Cons.prems(6) by (cases f) auto
  define rest where "rest = (if ms = [] then close_brace # post
      else comma # join_with [comma] (map render_member ms) @ close_brace # post)"
  define sep where "sep = (if ms = [] then close_brace else comma)"
  have rest: "rest = sep # tl rest" "\<not> number_char sep" "\<not> isSpace sep" by (auto simp: rest_def sep_def)
  have w: "ws l" "raw_string n" "ws a" "ws b" "wf_tree c" "ws t" "parses c" "uniq c"
    using Cons.prems(1-3) by (simp_all add: m)
  obtain q where q: "n = quote_mark # q" "string_body (q @ a @ colon # b @ render c @ t @ rest)
      = Some (name_of n, a @ colon # b @ render c @ t @ rest)"
    using string_body_raw [OF w(2)] by blast
  have src: "join_with [comma] (map render_member (m # ms)) @ close_brace # post
      = l @ quote_mark # q @ a @ colon # b @ render c @ t @ rest"
    by (cases ms) (simp_all add: m q(1) rest_def)
  have s1: "skip_ws (l @ quote_mark # q @ a @ colon # b @ render c @ t @ rest)
      = quote_mark # q @ a @ colon # b @ render c @ t @ rest"
    using w(1) by (intro skip_ws_run) auto
  have s2: "skip_ws (a @ colon # b @ render c @ t @ rest) = colon # b @ render c @ t @ rest"
    using w(3) by (intro skip_ws_run) auto
  have foll: "follows c (t @ rest)" using rest follows_ws [OF w(6)] by metis
  obtain v r3 where v: "jp_value f' (b @ render c @ t @ rest) = Some (v, r3)"
    using Cons.prems(6) unfolding src f by (auto simp: s1 q(2) s2 split: option.splits)
  have after: "jp_members f acc (join_with [comma] (map render_member (m # ms)) @ close_brace # post) =
      (case skip_ws r3 of [] \<Rightarrow> None
       | d # r4 \<Rightarrow> if d = comma then jp_members f' (map_set (name_of n) v acc) r4
                   else if d = close_brace then Some (JObj (map_set (name_of n) v acc), r4) else None)"
    unfolding src f by (simp add: s1 q(2) s2 v)
  have "\<not> stuck r3"
    using Cons.prems(6) skip_ws_stuck [of r3] unfolding after by (cases r3) (auto simp: stuck_def)
  then have vr: "v = tree_value c" "r3 = t @ rest" using parsesD [OF w(7,5,8,4) foll v] by auto
  have s3: "skip_ws r3 = sep # tl rest"
    using skip_ws_run [OF w(6), of "sep # tl rest"] rest(1,3) vr(2) by (metis list.sel(1))
  have fresh: "map_set (name_of n) v acc = acc @ [(name_of n, v)]"
    using Cons.prems(5) by (intro map_set_fresh) (auto simp: m)
  show ?case
  proof (cases "ms = []")
    case True
    then show ?thesis using Cons.prems(6) unfolding after s3 fresh by (auto simp: sep_def rest_def m vr(1))
  next
    case False
    then have tl: "tl rest = join_with [comma] (map render_member ms) @ close_brace # post" by (simp add: rest_def)
    have "jp_members f' (acc @ [(name_of n, v)]) (join_with [comma] (map render_member ms) @ close_brace # post) = Some (u, r)"
      using Cons.prems(6) False unfolding after s3 fresh by (simp add: sep_def tl)
    then have "u = JObj ((acc @ [(name_of n, v)]) @ map tree_member ms) \<and> r = post"
      using Cons.prems(1-5) False by (intro Cons.IH) (auto simp: m)
    then show ?thesis by (simp add: m vr(1))
  qed
qed simp

lemma jp_elements_render:
  "\<lbrakk>\<forall>e \<in> set es. parses (element_tree e); list_all wf_element es; list_all uniq_element es; es \<noteq> [];
     jp_elements f acc (join_with [comma] (map render_element es) @ close_bracket # post) = Some (u, r)\<rbrakk>
   \<Longrightarrow> u = JArr (acc @ map tree_element es) \<and> r = post"
proof (induction es arbitrary: f acc)
  case (Cons e es)
  obtain l c t where e: "e = Element l c t" by (cases e)
  obtain f' where f: "f = Suc f'" using Cons.prems(5) by (cases f) auto
  define rest where "rest = (if es = [] then close_bracket # post
      else comma # join_with [comma] (map render_element es) @ close_bracket # post)"
  define sep where "sep = (if es = [] then close_bracket else comma)"
  have rest: "rest = sep # tl rest" "\<not> number_char sep" "\<not> isSpace sep" by (auto simp: rest_def sep_def)
  have w: "ws l" "wf_tree c" "ws t" "parses c" "uniq c"
    using Cons.prems(1-3) by (simp_all add: e)
  have src: "join_with [comma] (map render_element (e # es)) @ close_bracket # post = l @ render c @ t @ rest"
    by (cases es) (simp_all add: e rest_def)
  have foll: "follows c (t @ rest)" using rest follows_ws [OF w(3)] by metis
  obtain v r3 where v: "jp_value f' (l @ render c @ t @ rest) = Some (v, r3)"
    using Cons.prems(5) unfolding src f by (auto split: option.splits)
  have after: "jp_elements f acc (join_with [comma] (map render_element (e # es)) @ close_bracket # post) =
      (case skip_ws r3 of [] \<Rightarrow> None
       | d # r4 \<Rightarrow> if d = comma then jp_elements f' (acc @ [v]) r4
                   else if d = close_bracket then Some (JArr (acc @ [v]), r4) else None)"
    unfolding src f by (simp add: v)
  have "\<not> stuck r3"
    using Cons.prems(5) skip_ws_stuck [of r3] unfolding after by (cases r3) (auto simp: stuck_def)
  then have vr: "v = tree_value c" "r3 = t @ rest" using parsesD [OF w(4,2,5,1) foll v] by auto
  have s3: "skip_ws r3 = sep # tl rest"
    using skip_ws_run [OF w(3), of "sep # tl rest"] rest(1,3) vr(2) by (metis list.sel(1))
  show ?case
  proof (cases "es = []")
    case True
    then show ?thesis using Cons.prems(5) unfolding after s3 by (auto simp: sep_def rest_def e vr(1))
  next
    case False
    then have tl: "tl rest = join_with [comma] (map render_element es) @ close_bracket # post" by (simp add: rest_def)
    have "jp_elements f' (acc @ [v]) (join_with [comma] (map render_element es) @ close_bracket # post) = Some (u, r)"
      using Cons.prems(5) False unfolding after s3 by (simp add: sep_def tl)
    then have "u = JArr ((acc @ [v]) @ map tree_element es) \<and> r = post"
      using Cons.prems(1-4) False by (intro Cons.IH) auto
    then show ?thesis by (simp add: e vr(1))
  qed
qed simp

lemma follows_leaf_take:
  "\<lbrakk>raw_number t; follows (Leaf t) post; t @ post = d @ r; list_all number_char d\<rbrakk> \<Longrightarrow> (d = t \<and> r = post) \<or> stuck r"
proof -
  assume t: "raw_number t" and f: "follows (Leaf t) post" and e: "t @ post = d @ r" and d: "list_all number_char d"
  have all: "list_all number_char t" using t by (simp add: raw_number_def)
  have post: "post = [] \<or> \<not> number_char (hd post)" using t f by (simp add: follows_def)
  obtain z where "t = d @ z \<and> r = z @ post \<or> d = t @ z \<and> post = z @ r"
    using e by (auto simp: append_eq_append_conv2)
  then show ?thesis
  proof
    assume z: "t = d @ z \<and> r = z @ post"
    then show ?thesis using all by (cases z) (auto simp: stuck_def)
  next
    assume z: "d = t @ z \<and> post = z @ r"
    then show ?thesis using d post by (cases z) auto
  qed
qed

lemma parses_leaf: "parses (Leaf t)"
  unfolding parses_def
proof (intro allI impI)
  fix f w post u r assume a: "wf_tree (Leaf t)" "ws w" "follows (Leaf t) post"
    "jp_value f (w @ render (Leaf t) @ post) = Some (u, r)"
  have t: "raw_leaf t" using a(1) by simp
  have st: "scalar_start t" using raw_leaf_start [OF t] .
  obtain f' where f: "f = Suc f'" using a(4) by (cases f) auto
  obtain c cs where c: "t = c # cs" "\<not> isSpace c" "c \<noteq> open_brace" "c \<noteq> open_bracket"
    using st by (cases t) (auto simp: scalar_start_def)
  have s: "skip_ws (w @ t @ post) = t @ post" using a(2) c by (intro skip_ws_run) auto
  consider "t = js ''true''" | "t = js ''false''" | "t = js ''null''" | (str) "raw_string t" | (num) "raw_number t"
    using t by (auto simp: raw_leaf_def)
  then show "(u = tree_value (Leaf t) \<and> r = post) \<or> stuck r"
  proof cases
    case str
    then obtain b where b: "t = quote_mark # b" "string_body (b @ post) = Some (name_of t, post)"
      using string_body_raw by blast
    then have "jp_value f (w @ t @ post) = Some (JStr (name_of t), post)"
      using s by (simp add: f Let_def)
    moreover have "leaf_value t = JStr (name_of t)" using b by (simp add: leaf_value_def)
    ultimately show ?thesis using a(4) by simp
  next
    case num
    have nc: "number_char c" using num c by (simp add: raw_number_def)
    obtain raw where raw: "json_number (t @ post) = Some (raw, r)" "map_option (\<lambda>n. (JNum n, r)) (number_of raw) = Some (u, r)"
      using a(4) s c number_char_start [OF nc] by (auto simp: f Let_def split: option.splits)
    have "(raw = t \<and> r = post) \<or> stuck r"
      using follows_leaf_take [OF num a(3)] json_number_sound [OF raw(1)] by auto
    moreover have "leaf_value t = JNum (the (number_of t))"
      using c number_char_start [OF nc] by (auto simp: leaf_value_def)
    ultimately show ?thesis using raw(2) by auto
  qed (use a(4) s in \<open>auto simp: f Let_def json_word_def leaf_value_def\<close>)
qed

lemma parses_all: "parses c"
proof (induction c rule: tree.induct [where ?P2.0 = "\<lambda>m. parses (member_tree m)"
      and ?P3.0 = "\<lambda>e. parses (element_tree e)"])
  case (Obj w0 ms)
  show ?case unfolding parses_def
  proof (intro allI impI)
    fix f w post u r assume a: "wf_tree (Obj w0 ms)" "uniq (Obj w0 ms)" "ws w"
      "jp_value f (w @ render (Obj w0 ms) @ post) = Some (u, r)"
    obtain f' where f: "f = Suc f'" using a(4) by (cases f) auto
    let ?body = "(if ms = [] then w0 else join_with [comma] (map render_member ms)) @ close_brace # post"
    have s: "skip_ws (w @ render (Obj w0 ms) @ post) = open_brace # ?body"
      using a(3) skip_ws_run [of w "open_brace # ?body"] by simp
    show "(u = tree_value (Obj w0 ms) \<and> r = post) \<or> stuck r"
    proof (cases "ms = []")
      case True
      then have "skip_ws ?body = close_brace # post" using a(1) skip_ws_run [of w0 "close_brace # post"] by simp
      then show ?thesis using a(4) s True unfolding f by (simp add: Let_def)
    next
      case False
      obtain l q where lq: "join_with [comma] (map render_member ms) = l @ quote_mark # q" "ws l"
        using char_after_brackets [OF False] a(1) by auto
      then have "skip_ws ?body = quote_mark # q @ close_brace # post"
        using False skip_ws_run [of l "quote_mark # q @ close_brace # post"] by simp
      then have "jp_members f' [] ?body = Some (u, r)" using a(4) s unfolding f by (simp add: Let_def)
      then have "u = JObj ([] @ map tree_member ms) \<and> r = post"
        using Obj a(1,2) False by (intro jp_members_render [of ms]) auto
      then show ?thesis using tree_value_Obj [OF a(2)] by simp
    qed
  qed
next
  case (Arr w0 es)
  show ?case unfolding parses_def
  proof (intro allI impI)
    fix f w post u r assume a: "wf_tree (Arr w0 es)" "uniq (Arr w0 es)" "ws w"
      "jp_value f (w @ render (Arr w0 es) @ post) = Some (u, r)"
    obtain f' where f: "f = Suc f'" using a(4) by (cases f) auto
    let ?body = "(if es = [] then w0 else join_with [comma] (map render_element es)) @ close_bracket # post"
    have s: "skip_ws (w @ render (Arr w0 es) @ post) = open_bracket # ?body"
      using a(3) skip_ws_run [of w "open_bracket # ?body"] by simp
    show "(u = tree_value (Arr w0 es) \<and> r = post) \<or> stuck r"
    proof (cases "es = []")
      case True
      then have "skip_ws ?body = close_bracket # post" using a(1) skip_ws_run [of w0 "close_bracket # post"] by simp
      then show ?thesis using a(4) s True unfolding f by (simp add: Let_def)
    next
      case False
      obtain l k q where lq: "join_with [comma] (map render_element es) = l @ k # q" "ws l" "\<not> isSpace k" "k \<noteq> close_bracket"
        using char_after_brackets' [OF False] a(1) by auto
      then have "skip_ws ?body = k # q @ close_bracket # post"
        using False skip_ws_run [of l "k # q @ close_bracket # post"] by simp
      then have "jp_elements f' [] ?body = Some (u, r)" using a(4) s lq(4) unfolding f by (simp add: Let_def)
      then have "u = JArr ([] @ map tree_element es) \<and> r = post"
        using Arr a(1,2) False by (intro jp_elements_render [of es]) (auto simp del: uniq_element_iff)
      then show ?thesis by simp
    qed
  qed
qed (simp_all add: parses_leaf)

lemma JSON_parse_reads:
  assumes "reads src v" "JSON_parse src = Some u"
  shows "u = v"
proof -
  obtain e where e: "src = render_element e" "document e" "v = tree_element e"
    using assms(1) by (rule reads_cases)
  obtain l c t where el: "e = Element l c t" by (cases e)
  have w: "ws l" "wf_tree c" "ws t" "uniq c" using e(2) by (simp_all add: document_def el)
  obtain r where r: "jp_value (Suc (length src)) (l @ render c @ t) = Some (u, r)" "skip_ws r = []"
    using assms(2) by (auto simp: JSON_parse_def e(1) el split: option.splits if_splits)
  have "\<not> stuck r" using r(2) skip_ws_stuck by (auto simp: stuck_def)
  then show ?thesis
    using parsesD [OF parses_all w(2,4,1) follows_end [OF w(3)] r(1)] e(3) el by simp
qed

lemma agrees_iff:
  "agreesWithParse src (indexDocument src) = [] \<longleftrightarrow> (\<exists>v. reads src v \<and> JSON_parse src = Some v)"
proof
  assume a: "agreesWithParse src (indexDocument src) = []"
  then have ok: "ix_error (indexDocument src) = None" "ix_duplicates (indexDocument src) = []"
    by (auto simp: agreesWithParse_def Let_def split: option.splits)
  then obtain v where v: "reads src v"
    using indexDocument_sound [OF ok(1)] ok by (metis reads_def document_index.select_convs(3) tree_index_def)
  obtain u where "JSON_parse src = Some u"
    using a ok(1) by (auto simp: agreesWithParse_def Let_def split: option.splits)
  then show "\<exists>v. reads src v \<and> JSON_parse src = Some v" using v JSON_parse_reads by blast
next
  assume "\<exists>v. reads src v \<and> JSON_parse src = Some v"
  then show "agreesWithParse src (indexDocument src) = []"
    using no_difference(1) by (auto simp: agreesWithParse_def reads_def Let_def)
qed

section \<open>Properties\<close>

text \<open>
  C6: the gate on form editing is open exactly for the documents the edits are proved for: the text
  scans, no member name repeats, and \<open>JSON.parse\<close> reads the very value the scanner read.
\<close>

theorem agreesWithParse_empty_iff:
  "agreesWithParse src (indexDocument src) = [] \<longleftrightarrow> (\<exists>v. reads src v \<and> JSON_parse src = Some v)"
  by (rule agrees_iff)

end
