(* ===== verification/Document_Layout.thy ===== *)
theory Document_Layout
  imports Document_Gate
begin

text \<open>
  Line breaks in a document are layout and nothing else: no token holds one, so rewriting the run of
  layout at a line break leaves every value what it was.  This is what lets the editor indent a node's
  own bytes, or end written lines the way the document does.
\<close>

section \<open>No token holds a line break\<close>

lemma hex4_no_newline: "hex4 t = Some (u, r) \<Longrightarrow> \<exists>h. t = h @ r \<and> 10 \<notin> set h"
proof -
  assume h: "hex4 t = Some (u, r)"
  then obtain a b c d where t: "t = [a, b, c, d] @ r" "hex_value a \<noteq> None" "hex_value b \<noteq> None"
    "hex_value c \<noteq> None" "hex_value d \<noteq> None"
    by (auto simp: hex4_def split: list.splits option.splits)
  moreover have "hex_value 10 = None" by (simp add: hex_value_def is_digit_def)
  ultimately show ?thesis by (intro exI [of _ "[a, b, c, d]"]) auto
qed

lemma unescape_no_newline: "unescape e = Some u \<Longrightarrow> e \<noteq> 10"
  by (auto simp: unescape_def)

lemma string_body_no_newline: "string_body r = Some (s, r') \<Longrightarrow> \<exists>u. r = u @ r' \<and> 10 \<notin> set u"
proof (induction r arbitrary: s rule: string_body.induct)
  case (2 c cs)
  have extend: "\<exists>u. h @ x = u @ r' \<and> 10 \<notin> set u" if "10 \<notin> set h" "\<exists>u. x = u @ r' \<and> 10 \<notin> set u" for h x
  proof -
    from that(2) obtain u where "x = u @ r'" "10 \<notin> set u" by blast
    then show ?thesis using that(1) by (intro exI [of _ "h @ u"]) simp
  qed
  show ?case
  proof (cases "c = quote_mark \<or> c \<noteq> backslash")
    case True
    show ?thesis
    proof (cases "c = quote_mark")
      case True
      then show ?thesis using "2.prems" by (intro exI [of _ "[c]"]) simp
    next
      case False
      then obtain s' where c: "\<not> c < 0x20" "string_body cs = Some (s', r')" "c \<noteq> backslash"
        using "2.prems" \<open>c = quote_mark \<or> c \<noteq> backslash\<close> by (auto split: if_splits)
      moreover have "c \<noteq> 10" using c(1) by auto
      ultimately show ?thesis using "2.IH"(1) False extend [of "[c]" cs] by simp
    qed
  next
    case False
    then obtain e r where cs: "cs = e # r" using "2.prems" by (cases cs) (auto split: if_splits)
    show ?thesis
    proof (cases "e = uc CHR ''u''")
      case True
      then obtain u r1 s1 where r1: "hex4 r = Some (u, r1)" "string_body r1 = Some (s1, r')"
        using "2.prems" False cs by (auto split: option.splits)
      obtain h where h: "r = h @ r1" "10 \<notin> set h" using hex4_no_newline [OF r1(1)] by blast
      have "\<exists>u. r1 = u @ r' \<and> 10 \<notin> set u" using "2.IH"(2) False cs True r1 by auto
      then show ?thesis using extend [of "c # e # h" r1] h False True cs by simp
    next
      case no_u: False
      then obtain u s1 where u: "unescape e = Some u" "string_body r = Some (s1, r')"
        using "2.prems" False cs by (auto split: option.splits)
      have "\<exists>u. r = u @ r' \<and> 10 \<notin> set u" using "2.IH"(3) False cs no_u u by auto
      then show ?thesis using extend [of "[c, e]" r] unescape_no_newline [OF u(1)] False cs by simp
    qed
  qed
qed simp

lemma raw_string_no_newline: "raw_string t \<Longrightarrow> 10 \<notin> set t"
proof -
  assume t: "raw_string t"
  then obtain r where r: "t = quote_mark # r" using raw_string_hd by blast
  have "parse_string t \<noteq> None" using t by (simp add: raw_string_def)
  then obtain s where "string_body r = Some (s, [])"
    using r by (auto simp: parse_string_def split: option.splits list.splits)
  from string_body_no_newline [OF this] show ?thesis using r by auto
qed

lemma raw_leaf_no_newline: "raw_leaf t \<Longrightarrow> 10 \<notin> set t"
proof -
  have "\<not> number_char 10" by (simp add: number_char_def is_digit_def)
  then show "raw_leaf t \<Longrightarrow> 10 \<notin> set t"
    using raw_string_no_newline by (auto simp: raw_leaf_def raw_number_def list_all_iff)
qed

section \<open>Rewriting a line break\<close>

text \<open>\<open>relaid u s s'\<close>: one line break of \<open>s\<close> has become the layout \<open>u\<close>.\<close>

definition relaid :: "jstr \<Rightarrow> jstr \<Rightarrow> jstr \<Rightarrow> bool" where
  "relaid u s s' \<longleftrightarrow> (\<exists>A B. s = A @ 10 # B \<and> s' = A @ u @ B)"

lemma relaid_append:
  "relaid u (x @ y) s' \<longleftrightarrow> (\<exists>x'. relaid u x x' \<and> s' = x' @ y) \<or> (\<exists>y'. relaid u y y' \<and> s' = x @ y')"
proof
  assume "relaid u (x @ y) s'"
  then obtain A B where AB: "x @ y = A @ 10 # B" "s' = A @ u @ B" by (auto simp: relaid_def)
  show "(\<exists>x'. relaid u x x' \<and> s' = x' @ y) \<or> (\<exists>y'. relaid u y y' \<and> s' = x @ y')"
  proof (cases "length x \<le> length A")
    case True
    then obtain A' where "A = x @ A'" "y = A' @ 10 # B"
      using AB(1) by (auto simp: append_eq_append_conv_if) (metis append_take_drop_id)
    then show ?thesis using AB(2) by (auto simp: relaid_def)
  next
    case False
    then obtain us where "x = A @ us" "us @ y = 10 # B" "us \<noteq> []"
      using AB(1) by (auto simp: append_eq_append_conv2)
    then obtain X where "x = A @ 10 # X" "B = X @ y" by (cases us) auto
    then show ?thesis using AB(2) by (auto simp: relaid_def)
  qed
next
  assume "(\<exists>x'. relaid u x x' \<and> s' = x' @ y) \<or> (\<exists>y'. relaid u y y' \<and> s' = x @ y')"
  then consider A B where "x = A @ 10 # B" "s' = A @ u @ B @ y" | A B where "y = A @ 10 # B" "s' = x @ A @ u @ B"
    by (auto simp: relaid_def)
  then show "relaid u (x @ y) s'"
  proof cases
    case 1
    then show ?thesis unfolding relaid_def by (intro exI [of _ A] exI [of _ "B @ y"]) simp
  next
    case 2
    then show ?thesis unfolding relaid_def by (intro exI [of _ "x @ A"] exI [of _ B]) simp
  qed
qed

lemma relaid_none [simp]: "10 \<notin> set s \<Longrightarrow> \<not> relaid u s s'"
  by (auto simp: relaid_def)

lemma relaid_Cons: "c \<noteq> 10 \<Longrightarrow> relaid u (c # s) s' \<longleftrightarrow> (\<exists>t. relaid u s t \<and> s' = c # t)"
  using relaid_append [of u "[c]" s s'] by auto

lemma relaid_ws: "\<lbrakk>relaid u s s'; ws s; ws u\<rbrakk> \<Longrightarrow> ws s'"
  by (auto simp: relaid_def ws_def)

lemma relaid_join:
  "\<lbrakk>relaid u (join_with s xs) t; 10 \<notin> set s\<rbrakk>
     \<Longrightarrow> \<exists>i x'. i < length xs \<and> relaid u (xs ! i) x' \<and> t = join_with s (xs[i := x'])"
proof (induction s xs arbitrary: t rule: join_with.induct)
  case (3 s x y zs)
  then consider x' where "relaid u x x'" "t = x' @ s @ join_with s (y # zs)"
    | t' where "relaid u (join_with s (y # zs)) t'" "t = x @ s @ t'"
    by (auto simp: relaid_append)
  then show ?case
  proof cases
    case 1
    then show ?thesis by (intro exI [of _ 0] exI [of _ x']) simp
  next
    case 2
    then obtain i x' where "i < length (y # zs)" "relaid u ((y # zs) ! i) x'" "t' = join_with s ((y # zs)[i := x'])"
      using 3 by blast
    moreover have "(y # zs)[i := x'] \<noteq> []" by (cases i) simp_all
    ultimately show ?thesis using 2(2) by (intro exI [of _ "Suc i"] exI [of _ x']) (simp add: join_with_Cons)
  qed
qed (auto intro: exI [of _ 0])

definition same_tree :: "tree \<Rightarrow> tree \<Rightarrow> bool" where
  "same_tree c c' \<longleftrightarrow> wf_tree c' \<and> tree_value c' = tree_value c \<and> (uniq c \<longrightarrow> uniq c')"

lemma same_tree_refl: "wf_tree c \<Longrightarrow> same_tree c c"
  by (simp add: same_tree_def)

lemma relaid_tree:
  "\<lbrakk>wf_tree c; relaid u (render c) s'; ws u\<rbrakk> \<Longrightarrow> \<exists>c'. render c' = s' \<and> same_tree c c'"
proof (induction c arbitrary: s' rule: tree.induct [where
      ?P2.0 = "\<lambda>m. \<forall>s'. wf_member m \<and> relaid u (render_member m) s' \<and> ws u \<longrightarrow>
         (\<exists>m'. render_member m' = s' \<and> wf_member m' \<and> tree_member m' = tree_member m
             \<and> (uniq_member m \<longrightarrow> uniq_member m'))"
      and ?P3.0 = "\<lambda>e. \<forall>s'. wf_element e \<and> relaid u (render_element e) s' \<and> ws u \<longrightarrow>
         (\<exists>e'. render_element e' = s' \<and> wf_element e' \<and> tree_element e' = tree_element e
             \<and> (uniq_element e \<longrightarrow> uniq_element e'))"])
  case (Leaf t)
  then show ?case using raw_leaf_no_newline by auto
next
  case (Obj w ms)
  show ?case
  proof (cases "ms = []")
    case True
    then obtain w' where "relaid u w w'" "s' = open_brace # w' @ [close_brace]"
      using Obj.prems by (auto simp: relaid_Cons relaid_append)
    then show ?thesis using True Obj.prems relaid_ws
      by (intro exI [of _ "Obj w' []"]) (auto simp: same_tree_def)
  next
    case False
    then obtain t where t: "relaid u (join_with [comma] (map render_member ms)) t" "s' = open_brace # t @ [close_brace]"
      using Obj.prems by (auto simp: relaid_Cons relaid_append)
    then obtain i x' where i: "i < length ms" "relaid u (render_member (ms ! i)) x'"
      "t = join_with [comma] ((map render_member ms)[i := x'])"
      using relaid_join [OF t(1)] by auto
    obtain m' where m': "render_member m' = x'" "wf_member m'" "tree_member m' = tree_member (ms ! i)"
      "uniq_member (ms ! i) \<longrightarrow> uniq_member m'"
      using Obj(1) [of "ms ! i"] Obj.prems i by (auto simp: list_all_length)
    let ?ms = "ms[i := m']"
    have "map tree_member ?ms = map tree_member ms" using m'(3) i(1) by (simp add: map_update list_update_same_conv)
    moreover have "map member_name ?ms = map member_name ms"
      using arg_cong [OF m'(3), of fst] i(1) by (simp add: map_update list_update_same_conv)
    moreover have "render (Obj w ?ms) = s'" using False t(2) i(3) m'(1) by (simp add: map_update)
    moreover have "wf_tree (Obj w ?ms)" using Obj.prems(1) m'(2)
      by (auto simp: list_all_iff dest: set_update_subset_insert [THEN subsetD])
    moreover have "list_all uniq_member ms \<longrightarrow> list_all uniq_member ?ms" using m'(4) i(1)
      by (auto simp: list_all_iff dest: set_update_subset_insert [THEN subsetD])
    ultimately show ?thesis by (intro exI [of _ "Obj w ?ms"]) (simp add: same_tree_def)
  qed
next
  case (Arr w es)
  show ?case
  proof (cases "es = []")
    case True
    then obtain w' where "relaid u w w'" "s' = open_bracket # w' @ [close_bracket]"
      using Arr.prems by (auto simp: relaid_Cons relaid_append)
    then show ?thesis using True Arr.prems relaid_ws
      by (intro exI [of _ "Arr w' []"]) (auto simp: same_tree_def)
  next
    case False
    then obtain t where t: "relaid u (join_with [comma] (map render_element es)) t" "s' = open_bracket # t @ [close_bracket]"
      using Arr.prems by (auto simp: relaid_Cons relaid_append)
    then obtain i x' where i: "i < length es" "relaid u (render_element (es ! i)) x'"
      "t = join_with [comma] ((map render_element es)[i := x'])"
      using relaid_join [OF t(1)] by auto
    obtain e' where e': "render_element e' = x'" "wf_element e'" "tree_element e' = tree_element (es ! i)"
      "uniq_element (es ! i) \<longrightarrow> uniq_element e'"
      using Arr(1) [of "es ! i"] Arr.prems i by (auto simp: list_all_length simp del: tree_element_eq uniq_element_iff)
    let ?es = "es[i := e']"
    have "map tree_element ?es = map tree_element es"
      using e'(3) i(1) by (simp add: map_update list_update_same_conv del: tree_element_eq)
    moreover have "render (Arr w ?es) = s'" using False t(2) i(3) e'(1) by (simp add: map_update)
    moreover have "wf_tree (Arr w ?es)" using Arr.prems(1) e'(2)
      by (auto simp: list_all_iff dest: set_update_subset_insert [THEN subsetD])
    moreover have "list_all uniq_element es \<longrightarrow> list_all uniq_element ?es" using e'(4) i(1)
      by (auto simp: list_all_iff simp del: uniq_element_iff dest: set_update_subset_insert [THEN subsetD])
    ultimately show ?thesis
      by (intro exI [of _ "Arr w ?es"]) (simp add: same_tree_def del: tree_element_eq uniq_element_iff)
  qed
next
  case (Member l n a b c t)
  show ?case
  proof (intro allI impI, elim conjE)
    fix s' assume p: "wf_member (Member l n a b c t)" "relaid u (render_member (Member l n a b c t)) s'" "ws u"
    have n: "10 \<notin> set n" using p(1) raw_string_no_newline by simp
    consider l' where "relaid u l l'" "s' = render_member (Member l' n a b c t)"
      | a' where "relaid u a a'" "s' = render_member (Member l n a' b c t)"
      | b' where "relaid u b b'" "s' = render_member (Member l n a b' c t)"
      | c' where "relaid u (render c) c'" "s' = l @ n @ a @ colon # b @ c' @ t"
      | t' where "relaid u t t'" "s' = render_member (Member l n a b c t')"
      using p(2) n by (auto simp: relaid_append relaid_Cons)
    then show "\<exists>m'. render_member m' = s' \<and> wf_member m' \<and> tree_member m' = tree_member (Member l n a b c t)
             \<and> (uniq_member (Member l n a b c t) \<longrightarrow> uniq_member m')"
    proof cases
      case 4
      then obtain d where "render d = c'" "same_tree c d" using Member(1) p by auto
      then show ?thesis using 4 p by (intro exI [of _ "Member l n a b d t"]) (auto simp: same_tree_def)
    qed (use p relaid_ws in \<open>fastforce\<close>)+
  qed
next
  case (Element l c t)
  show ?case
  proof (intro allI impI, elim conjE)
    fix s' assume p: "wf_element (Element l c t)" "relaid u (render_element (Element l c t)) s'" "ws u"
    consider l' where "relaid u l l'" "s' = render_element (Element l' c t)"
      | c' where "relaid u (render c) c'" "s' = l @ c' @ t"
      | t' where "relaid u t t'" "s' = render_element (Element l c t')"
      using p(2) by (auto simp: relaid_append)
    then show "\<exists>e'. render_element e' = s' \<and> wf_element e' \<and> tree_element e' = tree_element (Element l c t)
             \<and> (uniq_element (Element l c t) \<longrightarrow> uniq_element e')"
    proof cases
      case 2
      then obtain d where "render d = c'" "same_tree c d" using Element(1) p by auto
      then show ?thesis using 2 p by (intro exI [of _ "Element l d t"]) (auto simp: same_tree_def)
    qed (use p relaid_ws in \<open>fastforce\<close>)+
  qed
qed

lemma reads_relaid:
  assumes v: "reads (A @ 10 # B) v" and u: "ws u"
  shows "reads (A @ u @ B) v"
proof -
  obtain e where e: "A @ 10 # B = render_element e" "document e" "v = tree_element e"
    using v by (rule reads_cases)
  obtain l c t where c: "e = Element l c t" by (cases e)
  have p: "wf_tree c" "uniq c" "ws l" "ws t" using e(2) c by (simp_all add: document_def)
  have r: "relaid u (l @ render c @ t) (A @ u @ B)" using e(1) c
    unfolding relaid_def by (intro exI [of _ A] exI [of _ B]) simp
  then consider l' where "relaid u l l'" "A @ u @ B = render_element (Element l' c t)"
    | c' where "relaid u (render c) c'" "A @ u @ B = l @ c' @ t"
    | t' where "relaid u t t'" "A @ u @ B = render_element (Element l c t')"
    by (auto simp: relaid_append)
  then obtain y where y: "A @ u @ B = render_element y" "document y" "tree_element y = tree_element e"
  proof cases
    case 2
    then obtain d where "render d = c'" "same_tree c d" using relaid_tree p u by blast
    then show ?thesis using 2 p c that [of "Element l d t"] by (simp add: document_def same_tree_def)
  next
    case 1
    then show ?thesis using p c relaid_ws u that [of "Element l' c t"] by (simp add: document_def)
  next
    case 3
    then show ?thesis using p c relaid_ws u that [of "Element l c t'"] by (simp add: document_def)
  qed
  show ?thesis using reads_document [OF y(2)] y e(3) by simp
qed

text \<open>Every line break of a text at once, and every \<open>eol\<close> of one.\<close>

lemma reads_lines:
  assumes "reads (P @ join_with [10] ps) v" "ws u"
  shows "reads (P @ join_with u ps) v"
  using assms(1)
proof (induction ps arbitrary: P rule: induct_list012)
  case (3 p q ps)
  have "reads ((P @ p) @ u @ join_with [10] (q # ps)) v"
    using reads_relaid [of "P @ p" "join_with [10] (q # ps)" v u] 3 assms(2) by simp
  then show ?case using "3.IH"(2) [of "P @ p @ u"] by simp
qed simp_all

lemma reads_indented: "\<lbrakk>reads t v; ws w\<rbrakk> \<Longrightarrow> reads (join_with (10 # w) (split_on 10 t)) v"
  using reads_lines [of "[]" "split_on 10 t" v "10 # w"] by (simp add: join_split isSpace_def)

lemma reads_eol:
  assumes "reads (P @ join_with (r @ [10]) ps) v" "ws w"
  shows "reads (P @ join_with (r @ [10] @ w) ps) v"
  using assms(1)
proof (induction ps arbitrary: P rule: induct_list012)
  case (3 p q ps)
  have "reads ((P @ p @ r) @ (10 # w) @ join_with (r @ [10]) (q # ps)) v"
    using 3 assms(2) by (intro reads_relaid) (simp_all add: isSpace_def)
  then show ?case using "3.IH"(2) [of "P @ p @ r @ [10] @ w"] by simp
qed simp_all

end
