(* ===== verification/Js_Text.thy ===== *)
theory Js_Text
  imports Json
begin

text \<open>
  The rest of the standard library's strings that the modelled code calls: white space and \<open>trim\<close>,
  \<open>indexOf\<close>, \<open>Number\<close> of any text, and the integers among the numbers.
\<close>

section \<open>White space\<close>

text \<open>\<open>\s\<close> of a regular expression, which is also what \<open>trim\<close> takes off.\<close>

definition js_space :: "code_unit \<Rightarrow> bool" where
  "js_space c \<longleftrightarrow>
     (9 \<le> c \<and> c \<le> 13) \<or> c = 0x20 \<or> c = 0xA0 \<or> c = 0x1680 \<or> (0x2000 \<le> c \<and> c \<le> 0x200A)
     \<or> c = 0x2028 \<or> c = 0x2029 \<or> c = 0x202F \<or> c = 0x205F \<or> c = 0x3000 \<or> c = 0xFEFF"

definition js_trim :: "jstr \<Rightarrow> jstr" where
  "js_trim t = rev (dropWhile js_space (rev (dropWhile js_space t)))"

lemma js_trim_infix: "\<exists>a b. t = a @ js_trim t @ b"
proof -
  let ?u = "dropWhile js_space t"
  have "?u = rev (dropWhile js_space (rev ?u)) @ rev (takeWhile js_space (rev ?u))"
    by (metis rev_append rev_rev_ident takeWhile_dropWhile_id)
  moreover have "t = takeWhile js_space t @ ?u" by simp
  ultimately show ?thesis unfolding js_trim_def by metis
qed

lemma js_trim_ends:
  assumes "js_trim t \<noteq> []"
  shows "\<not> js_space (hd (js_trim t))" "\<not> js_space (last (js_trim t))"
proof -
  let ?u = "dropWhile js_space t" and ?v = "rev (dropWhile js_space (rev (dropWhile js_space t)))"
  have v: "?v \<noteq> []" using assms by (simp add: js_trim_def)
  have u: "?u = ?v @ rev (takeWhile js_space (rev ?u))"
    by (metis rev_append rev_rev_ident takeWhile_dropWhile_id)
  then have "?u \<noteq> []" "hd ?v = hd ?u" using v by (metis append_is_Nil_conv, metis hd_append2)
  then show "\<not> js_space (hd (js_trim t))" using hd_dropWhile [of js_space t] by (auto simp: js_trim_def dropWhile_eq_Nil_conv)
  have "dropWhile js_space (rev ?u) \<noteq> []" using v by simp
  then show "\<not> js_space (last (js_trim t))"
    using hd_dropWhile [of js_space "rev ?u"] by (auto simp: js_trim_def last_rev dropWhile_eq_Nil_conv)
qed

section \<open>Searching\<close>

text \<open>\<open>text.indexOf(word)\<close> and \<open>text.indexOf(word, from)\<close>; \<^term>\<open>None\<close> is \<open>-1\<close>.\<close>

fun index_of_word :: "'a list \<Rightarrow> 'a list \<Rightarrow> nat option" where
  "index_of_word w [] = (if w = [] then Some 0 else None)"
| "index_of_word w (c # cs) =
     (if prefix w (c # cs) then Some 0 else map_option Suc (index_of_word w cs))"

lemma index_of_word_Some:
  "index_of_word w t = Some i \<Longrightarrow> i + length w \<le> length t \<and> take (length w) (drop i t) = w"
proof (induction t arbitrary: i)
  case (Cons c cs)
  show ?case
  proof (cases "prefix w (c # cs)")
    case True
    then show ?thesis using Cons.prems by (auto simp: prefix_def dest: arg_cong [where f = length])
  next
    case False
    then obtain j where "i = Suc j" "index_of_word w cs = Some j" using Cons.prems by auto
    then show ?thesis using Cons.IH by simp
  qed
qed (auto split: if_splits)

section \<open>Numbers\<close>

definition radix_value :: "nat \<Rightarrow> jstr \<Rightarrow> int option" where
  "radix_value r ds =
     (if ds = [] then None
      else foldl (\<lambda>a c. case (a, hex_value c) of
                      (Some n, Some d) \<Rightarrow> if d < r then Some (n * int r + int d) else None
                    | _ \<Rightarrow> None) (Some 0) ds)"

text \<open>\<open>Number(text)\<close>; \<^term>\<open>None\<close> is NaN.\<close>

definition js_Number :: "jstr \<Rightarrow> jnum option" where
  "js_Number text =
     (let t = js_trim text;
          radix = (\<lambda>r. map_option (\<lambda>n. to_double False n 1) (radix_value r (drop 2 t)));
          lead = map (\<lambda>c. if 65 \<le> c \<and> c \<le> 90 then c + 32 else c) (take 2 t)
      in if t = [] then Some (Finite False 0 0)
         else if lead = js ''0x'' then radix 16
         else if lead = js ''0o'' then radix 8
         else if lead = js ''0b'' then radix 2
         else if t = js ''Infinity'' \<or> t = js ''+Infinity'' then Some (Infinite False)
         else if t = js ''-Infinity'' then Some (Infinite True)
         else number_of t)"

text \<open>\<open>Number.isInteger\<close>: the integer a number is.\<close>

definition integer_of :: "jnum \<Rightarrow> int option" where
  "integer_of v =
     (case v of
        Infinite _ \<Rightarrow> None
      | Finite neg m e \<Rightarrow>
          (let s = (if neg then - 1 else 1)
           in if 0 \<le> e then Some (s * (m * 2 ^ nat e))
              else if m mod 2 ^ nat (- e) = 0 then Some (s * (m div 2 ^ nat (- e)))
              else None))"

end
