(* ===== verification/Condition_Ops.thy ===== *)
theory Condition_Ops
  imports Writes Document_Layout Js_Text
begin

text \<open>
  \<open>packs/edit/conditionOps.ts\<close>: what the builder does to a condition, as text edits.  A kind is the
  word itself; \<open>CONDITION_MEMBERS[kind]\<close> is looked up among the kinds the schema declares.
\<close>

section \<open>Nodes and layouts\<close>

definition conditionKind :: "jval \<Rightarrow> jstr" where
  "conditionKind condition =
     (case condition of
        JObj ms \<Rightarrow>
          (case map_of ms (js ''op'') of
             Some (JStr op) \<Rightarrow> if op \<in> set (map js ENUMS_conditionOp) then op else js ''other''
           | _ \<Rightarrow> js ''other'')
      | _ \<Rightarrow> js ''other'')"

definition NEW_NODE :: jval where
  "NEW_NODE = JObj [(js ''op'', JStr (js ''literal'')), (js ''value'', JBool True)]"

record layout =
  base :: jstr
  step :: jstr
  eol :: jstr

definition lineEnding :: "jstr \<Rightarrow> jstr" where
  "lineEnding text =
     (case find_index (\<lambda>c. c = 10) text of
        None \<Rightarrow> [10]
      | Some found \<Rightarrow> if char_before text found = Some 13 then [13, 10] else [10])"

text \<open>\<open>/\n([ \t]+)\S/\<close>: the first line break with a run of blanks and then something.\<close>

fun indentUnit :: "jstr \<Rightarrow> jstr" where
  "indentUnit [] = js ''  ''"
| "indentUnit (c # cs) =
     (let run = takeWhile (\<lambda>d. d = 32 \<or> d = 9) cs;
          rest = dropWhile (\<lambda>d. d = 32 \<or> d = 9) cs
      in if c = 10 \<and> run \<noteq> [] \<and> rest \<noteq> [] \<and> \<not> js_space (hd rest) then run else indentUnit cs)"

definition layoutOf :: "buffer \<Rightarrow> jstr \<Rightarrow> layout" where
  "layoutOf current ptr =
     (let ending = lineEnding (b_text current) in
      case spanAt (b_index current) ptr of
        None \<Rightarrow> \<lparr>base = [], step = [], eol = ending\<rparr>
      | Some sp \<Rightarrow>
          (let leading = slice (b_text current) (layout_start (b_text current) (memberStart sp)) (memberStart sp)
           in if 10 \<notin> set leading then \<lparr>base = [], step = [], eol = ending\<rparr>
              else \<lparr>base = rev (takeWhile (\<lambda>c. c \<noteq> 10) (rev leading)),
                    step = indentUnit (b_text current), eol = ending\<rparr>))"

definition deeper :: "layout \<Rightarrow> layout" where
  "deeper l = (if step l = [] then l else l\<lparr>base := base l @ step l\<rparr>)"

text \<open>\<open>text.split(sep)\<close> for a separator that is not empty.\<close>

function split_str :: "jstr \<Rightarrow> jstr \<Rightarrow> jstr list" where
  "split_str sep [] = [[]]"
| "split_str sep (c # cs) =
     (if sep \<noteq> [] \<and> prefix sep (c # cs) then [] # split_str sep (drop (length sep) (c # cs))
      else (case split_str sep cs of [] \<Rightarrow> [[c]] | t # ts \<Rightarrow> (c # t) # ts))"
  by pat_completeness auto
termination
  by (relation "measure (\<lambda>(sep, t). length t)") auto

definition indent :: "jstr \<Rightarrow> jstr \<Rightarrow> jstr \<Rightarrow> jstr" where
  "indent text pre ending = join_with (ending @ pre) (split_str ending text)"

definition shift :: "jstr \<Rightarrow> jstr \<Rightarrow> jstr \<Rightarrow> jstr" where
  "shift text pre ending = join_with (ending @ pre) (split_on 10 text)"

definition serialize :: "jval \<Rightarrow> layout \<Rightarrow> jstr" where
  "serialize v l =
     (if step l = [] then JSON_stringify [] v
      else shift (JSON_stringify (step l) v) (base l) (eol l))"

definition nodeAt :: "buffer \<Rightarrow> jstr \<Rightarrow> jval option" where
  "nodeAt current ptr =
     (case spanAt (b_index current) ptr of
        None \<Rightarrow> None
      | Some sp \<Rightarrow> ix_value (indexDocument (slice (b_text current) (valueStart sp) (valueEnd sp))))"

section \<open>The operations\<close>

text \<open>\<open>text.slice(0, start) + written + text.slice(end)\<close>, as the source writes it out five times.\<close>

definition spliced :: "buffer \<Rightarrow> span \<Rightarrow> jstr \<Rightarrow> buffer" where
  "spliced current sp written =
     buffered (take (valueStart sp) (b_text current) @ written @ drop (valueEnd sp) (b_text current))"

definition addChild :: "buffer \<Rightarrow> jstr \<Rightarrow> buffer" where
  "addChild current groupPointer =
     (let conditions = groupPointer @ js ''/conditions'' in
      case spanAt (b_index current) conditions of
        None \<Rightarrow>
          buffered (insertMember (b_text current) (b_index current) groupPointer (Some (js ''conditions''))
            (serialize (JArr [NEW_NODE]) (layoutOf current groupPointer)) Last)
      | Some sp \<Rightarrow>
          (case nodeAt current conditions of
             Some held \<Rightarrow>
               if \<not> (case held of JArr xs \<Rightarrow> True | _ \<Rightarrow> False)
               then spliced current sp (serialize (JArr [NEW_NODE]) (layoutOf current conditions))
               else
                 (let l = (if spanAt (b_index current) (conditions @ js ''/0'') = None
                           then deeper (layoutOf current groupPointer)
                           else layoutOf current (conditions @ js ''/0''))
                  in buffered (insertMember (b_text current) (b_index current) conditions None
                       (serialize NEW_NODE l) Last))
           | None \<Rightarrow>
               (let l = (if spanAt (b_index current) (conditions @ js ''/0'') = None
                         then deeper (layoutOf current groupPointer)
                         else layoutOf current (conditions @ js ''/0''))
                in buffered (insertMember (b_text current) (b_index current) conditions None
                     (serialize NEW_NODE l) Last))))"

definition group_text :: "jstr \<Rightarrow> layout \<Rightarrow> jstr \<Rightarrow> jstr" where
  "group_text raw l op =
     (if step l = []
      then js ''{\"op\": '' @ JSON_string op @ js '', \"conditions\": ['' @ raw @ js '']}''
      else join_with (eol l)
        [js ''{'',
         base l @ step l @ js ''\"op\": '' @ JSON_string op @ js '','',
         base l @ step l @ js ''\"conditions\": ['',
         base l @ step l @ step l @ indent raw (step l @ step l) (eol l),
         base l @ step l @ js '']'',
         base l @ js ''}''])"

definition wrapInGroup :: "buffer \<Rightarrow> jstr \<Rightarrow> jstr \<Rightarrow> buffer" where
  "wrapInGroup current ptr op =
     (case spanAt (b_index current) ptr of
        None \<Rightarrow> current
      | Some sp \<Rightarrow>
          spliced current sp
            (group_text (slice (b_text current) (valueStart sp) (valueEnd sp)) (layoutOf current ptr) op))"

definition removeNode :: "buffer \<Rightarrow> jstr \<Rightarrow> buffer" where
  "removeNode current ptr =
     (if spanAt (b_index current) ptr = None then current
      else buffered (removeMember (b_text current) (b_index current) ptr))"

definition memberPointer :: "jstr \<Rightarrow> jstr \<Rightarrow> jstr" where
  "memberPointer ptr name =
     (case parsePointer ptr of None \<Rightarrow> ptr @ [slash] @ name | Some parts \<Rightarrow> pointer (parts @ [name]))"

fun nearest_member :: "document_index \<Rightarrow> jstr \<Rightarrow> jstr list \<Rightarrow> placement" where
  "nearest_member index ptr [] = First"
| "nearest_member index ptr (n # earlier) =
     (if spanAt index (memberPointer ptr n) \<noteq> None then After (memberPointer ptr n)
      else nearest_member index ptr earlier)"

definition placeAfter :: "buffer \<Rightarrow> jstr \<Rightarrow> jstr list \<Rightarrow> jstr \<Rightarrow> placement" where
  "placeAfter current ptr members name =
     (case find_index (\<lambda>m. m = name) members of
        None \<Rightarrow> First
      | Some at_ \<Rightarrow> nearest_member (b_index current) ptr (rev (take at_ members)))"

definition blank :: "jstr \<Rightarrow> jval" where
  "blank name =
     (if name = js ''conditions'' then JArr []
      else if name = js ''condition'' then NEW_NODE
      else if name = js ''operator'' then JStr (js ''equals'')
      else JStr [])"

definition skeleton :: "jstr \<Rightarrow> jstr list \<Rightarrow> jval" where
  "skeleton kind members =
     JObj (map (\<lambda>name. (name, if name = js ''op'' then JStr kind else blank name)) members)"

definition setOp :: "buffer \<Rightarrow> jstr \<Rightarrow> jstr \<Rightarrow> buffer" where
  "setOp current ptr kind =
     (case spanAt (b_index current) (ptr @ js ''/op'') of
        None \<Rightarrow> current
      | Some sp \<Rightarrow> spliced current sp (JSON_string kind))"

definition drop_members :: "jstr \<Rightarrow> jstr list \<Rightarrow> jstr list \<Rightarrow> buffer \<Rightarrow> buffer" where
  "drop_members ptr members present =
     fold (\<lambda>name b.
         if name = js ''op'' \<or> name \<in> set members then b
         else buffered (removeMember (b_text b) (b_index b) (memberPointer ptr name))) present"

definition add_members :: "jstr \<Rightarrow> jstr list \<Rightarrow> jstr list \<Rightarrow> buffer \<Rightarrow> buffer" where
  "add_members ptr members present =
     fold (\<lambda>name b.
         if name = js ''op'' \<or> name \<in> set present then b
         else buffered (insertMember (b_text b) (b_index b) ptr (Some name)
                (serialize (blank name) (deeper (layoutOf b ptr)))
                (placeAfter b ptr members name))) members"

definition changeKind :: "buffer \<Rightarrow> jstr \<Rightarrow> jstr \<Rightarrow> buffer" where
  "changeKind current ptr kind =
     (case spanAt (b_index current) ptr of
        None \<Rightarrow> current
      | Some sp \<Rightarrow>
          (case map_of CONDITION_MEMBERS kind of
             None \<Rightarrow> current
           | Some members \<Rightarrow>
               (case (if ix_value (b_index current) = None then None else nodeAt current ptr) of
                  Some (JObj ms) \<Rightarrow>
                    (let present = own_keys ms;
                         next =
                           (if js ''op'' \<in> set present then setOp current ptr kind
                            else buffered (insertMember (b_text current) (b_index current) ptr
                                   (Some (js ''op'')) (JSON_string kind) First))
                     in add_members ptr members present (drop_members ptr members present next))
                | _ \<Rightarrow> spliced current sp (serialize (skeleton kind members) (layoutOf current ptr)))))"

definition setOperator :: "buffer \<Rightarrow> jstr \<Rightarrow> jstr \<Rightarrow> buffer" where
  "setOperator current ptr operator =
     (case spanAt (b_index current) (ptr @ js ''/operator'') of
        None \<Rightarrow>
          buffered (insertMember (b_text current) (b_index current) ptr (Some (js ''operator''))
            (JSON_string operator) Last)
      | Some sp \<Rightarrow> spliced current sp (JSON_string operator))"

section \<open>Layouts are layout\<close>

lemma takeWhile_blank: "ws (takeWhile (\<lambda>d. d = 32 \<or> d = 9) cs)"
  by (induction cs) (auto simp: isSpace_def)

lemma ws_indentUnit: "ws (indentUnit t)"
  by (induction t) (auto simp: isSpace_def takeWhile_blank Let_def)

lemma ws_lineEnding: "ws (lineEnding t)"
  by (auto simp: lineEnding_def isSpace_def split: option.split)

lemma lineEnding_cases: "\<exists>r. lineEnding t = r @ [10] \<and> ws r"
  by (auto simp: lineEnding_def isSpace_def split: option.split intro: exI [of _ "[13]"])

lemma layout_start_ws: "ws (slice t (layout_start t n) n)"
proof (cases "n \<le> length t")
  case True
  then show ?thesis
  proof (induction n)
    case (Suc n)
    have le: "layout_start t n \<le> n" by (induction n) auto
    have "slice t (layout_start t n) (Suc n) = slice t (layout_start t n) n @ [t ! n]"
      using Suc.prems le by (simp add: slice_def Suc_diff_le take_Suc_conv_app_nth)
    then show ?case using Suc by (auto simp: ws_def slice_def)
  qed (simp add: slice_def)
next
  case False
  then have "layout_start t n = n" by (cases n) auto
  then show ?thesis by (simp add: slice_def)
qed

definition blank_layout :: "layout \<Rightarrow> bool" where
  "blank_layout l \<longleftrightarrow> ws (base l) \<and> ws (step l) \<and> (\<exists>r. eol l = r @ [10] \<and> ws r)"

lemma blank_layoutOf: "blank_layout (layoutOf b p)"
proof -
  obtain r where r: "lineEnding (b_text b) = r @ [10]" "ws r" using lineEnding_cases by blast
  have "ws (rev (takeWhile P (rev w)))" if "ws w" for P w
    using that by (auto simp: ws_def list_all_iff dest: set_takeWhileD)
  then show ?thesis using r layout_start_ws ws_indentUnit
    by (auto simp: layoutOf_def blank_layout_def Let_def split: option.split)
qed

lemma blank_deeper: "blank_layout l \<Longrightarrow> blank_layout (deeper l)"
  by (auto simp: deeper_def blank_layout_def)

lemma blank_eol: "blank_layout l \<Longrightarrow> ws (eol l)"
  by (auto simp: blank_layout_def isSpace_def)

lemma reads_serialize:
  assumes "stable v" "blank_layout l"
  shows "reads (serialize v l) v"
proof (cases "step l = []")
  case False
  have "reads ([] @ join_with [10] (split_on 10 (JSON_stringify (step l) v))) v"
  proof -
    have "ws (take 10 (step l))" using assms(2) by (auto simp: blank_layout_def ws_def list_all_iff dest: in_set_takeD)
    then show ?thesis using assms(1) by (simp add: join_split JSON_stringify_def reads_stringify)
  qed
  from reads_lines [OF this, of "eol l @ base l"] show ?thesis
    using False blank_eol [OF assms(2)] assms(2) by (simp add: serialize_def shift_def blank_layout_def)
qed (simp add: serialize_def assms reads_JSON_stringify)

lemma join_split_str: "sep \<noteq> [] \<Longrightarrow> join_with sep (split_str sep t) = t"
proof (induction sep t rule: split_str.induct)
  case (2 sep c cs)
  show ?case
  proof (cases "prefix sep (c # cs)")
    case True
    moreover have "split_str sep u \<noteq> []" for u by (cases u) (simp_all split: list.split)
    ultimately show ?thesis using 2 by (auto simp: join_with_Cons prefix_def)
  next
    case False
    obtain t ts where t: "split_str sep cs = t # ts" by (cases cs; cases "split_str sep cs") (auto split: list.splits if_splits)
    have "join_with sep ((c # t) # ts) = c # join_with sep (t # ts)" by (cases ts) simp_all
    then show ?thesis using 2 False t by simp
  qed
qed simp

lemma reads_indent:
  assumes "reads raw v" "blank_layout l" "ws pre"
  shows "reads (indent raw pre (eol l)) v"
proof -
  obtain r where r: "eol l = r @ [10]" using assms(2) by (auto simp: blank_layout_def)
  have "reads ([] @ join_with (r @ [10]) (split_str (eol l) raw)) v"
    using assms(1) join_split_str [of "eol l" raw] r by simp
  from reads_eol [OF this assms(3)] show ?thesis by (simp add: indent_def r)
qed

section \<open>Splices\<close>

lemma spliced_replace:
  "spanAt (b_index b) p = Some sp \<Longrightarrow> spliced b sp json = buffered (replaceValue (b_text b) (b_index b) p json)"
  by (simp add: spliced_def replaceValue_def)

lemma spliced_reads:
  assumes "in_step b" "reads (b_text b) v" "reads json j" "spanAt (b_index b) (pointer q) = Some sp"
  shows "reads (b_text (spliced b sp json)) (update_at q (\<lambda>_. j) v)"
  using edited_reads [OF assms(2) edited_replaceValue [OF assms(2,3)]] assms(1) spliced_replace [OF assms(4)]
  by (simp add: in_step_def)

lemma in_step_spliced [simp]: "in_step (spliced b sp json)"
  by (simp add: spliced_def)

text \<open>A node's own bytes inside a new group.\<close>

definition group_value :: "jstr \<Rightarrow> jval \<Rightarrow> jval" where
  "group_value op w = JObj [(js ''op'', JStr op), (js ''conditions'', JArr [w])]"

lemma reads_group:
  assumes raw: "reads raw w" and l: "ws l1" "ws l2" "ws l3" "ws l4" "ws l5"
  shows "reads (open_brace # l1 @ stringify_string (js ''op'') @ js '': '' @ JSON_string op @ comma # l2
      @ stringify_string (js ''conditions'') @ js '': '' @ open_bracket # l3 @ raw @ l4 @ close_bracket # l5 @ [close_brace])
     (group_value op w)"
proof -
  obtain e where e: "raw = render_element e" "document e" "w = tree_element e"
    using raw by (rule reads_cases)
  let ?x = "Element (l3 @ elead e) (element_tree e) (etrail e @ l4)"
  let ?c = "Obj [] [Member l1 (stringify_string (js ''op'')) [] (js '' '') (Leaf (JSON_string op)) [],
      Member l2 (stringify_string (js ''conditions'')) [] (js '' '') (Arr [] [?x]) l5]"
  have string: "JSON_string op = stringify_string op" by (simp add: JSON_string_def JSON_stringify_def)
  have "js ''op'' \<noteq> js ''conditions''" by (simp del: js_Cons)
  then have "document (Element [] ?c [])"
    using e(2) l by (simp add: document_def wf_element_iff string member_name_def uniq_element_iff del: js_Cons)
  from reads_document [OF this] show ?thesis
    using \<open>js ''op'' \<noteq> js ''conditions''\<close> e
    by (simp add: string group_value_def add_first_def tree_element_fun render_element_eq)
qed

lemma names_stringified:
  "stringify_string (js ''op'') = js ''\"op\"''" "stringify_string (js ''conditions'') = js ''\"conditions\"''"
  by (simp_all add: stringify_string_def short_escape_def is_high_def is_low_def)

lemma wrapped_reads:
  assumes "blank_layout l" "reads raw w"
  shows "reads (group_text raw l op) (group_value op w)"
proof (cases "step l = []")
  case True
  from reads_group [OF assms(2), of "[]" "js '' ''" "[]" "[]" "[]" op, unfolded names_stringified] show ?thesis
    by (simp add: group_text_def True isSpace_def)
next
  case False
  have l: "ws (eol l)" "ws (base l)" "ws (step l)" using assms(1) blank_eol by (auto simp: blank_layout_def)
  from reads_group [OF reads_indent [OF assms(2,1), of "step l @ step l"],
      of "eol l @ base l @ step l" "eol l @ base l @ step l" "eol l @ base l @ step l @ step l"
         "eol l @ base l @ step l" "eol l @ base l" op, unfolded names_stringified] show ?thesis
    using False l by (simp add: group_text_def)
qed

lemma slice_value_text:
  "\<lbrakk>in_step b; spanAt (b_index b) (pointer q) = Some sp\<rbrakk>
     \<Longrightarrow> value_text (b_text b) q = Some (slice (b_text b) (valueStart sp) (valueEnd sp))"
  by (simp add: value_text_def in_step_def)

lemma value_bytes:
  assumes "in_step b" "reads (b_text b) v" "value_down v q = Some w"
  obtains sp where "spanAt (b_index b) (pointer q) = Some sp"
    "reads (slice (b_text b) (valueStart sp) (valueEnd sp)) w"
proof -
  obtain sp where sp: "spanAt (b_index b) (pointer q) = Some sp"
    using spanAt_declared [OF assms(2), of q] assms(1,3) by (auto simp: in_step_def)
  then show ?thesis
    using value_text_reads [OF assms(2), of q] slice_value_text [OF assms(1) sp] assms(3) that by simp
qed

lemma nodeAt_value:
  assumes "in_step b" "reads (b_text b) v"
  shows "nodeAt b (pointer q) = value_down v q"
proof (cases "value_down v q")
  case None
  then show ?thesis using spanAt_declared [OF assms(2), of q] assms(1) by (simp add: nodeAt_def in_step_def)
next
  case (Some w)
  then obtain sp where "spanAt (b_index b) (pointer q) = Some sp"
    "reads (slice (b_text b) (valueStart sp) (valueEnd sp)) w"
    using value_bytes [OF assms] by blast
  then show ?thesis using Some by (simp add: nodeAt_def reads_def)
qed

lemma wrap_reads:
  assumes "in_step b" "reads (b_text b) v" "value_down v q = Some w"
  shows "reads (b_text (wrapInGroup b (pointer q) op)) (update_at q (\<lambda>_. group_value op w) v)"
proof -
  obtain sp where sp: "spanAt (b_index b) (pointer q) = Some sp"
    "reads (slice (b_text b) (valueStart sp) (valueEnd sp)) w"
    using value_bytes [OF assms] .
  show ?thesis
    using spliced_reads [OF assms(1,2) wrapped_reads [OF blank_layoutOf sp(2)] sp(1)] sp(1)
    by (simp add: wrapInGroup_def Let_def)
qed

section \<open>Changing a node's kind\<close>

lemma update_at_twice: "update_at q f (update_at q g v) = update_at q (f \<circ> g) v"
proof (induction q arbitrary: v)
  case (Cons k ks)
  show ?case
  proof (cases v)
    case (JArr xs)
    then show ?thesis using Cons by (auto split: option.split)
  next
    case (JObj ms)
    then show ?thesis using Cons by auto
  qed simp_all
qed simp

lemma update_at_id: "update_at q id v = v"
proof (induction q arbitrary: v)
  case (Cons k ks)
  show ?case using Cons by (cases v) (auto intro: map_idI split: option.split)
qed simp

text \<open>The node under the pointer is an object that maps names as \<open>M\<close> does; the rest is as it was.\<close>

definition node_at :: "jval \<Rightarrow> jstr list \<Rightarrow> buffer \<Rightarrow> (jstr \<Rightarrow> jval option) \<Rightarrow> bool" where
  "node_at v q b M \<longleftrightarrow> in_step b \<and> (\<exists>ms. reads (b_text b) (update_at q (\<lambda>_. JObj ms) v) \<and> map_of ms = M)"

lemma node_at_ext: "\<lbrakk>node_at v q b M; \<And>n. M' n = M n; b' = b\<rbrakk> \<Longrightarrow> node_at v q b' M'"
  by (auto simp: node_at_def fun_eq_iff)

lemma node_at_edit:
  assumes n: "in_step b" "reads (b_text b) (update_at q (\<lambda>_. JObj ms) v)"
    and e: "edited (b_text b) q f t" and f: "f (JObj ms) = JObj ms'"
  shows "node_at v q (buffered t) (map_of ms')"
  using edited_reads [OF n(2) e] f by (auto simp: node_at_def update_at_twice comp_def)

lemma node_at_down:
  assumes "value_down v q = Some w"
  shows "value_down (update_at q (\<lambda>_. JObj ms) v) q = Some (JObj ms)"
  using assms by (simp add: value_down_update_at)

lemma map_of_insert_at:
  "k \<notin> fst ` set ms \<Longrightarrow> map_of (take i ms @ (k, j) # drop i ms) = (map_of ms)(k \<mapsto> j)"
proof -
  assume k: "k \<notin> fst ` set ms"
  have "map_of ms = map_of (drop i ms) ++ map_of (take i ms)"
    using map_of_append [of "take i ms" "drop i ms"] unfolding append_take_drop_id .
  moreover have "k \<notin> dom (map_of (take i ms))"
    using k set_take_subset [of i ms] by (auto simp: dom_map_of_conv_image_fst)
  ultimately show ?thesis by (simp add: map_add_upd_left)
qed

lemma map_of_drop: "map_of (filter (\<lambda>(m, w). m \<noteq> k) ms) = (map_of ms)(k := None)"
  by (induction ms) (auto simp: fun_upd_twist)

lemma node_at_insert:
  assumes n: "node_at v q b M" and w: "value_down v q \<noteq> None" and k: "M k = None" and j: "reads json j"
  shows "node_at v q (buffered (insertMember (b_text b) (b_index b) (pointer q) (Some k) json pl)) (M(k \<mapsto> j))"
proof -
  obtain ms where ms: "in_step b" "reads (b_text b) (update_at q (\<lambda>_. JObj ms) v)" "map_of ms = M"
    using n by (auto simp: node_at_def)
  have fresh: "k \<notin> fst ` set ms" using k ms(3) by (auto simp: map_of_eq_None_iff [symmetric])
  have down: "value_down (update_at q (\<lambda>_. JObj ms) v) q = Some (JObj ms)" using node_at_down w by blast
  have "edited (b_text b) q (\<lambda>w. insert_child (place q (child_keys w) pl) (Some k) j w)
      (insertMember (b_text b) (indexDocument (b_text b)) (pointer q) (Some k) json pl)"
    using fresh down by (intro edited_insertMember [OF ms(2) j]) simp
  from node_at_edit [OF ms(1,2) this] show ?thesis
    using map_of_insert_at [OF fresh] ms(1,3) by (simp add: in_step_def)
qed

lemma node_at_remove:
  assumes n: "node_at v q b M"
  shows "node_at v q (buffered (removeMember (b_text b) (b_index b) (memberPointer (pointer q) k))) (M(k := None))"
proof -
  obtain ms where ms: "in_step b" "reads (b_text b) (update_at q (\<lambda>_. JObj ms) v)" "map_of ms = M"
    using n by (auto simp: node_at_def)
  from node_at_edit [OF ms(1,2) edited_removeMember [OF ms(2)]] show ?thesis
    using ms(1,3) by (simp add: in_step_def memberPointer_def map_of_drop del: pointer.simps)
qed

lemma node_at_set:
  assumes n: "node_at v q b M" and w: "value_down v q \<noteq> None" and k: "M k \<noteq> None" and j: "reads json j"
    and sp: "spanAt (b_index b) (pointer (q @ [k])) = Some sp"
  shows "node_at v q (spliced b sp json) (M(k \<mapsto> j))"
proof -
  obtain ms where ms: "in_step b" "reads (b_text b) (update_at q (\<lambda>_. JObj ms) v)" "map_of ms = M"
    using n by (auto simp: node_at_def)
  let ?ms = "map (\<lambda>(n, w). (n, if n = k then update_at [] (\<lambda>_. j) w else w)) ms"
  have "reads (b_text (spliced b sp json)) (update_at (q @ [k]) (\<lambda>_. j) (update_at q (\<lambda>_. JObj ms) v))"
    by (rule spliced_reads [OF ms(1,2) j sp])
  then have "reads (b_text (spliced b sp json)) (update_at q (\<lambda>_. JObj ?ms) v)"
    by (simp add: update_at_append update_at_twice comp_def)
  moreover have "map_of ?ms = M(k \<mapsto> j)"
    using k ms(3) unfolding map_of_map_if [of k "update_at [] (\<lambda>_. j)" ms, THEN ext] by (auto simp: fun_eq_iff)
  ultimately show ?thesis unfolding node_at_def by (intro conjI exI [of _ ?ms]) simp_all
qed

lemma plain_names:
  "\<not> array_index_name (js ''op'')" "\<not> array_index_name (js ''value'')"
  by (simp_all add: array_index_name_def is_index_def is_digit_def)

lemma stable_new_node [simp]: "stable NEW_NODE"
  using plain_names unfolding NEW_NODE_def by (simp del: js_Cons)

lemma stable_blank [simp]: "stable (blank n)"
  by (simp add: blank_def)

lemma node_at_drops:
  "node_at v q b M \<Longrightarrow> node_at v q (drop_members (pointer q) members names b)
     (\<lambda>n. if n \<in> set names \<and> n \<noteq> js ''op'' \<and> n \<notin> set members then None else M n)"
proof (induction names arbitrary: b M)
  case (Cons k names)
  have "node_at v q (drop_members (pointer q) members [k] b)
     (if k = js ''op'' \<or> k \<in> set members then M else M(k := None))"
    using Cons.prems node_at_remove by (simp add: drop_members_def del: js_Cons)
  from Cons.IH [OF this] show ?case
    by (rule node_at_ext) (auto simp: drop_members_def simp del: js_Cons)
qed (simp add: drop_members_def)

lemma node_at_adds:
  assumes "node_at v q b M" "value_down v q \<noteq> None" "distinct names"
    and "\<forall>n \<in> set names. n \<noteq> js ''op'' \<and> n \<notin> set present \<longrightarrow> M n = None"
  shows "node_at v q
     (fold (\<lambda>name b.
         if name = js ''op'' \<or> name \<in> set present then b
         else buffered (insertMember (b_text b) (b_index b) (pointer q) (Some name)
                (serialize (blank name) (deeper (layoutOf b (pointer q))))
                (placeAfter b (pointer q) members name))) names b)
     (\<lambda>n. if n \<in> set names \<and> n \<noteq> js ''op'' \<and> n \<notin> set present then Some (blank n) else M n)"
  using assms
proof (induction names arbitrary: b M)
  case (Cons k names)
  let ?add = "\<lambda>name b. if name = js ''op'' \<or> name \<in> set present then b
         else buffered (insertMember (b_text b) (b_index b) (pointer q) (Some name)
                (serialize (blank name) (deeper (layoutOf b (pointer q))))
                (placeAfter b (pointer q) members name))"
  let ?skip = "k = js ''op'' \<or> k \<in> set present"
  let ?b = "if ?skip then b
    else buffered (insertMember (b_text b) (b_index b) (pointer q) (Some k)
           (serialize (blank k) (deeper (layoutOf b (pointer q)))) (placeAfter b (pointer q) members k))"
  let ?M = "if ?skip then M else M(k \<mapsto> blank k)"
  have "node_at v q ?b ?M"
    using Cons.prems node_at_insert [OF Cons.prems(1,2) _ reads_serialize [OF stable_blank blank_deeper [OF blank_layoutOf]]]
    by (simp del: js_Cons pointer.simps)
  moreover have "\<forall>n \<in> set names. n \<noteq> js ''op'' \<and> n \<notin> set present \<longrightarrow> ?M n = None" using Cons.prems by auto
  ultimately have "node_at v q (fold ?add names ?b)
      (\<lambda>n. if n \<in> set names \<and> n \<noteq> js ''op'' \<and> n \<notin> set present then Some (blank n) else ?M n)"
    using Cons.prems(2,3) by (intro Cons.IH) simp_all
  then show ?case
    by (rule node_at_ext) (use Cons.prems(3) in \<open>auto simp del: js_Cons pointer.simps\<close>)
qed simp

definition retyped :: "jstr \<Rightarrow> jstr list \<Rightarrow> (jstr \<Rightarrow> jval option) \<Rightarrow> jstr \<Rightarrow> jval option" where
  "retyped kind members M n =
     (if n = js ''op'' then Some (JStr kind)
      else if n \<notin> set members then None
      else case M n of Some w \<Rightarrow> Some w | None \<Rightarrow> Some (blank n))"

lemma once_value_down: "\<lbrakk>once v; value_down v q = Some w\<rbrakk> \<Longrightarrow> once w"
proof (induction q arbitrary: v)
  case (Cons k ks)
  then obtain u where u: "step_into v k = Some u" "value_down u ks = Some w" by (auto split: option.splits)
  have "once u" using u(1) Cons.prems(1)
    by (cases v) (auto simp: step_into_def list_all_iff split: option.splits if_splits dest!: map_of_SomeD)
  with Cons u show ?case by blast
qed simp

lemma changeKind_node:
  assumes b: "in_step b" "reads (b_text b) v" and w: "value_down v q = Some (JObj ms)"
    and m: "map_of CONDITION_MEMBERS kind = Some members"
  shows "node_at v q (changeKind b (pointer q) kind) (retyped kind members (map_of ms))"
proof -
  obtain sp where sp: "spanAt (b_index b) (pointer q) = Some sp"
    using value_bytes [OF b w] .
  have present: "set (own_keys ms) = fst ` set ms"
    by simp
  have dm: "distinct members" "js ''op'' \<in> set members"
    using m by (auto simp: CONDITION_MEMBERS_def simp del: js_Cons split: if_splits)
  let ?next = "if js ''op'' \<in> set (own_keys ms) then setOp b (pointer q) kind
     else buffered (insertMember (b_text b) (b_index b) (pointer q) (Some (js ''op'')) (JSON_string kind) First)"
  have start: "node_at v q b (map_of ms)"
    using b update_at_cong [OF reads_once [OF b(2)] w, of "\<lambda>_. JObj ms" id] update_at_id w
    by (auto simp: node_at_def id_def intro!: exI [of _ ms])
  have op: "pointer q @ js ''/op'' = pointer (q @ [js ''op''])"
    by (simp add: pointer_append)
  have first: "node_at v q ?next ((map_of ms)(js ''op'' \<mapsto> JStr kind))"
  proof (cases "map_of ms (js ''op'')")
    case None
    then have "js ''op'' \<notin> set (own_keys ms)" using present by (auto simp: map_of_eq_None_iff)
    then show ?thesis using node_at_insert [OF start _ None reads_string] w by simp
  next
    case (Some u)
    then have "js ''op'' \<in> set (own_keys ms)" using present by (force dest: map_of_SomeD)
    moreover obtain sp' where sp': "spanAt (b_index b) (pointer (q @ [js ''op''])) = Some sp'"
      using value_bytes [OF b, of "q @ [js ''op'']"] Some value_down_snoc_obj [OF w] by metis
    ultimately show ?thesis using node_at_set [OF start _ _ reads_string sp'] w Some
      by (simp add: setOp_def op del: pointer.simps js_Cons)
  qed
  have eq: "changeKind b (pointer q) kind
      = add_members (pointer q) members (own_keys ms) (drop_members (pointer q) members (own_keys ms) ?next)"
    using sp m nodeAt_value [OF b, of q] w b by (simp add: changeKind_def Let_def in_step_def reads_def del: js_Cons)
  have "M = retyped kind members (map_of ms)"
    if "M = (\<lambda>n. if n \<in> set members \<and> n \<noteq> js ''op'' \<and> n \<notin> set (own_keys ms) then Some (blank n)
          else (if n \<in> set (own_keys ms) \<and> n \<noteq> js ''op'' \<and> n \<notin> set members then None
                else ((map_of ms)(js ''op'' \<mapsto> JStr kind)) n))" for M
  proof -
    have "n \<in> set (own_keys ms) \<longleftrightarrow> map_of ms n \<noteq> None" for n
      by (simp add: map_of_eq_None_iff)
    then show ?thesis unfolding that using dm
      by (auto simp: retyped_def fun_eq_iff simp del: js_Cons set_own_keys split: option.split)
  qed
  moreover have "node_at v q (changeKind b (pointer q) kind)
      (\<lambda>n. if n \<in> set members \<and> n \<noteq> js ''op'' \<and> n \<notin> set (own_keys ms) then Some (blank n)
          else (if n \<in> set (own_keys ms) \<and> n \<noteq> js ''op'' \<and> n \<notin> set members then None
                else ((map_of ms)(js ''op'' \<mapsto> JStr kind)) n))"
    unfolding eq add_members_def using w present dm
    by (intro node_at_adds [OF node_at_drops [OF first]]) (auto simp: map_of_eq_None_iff simp del: js_Cons)
  ultimately show ?thesis by metis
qed

section \<open>Properties\<close>

text \<open>
  C9: wrapping a node in a group leaves a document that scans, whose value there is the group with
  the node's old value as its one condition, whatever indentation and line ending the file has.
\<close>

theorem wrapInGroup_wraps:
  assumes "in_step b" "reads (b_text b) v" "valueAt v (pointer q) = Some w"
  shows "\<exists>v'. reads (b_text (wrapInGroup b (pointer q) op)) v'
     \<and> valueAt v' (pointer q) = Some (JObj [(js ''op'', JStr op), (js ''conditions'', JArr [w])])
     \<and> v' = update_at q (\<lambda>_. JObj [(js ''op'', JStr op), (js ''conditions'', JArr [w])]) v"
  using wrap_reads [OF assms(1,2), of q w op] assms(3)
  by (intro exI [of _ "update_at q (\<lambda>_. group_value op w) v"]) (simp add: value_down_update_at group_value_def)

theorem wrapInGroup_wraps_witness:
  "\<exists>v'. reads (b_text (wrapInGroup (buffered (js ''[ true , null]'')) (pointer [dec 1]) (js ''any''))) v'
     \<and> valueAt v' (pointer [dec 1]) = Some (JObj [(js ''op'', JStr (js ''any'')), (js ''conditions'', JArr [JNull])])
     \<and> v' = update_at [dec 1] (\<lambda>_. JObj [(js ''op'', JStr (js ''any'')), (js ''conditions'', JArr [JNull])])
              (JArr [JBool True, JNull])"
  by (rule wrapInGroup_wraps) (simp_all add: sample_array step_into_def del: pointer.simps js_Cons)

text \<open>changing the kind of a node leaves a document that scans, in which the node has exactly the
  members of its new kind: the new word, every other member the old node also had with the value it
  had, and the rest written empty.
\<close>

theorem changeKind_carries:
  assumes "in_step b" "reads (b_text b) v" "valueAt v (pointer q) = Some (JObj ms)"
    and "map_of CONDITION_MEMBERS kind = Some members"
  shows "\<exists>ms'. reads (b_text (changeKind b (pointer q) kind)) (update_at q (\<lambda>_. JObj ms') v)
     \<and> map_of ms' = (\<lambda>n. if n = js ''op'' then Some (JStr kind)
                        else if n \<notin> set members then None
                        else case map_of ms n of Some w \<Rightarrow> Some w | None \<Rightarrow> Some (blank n))"
  using changeKind_node [OF assms(1,2) _ assms(4), of q ms] assms(3)
  by (auto simp: node_at_def retyped_def fun_eq_iff)

theorem changeKind_carries_witness:
  "\<exists>ms'. reads (b_text (changeKind (buffered (JSON_stringify [] NEW_NODE)) (pointer []) (js ''fact'')))
       (update_at [] (\<lambda>_. JObj ms') NEW_NODE)
     \<and> map_of ms' = (\<lambda>n. if n = js ''op'' then Some (JStr (js ''fact''))
          else if n \<notin> set (map js [''op'', ''path'', ''operator'', ''value'']) then None
          else case map_of [(js ''op'', JStr (js ''literal'')), (js ''value'', JBool True)] n of
                 Some w \<Rightarrow> Some w | None \<Rightarrow> Some (blank n))"
proof (rule changeKind_carries)
  show "reads (b_text (buffered (JSON_stringify [] NEW_NODE))) NEW_NODE" by (simp add: reads_JSON_stringify)
  show "valueAt NEW_NODE (pointer []) = Some (JObj [(js ''op'', JStr (js ''literal'')), (js ''value'', JBool True)])"
    by (simp add: NEW_NODE_def del: js_Cons)
  show "map_of CONDITION_MEMBERS (js ''fact'') = Some (map js [''op'', ''path'', ''operator'', ''value''])"
    by (simp add: CONDITION_MEMBERS_def del: js_Cons)
qed simp

lemma conditions_pointer:
  "pointer q @ js ''/conditions'' = pointer (q @ [js ''conditions''])"
  "pointer q @ js ''/0'' = pointer (q @ [js ''0''])"
  by (simp_all add: pointer_append)

lemma stable_new_list: "stable (JArr [NEW_NODE])"
  by simp

text \<open>
  pressing \<open>add\<close> on a group puts a new node behind the conditions it has, and makes its
  \<open>conditions\<close> the list of that one node when it had none or something else there.
\<close>

theorem addChild_adds:
  assumes "in_step b" "reads (b_text b) v" "valueAt v (pointer q) = Some (JObj ms)"
  shows "\<exists>v'. reads (b_text (addChild b (pointer q))) v'
     \<and> valueAt v' (pointer (q @ [js ''conditions''])) =
         Some (JArr ((case map_of ms (js ''conditions'') of Some (JArr xs) \<Rightarrow> xs | _ \<Rightarrow> []) @ [NEW_NODE]))"
proof -
  let ?c = "js ''conditions''"
  have w: "value_down v q = Some (JObj ms)" using assms(3) by simp
  have ix: "b_index b = indexDocument (b_text b)" using assms(1) by (simp add: in_step_def)
  have down: "value_down v (q @ [?c]) = map_of ms ?c" by (rule value_down_snoc_obj [OF w])
  show ?thesis
  proof (cases "map_of ms ?c")
    case None
    let ?f = "\<lambda>u. insert_child (place q (child_keys u) Last) (Some ?c) (JArr [NEW_NODE]) u"
    have fresh: "?c \<notin> fst ` set ms" using None by (simp add: map_of_eq_None_iff)
    have span: "spanAt (b_index b) (pointer (q @ [?c])) = None"
      using spanAt_declared [OF assms(2)] down None ix by simp
    have "addChild b (pointer q) = buffered (insertMember (b_text b) (b_index b) (pointer q) (Some ?c)
        (serialize (JArr [NEW_NODE]) (layoutOf b (pointer q))) Last)"
      by (simp only: addChild_def Let_def conditions_pointer(1) span option.case)
    moreover have "edited (b_text b) q ?f (insertMember (b_text b) (indexDocument (b_text b)) (pointer q) (Some ?c)
        (serialize (JArr [NEW_NODE]) (layoutOf b (pointer q))) Last)"
      by (rule edited_insertMember [OF assms(2) reads_serialize [OF stable_new_list blank_layoutOf]]) (use w fresh in simp)
    ultimately have "edited (b_text b) q ?f (b_text (addChild b (pointer q)))" by (simp add: ix)
    from edited_reads [OF assms(2) this]
    have "reads (b_text (addChild b (pointer q))) (update_at q ?f v)" .
    moreover have "value_down (update_at q ?f v) q = Some (JObj (ms @ [(?c, JArr [NEW_NODE])]))"
      using w by (simp add: value_down_update_at place_def child_keys_def del: js_Cons)
    ultimately show ?thesis using value_down_snoc_obj None
      by (intro exI [of _ "update_at q ?f v"]) (simp del: js_Cons pointer.simps add: map_add_def)
  next
    case (Some held)
    obtain sp where sp: "spanAt (b_index b) (pointer (q @ [?c])) = Some sp"
      using value_bytes [OF assms(1,2), of "q @ [?c]"] down Some by metis
    have node: "nodeAt b (pointer (q @ [?c])) = Some held"
      using nodeAt_value [OF assms(1,2)] down Some by simp
    show ?thesis
    proof (cases "\<exists>xs. held = JArr xs")
      case True
      then obtain xs where xs: "held = JArr xs" by blast
      let ?f = "\<lambda>u. insert_child (place (q @ [?c]) (child_keys u) Last) None NEW_NODE u"
      define l where "l = (if spanAt (b_index b) (pointer (q @ [?c]) @ js ''/0'') = None
          then deeper (layoutOf b (pointer q)) else layoutOf b (pointer (q @ [?c]) @ js ''/0''))"
      have l: "blank_layout l" by (simp add: l_def blank_deeper blank_layoutOf)
      have "addChild b (pointer q) = buffered (insertMember (b_text b) (b_index b) (pointer (q @ [?c])) None
          (serialize NEW_NODE l) Last)"
        by (simp only: addChild_def Let_def conditions_pointer(1) sp node xs option.case jval.case l_def
            not_True_eq_False if_False)
      then have "edited (b_text b) (q @ [?c]) ?f (b_text (addChild b (pointer q)))"
        using edited_insertMember [OF assms(2) reads_serialize [OF stable_new_node l], of None "q @ [?c]" Last]
        by (simp add: ix del: pointer.simps js_Cons)
      from edited_reads [OF assms(2) this]
      have "reads (b_text (addChild b (pointer q))) (update_at (q @ [?c]) ?f v)" .
      moreover have "value_down (update_at (q @ [?c]) ?f v) (q @ [?c]) = Some (JArr (xs @ [NEW_NODE]))"
        using down Some xs by (simp add: value_down_update_at place_def child_keys_def del: js_Cons)
      ultimately show ?thesis using Some xs by (intro exI [of _ "update_at (q @ [?c]) ?f v"]) (simp del: js_Cons pointer.simps)
    next
      case False
      then have "addChild b (pointer q) = spliced b sp (serialize (JArr [NEW_NODE]) (layoutOf b (pointer (q @ [?c]))))"
        by (cases held) (simp_all add: addChild_def Let_def conditions_pointer sp node del: pointer.simps js_Cons)
      then have "reads (b_text (addChild b (pointer q))) (update_at (q @ [?c]) (\<lambda>_. JArr [NEW_NODE]) v)"
        using spliced_reads [OF assms(1,2) reads_serialize [OF stable_new_list blank_layoutOf] sp] by simp
      moreover have "value_down (update_at (q @ [?c]) (\<lambda>_. JArr [NEW_NODE]) v) (q @ [?c]) = Some (JArr [NEW_NODE])"
        using down Some by (simp add: value_down_update_at)
      ultimately show ?thesis using Some False
        by (intro exI [of _ "update_at (q @ [?c]) (\<lambda>_. JArr [NEW_NODE]) v"]) (auto split: jval.split simp del: js_Cons pointer.simps)
    qed
  qed
qed

theorem addChild_adds_witness:
  "\<exists>v'. reads (b_text (addChild (buffered (JSON_stringify [] NEW_NODE)) (pointer []))) v'
     \<and> valueAt v' (pointer ([] @ [js ''conditions''])) =
         Some (JArr ((case map_of [(js ''op'', JStr (js ''literal'')), (js ''value'', JBool True)] (js ''conditions'') of
            Some (JArr xs) \<Rightarrow> xs | _ \<Rightarrow> []) @ [NEW_NODE]))"
proof (rule addChild_adds)
  show "reads (b_text (buffered (JSON_stringify [] NEW_NODE))) NEW_NODE" by (simp add: reads_JSON_stringify)
  show "valueAt NEW_NODE (pointer []) = Some (JObj [(js ''op'', JStr (js ''literal'')), (js ''value'', JBool True)])"
    by (simp add: NEW_NODE_def del: js_Cons)
qed simp

end
