(* ===== verification/Canon.thy ===== *)
theory Canon
  imports Json_Text
begin

text \<open>
  \<open>research/verify/canon.ts\<close>: the gateway's canonical form over JSON text.  A strict parser that keeps
  every number as its literal and refuses repeated names and lone surrogates, and a renderer that
  writes members by code point.  The parser's position is the text that is left; a refusal is a case
  of \<open>canon_error\<close>, without the position its message prints.
\<close>

section \<open>Nodes and refusals\<close>

datatype json_node =
    NObj "(jstr \<times> json_node) list"
  | NArr "json_node list"
  | NStr jstr
  | NNum jstr
  | NBool bool
  | NNull

datatype canon_error =
    TrailingContent
  | UnexpectedEnd
  | UnexpectedCharacter code_unit
  | UnexpectedToken
  | NotANumber jstr
  | TooDeep
  | NameExpected
  | DuplicateName jstr
  | ColonExpected
  | CommaExpected code_unit
  | UnterminatedString
  | ControlCharacter
  | UnpairedSurrogate
  | UnpairedEscape
  | InvalidEscape
  | InvalidUnicodeEscape
  | OutsideDomain jstr
  | OutsideRange jstr
  | NotLowercaseHex
  | NoFuel

definition MAX_NESTING :: nat where
  "MAX_NESTING = 10000"

definition MAX_INTEGER :: int where
  "MAX_INTEGER = 2 ^ 53 - 1"

definition unsigned_part :: "jstr \<Rightarrow> jstr" where
  "unsigned_part t = (if t \<noteq> [] \<and> hd t = uc CHR ''-'' then tl t else t)"

definition INTEGER_LITERAL :: "jstr \<Rightarrow> bool" where
  "INTEGER_LITERAL t = is_index (unsigned_part t)"

definition NUMBER_LITERAL :: "jstr \<Rightarrow> bool" where
  "NUMBER_LITERAL t = (case json_number t of Some (_, []) \<Rightarrow> True | _ \<Rightarrow> False)"

section \<open>The strict parser\<close>

definition prepend :: "jstr \<Rightarrow> canon_error + (jstr \<times> jstr) \<Rightarrow> canon_error + (jstr \<times> jstr)" where
  "prepend w x = (case x of Inl e \<Rightarrow> Inl e | Inr (s, r) \<Rightarrow> Inr (w @ s, r))"

text \<open>The string from behind its opening quote.\<close>

function canon_string :: "jstr \<Rightarrow> canon_error + (jstr \<times> jstr)" where
  "canon_string [] = Inl UnterminatedString"
| "canon_string (c # cs) =
     (if c = quote_mark then Inr ([], cs)
      else if c < 0x20 then Inl ControlCharacter
      else if c \<noteq> backslash then
        (if is_high c then
           (case cs of
              [] \<Rightarrow> Inl UnpairedSurrogate
            | d # r \<Rightarrow> if is_low d then prepend [c, d] (canon_string r) else Inl UnpairedSurrogate)
         else if is_low c then Inl UnpairedSurrogate
         else prepend [c] (canon_string cs))
      else
        (case cs of
           [] \<Rightarrow> Inl InvalidEscape
         | e # r \<Rightarrow>
             if e = uc CHR ''u'' then
               (case hex4 r of
                  None \<Rightarrow> Inl InvalidUnicodeEscape
                | Some (high, r1) \<Rightarrow>
                    if is_high high then
                      (case r1 of
                         b # u # r2 \<Rightarrow>
                           if b \<noteq> backslash \<or> u \<noteq> uc CHR ''u'' then Inl UnpairedEscape
                           else
                             (case hex4 r2 of
                                None \<Rightarrow> Inl InvalidUnicodeEscape
                              | Some (low, r3) \<Rightarrow>
                                  if is_low low then prepend [high, low] (canon_string r3)
                                  else Inl UnpairedEscape)
                       | _ \<Rightarrow> Inl UnpairedEscape)
                    else if is_low high then Inl UnpairedEscape
                    else prepend [high] (canon_string r1))
             else
               (case unescape e of
                  None \<Rightarrow> Inl InvalidEscape
                | Some u \<Rightarrow> prepend [u] (canon_string r))))"
  by pat_completeness auto
termination
  by (relation "measure length") (auto dest!: hex4_shorter)

definition canon_number :: "jstr \<Rightarrow> canon_error + (json_node \<times> jstr)" where
  "canon_number t =
     (let number_char = (\<lambda>c. is_digit c \<or> c \<in> set (js ''eE+-.''));
          literal = takeWhile number_char t
      in if NUMBER_LITERAL literal then Inr (NNum literal, dropWhile number_char t)
         else Inl (NotANumber literal))"

definition canon_literal :: "string \<Rightarrow> json_node \<Rightarrow> jstr \<Rightarrow> canon_error + (json_node \<times> jstr)" where
  "canon_literal word node t =
     (if prefix (js word) t then Inr (node, drop (length word) t) else Inl UnexpectedToken)"

text \<open>
  \<open>value\<close>, and the loops of \<open>object\<close> and \<open>array\<close> with what they have collected; fuel is spent on every
  call and \<open>parseJsonText\<close> gives more than the text can use.
\<close>

function (sequential) parse_node :: "nat \<Rightarrow> nat \<Rightarrow> jstr \<Rightarrow> canon_error + (json_node \<times> jstr)"
and parse_members :: "nat \<Rightarrow> nat \<Rightarrow> (jstr \<times> json_node) list \<Rightarrow> jstr \<Rightarrow> canon_error + (json_node \<times> jstr)"
and parse_items :: "nat \<Rightarrow> nat \<Rightarrow> json_node list \<Rightarrow> jstr \<Rightarrow> canon_error + (json_node \<times> jstr)"
where
  "parse_node 0 depth t = Inl NoFuel"
| "parse_node (Suc f) depth t =
     (case t of
        [] \<Rightarrow> Inl UnexpectedEnd
      | c # r \<Rightarrow>
          if c = open_brace then
            (if MAX_NESTING \<le> depth then Inl TooDeep
             else (case skip_ws r of
                     d # r' \<Rightarrow> if d = close_brace then Inr (NObj [], r') else parse_members f depth [] (d # r')
                   | [] \<Rightarrow> parse_members f depth [] []))
          else if c = open_bracket then
            (if MAX_NESTING \<le> depth then Inl TooDeep
             else (case skip_ws r of
                     d # r' \<Rightarrow> if d = close_bracket then Inr (NArr [], r') else parse_items f depth [] (d # r')
                   | [] \<Rightarrow> parse_items f depth [] []))
          else if c = quote_mark then
            (case canon_string r of Inl e \<Rightarrow> Inl e | Inr (s, r') \<Rightarrow> Inr (NStr s, r'))
          else if c = uc CHR ''t'' then canon_literal ''true'' (NBool True) t
          else if c = uc CHR ''f'' then canon_literal ''false'' (NBool False) t
          else if c = uc CHR ''n'' then canon_literal ''null'' NNull t
          else if c = uc CHR ''-'' \<or> is_digit c then canon_number t
          else Inl (UnexpectedCharacter c))"
| "parse_members 0 depth members t = Inl NoFuel"
| "parse_members (Suc f) depth members t =
     (case skip_ws t of
        [] \<Rightarrow> Inl NameExpected
      | q # r \<Rightarrow>
          if q \<noteq> quote_mark then Inl NameExpected else
          (case canon_string r of
             Inl e \<Rightarrow> Inl e
           | Inr (name, r1) \<Rightarrow>
               if name \<in> fst ` set members then Inl (DuplicateName name) else
               (case skip_ws r1 of
                  [] \<Rightarrow> Inl ColonExpected
                | s # r2 \<Rightarrow>
                    if s \<noteq> colon then Inl ColonExpected else
                    (case parse_node f (Suc depth) (skip_ws r2) of
                       Inl e \<Rightarrow> Inl e
                     | Inr (v, r3) \<Rightarrow>
                         (case skip_ws r3 of
                            [] \<Rightarrow> Inl (CommaExpected close_brace)
                          | d # r4 \<Rightarrow>
                              if d = comma then parse_members f depth (members @ [(name, v)]) r4
                              else if d = close_brace then Inr (NObj (members @ [(name, v)]), r4)
                              else Inl (CommaExpected close_brace))))))"
| "parse_items 0 depth items t = Inl NoFuel"
| "parse_items (Suc f) depth items t =
     (case parse_node f (Suc depth) (skip_ws t) of
        Inl e \<Rightarrow> Inl e
      | Inr (v, r3) \<Rightarrow>
          (case skip_ws r3 of
             [] \<Rightarrow> Inl (CommaExpected close_bracket)
           | d # r4 \<Rightarrow>
               if d = comma then parse_items f depth (items @ [v]) r4
               else if d = close_bracket then Inr (NArr (items @ [v]), r4)
               else Inl (CommaExpected close_bracket)))"
  by pat_completeness auto
termination
  by (relation "measure (case_sum fst (case_sum fst fst))") auto

definition parseJsonText :: "jstr \<Rightarrow> canon_error + json_node" where
  "parseJsonText text =
     (case parse_node (2 * length text + 2) 0 (skip_ws text) of
        Inl e \<Rightarrow> Inl e
      | Inr (node, r) \<Rightarrow> if skip_ws r = [] then Inr node else Inl TrailingContent)"

section \<open>Code points and the canonical bytes\<close>

text \<open>\<open>Array.from(s)\<close>: a surrogate pair is one code point, a lone half is itself.\<close>

fun code_points :: "jstr \<Rightarrow> nat list" where
  "code_points [] = []"
| "code_points [c] = [unat c]"
| "code_points (c # d # r) =
     (if is_high c \<and> is_low d
      then ((unat c - 0xD800) * 0x400 + (unat d - 0xDC00) + 0x10000) # code_points r
      else unat c # code_points (d # r))"

fun compare_lists :: "nat list \<Rightarrow> nat list \<Rightarrow> int" where
  "compare_lists [] [] = 0"
| "compare_lists [] (_ # _) = - 1"
| "compare_lists (_ # _) [] = 1"
| "compare_lists (x # xs) (y # ys) =
     (if x \<noteq> y then (if x < y then - 1 else 1) else compare_lists xs ys)"

definition compareCodePoints :: "jstr \<Rightarrow> jstr \<Rightarrow> int" where
  "compareCodePoints a b = compare_lists (code_points a) (code_points b)"

text \<open>\<open>sort\<close> with a comparator, which is stable.\<close>

fun insert_by :: "('a \<Rightarrow> 'a \<Rightarrow> int) \<Rightarrow> 'a \<Rightarrow> 'a list \<Rightarrow> 'a list" where
  "insert_by cmp x [] = [x]"
| "insert_by cmp x (y # ys) = (if cmp x y \<le> 0 then x # y # ys else y # insert_by cmp x ys)"

definition sort_by :: "('a \<Rightarrow> 'a \<Rightarrow> int) \<Rightarrow> 'a list \<Rightarrow> 'a list" where
  "sort_by cmp xs = foldr (insert_by cmp) xs []"

definition canonical_unit :: "code_unit \<Rightarrow> jstr" where
  "canonical_unit c =
     (case short_escape c of
        Some e \<Rightarrow> [backslash, e]
      | None \<Rightarrow> if c < 0x20 then unicode_escape c else [c])"

definition canonicalString :: "jstr \<Rightarrow> jstr" where
  "canonicalString s = quote_mark # concat (map canonical_unit s) @ [quote_mark]"

definition int_literal :: "jstr \<Rightarrow> int" where
  "int_literal t =
     (if t \<noteq> [] \<and> hd t = uc CHR ''-'' then - digits_value (tl t) else digits_value t)"

definition int_text :: "int \<Rightarrow> jstr" where
  "int_text i = (if i < 0 then js ''-'' @ dec (nat (- i)) else dec (nat i))"

fun all_parts :: "(canon_error + jstr) list \<Rightarrow> canon_error + jstr list" where
  "all_parts [] = Inr []"
| "all_parts (Inl e # xs) = Inl e"
| "all_parts (Inr t # xs) = map_sum id ((#) t) (all_parts xs)"

definition render_number :: "jstr \<Rightarrow> canon_error + jstr" where
  "render_number literal =
     (if \<not> INTEGER_LITERAL literal then Inl (OutsideDomain literal)
      else (let magnitude = int_literal literal
            in if MAX_INTEGER < magnitude \<or> magnitude < - MAX_INTEGER then Inl (OutsideRange literal)
               else Inr (int_text magnitude)))"

definition by_name :: "jstr \<times> 'v \<Rightarrow> jstr \<times> 'v \<Rightarrow> int" where
  "by_name a b = compareCodePoints (fst a) (fst b)"

fun render_node :: "json_node \<Rightarrow> canon_error + jstr" where
  "render_node (NObj ms) =
     map_sum id (\<lambda>parts. open_brace # join_with [comma] parts @ [close_brace])
       (all_parts
         (map (\<lambda>(k, v). map_sum id (\<lambda>t. canonicalString k @ colon # t) v)
           (sort_by by_name (map (\<lambda>(k, v). (k, render_node v)) ms))))"
| "render_node (NArr xs) =
     map_sum id (\<lambda>parts. open_bracket # join_with [comma] parts @ [close_bracket])
       (all_parts (map render_node xs))"
| "render_node (NStr s) = Inr (canonicalString s)"
| "render_node (NNum literal) = render_number literal"
| "render_node (NBool b) = Inr (if b then js ''true'' else js ''false'')"
| "render_node NNull = Inr (js ''null'')"

text \<open>\<open>TextEncoder\<close>: UTF-8 of the code points, a lone surrogate as the replacement character.\<close>

type_synonym byte = "8 word"

definition utf8 :: "nat \<Rightarrow> byte list" where
  "utf8 p0 =
     (let p = (if 0xD800 \<le> p0 \<and> p0 \<le> 0xDFFF then 0xFFFD else p0) in
      if p < 0x80 then [of_nat p]
      else if p < 0x800 then [of_nat (0xC0 + p div 0x40), of_nat (0x80 + p mod 0x40)]
      else if p < 0x10000
      then [of_nat (0xE0 + p div 0x1000), of_nat (0x80 + p div 0x40 mod 0x40), of_nat (0x80 + p mod 0x40)]
      else [of_nat (0xF0 + p div 0x40000), of_nat (0x80 + p div 0x1000 mod 0x40),
            of_nat (0x80 + p div 0x40 mod 0x40), of_nat (0x80 + p mod 0x40)])"

definition text_bytes :: "jstr \<Rightarrow> byte list" where
  "text_bytes t = concat (map utf8 (code_points t))"

definition canonicalize :: "json_node \<Rightarrow> canon_error + byte list" where
  "canonicalize node = map_sum id text_bytes (render_node node)"

definition canonicalText :: "jstr \<Rightarrow> canon_error + byte list" where
  "canonicalText text = (case parseJsonText text of Inl e \<Rightarrow> Inl e | Inr node \<Rightarrow> canonicalize node)"

definition memberOf :: "json_node \<Rightarrow> jstr \<Rightarrow> json_node option" where
  "memberOf node name = (case node of NObj ms \<Rightarrow> map_of ms name | _ \<Rightarrow> None)"

definition stringMember :: "json_node \<Rightarrow> jstr \<Rightarrow> jstr option" where
  "stringMember node name = (case memberOf node name of Some (NStr s) \<Rightarrow> Some s | _ \<Rightarrow> None)"

section \<open>Hex\<close>

definition bytesToHex :: "byte list \<Rightarrow> jstr" where
  "bytesToHex bytes = concat (map (\<lambda>b. [hex_digit (unat b div 16), hex_digit (unat b mod 16)]) bytes)"

definition is_lower_hex :: "code_unit \<Rightarrow> bool" where
  "is_lower_hex c \<longleftrightarrow> is_digit c \<or> (97 \<le> c \<and> c \<le> 102)"

fun hex_pairs :: "jstr \<Rightarrow> byte list" where
  "hex_pairs (a # b # r) = of_nat (the (hex_value a) * 16 + the (hex_value b)) # hex_pairs r"
| "hex_pairs _ = []"

definition hexToBytes :: "jstr \<Rightarrow> canon_error + byte list" where
  "hexToBytes hex =
     (if odd (length hex) \<or> \<not> list_all is_lower_hex hex then Inl NotLowercaseHex
      else Inr (hex_pairs hex))"

end
