(* ===== verification/Pack_Path.thy ===== *)
theory Pack_Path
  imports Canon
begin

text \<open>
  \<open>packs/packPath.ts\<close>: two spellings of one file, as the runtime decides it.  \<open>toLowerCase\<close> of one
  code point is the argument \<open>lower\<close>: the tables of Unicode are not in the repository.
\<close>

section \<open>Cleaning\<close>

definition dot :: jstr where "dot = js ''.''"
definition dotdot :: jstr where "dotdot = js ''..''"

fun clean_segments :: "bool \<Rightarrow> jstr list \<Rightarrow> jstr list \<Rightarrow> jstr list" where
  "clean_segments rooted out [] = out"
| "clean_segments rooted out (segment # rest) =
     (if segment = [] \<or> segment = dot then clean_segments rooted out rest
      else if segment = dotdot then
        (if out \<noteq> [] \<and> last out \<noteq> dotdot then clean_segments rooted (butlast out) rest
         else if rooted then clean_segments rooted out rest
         else clean_segments rooted (out @ [dotdot]) rest)
      else clean_segments rooted (out @ [segment]) rest)"

definition clean :: "jstr \<Rightarrow> jstr" where
  "clean raw =
     (let rooted = (raw \<noteq> [] \<and> hd raw = slash);
          out = clean_segments rooted [] (split_on slash raw)
      in if out = [] then (if rooted then [slash] else dot)
         else (if rooted then [slash] else []) @ join_with [slash] out)"

definition cleanRelative :: "jstr \<Rightarrow> jstr option" where
  "cleanRelative raw =
     (if raw = [] \<or> 0 \<in> set raw then None
      else if hd raw = slash \<or> hd raw = backslash \<or> uc CHR '':'' \<in> set raw then None
      else (let cleaned = clean raw
            in if cleaned = dotdot \<or> prefix (js ''../'') cleaned then None
               else if cleaned = dot then None
               else Some cleaned))"

section \<open>Folding\<close>

text \<open>The string's code points, each as the string it is.\<close>

fun runes :: "jstr \<Rightarrow> jstr list" where
  "runes [] = []"
| "runes [c] = [[c]]"
| "runes (c # d # r) = (if is_high c \<and> is_low d then [c, d] # runes r else [c] # runes (d # r))"

definition FOLD_ORBITS :: "jstr list list" where
  "FOLD_ORBITS =
     map (map (\<lambda>c. [c]))
      [[uc CHR ''s'', uc CHR ''S'', 0x017F],
       [uc CHR ''k'', uc CHR ''K'', 0x212A],
       [0x00E5, 0x00C5, 0x212B],
       [0x03C3, 0x03A3, 0x03C2],
       [0x03B2, 0x0392, 0x03D0],
       [0x03B5, 0x0395, 0x03F5],
       [0x03B8, 0x0398, 0x03D1, 0x03F4],
       [0x03B9, 0x0399, 0x0345, 0x1FBE],
       [0x03BA, 0x039A, 0x03F0],
       [0x03BC, 0x039C, 0x00B5],
       [0x03C0, 0x03A0, 0x03D6],
       [0x03C1, 0x03A1, 0x03F1],
       [0x03C6, 0x03A6, 0x03D5],
       [0x03C9, 0x03A9, 0x2126],
       [0x1E61, 0x1E60, 0x1E9B]]"

definition ORBIT_OF :: "(jstr \<times> jstr) list" where
  "ORBIT_OF = fold (\<lambda>orbit es. fold (\<lambda>member. map_set member (hd orbit)) orbit es) FOLD_ORBITS []"

definition foldRune :: "(jstr \<Rightarrow> jstr) \<Rightarrow> jstr \<Rightarrow> jstr" where
  "foldRune lower rune = (case map_of ORBIT_OF rune of Some r \<Rightarrow> r | None \<Rightarrow> lower rune)"

definition runeFolds :: "(jstr \<Rightarrow> jstr) \<Rightarrow> jstr \<Rightarrow> jstr \<Rightarrow> bool" where
  "runeFolds lower a b \<longleftrightarrow> a = b \<or> foldRune lower a = foldRune lower b"

definition equalFold :: "(jstr \<Rightarrow> jstr) \<Rightarrow> jstr \<Rightarrow> jstr \<Rightarrow> bool" where
  "equalFold lower a b \<longleftrightarrow>
     a = b \<or> (let left = runes a; right = runes b
              in length left = length right \<and> list_all2 (runeFolds lower) left right)"

definition samePath :: "(jstr \<Rightarrow> jstr) \<Rightarrow> jstr \<Rightarrow> jstr \<Rightarrow> bool" where
  "samePath lower a b =
     (case (cleanRelative a, cleanRelative b) of
        (Some left, Some right) \<Rightarrow> left = right \<or> equalFold lower left right
      | _ \<Rightarrow> False)"

definition claimedBy :: "(jstr \<Rightarrow> jstr) \<Rightarrow> jstr list \<Rightarrow> jstr \<Rightarrow> bool" where
  "claimedBy lower paths path = list_ex (\<lambda>declared. samePath lower declared path) paths"

section \<open>What cleaning leaves\<close>

text \<open>Some parents, then ordinary names: the shape of every partial result.\<close>

definition plain_segment :: "jstr \<Rightarrow> bool" where
  "plain_segment s \<longleftrightarrow> s \<noteq> [] \<and> s \<noteq> dot \<and> s \<noteq> dotdot"

definition cleaned_shape :: "jstr list \<Rightarrow> bool" where
  "cleaned_shape out \<longleftrightarrow> (\<exists>n ss. out = replicate n dotdot @ ss \<and> list_all plain_segment ss)"

lemma dots [simp]: "dotdot \<noteq> []" "dotdot \<noteq> dot" "dot \<noteq> []"
  by (simp_all add: dot_def dotdot_def)

lemma cleaned_shape_snoc: "\<lbrakk>cleaned_shape out; plain_segment s\<rbrakk> \<Longrightarrow> cleaned_shape (out @ [s])"
  unfolding cleaned_shape_def by (elim exE conjE, rename_tac n ss, rule_tac x = n in exI, rule_tac x = "ss @ [s]" in exI) simp

lemma cleaned_shape_up: "\<lbrakk>cleaned_shape out; out = [] \<or> last out = dotdot\<rbrakk> \<Longrightarrow> cleaned_shape (out @ [dotdot])"
proof -
  assume "cleaned_shape out" and l: "out = [] \<or> last out = dotdot"
  then obtain n ss where o: "out = replicate n dotdot @ ss" "list_all plain_segment ss"
    by (auto simp: cleaned_shape_def)
  have "ss = []" using l o by (cases ss rule: rev_cases) (auto simp: plain_segment_def)
  then have "out @ [dotdot] = replicate (Suc n) dotdot @ []" using o by (simp add: replicate_append_same)
  then show ?thesis unfolding cleaned_shape_def by (intro exI [of _ "Suc n"] exI [of _ "[]"]) simp
qed

lemma cleaned_shape_butlast: "\<lbrakk>cleaned_shape out; out \<noteq> []; last out \<noteq> dotdot\<rbrakk> \<Longrightarrow> cleaned_shape (butlast out)"
proof -
  assume "cleaned_shape out" and l: "out \<noteq> []" "last out \<noteq> dotdot"
  then obtain n ss where o: "out = replicate n dotdot @ ss" "list_all plain_segment ss"
    by (auto simp: cleaned_shape_def)
  then have "ss \<noteq> []" using l by (cases n) (auto simp: last_replicate simp del: replicate_Suc)
  then have "butlast out = replicate n dotdot @ butlast ss" using o by (simp add: butlast_append)
  moreover have "list_all plain_segment (butlast ss)" using o by (auto simp: list_all_iff dest: in_set_butlastD)
  ultimately show ?thesis unfolding cleaned_shape_def by blast
qed

lemma clean_segments_shape: "cleaned_shape out \<Longrightarrow> cleaned_shape (clean_segments False out segs)"
  by (induction "False" out segs rule: clean_segments.induct)
    (auto simp: cleaned_shape_up cleaned_shape_butlast cleaned_shape_snoc plain_segment_def)

lemma clean_segments_plain: "list_all plain_segment ss \<Longrightarrow> clean_segments r out ss = out @ ss"
  by (induction ss arbitrary: out) (auto simp: plain_segment_def)

lemma clean_segments_set:
  "\<lbrakk>set out \<subseteq> A; set segs \<subseteq> A; dotdot \<in> A\<rbrakk> \<Longrightarrow> set (clean_segments r out segs) \<subseteq> A"
proof (induction r out segs rule: clean_segments.induct)
  case (2 rooted out segment rest)
  have "set (butlast out) \<subseteq> A" using "2.prems"(1) by (auto dest: in_set_butlastD)
  then show ?case using 2 by (cases "out = []") simp_all
qed simp

lemma concat_split: "set (concat (split_on s t)) \<subseteq> set t"
proof (induction t)
  case (Cons c t)
  show ?case using Cons by (cases "split_on s t") auto
qed simp

lemma cleanRelative_parts:
  assumes "cleanRelative raw = Some c"
  obtains ss where "ss \<noteq> []" "c = join_with [slash] ss" "list_all plain_segment ss"
    "\<forall>s \<in> set ss. slash \<notin> set s" "0 \<notin> set c" "uc CHR '':'' \<notin> set c"
proof -
  have raw: "raw \<noteq> []" "hd raw \<noteq> slash" "hd raw \<noteq> backslash" using assms by (auto simp: cleanRelative_def split: if_splits)
  let ?out = "clean_segments False [] (split_on slash raw)"
  have c: "c = clean raw" "c \<noteq> dotdot" "\<not> prefix (js ''../'') c" "c \<noteq> dot"
    using assms by (auto simp: cleanRelative_def Let_def split: if_splits)
  have "?out \<noteq> []" using c(1,4) raw by (auto simp: clean_def Let_def)
  then have join: "c = join_with [slash] ?out" using c(1) raw by (simp add: clean_def Let_def)
  have "cleaned_shape []" by (simp add: cleaned_shape_def)
  then obtain n ss where o: "?out = replicate n dotdot @ ss" "list_all plain_segment ss"
    using clean_segments_shape [of "[]" "split_on slash raw"] by (auto simp: cleaned_shape_def)
  have "n = 0"
  proof (rule ccontr)
    assume "n \<noteq> 0"
    then obtain m where n: "n = Suc m" by (cases n) auto
    show False
    proof (cases "replicate m dotdot @ ss")
      case Nil
      then show ?thesis using join o(1) c(2) n by simp
    next
      case (Cons s t)
      then have "c = dotdot @ [slash] @ join_with [slash] (s # t)" using join o(1) n by simp
      then show ?thesis using c(3) by (simp add: dotdot_def prefix_def)
    qed
  qed
  then have out: "?out = ss" using o by simp
  have sub: "set ss \<subseteq> {dotdot} \<union> set (split_on slash raw)" using clean_segments_set [of "[]" _ "split_on slash raw" False] out by auto
  have parts: "s \<in> set (split_on slash raw)" if "s \<in> set ss" for s
    using sub o(2) that by (auto simp: list_all_iff plain_segment_def)
  then have no_slash: "\<forall>s \<in> set ss. slash \<notin> set s" using split_on_parts by fast
  have "set c \<subseteq> {slash} \<union> set (concat ss)"
    unfolding join out by (induction ss rule: induct_list012) auto
  also have "\<dots> \<subseteq> {slash} \<union> set raw"
  proof -
    have "set (concat ss) \<subseteq> set (concat (split_on slash raw))" using parts by auto
    also have "\<dots> \<subseteq> set raw" by (rule concat_split)
    finally show ?thesis by blast
  qed
  finally have chars: "set c \<subseteq> {slash} \<union> set raw" .
  have "0 \<notin> set raw" "uc CHR '':'' \<notin> set raw"
    using assms unfolding cleanRelative_def by (metis option.distinct(1))+
  then have "0 \<notin> {slash} \<union> set raw" "uc CHR '':'' \<notin> {slash} \<union> set raw" by simp_all
  then have "0 \<notin> set c" "uc CHR '':'' \<notin> set c" using chars by (meson subsetD)+
  moreover have "ss \<noteq> []" using \<open>?out \<noteq> []\<close> out by simp
  ultimately show ?thesis using that [OF _ _ o(2) no_slash] join out by simp
qed

lemma clean_join:
  assumes "ss \<noteq> []" "list_all plain_segment ss" "\<forall>s \<in> set ss. slash \<notin> set s"
  shows "clean (join_with [slash] ss) = join_with [slash] ss" "join_with [slash] ss \<noteq> []"
    "hd (join_with [slash] ss) \<noteq> slash"
proof -
  obtain t ts where ss: "ss = t # ts" using assms(1) by (cases ss) auto
  have t: "t \<noteq> []" "slash \<notin> set t" using assms ss by (auto simp: plain_segment_def)
  then show ne: "join_with [slash] ss \<noteq> []" and hd: "hd (join_with [slash] ss) \<noteq> slash"
    using ss by (cases t; cases ts; auto)+
  show "clean (join_with [slash] ss) = join_with [slash] ss"
    using hd clean_segments_plain [OF assms(2), of False "[]"] assms(1) split_join [OF assms(1,3)]
    by (simp add: clean_def Let_def)
qed

lemma cleanRelative_again:
  assumes "cleanRelative raw = Some c"
  shows "cleanRelative c = (if hd c = backslash then None else Some c)"
proof -
  obtain ss where ss: "ss \<noteq> []" "c = join_with [slash] ss" "list_all plain_segment ss"
    "\<forall>s \<in> set ss. slash \<notin> set s" "0 \<notin> set c" "uc CHR '':'' \<notin> set c"
    by (rule cleanRelative_parts [OF assms])
  note cj = clean_join [OF ss(1,3,4)]
  have "c \<noteq> dotdot" "\<not> prefix (js ''../'') c" "c \<noteq> dot"
    using assms by (auto simp: cleanRelative_def Let_def split: if_splits)
  then show ?thesis using cj ss(2,5,6) by (simp add: cleanRelative_def Let_def)
qed

section \<open>Folding is an equivalence\<close>

lemma equalFold_runes: "equalFold lower a b \<longleftrightarrow> map (foldRune lower) (runes a) = map (foldRune lower) (runes b)"
proof -
  have "list_all2 (runeFolds lower) xs ys \<longleftrightarrow> map (foldRune lower) xs = map (foldRune lower) ys" for xs ys
    by (induction xs arbitrary: ys) (auto simp: list_all2_Cons1 Cons_eq_map_conv runeFolds_def)
  then show ?thesis by (auto simp: equalFold_def Let_def dest: list_all2_lengthD map_eq_imp_length_eq)
qed

lemma samePath_iff:
  "samePath lower a b \<longleftrightarrow>
     (\<exists>x y. cleanRelative a = Some x \<and> cleanRelative b = Some y
        \<and> map (foldRune lower) (runes x) = map (foldRune lower) (runes y))"
  by (auto simp: samePath_def equalFold_runes split: option.split)

section \<open>Properties\<close>

text \<open>
  C13: a path that is accepted is, cleaned, made of ordinary names alone, no empty one, no \<open>.\<close> and no \<open>..\<close>, with no
  colon and no zero in it: so it is not absolute and does not leave the project.  Cleaning it again changes nothing,
  but where it begins with a backslash, as what \<open>./\a\<close> is cleaned to does; that is refused the second time.
\<close>

theorem cleanRelative_stays_inside:
  assumes "cleanRelative raw = Some c"
  shows "list_all (\<lambda>s. s \<noteq> [] \<and> s \<noteq> js ''.'' \<and> s \<noteq> js ''..'') (split_on slash c)
    \<and> uc CHR '':'' \<notin> set c \<and> 0 \<notin> set c \<and> cleanRelative c = (if hd c = backslash then None else Some c)"
proof -
  obtain ss where ss: "ss \<noteq> []" "c = join_with [slash] ss" "list_all plain_segment ss" "\<forall>s \<in> set ss. slash \<notin> set s"
    "0 \<notin> set c" "uc CHR '':'' \<notin> set c"
    by (rule cleanRelative_parts [OF assms])
  have "split_on slash c = ss" unfolding ss(2) by (rule split_join [OF ss(1,4)])
  then show ?thesis using ss(3,5,6) cleanRelative_again [OF assms]
    unfolding plain_segment_def [abs_def] dot_def dotdot_def by simp
qed

theorem cleanRelative_stays_inside_witness:
  "cleanRelative (js ''a/.//../b'') = Some (js ''b'')
   \<and> list_all (\<lambda>s. s \<noteq> [] \<and> s \<noteq> js ''.'' \<and> s \<noteq> js ''..'') (split_on slash (js ''b'')) \<and> cleanRelative (js ''b'') = Some (js ''b'')"
proof -
  have "cleanRelative (js ''a/.//../b'') = Some (js ''b'')"
    by (simp add: cleanRelative_def clean_def Let_def dot_def dotdot_def)
  then show ?thesis using cleanRelative_stays_inside [of "js ''a/.//../b''" "js ''b''"] by simp
qed

text \<open>
  naming one file is an equivalence on the paths the runtime takes: such a path is its own file,
  the relation goes both ways and chains, and a path that is refused is no path's file.
\<close>

theorem samePath_equivalence:
  "(samePath lower a a \<longleftrightarrow> cleanRelative a \<noteq> None)
   \<and> (samePath lower a b \<longleftrightarrow> samePath lower b a)
   \<and> (cleanRelative a = None \<longrightarrow> \<not> samePath lower a b)
   \<and> (samePath lower a b \<and> samePath lower b d \<longrightarrow> samePath lower a d)"
  by (cases "cleanRelative a"; cases "cleanRelative b"; cases "cleanRelative d") (auto simp: samePath_iff)

theorem samePath_equivalence_witness:
  "samePath id (js ''packs/./n'') (js ''packs/n'') \<and> samePath id (js ''packs/n'') (js ''packs/N/../n'')
   \<and> samePath id (js ''packs/./n'') (js ''packs/N/../n'')"
proof -
  have "samePath id (js ''packs/./n'') (js ''packs/n'')" "samePath id (js ''packs/n'') (js ''packs/N/../n'')"
    by (simp_all add: samePath_def cleanRelative_def clean_def Let_def dot_def dotdot_def)
  then show ?thesis
    using samePath_equivalence [of id "js ''packs/./n''" "js ''packs/n''" "js ''packs/N/../n''"] by simp
qed

text \<open>A leading backslash is refused only where it is the first character written.\<close>

lemma backslash_behind_dot:
  "cleanRelative (js [CHR 0x5C, CHR ''a'']) = None"
  "cleanRelative (js [CHR ''.'', CHR ''/'', CHR 0x5C, CHR ''a'']) = Some (js [CHR 0x5C, CHR ''a''])"
  by (simp_all add: cleanRelative_def clean_def Let_def dot_def dotdot_def)

end
