(* ===== verification/Canon_Facts.thy ===== *)
theory Canon_Facts
  imports Canon Document_Strings "HOL-Library.List_Lexorder" "HOL-Library.Multiset"
begin

text \<open>
  Why the canonical form is one: the order on names is a linear order, the parser reads back what the
  renderer writes, and rendering what was read changes nothing.
\<close>

section \<open>The order on names\<close>

lemma compare_lists_order: "compare_lists xs ys = (if xs = ys then 0 else if xs < ys then - 1 else 1)"
  by (induction xs ys rule: compare_lists.induct) auto

lemma unit_bound: "unat (c :: code_unit) < 0x10000"
  using unsigned_less [of c, where 'a = nat] by simp

lemma surrogate_bounds:
  "is_high c \<Longrightarrow> 0xD800 \<le> unat c \<and> unat c \<le> 0xDBFF" "is_low c \<Longrightarrow> 0xDC00 \<le> unat c \<and> unat c \<le> 0xDFFF"
  by (simp_all add: is_high_def is_low_def word_le_nat_alt)

lemma pair_inj:
  assumes "is_high c" "is_low d" "is_high c'" "is_low d'"
    and "(unat c - 0xD800) * 0x400 + (unat d - 0xDC00) + 0x10000 = (unat c' - 0xD800) * 0x400 + (unat d' - 0xDC00) + 0x10000"
  shows "c = c' \<and> d = d'"
proof -
  let ?a = "unat c - 0xD800" and ?b = "unat d - 0xDC00" and ?a' = "unat c' - 0xD800" and ?b' = "unat d' - 0xDC00"
  have b: "?b < 0x400" "?b' < 0x400" using assms(2,4) surrogate_bounds(2) by fastforce+
  have e: "?a * 0x400 + ?b = ?a' * 0x400 + ?b'" using assms(5) by simp
  have "?a = (?a * 0x400 + ?b) div 0x400" "?b = (?a * 0x400 + ?b) mod 0x400" using b by simp_all
  moreover have "?a' = (?a' * 0x400 + ?b') div 0x400" "?b' = (?a' * 0x400 + ?b') mod 0x400" using b by simp_all
  ultimately have "?a = ?a'" "?b = ?b'" using e by metis+
  then show ?thesis using assms(1-4) surrogate_bounds
    by (metis eq_diff_iff word_unat_eq_iff)
qed

lemma code_points_Cons [simp]: "code_points (c # r) \<noteq> []" "[] \<noteq> code_points (c # r)"
  by (cases r; simp)+

lemma code_points_inj: "code_points a = code_points b \<Longrightarrow> a = b"
proof (induction a arbitrary: b rule: code_points.induct)
  case 1
  then show ?case by (cases b rule: code_points.cases) (auto split: if_splits)
next
  case (2 c)
  then show ?case using unit_bound [of c]
    by (cases b rule: code_points.cases) (auto split: if_splits simp: word_unat_eq_iff)
next
  case (3 c d r)
  show ?case
  proof (cases b rule: code_points.cases)
    case 1
    then show ?thesis using "3.prems" by (auto split: if_splits)
  next
    case (2 c')
    then show ?thesis using "3.prems" unit_bound [of c']
      by (auto split: if_splits)
  next
    case b: (3 c' d' r')
    show ?thesis
    proof (cases "is_high c \<and> is_low d"; cases "is_high c' \<and> is_low d'")
      assume p: "is_high c \<and> is_low d" "is_high c' \<and> is_low d'"
      then have "c = c' \<and> d = d'" using "3.prems" b by (intro pair_inj) simp_all
      then show ?thesis using "3.IH"(1) "3.prems" b p by simp
    next
      assume p: "is_high c \<and> is_low d" "\<not> (is_high c' \<and> is_low d')"
      then show ?thesis using "3.prems" b unit_bound [of c'] by auto
    next
      assume p: "\<not> (is_high c \<and> is_low d)" "is_high c' \<and> is_low d'"
      then show ?thesis using "3.prems" b unit_bound [of c] by auto
    next
      assume p: "\<not> (is_high c \<and> is_low d)" "\<not> (is_high c' \<and> is_low d')"
      then show ?thesis using "3.IH"(2) [of "d' # r'"] "3.prems" b by (auto simp: word_unat_eq_iff)
    qed
  qed
qed

definition name_less :: "jstr \<Rightarrow> jstr \<Rightarrow> bool" where
  "name_less a b \<longleftrightarrow> code_points a < code_points b"

lemma compareCodePoints_cases:
  "compareCodePoints a b = (if a = b then 0 else if name_less a b then - 1 else 1)"
  using code_points_inj by (auto simp: compareCodePoints_def compare_lists_order name_less_def)

lemma name_less_linear: "a \<noteq> b \<Longrightarrow> name_less a b \<or> name_less b a" "\<not> name_less a a"
  "\<lbrakk>name_less a b; name_less b c\<rbrakk> \<Longrightarrow> name_less a c" "name_less a b \<Longrightarrow> \<not> name_less b a"
  using code_points_inj [of a b] linorder_less_linear [of "code_points a" "code_points b"]
  by (auto simp: name_less_def)

section \<open>Sorting by name\<close>

lemma insert_by_map:
  "(\<And>y. y \<in> set ys \<Longrightarrow> cmp' (f x) (f y) = cmp x y)
     \<Longrightarrow> insert_by cmp' (f x) (map f ys) = map f (insert_by cmp x ys)"
  by (induction ys) auto

lemma set_insert_by [simp]: "set (insert_by cmp x ys) = insert x (set ys)"
  by (induction ys) auto

lemma mset_insert_by [simp]: "mset (insert_by cmp x ys) = add_mset x (mset ys)"
  by (induction ys) auto

lemma mset_sort_by [simp]: "mset (sort_by cmp xs) = mset xs"
  by (induction xs) (simp_all add: sort_by_def)

lemma set_sort_by [simp]: "set (sort_by cmp xs) = set xs"
  using mset_sort_by [of cmp xs] by (metis set_mset_mset)

lemma sort_by_Nil [simp]: "sort_by cmp xs = [] \<longleftrightarrow> xs = []"
  using set_sort_by [of cmp xs] by (metis set_empty2)

lemma sort_by_map: "sort_by by_name (map (\<lambda>(k, v). (k, f v)) ms) = map (\<lambda>(k, v). (k, f v)) (sort_by by_name ms)"
proof (induction ms)
  case (Cons m ms)
  then show ?case
    using insert_by_map [where cmp = by_name and cmp' = by_name and f = "\<lambda>(k, v). (k, f v)" and x = m
        and ys = "sort_by by_name ms"]
    by (cases m) (auto simp: sort_by_def by_name_def [abs_def] split: prod.splits)
qed (simp add: sort_by_def)

text \<open>
  What a sort needs of a comparator, and what it then gives: one ascending list for the entries,
  whatever order they come in.
\<close>

definition ascending_by :: "('k \<Rightarrow> 'k \<Rightarrow> int) \<Rightarrow> ('k \<times> 'v) list \<Rightarrow> bool" where
  "ascending_by cmp ms \<longleftrightarrow> sorted_wrt (\<lambda>a b. cmp (fst a) (fst b) < 0) ms"

definition on_keys :: "('k \<Rightarrow> 'k \<Rightarrow> int) \<Rightarrow> 'k \<times> 'v \<Rightarrow> 'k \<times> 'v \<Rightarrow> int" where
  "on_keys cmp a b = cmp (fst a) (fst b)"

lemma by_name_on_keys: "by_name = on_keys compareCodePoints"
  by (simp add: fun_eq_iff by_name_def on_keys_def)

locale comparator =
  fixes cmp :: "'k \<Rightarrow> 'k \<Rightarrow> int"
  assumes same: "cmp a b = 0 \<longleftrightarrow> a = b"
    and swap: "cmp a b < 0 \<longleftrightarrow> 0 < cmp b a"
    and chain: "\<lbrakk>cmp a b < 0; cmp b c < 0\<rbrakk> \<Longrightarrow> cmp a c < 0"
begin

lemma ascending_insert:
  "\<lbrakk>ascending_by cmp ms; fst m \<notin> fst ` set ms\<rbrakk> \<Longrightarrow> ascending_by cmp (insert_by (on_keys cmp) m ms)"
proof (induction ms)
  case (Cons y ys)
  have ne: "cmp (fst m) (fst y) \<noteq> 0" using Cons.prems same by auto
  show ?case
  proof (cases "cmp (fst m) (fst y) < 0")
    case True
    then show ?thesis using Cons.prems chain by (auto simp: ascending_by_def on_keys_def)
  next
    case False
    then have "cmp (fst y) (fst m) < 0" using swap ne by (meson linorder_neqE)
    then show ?thesis using Cons False ne by (auto simp: ascending_by_def on_keys_def)
  qed
qed (simp add: ascending_by_def)

lemma ascending_sort: "distinct (map fst ms) \<Longrightarrow> ascending_by cmp (sort_by (on_keys cmp) ms)"
proof (induction ms)
  case (Cons m ms)
  then have "fst m \<notin> fst ` set (sort_by (on_keys cmp) ms)" by simp
  then show ?case using Cons ascending_insert [of "sort_by (on_keys cmp) ms" m] by (simp add: sort_by_def)
qed (simp add: sort_by_def ascending_by_def)

lemma sort_ascending: "ascending_by cmp ms \<Longrightarrow> sort_by (on_keys cmp) ms = ms"
proof (induction ms)
  case (Cons m ms)
  then show ?case by (cases ms) (auto simp: sort_by_def ascending_by_def on_keys_def)
qed (simp add: sort_by_def)

lemma ascending_unique: "\<lbrakk>ascending_by cmp xs; ascending_by cmp ys; set xs = set ys\<rbrakk> \<Longrightarrow> xs = ys"
proof (induction xs arbitrary: ys)
  case (Cons x xs)
  then obtain y ys' where ys: "ys = y # ys'" by (cases ys) auto
  have less: "\<forall>z \<in> set xs. cmp (fst x) (fst z) < 0" "\<forall>z \<in> set ys'. cmp (fst y) (fst z) < 0"
    using Cons.prems ys by (auto simp: ascending_by_def)
  have xy: "x = y"
  proof (rule ccontr)
    assume "x \<noteq> y"
    then have "x \<in> set ys'" "y \<in> set xs" using Cons.prems(3) ys by (metis list.set_intros(1) set_ConsD)+
    then show False using less swap by (meson not_less_iff_gr_or_eq)
  qed
  have "cmp a a = 0" for a using same by simp
  then have "x \<notin> set xs" "y \<notin> set ys'" using less by fastforce+
  then have "set xs = set ys'" using Cons.prems(3) ys xy by auto
  then show ?case using Cons.IH [of ys'] Cons.prems ys xy by (simp add: ascending_by_def)
qed simp

lemma sort_any_order:
  "\<lbrakk>distinct (map fst ms); mset ms = mset ms'\<rbrakk> \<Longrightarrow> sort_by (on_keys cmp) ms = sort_by (on_keys cmp) ms'"
  using mset_eq_imp_distinct_iff [of "map fst ms" "map fst ms'"]
  by (intro ascending_unique ascending_sort) (auto dest: mset_eq_setD)

end

interpretation code_point_order: comparator compareCodePoints
proof unfold_locales
  fix a b c :: jstr
  show "compareCodePoints a b = 0 \<longleftrightarrow> a = b" by (simp add: compareCodePoints_cases)
  show "compareCodePoints a b < 0 \<longleftrightarrow> 0 < compareCodePoints b a"
    using name_less_linear(1) [of a b] name_less_linear(4) [of a b] name_less_linear(2) [of a]
    by (cases "a = b") (auto simp: compareCodePoints_cases)
  show "\<lbrakk>compareCodePoints a b < 0; compareCodePoints b c < 0\<rbrakk> \<Longrightarrow> compareCodePoints a c < 0"
    using name_less_linear(3) [of a b c] name_less_linear(2) [of a] name_less_linear(4) [of a b]
    by (auto simp: compareCodePoints_cases split: if_splits)
qed

lemmas name_sorting = code_point_order.ascending_sort [folded by_name_on_keys]
  code_point_order.sort_ascending [folded by_name_on_keys]
  code_point_order.sort_any_order [folded by_name_on_keys]

section \<open>What the parser accepts\<close>

text \<open>No half of a surrogate pair without the other.\<close>

fun paired :: "jstr \<Rightarrow> bool" where
  "paired [] = True"
| "paired (c # r) =
     (if is_high c then (case r of d # r' \<Rightarrow> is_low d \<and> paired r' | [] \<Rightarrow> False)
      else \<not> is_low c \<and> paired r)"

fun sound_node :: "json_node \<Rightarrow> bool" where
  "sound_node (NObj ms) = (distinct (map fst ms) \<and> list_all (\<lambda>(k, v). paired k \<and> sound_node v) ms)"
| "sound_node (NArr xs) = list_all sound_node xs"
| "sound_node (NStr s) = paired s"
| "sound_node (NNum l) = NUMBER_LITERAL l"
| "sound_node n = True"

text \<open>A node found at \<open>depth\<close> is within the nesting a decoder reads.\<close>

fun fits :: "nat \<Rightarrow> json_node \<Rightarrow> bool" where
  "fits d (NObj ms) = (d < MAX_NESTING \<and> list_all (\<lambda>(k, v). fits (Suc d) v) ms)"
| "fits d (NArr xs) = (d < MAX_NESTING \<and> list_all (fits (Suc d)) xs)"
| "fits d n = True"

lemma prepend_Inr: "prepend w x = Inr (s, r) \<longleftrightarrow> (\<exists>s'. x = Inr (s', r) \<and> s = w @ s')"
  by (auto simp: prepend_def split: sum.splits)

lemma prepend_Inl: "prepend w x = Inl e \<longleftrightarrow> x = Inl e"
  by (auto simp: prepend_def split: sum.splits)

lemma not_both: "is_low c \<Longrightarrow> \<not> is_high c"
  using surrogate_bounds [of c] by auto

lemma unescape_plain: "unescape e = Some u \<Longrightarrow> \<not> is_high u \<and> \<not> is_low u"
  by (auto simp: unescape_def is_high_def is_low_def split: if_splits)

lemma canon_string_paired: "canon_string t = Inr (s, r) \<Longrightarrow> paired s"
proof (induction t arbitrary: s rule: canon_string.induct)
  case (2 c cs)
  then show ?case
    by (auto simp: prepend_Inr not_both dest: unescape_plain split: if_splits list.splits option.splits)
qed simp

lemma canon_string_shorter: "canon_string t = Inr (s, r) \<Longrightarrow> length r < length t"
proof (induction t arbitrary: s rule: canon_string.induct)
  case (2 c cs)
  then show ?case
    by (fastforce simp: prepend_Inr split: if_splits list.splits option.splits dest: hex4_shorter)
qed simp

lemma skip_ws_shorter: "length (skip_ws t) \<le> length t"
  by (simp add: skip_ws_def length_dropWhile_le)

lemma canon_number_sound: "canon_number t = Inr (n, r) \<Longrightarrow> sound_node n \<and> fits d n"
  by (auto simp: canon_number_def Let_def split: if_splits)

lemma canon_literal_sound: "\<lbrakk>canon_literal w n t = Inr (m, r); sound_node n; fits d n\<rbrakk> \<Longrightarrow> sound_node m \<and> fits d m"
  by (auto simp: canon_literal_def split: if_splits)

lemma parse_node_sound:
  "parse_node f d t = Inr (n, r) \<Longrightarrow> sound_node n \<and> fits d n"
  "parse_members f d ms t = Inr (n, r) \<Longrightarrow> d < MAX_NESTING \<Longrightarrow> sound_node (NObj ms) \<Longrightarrow> fits d (NObj ms)
     \<Longrightarrow> sound_node n \<and> fits d n"
  "parse_items f d xs t = Inr (n, r) \<Longrightarrow> d < MAX_NESTING \<Longrightarrow> sound_node (NArr xs) \<Longrightarrow> fits d (NArr xs)
     \<Longrightarrow> sound_node n \<and> fits d n"
proof (induction f d t and f d ms t and f d xs t arbitrary: n r and n r and n r
    rule: parse_node_parse_members_parse_items.induct)
  case (2 f depth t)
  note IH = "2.IH" and p = "2.prems"
  show ?case
  proof (cases t)
    case (Cons c u)
    consider "c = open_brace" | "c = open_bracket" | "c = quote_mark"
      | "c \<noteq> open_brace" "c \<noteq> open_bracket" "c \<noteq> quote_mark" by blast
    then show ?thesis
    proof cases
      case 1
      show ?thesis
      proof (cases "skip_ws u")
        case Nil
        then show ?thesis using IH p Cons 1 by (auto split: if_splits)
      next
        case (Cons d u')
        then show ?thesis using IH p \<open>t = c # u\<close> 1 by (auto split: if_splits)
      qed
    next
      case 2
      show ?thesis
      proof (cases "skip_ws u")
        case Nil
        then show ?thesis using IH p Cons 2 by (auto split: if_splits)
      next
        case (Cons d u')
        then show ?thesis using IH p \<open>t = c # u\<close> 2 by (auto split: if_splits)
      qed
    next
      case 3
      then show ?thesis using p Cons canon_string_paired by (auto split: sum.splits)
    next
      case 4
      then show ?thesis using p Cons
        by (auto split: if_splits dest: canon_number_sound [where d = depth] canon_literal_sound [where d = depth])
    qed
  qed (use p in simp)
next
  case (4 f depth members t)
  note p = "4.prems"
  obtain q0 where q0: "skip_ws t = quote_mark # q0" using p(1) by (auto split: list.splits if_splits)
  obtain name r1 where s: "canon_string q0 = Inr (name, r1)" "name \<notin> fst ` set members"
    using p(1) q0 by (auto split: sum.splits if_splits)
  obtain r2 where r2: "skip_ws r1 = colon # r2" using p(1) q0 s by (auto split: list.splits if_splits)
  obtain v r3 where v: "parse_node f (Suc depth) (skip_ws r2) = Inr (v, r3)"
    using p(1) q0 s r2 by (auto split: sum.splits)
  have sv: "sound_node v \<and> fits (Suc depth) v"
    using "4.IH"(1) [OF q0 _ s(1) refl] s(2) r2 v by auto
  obtain x r4 where r4: "skip_ws r3 = x # r4" using p(1) q0 s r2 v by (auto split: list.splits)
  have ext: "sound_node (NObj (members @ [(name, v)]))" "fits depth (NObj (members @ [(name, v)]))"
    using p(2-4) s canon_string_paired [OF s(1)] sv by auto
  show ?case
  proof (cases "x = comma")
    case True
    then have "parse_members f depth (members @ [(name, v)]) r4 = Inr (n, r)" using p(1) q0 s r2 v r4 by simp
    then show ?thesis using "4.IH"(2) [OF q0 _ s(1) refl] s(2) r2 v r4 True p(2) ext by auto
  next
    case False
    then show ?thesis using p(1) q0 s r2 v r4 ext by (auto split: if_splits)
  qed
next
  case (6 f depth items t)
  note p = "6.prems"
  obtain v r3 where v: "parse_node f (Suc depth) (skip_ws t) = Inr (v, r3)"
    using p(1) by (auto split: sum.splits)
  have sv: "sound_node v \<and> fits (Suc depth) v" using "6.IH"(1) v by blast
  obtain x r4 where r4: "skip_ws r3 = x # r4" using p(1) v by (auto split: list.splits)
  have ext: "sound_node (NArr (items @ [v]))" "fits depth (NArr (items @ [v]))" using p(2-4) sv by auto
  show ?case
  proof (cases "x = comma")
    case True
    then have "parse_items f depth (items @ [v]) r4 = Inr (n, r)" using p(1) v r4 by simp
    then show ?thesis using "6.IH"(2) [OF v refl r4 True] p(2) ext by blast
  next
    case False
    then show ?thesis using p(1) v r4 ext by (auto split: if_splits)
  qed
qed simp_all

end
