(* ===== verification/Probes.thy ===== *)
theory Probes
  imports Js_Text Document_Text Canon_Facts
begin

text \<open>
  \<open>mcp/canonical.ts\<close>: the names of coverage probes, split only where their grammar fixes a part, and
  what a coverage report says of a graph's nodes and edges.
\<close>

section \<open>Dispositions and handoff targets\<close>

definition parseDisposition :: "jstr option \<Rightarrow> (jstr \<times> jval) list option" where
  "parseDisposition text =
     (case text of
        None \<Rightarrow> None
      | Some t \<Rightarrow>
          if t = [] then None
          else (case JSON_parse t of Some (JObj ms) \<Rightarrow> Some ms | _ \<Rightarrow> None))"

definition NO_HANDOFF_TARGET :: jstr where "NO_HANDOFF_TARGET = js ''null''"
definition HANDOFF_TARGET_UNAVAILABLE :: jstr where "HANDOFF_TARGET_UNAVAILABLE = js ''unavailable''"

definition truthy :: "jval option \<Rightarrow> bool" where
  "truthy v =
     (case v of
        None \<Rightarrow> False
      | Some JNull \<Rightarrow> False
      | Some (JBool b) \<Rightarrow> b
      | Some (JNum n) \<Rightarrow> \<not> num_eq n (Finite False 0 0)
      | Some (JStr s) \<Rightarrow> s \<noteq> []
      | Some _ \<Rightarrow> True)"

text \<open>What is shown: one of the two fixed sentences, a name with its kind, a name, or the text itself.\<close>

datatype handoff =
    NoTarget
  | TargetUnavailable
  | NamedWithKind jval jval
  | NamedOnly jval
  | AsReported jstr

definition describeHandoffTarget :: "jstr \<Rightarrow> handoff" where
  "describeHandoffTarget member =
     (if member = NO_HANDOFF_TARGET then NoTarget
      else if member = HANDOFF_TARGET_UNAVAILABLE then TargetUnavailable
      else
        (case parseDisposition (Some member) of
           Some ms \<Rightarrow>
             if truthy (map_of ms (js ''name''))
             then if truthy (map_of ms (js ''kind''))
                  then NamedWithKind (the (map_of ms (js ''name''))) (the (map_of ms (js ''kind'')))
                  else NamedOnly (the (map_of ms (js ''name'')))
             else AsReported member
         | None \<Rightarrow> AsReported member))"

section \<open>Probe names\<close>

record parsed_probe =
  family :: string
  node :: "jstr option"
  rest :: jstr

definition BARE_REASONS :: "string list" where
  "BARE_REASONS =
     [''not-applicable'', ''missing-required-evidence'', ''unknown'', ''conflict'', ''exception-escalation'',
      ''no-match'']"

definition starts_with :: "string \<Rightarrow> jstr \<Rightarrow> bool" where
  "starts_with w t = prefix (js w) t"

text \<open>The node and the probe behind \<open>node:\<close>, where the name has both.\<close>

definition node_parts :: "jstr \<Rightarrow> (jstr \<times> jstr) option" where
  "node_parts probe =
     (if starts_with ''node:'' probe then
        (let r = drop 5 probe in
         case find_index (\<lambda>c. c = colon) r of
           Some at_colon \<Rightarrow> if 0 < at_colon then Some (take at_colon r, drop (Suc at_colon) r) else None
         | None \<Rightarrow> None)
      else None)"

lemma node_parts_shorter: "node_parts probe = Some (n, r) \<Longrightarrow> length r < length probe"
  by (auto simp: node_parts_def starts_with_def prefix_def Let_def split: if_splits option.splits)

function parseProbe :: "jstr \<Rightarrow> parsed_probe" where
  "parseProbe probe =
     (case node_parts probe of
        Some (n, inner_probe) \<Rightarrow>
          (let inner = parseProbe inner_probe
           in \<lparr>family = family inner, node = Some n, rest = rest inner\<rparr>)
      | None \<Rightarrow>
          if starts_with ''edge:'' probe then \<lparr>family = ''edge'', node = None, rest = drop 5 probe\<rparr>
          else if starts_with ''outcome:'' probe then \<lparr>family = ''outcome'', node = None, rest = drop 8 probe\<rparr>
          else if starts_with ''boundary:'' probe then \<lparr>family = ''boundary'', node = None, rest = drop 9 probe\<rparr>
          else if probe \<in> set (map js BARE_REASONS) then \<lparr>family = ''reason'', node = None, rest = probe\<rparr>
          else \<lparr>family = ''other'', node = None, rest = probe\<rparr>)"
  by pat_completeness auto
termination
  by (relation "measure length") (auto dest: node_parts_shorter)

declare parseProbe.simps [simp del]

fun add_new :: "'a \<Rightarrow> 'a list \<Rightarrow> 'a list" where
  "add_new x seen = (if x \<in> set seen then seen else seen @ [x])"

definition nodesInWalkOrder :: "jstr list option \<Rightarrow> jstr list" where
  "nodesInWalkOrder coverage =
     fold (\<lambda>probe seen. case node (parseProbe probe) of Some n \<Rightarrow> add_new n seen | None \<Rightarrow> seen)
       (case coverage of None \<Rightarrow> [] | Some ps \<Rightarrow> ps) []"

definition edge_index :: "jstr \<Rightarrow> int option" where
  "edge_index probe =
     (let parsed = parseProbe probe in
      if family parsed \<noteq> ''edge'' then None
      else (case js_Number (hd (split_on colon (rest parsed))) of
              None \<Rightarrow> None
            | Some v \<Rightarrow> integer_of v))"

definition edgeIndices :: "jstr list option \<Rightarrow> int list" where
  "edgeIndices coverage =
     map fst
       (sort_by (on_keys (\<lambda>a b. a - b))
         (map (\<lambda>i. (i, ()))
           (fold (\<lambda>probe seen. case edge_index probe of Some i \<Rightarrow> add_new i seen | None \<Rightarrow> seen)
             (case coverage of None \<Rightarrow> [] | Some ps \<Rightarrow> ps) [])))"

section \<open>What they hold\<close>

interpretation subtraction: comparator "\<lambda>a b :: int. a - b"
  by unfold_locales auto

lemma fold_add_new:
  "distinct seen \<Longrightarrow>
     distinct (fold (\<lambda>p acc. case f p of Some x \<Rightarrow> add_new x acc | None \<Rightarrow> acc) ps seen)
     \<and> set (fold (\<lambda>p acc. case f p of Some x \<Rightarrow> add_new x acc | None \<Rightarrow> acc) ps seen)
        = set seen \<union> {x. \<exists>p \<in> set ps. f p = Some x}"
proof (induction ps arbitrary: seen)
  case (Cons p ps)
  show ?case
  proof (cases "f p")
    case None
    then show ?thesis using Cons by auto
  next
    case (Some x)
    then show ?thesis using Cons.IH [of "add_new x seen"] Cons.prems by auto
  qed
qed simp

lemma nodesInWalkOrder_set:
  "distinct (nodesInWalkOrder coverage)"
  "set (nodesInWalkOrder coverage) =
     {n. \<exists>p \<in> set (case coverage of None \<Rightarrow> [] | Some ps \<Rightarrow> ps). node (parseProbe p) = Some n}"
  using fold_add_new [of "[]" "\<lambda>p. node (parseProbe p)"] by (auto simp: nodesInWalkOrder_def)

lemma edgeIndices_sorted: "sorted_wrt (<) (edgeIndices coverage)"
  "set (edgeIndices coverage) =
     {i. \<exists>p \<in> set (case coverage of None \<Rightarrow> [] | Some ps \<Rightarrow> ps). edge_index p = Some i}"
proof -
  let ?found = "fold (\<lambda>probe seen. case edge_index probe of Some i \<Rightarrow> add_new i seen | None \<Rightarrow> seen)
             (case coverage of None \<Rightarrow> [] | Some ps \<Rightarrow> ps) []"
  have d: "distinct ?found" "set ?found = {i. \<exists>p \<in> set (case coverage of None \<Rightarrow> [] | Some ps \<Rightarrow> ps). edge_index p = Some i}"
    using fold_add_new [of "[]" edge_index] by auto
  have "ascending_by (\<lambda>a b :: int. a - b) (sort_by (on_keys (\<lambda>a b. a - b)) (map (\<lambda>i. (i, ())) ?found))"
    by (rule subtraction.ascending_sort) (simp add: comp_def d(1))
  then show "sorted_wrt (<) (edgeIndices coverage)"
    by (simp add: edgeIndices_def ascending_by_def sorted_wrt_map)
  show "set (edgeIndices coverage) = {i. \<exists>p \<in> set (case coverage of None \<Rightarrow> [] | Some ps \<Rightarrow> ps). edge_index p = Some i}"
    unfolding edgeIndices_def set_map set_sort_by d(2) [symmetric] by force
qed

end
