(* ===== verification/Graph_Document.thy ===== *)
theory Graph_Document
  imports Probes "HOL-Library.While_Combinator"
begin

text \<open>
  \<open>mcp/graphDocument.ts\<close>: reading one served graph document and laying its walk out.  A sentence the
  source shows is a case of \<open>decline\<close>.  \<open>toLowerCase\<close> is the argument \<open>lower\<close>.  The loop of the
  layering is \<open>while_option\<close>: a result says that it ends.
\<close>

section \<open>Reading a document\<close>

datatype decline =
    NotJson
  | NotAnObject
  | NodesNotAMap
  | NoNode
  | NodeNotAnObject jstr
  | NodeMemberType jstr
  | NoEdgesMember
  | EdgesNotAnArray
  | EdgeNotAnObject nat
  | EdgeEndpoints nat
  | EdgeMemberType nat
  | EvidenceWithoutId nat
  | OnUnresolvedType nat
  | ResultNotAnId
  | RuntimeDetail jstr
  | NoReasonGiven
  | RuntimeStatus jstr "jstr option"
  | SelfLoop nat jstr
  | CannotPlace "jstr list"

record graph_node =
  n_pack :: "jstr option"
  n_description :: "jstr option"

record graph_edge =
  e_from :: jstr
  e_to :: jstr
  e_fact :: "jstr option"
  e_evidence :: "(jstr \<times> jstr option) option"
  e_description :: "jstr option"

record graph_document =
  d_value :: "(jstr \<times> jval) list"
  d_nodes :: "(jstr \<times> graph_node) list"
  d_edges :: "graph_edge list"
  d_result :: "jstr option"

definition optionalString :: "jval option \<Rightarrow> bool" where
  "optionalString v = (case v of None \<Rightarrow> True | Some (JStr _) \<Rightarrow> True | _ \<Rightarrow> False)"

definition string_of :: "jval option \<Rightarrow> jstr option" where
  "string_of v = (case v of Some (JStr s) \<Rightarrow> Some s | _ \<Rightarrow> None)"

definition read_node :: "jstr \<Rightarrow> jval \<Rightarrow> decline + graph_node" where
  "read_node nid v =
     (case v of
        JObj ms \<Rightarrow>
          if \<not> optionalString (map_of ms (js ''pack'')) \<or> \<not> optionalString (map_of ms (js ''description''))
          then Inl (NodeMemberType nid)
          else Inr \<lparr>n_pack = string_of (map_of ms (js ''pack'')),
                    n_description = string_of (map_of ms (js ''description''))\<rparr>
      | _ \<Rightarrow> Inl (NodeNotAnObject nid))"

fun read_nodes :: "(jstr \<times> jval) list \<Rightarrow> jstr list \<Rightarrow> decline + (jstr \<times> graph_node) list" where
  "read_nodes members [] = Inr []"
| "read_nodes members (nid # ids) =
     (case read_node nid (the (map_of members nid)) of
        Inl e \<Rightarrow> Inl e
      | Inr n \<Rightarrow> map_sum (\<lambda>e. e) ((#) (nid, n)) (read_nodes members ids))"

definition read_edge :: "nat \<Rightarrow> jval \<Rightarrow> decline + graph_edge" where
  "read_edge i v =
     (case v of
        JObj ms \<Rightarrow>
          (case (map_of ms (js ''from''), map_of ms (js ''to'')) of
             (Some (JStr src), Some (JStr dst)) \<Rightarrow>
               if \<not> optionalString (map_of ms (js ''fact'')) \<or> \<not> optionalString (map_of ms (js ''description''))
               then Inl (EdgeMemberType i)
               else
                 (let edge = (\<lambda>evidence.
                        \<lparr>e_from = src, e_to = dst, e_fact = string_of (map_of ms (js ''fact'')),
                         e_evidence = evidence, e_description = string_of (map_of ms (js ''description''))\<rparr>)
                  in case map_of ms (js ''evidence'') of
                       None \<Rightarrow> Inr (edge None)
                     | Some (JObj es) \<Rightarrow>
                         (case map_of es (js ''id'') of
                            Some (JStr nid) \<Rightarrow>
                              if \<not> optionalString (map_of es (js ''onUnresolved'')) then Inl (OnUnresolvedType i)
                              else Inr (edge (Some (nid, string_of (map_of es (js ''onUnresolved'')))))
                          | _ \<Rightarrow> Inl (EvidenceWithoutId i))
                     | Some _ \<Rightarrow> Inl (EvidenceWithoutId i))
           | _ \<Rightarrow> Inl (EdgeEndpoints i))
      | _ \<Rightarrow> Inl (EdgeNotAnObject i))"

fun read_edges :: "nat \<Rightarrow> jval list \<Rightarrow> decline + graph_edge list" where
  "read_edges i [] = Inr []"
| "read_edges i (v # vs) =
     (case read_edge i v of
        Inl e \<Rightarrow> Inl e
      | Inr edge \<Rightarrow> map_sum (\<lambda>e. e) ((#) edge) (read_edges (Suc i) vs))"

definition readGraphDocument :: "jstr \<Rightarrow> decline + graph_document" where
  "readGraphDocument text =
     (case JSON_parse text of
        None \<Rightarrow> Inl NotJson
      | Some (JObj ms) \<Rightarrow>
          (case map_of ms (js ''nodes'') of
             Some (JObj members) \<Rightarrow>
               if own_keys members = [] then Inl NoNode
               else
                 (case read_nodes members (own_keys members) of
                    Inl e \<Rightarrow> Inl e
                  | Inr ns \<Rightarrow>
                      (case map_of ms (js ''edges'') of
                         Some (JArr vs) \<Rightarrow>
                           (case read_edges 0 vs of
                              Inl e \<Rightarrow> Inl e
                            | Inr es \<Rightarrow>
                                if \<not> optionalString (map_of ms (js ''result'')) then Inl ResultNotAnId
                                else Inr \<lparr>d_value = ms, d_nodes = ns, d_edges = es,
                                          d_result = string_of (map_of ms (js ''result''))\<rparr>)
                       | None \<Rightarrow> Inl NoEdgesMember
                       | Some _ \<Rightarrow> Inl EdgesNotAnArray))
           | _ \<Rightarrow> Inl NodesNotAMap)
      | Some _ \<Rightarrow> Inl NotAnObject)"

definition readServedDocument :: "jstr option \<Rightarrow> jstr option \<Rightarrow> jstr \<Rightarrow> decline + graph_document" where
  "readServedDocument status detail text =
     (if status \<noteq> Some (js ''valid'')
      then Inl (if status = Some (js ''undecodable'') \<or> status = None
                then (case detail of Some d \<Rightarrow> RuntimeDetail d | None \<Rightarrow> NoReasonGiven)
                else RuntimeStatus (the status) (case detail of Some d \<Rightarrow> if d = [] then None else Some d | None \<Rightarrow> None))
      else readGraphDocument text)"

section \<open>Digests\<close>

datatype digest_binding = Bound | Divergent | Unstated

definition statedDigest :: "(jstr \<Rightarrow> jstr) \<Rightarrow> jstr option \<Rightarrow> jstr option" where
  "statedDigest lower digest =
     (case digest of
        None \<Rightarrow> None
      | Some d \<Rightarrow> (let trimmed = lower (js_trim d) in if trimmed = [] then None else Some trimmed))"

definition bindGraphDigests :: "(jstr \<Rightarrow> jstr) \<Rightarrow> jstr option \<Rightarrow> jstr option \<Rightarrow> digest_binding" where
  "bindGraphDigests lower run served =
     (case (statedDigest lower run, statedDigest lower served) of
        (Some a, Some b) \<Rightarrow> if a = b then Bound else Divergent
      | _ \<Rightarrow> Unstated)"

section \<open>The layered walk\<close>

record walk_node =
  w_id :: jstr
  w_pack :: "jstr option"
  w_description :: "jstr option"
  w_layer :: nat
  w_column :: nat
  w_isResult :: bool
  w_inCoverage :: bool

record walk_edge =
  w_edge :: graph_edge
  w_index :: nat
  w_drawable :: bool

record walk_shape =
  s_nodes :: "walk_node list"
  s_edges :: "walk_edge list"
  s_width :: nat
  s_depth :: nat
  s_result :: "jstr option"
  s_resultDangling :: bool

datatype walk_layout = Drawn walk_shape | NotDrawn decline

definition walk_edges :: "graph_document \<Rightarrow> walk_edge list" where
  "walk_edges document =
     (let known = set (own_keys (d_nodes document)) in
      map (\<lambda>(index, edge). \<lparr>w_edge = edge, w_index = index,
                              w_drawable = (e_from edge \<in> known \<and> e_to edge \<in> known)\<rparr>)
        (enumerate 0 (d_edges document)))"

text \<open>The pairs of members the drawable edges join, in the order of the document.\<close>

definition structural :: "graph_document \<Rightarrow> (jstr \<times> jstr) list" where
  "structural document =
     map (\<lambda>e. (e_from (w_edge e), e_to (w_edge e))) (filter w_drawable (walk_edges document))"

record kahn =
  k_frontier :: "jstr list"
  k_layer :: "jstr \<Rightarrow> nat option"
  k_indegree :: "jstr \<Rightarrow> int"
  k_placed :: "jstr list"
  k_next :: "jstr list"

definition layer_of :: "kahn \<Rightarrow> jstr \<Rightarrow> nat" where
  "layer_of s t = (case k_layer s t of Some l \<Rightarrow> l | None \<Rightarrow> 0)"

definition kahn_start :: "jstr list \<Rightarrow> (jstr \<times> jstr) list \<Rightarrow> kahn" where
  "kahn_start ids es =
     (let indegree = (\<lambda>t. int (length (filter (\<lambda>e. snd e = t) es)));
          frontier = filter (\<lambda>nid. indegree nid = 0) ids
      in \<lparr>k_frontier = frontier, k_layer = (\<lambda>t. if t \<in> set frontier then Some 0 else None),
          k_indegree = indegree, k_placed = frontier, k_next = []\<rparr>)"

text \<open>One edge of the walk: the target below its source, and placed when nothing else feeds it.\<close>

definition kahn_edge :: "jstr \<times> jstr \<Rightarrow> kahn \<Rightarrow> kahn" where
  "kahn_edge e s =
     (let (nid, target) = e;
          layer = (k_layer s)(target \<mapsto> max (layer_of s target) (layer_of s nid + 1));
          indegree = (k_indegree s)(target := k_indegree s target - 1);
          new = (indegree target = 0 \<and> target \<notin> set (k_placed s))
      in s\<lparr>k_layer := layer, k_indegree := indegree,
           k_placed := (if new then k_placed s @ [target] else k_placed s),
           k_next := (if new then k_next s @ [target] else k_next s)\<rparr>)"

definition out_edges :: "(jstr \<times> jstr) list \<Rightarrow> jstr \<Rightarrow> (jstr \<times> jstr) list" where
  "out_edges es nid = filter (\<lambda>e. fst e = nid) es"

definition kahn_round :: "(jstr \<times> jstr) list \<Rightarrow> kahn \<Rightarrow> kahn" where
  "kahn_round es s =
     (let s' = fold (\<lambda>nid. fold kahn_edge (out_edges es nid)) (k_frontier s) (s\<lparr>k_next := []\<rparr>)
      in s'\<lparr>k_frontier := k_next s', k_next := []\<rparr>)"

definition kahn_walk :: "jstr list \<Rightarrow> (jstr \<times> jstr) list \<Rightarrow> kahn option" where
  "kahn_walk ids es = while_option (\<lambda>s. k_frontier s \<noteq> []) (kahn_round es) (kahn_start ids es)"

definition walk_rank :: "jstr list \<Rightarrow> jstr list \<Rightarrow> jstr \<Rightarrow> int" where
  "walk_rank ids walkOrder nid =
     (case find_index (\<lambda>n. n = nid) walkOrder of
        Some seen \<Rightarrow> int seen
      | None \<Rightarrow> int (length walkOrder) + (case find_index (\<lambda>n. n = nid) ids of Some i \<Rightarrow> int i | None \<Rightarrow> - 1))"

definition walk_row :: "jstr list \<Rightarrow> jstr list \<Rightarrow> (jstr \<Rightarrow> nat) \<Rightarrow> nat \<Rightarrow> jstr list" where
  "walk_row ids walkOrder layer row =
     sort_by (\<lambda>a b. walk_rank ids walkOrder a - walk_rank ids walkOrder b) (filter (\<lambda>nid. layer nid = row) ids)"

definition deriveWalkLayout :: "graph_document \<Rightarrow> jstr list option \<Rightarrow> walk_layout option" where
  "deriveWalkLayout document coverage =
     (let ids = own_keys (d_nodes document);
          edges = walk_edges document
      in case find (\<lambda>e. w_drawable e \<and> e_from (w_edge e) = e_to (w_edge e)) edges of
           Some selfLoop \<Rightarrow> Some (NotDrawn (SelfLoop (w_index selfLoop) (e_from (w_edge selfLoop))))
         | None \<Rightarrow>
             (case kahn_walk ids (structural document) of
                None \<Rightarrow> None
              | Some s \<Rightarrow>
                  (let unplaced = filter (\<lambda>nid. nid \<notin> set (k_placed s)) ids in
                   if unplaced \<noteq> [] then Some (NotDrawn (CannotPlace unplaced))
                   else
                     (let walkOrder = nodesInWalkOrder coverage;
                          result = d_result document;
                          resultDangling = (case result of None \<Rightarrow> False | Some r \<Rightarrow> r \<notin> set ids);
                          depth = (if ids = [] then 0 else foldr max (map (layer_of s) ids) 0 + 1);
                          rows = map (walk_row ids walkOrder (layer_of s)) [0..<depth];
                          drawn = (\<lambda>layer (column, nid).
                             \<lparr>w_id = nid,
                              w_pack = Option.bind (map_of (d_nodes document) nid) n_pack,
                              w_description = Option.bind (map_of (d_nodes document) nid) n_description,
                              w_layer = layer, w_column = column,
                              w_isResult = (\<not> resultDangling \<and> result = Some nid),
                              w_inCoverage = (nid \<in> set walkOrder)\<rparr>)
                      in Some (Drawn
                           \<lparr>s_nodes = concat (map (\<lambda>layer. map (drawn layer) (enumerate 0 (rows ! layer))) [0..<depth]),
                            s_edges = edges, s_width = foldr max (map length rows) 0, s_depth = depth,
                            s_result = result, s_resultDangling = resultDangling\<rparr>)))))"

section \<open>What is said instead of a drawing\<close>

datatype fallback =
    RefusedToServe jstr
  | CouldNotFetch jstr
  | CouldNotDecode "jstr option"
  | TwoRevisions
  | Declined decline
  | NotDrawable decline
  | NoShape

text \<open>The error is a refusal of the runtime, or a fetch that did not complete, with its message.\<close>

datatype fetch_error = Refusal jstr | Incomplete jstr

definition walkFallbackReason ::
  "bool \<Rightarrow> bool \<Rightarrow> (jstr option \<times> jstr option \<times> decline option) option \<Rightarrow> decline option \<Rightarrow> bool
   \<Rightarrow> fetch_error option \<Rightarrow> fallback option" where
  "walkFallbackReason supported drawn served declined divergent error =
     (if \<not> supported then None
      else case error of
             Some (Refusal m) \<Rightarrow> Some (RefusedToServe m)
           | Some (Incomplete m) \<Rightarrow> Some (CouldNotFetch m)
           | None \<Rightarrow>
               (case served of
                  None \<Rightarrow> None
                | Some (status, detail, unreadable) \<Rightarrow>
                    if status \<noteq> Some (js ''valid'') then Some (CouldNotDecode detail)
                    else if divergent then Some TwoRevisions
                    else if drawn then None
                    else case declined of
                           Some d \<Rightarrow> Some (Declined d)
                         | None \<Rightarrow> (case unreadable of Some u \<Rightarrow> Some (NotDrawable u) | None \<Rightarrow> Some NoShape)))"

datatype carried = CarriesFact jstr | CarriesEvidence jstr "jstr option"

text \<open>The parts the source joins; none is shown as carrying nothing the document declares.\<close>

definition edgeCarries :: "graph_edge \<Rightarrow> carried list" where
  "edgeCarries edge =
     (case e_fact edge of Some f \<Rightarrow> if f \<noteq> [] then [CarriesFact f] else [] | None \<Rightarrow> [])
     @ (case e_evidence edge of
          Some (nid, onUnresolved) \<Rightarrow>
            if nid = [] then []
            else [CarriesEvidence nid (case onUnresolved of Some u \<Rightarrow> if u \<noteq> [] then Some u else None | None \<Rightarrow> None)]
        | None \<Rightarrow> [])"

end
