(* ===== verification/Json_Proper.thy ===== *)
theory Json_Proper
  imports Json
begin

text \<open>What \<open>JSON.parse\<close> returns: no object in it names a member twice.\<close>

fun proper :: "jval \<Rightarrow> bool" where
  "proper (JArr vs) = list_all proper vs"
| "proper (JObj ms) = (distinct (map fst ms) \<and> list_all (\<lambda>m. proper (snd m)) ms)"
| "proper _ = True"

lemma proper_map_set:
  "proper (JObj ms) \<Longrightarrow> proper v \<Longrightarrow> proper (JObj (map_set k v ms))"
proof -
  have "list_all (\<lambda>m. proper (snd m)) ms \<Longrightarrow> proper v \<Longrightarrow> list_all (\<lambda>m. proper (snd m)) (map_set k v ms)"
    by (induction ms) auto
  then show "proper (JObj ms) \<Longrightarrow> proper v \<Longrightarrow> proper (JObj (map_set k v ms))"
    by (simp add: distinct_map_set)
qed

lemma json_word_value: "json_word w v t = Some (u, r) \<Longrightarrow> u = v"
  by (auto simp: json_word_def split: if_splits)

lemma jp_proper:
  "jp_value f t = Some (v, r) \<Longrightarrow> proper v"
  "jp_members f ms t = Some (v, r) \<Longrightarrow> proper (JObj ms) \<Longrightarrow> proper v"
  "jp_elements f vs t = Some (v, r) \<Longrightarrow> list_all proper vs \<Longrightarrow> proper v"
proof (induction f t and f ms t and f vs t arbitrary: v r and v r and v r
    rule: jp_value_jp_members_jp_elements.induct)
  case (2 f t0)
  then show ?case
    by (auto simp: Let_def dest!: json_word_value split: list.splits if_splits option.splits)
next
  case (4 f acc t0)
  obtain x name r1 r2 w r3 d r4 where e:
    "skip_ws t0 = quote_mark # x" "string_body x = Some (name, r1)" "skip_ws r1 = colon # r2"
    "jp_value f r2 = Some (w, r3)" "skip_ws r3 = d # r4"
    "d = comma \<and> jp_members f (map_set name w acc) r4 = Some (v, r)
     \<or> d = close_brace \<and> v = JObj (map_set name w acc)"
    using "4.prems"(1) by (auto split: list.splits if_splits option.splits)
  have w: "proper w" using "4.IH"(1) [OF e(1) _ e(2) refl e(3) _ e(4)] by simp
  note m = proper_map_set [OF "4.prems"(2) w, of name]
  show ?case
    using e(6) m "4.IH"(2) [OF e(1) _ e(2) refl e(3) _ e(4) refl e(5) _ _ m] by auto
next
  case (6 f acc t0)
  then show ?case
    by (auto split: list.splits if_splits option.splits)
qed auto

lemma JSON_parse_proper: "JSON_parse text = Some v \<Longrightarrow> proper v"
  by (auto simp: JSON_parse_def simp del: jp_value.simps dest: jp_proper(1) split: option.splits if_splits)

lemma proper_member: "proper (JObj ms) \<Longrightarrow> map_of ms k = Some v \<Longrightarrow> proper v"
  by (auto simp: list_all_iff dest!: map_of_SomeD)

end
