(* ===== verification/Graph_Layout.thy ===== *)
theory Graph_Layout
  imports Graph_Document Json_Proper
begin

text \<open>
  Why the layering ends, what it places, and where: the invariant of the walk over the edges it has
  followed, and the shape it draws.
\<close>

section \<open>The documents a read gives\<close>

lemma read_nodes_keys: "read_nodes ms ks = Inr ns \<Longrightarrow> map fst ns = ks"
proof (induction ks arbitrary: ns)
  case (Cons k ks)
  then show ?case by (auto split: sum.splits simp: map_sum_def)
qed simp

lemma own_keys_again: "set (own_keys ms) = fst ` set ms" "distinct (map fst ms) \<Longrightarrow> length (own_keys ms) = length ms"
  using distinct_card [OF distinct_own_keys, of ms] distinct_card [of "map fst ms"] by simp_all

lemma read_distinct:
  assumes "readGraphDocument text = Inr document"
  shows "distinct (own_keys (d_nodes document))"
proof -
  obtain ms members where m: "JSON_parse text = Some (JObj ms)" "map_of ms (js ''nodes'') = Some (JObj members)"
      "read_nodes members (own_keys members) = Inr (d_nodes document)"
    using assms by (fastforce simp: readGraphDocument_def simp del: js_Cons split: option.splits jval.splits if_splits sum.splits)
  have "distinct (map fst members)"
    using proper_member [OF JSON_parse_proper [OF m(1)] m(2)] by simp
  then show ?thesis
    using read_nodes_keys [OF m(3)] by (simp add: distinct_own_keys)
qed

section \<open>The walk over the edges\<close>

definition feeds :: "(jstr \<times> jstr) multiset \<Rightarrow> jstr \<Rightarrow> nat" where
  "feeds es t = size (filter_mset (\<lambda>e. snd e = t) es)"

lemma feeds_simps [simp]:
  "feeds {#} t = 0" "feeds (add_mset e L) t = (if snd e = t then Suc (feeds L t) else feeds L t)"
  by (simp_all add: feeds_def)

lemma feeds_mono: "L \<subseteq># M \<Longrightarrow> feeds L t \<le> feeds M t"
  by (simp add: feeds_def multiset_filter_mono size_mset_mono)

lemma feeds_all: "\<lbrakk>L \<subseteq># M; feeds L t = feeds M t; e \<in># M; snd e = t\<rbrakk> \<Longrightarrow> e \<in># L"
proof -
  assume a: "L \<subseteq># M" "feeds L t = feeds M t" "e \<in># M" "snd e = t"
  have "filter_mset (\<lambda>e. snd e = t) L \<subseteq># filter_mset (\<lambda>e. snd e = t) M"
    using a(1) by (rule multiset_filter_mono)
  then have "filter_mset (\<lambda>e. snd e = t) L = filter_mset (\<lambda>e. snd e = t) M"
    using a(2) unfolding feeds_def
    by (metis mset_subset_size nless_le subset_mset.less_le)
  then have "e \<in># filter_mset (\<lambda>e. snd e = t) L" using a(3,4) by simp
  then show "e \<in># L" by simp
qed

text \<open>What holds once the edges \<open>L\<close> have been followed.\<close>

definition walked :: "jstr set \<Rightarrow> (jstr \<times> jstr) multiset \<Rightarrow> (jstr \<times> jstr) multiset \<Rightarrow> kahn \<Rightarrow> bool" where
  "walked V es L s \<longleftrightarrow>
     L \<subseteq># es \<and> distinct (k_placed s) \<and> set (k_placed s) \<subseteq> V
     \<and> (\<forall>t. k_indegree s t = int (feeds es t) - int (feeds L t))
     \<and> (\<forall>t \<in> V. t \<in> set (k_placed s) \<longleftrightarrow> feeds L t = feeds es t)
     \<and> (\<forall>e \<in># L. fst e \<in> set (k_placed s) \<and> layer_of s (fst e) < layer_of s (snd e))
     \<and> (\<forall>t. layer_of s t = 0 \<or> (\<exists>u. (u, t) \<in># L \<and> layer_of s t = Suc (layer_of s u)))"

lemma walkedD:
  assumes "walked V es L s"
  shows "L \<subseteq># es" "distinct (k_placed s)" "set (k_placed s) \<subseteq> V"
    and "k_indegree s t = int (feeds es t) - int (feeds L t)"
    and "t \<in> V \<Longrightarrow> t \<in> set (k_placed s) \<longleftrightarrow> feeds L t = feeds es t"
    and "e \<in># L \<Longrightarrow> fst e \<in> set (k_placed s)"
    and "e \<in># L \<Longrightarrow> layer_of s (fst e) < layer_of s (snd e)"
    and "layer_of s t = 0 \<or> (\<exists>u. (u, t) \<in># L \<and> layer_of s t = Suc (layer_of s u))"
  using assms by (simp_all add: walked_def)

lemma walked_edge:
  assumes "walked V es L s" "add_mset (u, t) L \<subseteq># es" "u \<in> set (k_placed s)" "t \<in> V"
  shows "walked V es (add_mset (u, t) L) (kahn_edge (u, t) s)"
    and "\<exists>new. k_placed (kahn_edge (u, t) s) = k_placed s @ new \<and> k_next (kahn_edge (u, t) s) = k_next s @ new"
proof -
  let ?s = "kahn_edge (u, t) s"
  have less: "feeds L t < feeds es t"
    using feeds_mono [OF assms(2), of t] by simp
  then have t: "t \<notin> set (k_placed s)" using assms(1,4) by (auto simp: walked_def)
  then have ut: "u \<noteq> t" using assms(3) by auto
  have lay: "layer_of ?s x = (if x = t then max (layer_of s t) (Suc (layer_of s u)) else layer_of s x)" for x
    by (simp add: kahn_edge_def Let_def layer_of_def)
  have ind: "k_indegree ?s x = k_indegree s x - (if x = t then 1 else 0)" for x
    by (simp add: kahn_edge_def Let_def)
  have pl: "k_placed ?s = k_placed s @ (if k_indegree s t = 1 then [t] else [])"
      "k_next ?s = k_next s @ (if k_indegree s t = 1 then [t] else [])"
    using t by (simp_all add: kahn_edge_def Let_def)
  have one: "k_indegree s t = 1 \<longleftrightarrow> Suc (feeds L t) = feeds es t"
    using assms(1) less by (auto simp: walked_def)
  have src: "e \<in># L \<Longrightarrow> fst e \<noteq> t" for e using assms(1) t by (auto simp: walked_def)
  show "\<exists>new. k_placed ?s = k_placed s @ new \<and> k_next ?s = k_next s @ new" using pl by auto
  have a: "add_mset (u, t) L \<subseteq># es" by fact
  have b: "distinct (k_placed ?s)" "set (k_placed ?s) \<subseteq> V"
    using assms(1,4) t pl(1) by (auto simp: walked_def)
  have c: "k_indegree ?s x = int (feeds es x) - int (feeds (add_mset (u, t) L) x)" for x
    using assms(1) by (auto simp: walked_def ind)
  have d: "x \<in> set (k_placed ?s) \<longleftrightarrow> feeds (add_mset (u, t) L) x = feeds es x" if "x \<in> V" for x
    using assms(1) that t less by (cases "x = t") (auto simp: pl(1) one walked_def)
  have e: "fst e \<in> set (k_placed ?s) \<and> layer_of ?s (fst e) < layer_of ?s (snd e)" if "e \<in># add_mset (u, t) L" for e
  proof (cases "e = (u, t)")
    case True
    then show ?thesis using assms(3) ut by (simp add: pl(1) lay)
  next
    case False
    then have "e \<in># L" using that by simp
    then have "fst e \<in> set (k_placed s)" "layer_of s (fst e) < layer_of s (snd e)" "fst e \<noteq> t"
      using assms(1) src by (auto simp: walked_def)
    then show ?thesis by (auto simp: pl(1) lay)
  qed
  have f: "layer_of ?s x = 0 \<or> (\<exists>w. (w, x) \<in># add_mset (u, t) L \<and> layer_of ?s x = Suc (layer_of ?s w))" for x
  proof (cases "x = t \<and> layer_of s t \<le> Suc (layer_of s u)")
    case True
    then have "(u, x) \<in># add_mset (u, t) L \<and> layer_of ?s x = Suc (layer_of ?s u)" using ut by (simp add: lay)
    then show ?thesis by blast
  next
    case False
    then have same: "layer_of ?s x = layer_of s x" by (auto simp: lay)
    consider "layer_of s x = 0" | w where "(w, x) \<in># L" "layer_of s x = Suc (layer_of s w)"
      using walkedD(8) [OF assms(1), of x] by (elim disjE exE conjE) assumption+
    then show ?thesis
    proof cases
      case 2
      then have "(w, x) \<in># add_mset (u, t) L \<and> layer_of ?s x = Suc (layer_of ?s w)"
        using src [of "(w, x)"] same by (simp add: lay)
      then show ?thesis by blast
    qed (simp add: same)
  qed
  show "walked V es (add_mset (u, t) L) ?s"
    unfolding walked_def
    by (intro conjI allI ballI a b c d f e [THEN conjunct1] e [THEN conjunct2])
qed

lemma walked_edges:
  assumes "walked V es L s" "L + mset xs \<subseteq># es" "fst ` set xs \<subseteq> set (k_placed s)" "snd ` set xs \<subseteq> V"
  shows "walked V es (L + mset xs) (fold kahn_edge xs s)
     \<and> (\<exists>new. k_placed (fold kahn_edge xs s) = k_placed s @ new \<and> k_next (fold kahn_edge xs s) = k_next s @ new)"
  using assms
proof (induction xs arbitrary: L s)
  case (Cons e xs)
  obtain u t where e: "e = (u, t)" by (cases e)
  have sub: "add_mset (u, t) L \<subseteq># es"
    using Cons.prems(2) e by (auto intro: subset_mset.order_trans [rotated])
  note step = walked_edge [OF Cons.prems(1) sub]
  have "u \<in> set (k_placed s)" "t \<in> V" using Cons.prems(3,4) e by auto
  note step = step [OF this]
  have "walked V es (add_mset (u, t) L + mset xs) (fold kahn_edge xs (kahn_edge e s))
     \<and> (\<exists>new. k_placed (fold kahn_edge xs (kahn_edge e s)) = k_placed (kahn_edge e s) @ new
            \<and> k_next (fold kahn_edge xs (kahn_edge e s)) = k_next (kahn_edge e s) @ new)"
    by (rule Cons.IH) (use step Cons.prems e in auto)
  then show ?case using step(2) e by auto
qed simp

lemma walked_frame [simp]:
  "walked V es L (s\<lparr>k_frontier := f\<rparr>) = walked V es L s" "walked V es L (s\<lparr>k_next := f\<rparr>) = walked V es L s"
  by (simp_all add: walked_def layer_of_def)

lemma mset_out_edges:
  "distinct ns \<Longrightarrow> mset (concat (map (out_edges es) ns)) = filter_mset (\<lambda>e. fst e \<in> set ns) (mset es)"
proof (induction ns)
  case (Cons n ns)
  have "filter_mset (\<lambda>e. fst e = n \<or> fst e \<in> set ns) (mset es)
      = filter_mset (\<lambda>e. fst e = n) (mset es) + filter_mset (\<lambda>e. fst e \<in> set ns) (mset es)"
    using Cons.prems by (intro multiset_eqI) auto
  then show ?case using Cons by (simp add: out_edges_def)
qed simp

lemma fold_concat_map: "fold (\<lambda>n. fold f (g n)) ns s = fold f (concat (map g ns)) s"
  by (induction ns arbitrary: s) simp_all

definition in_rounds :: "jstr list \<Rightarrow> (jstr \<times> jstr) list \<Rightarrow> kahn \<Rightarrow> bool" where
  "in_rounds ids es s \<longleftrightarrow>
     (\<exists>P. k_placed s = P @ k_frontier s
        \<and> walked (set ids) (mset es) (filter_mset (\<lambda>e. fst e \<in> set P) (mset es)) s)"

lemma start_in_rounds:
  assumes "distinct ids"
  shows "in_rounds ids es (kahn_start ids es)"
proof -
  have n: "length (filter (\<lambda>e. snd e = t) es) = feeds (mset es) t" for t
    by (simp add: feeds_def flip: size_mset)
  have "walked (set ids) (mset es) {#} (kahn_start ids es)"
    using assms by (auto simp: walked_def kahn_start_def Let_def layer_of_def n)
  then show ?thesis
    by (auto simp: in_rounds_def kahn_start_def Let_def intro!: exI [of _ "[]"])
qed

lemma round_in_rounds:
  assumes r: "in_rounds ids es s" and ends: "fst ` set es \<union> snd ` set es \<subseteq> set ids"
  shows "in_rounds ids es (kahn_round es s)"
    and "length (k_placed (kahn_round es s)) - length (k_frontier (kahn_round es s)) = length (k_placed s)"
proof -
  obtain P where P: "k_placed s = P @ k_frontier s"
      "walked (set ids) (mset es) (filter_mset (\<lambda>e. fst e \<in> set P) (mset es)) s"
    using r by (auto simp: in_rounds_def)
  let ?L = "filter_mset (\<lambda>e. fst e \<in> set P) (mset es)"
  let ?xs = "concat (map (out_edges es) (k_frontier s))"
  let ?s = "fold kahn_edge ?xs (s\<lparr>k_next := []\<rparr>)"
  have d: "distinct (k_frontier s)" "set P \<inter> set (k_frontier s) = {}"
    using walkedD(2) [OF P(2)] P(1) by auto
  have all: "?L + mset ?xs = filter_mset (\<lambda>e. fst e \<in> set (k_placed s)) (mset es)"
    unfolding mset_out_edges [OF d(1)] using d(2) P(1) by (intro multiset_eqI) auto
  have "walked (set ids) (mset es) (?L + mset ?xs) ?s
     \<and> (\<exists>new. k_placed ?s = k_placed (s\<lparr>k_next := []\<rparr>) @ new \<and> k_next ?s = k_next (s\<lparr>k_next := []\<rparr>) @ new)"
  proof (rule walked_edges)
    show "?L + mset ?xs \<subseteq># mset es" unfolding all by simp
    show "fst ` set ?xs \<subseteq> set (k_placed (s\<lparr>k_next := []\<rparr>))" using P(1) by (auto simp: out_edges_def)
    show "snd ` set ?xs \<subseteq> set ids" using ends by (auto simp: out_edges_def)
  qed (use P(2) in simp)
  then obtain new where n: "walked (set ids) (mset es) (filter_mset (\<lambda>e. fst e \<in> set (k_placed s)) (mset es)) ?s"
      "k_placed ?s = k_placed s @ new" "k_next ?s = new"
    unfolding all by auto
  have e: "kahn_round es s = ?s\<lparr>k_frontier := new, k_next := []\<rparr>"
    by (simp add: kahn_round_def Let_def fold_concat_map n(3))
  show "in_rounds ids es (kahn_round es s)"
    unfolding in_rounds_def e using n by (intro exI [of _ "k_placed s"]) simp
  show "length (k_placed (kahn_round es s)) - length (k_frontier (kahn_round es s)) = length (k_placed s)"
    unfolding e using n by simp
qed

text \<open>The walk ends, since each round follows the edges of nodes no round followed before.\<close>

lemma kahn_walk_ends:
  assumes "distinct ids" "fst ` set es \<union> snd ` set es \<subseteq> set ids"
  obtains s where "kahn_walk ids es = Some s" "k_frontier s = []"
    "walked (set ids) (mset es) (filter_mset (\<lambda>e. fst e \<in> set (k_placed s)) (mset es)) s"
proof -
  let ?left = "\<lambda>s. length ids - (length (k_placed s) - length (k_frontier s))"
  have bound: "length (k_placed s) \<le> length ids" if i: "in_rounds ids es s" for s
  proof -
    have "distinct (k_placed s)" "set (k_placed s) \<subseteq> set ids"
      using i by (auto simp: in_rounds_def dest: walkedD)
    then show ?thesis using assms(1) by (metis card_mono distinct_card finite_set)
  qed
  have "in_rounds ids es (kahn_round es s) \<and> ?left (kahn_round es s) < ?left s"
    if i: "in_rounds ids es s" "k_frontier s \<noteq> []" for s
  proof -
    have "0 < length (k_frontier s)" "length (k_frontier s) \<le> length (k_placed s)"
      using i by (auto simp: in_rounds_def)
    then show ?thesis
      using round_in_rounds [OF i(1) assms(2)] bound [OF i(1)] by (intro conjI) (assumption, arith)
  qed
  then obtain s where s: "kahn_walk ids es = Some s"
    using measure_while_option_Some [of "in_rounds ids es" "\<lambda>s. k_frontier s \<noteq> []" "kahn_round es" ?left "kahn_start ids es"]
      start_in_rounds [OF assms(1)] unfolding kahn_walk_def by blast
  have stop: "k_frontier s = []"
    using while_option_stop [OF s [unfolded kahn_walk_def]] by simp
  have "in_rounds ids es s"
    using while_option_rule [where P = "in_rounds ids es", OF _ s [unfolded kahn_walk_def]]
      start_in_rounds [OF assms(1)] round_in_rounds(1) [OF _ assms(2)] by blast
  then show thesis using that [OF s stop] stop by (auto simp: in_rounds_def)
qed

section \<open>What is placed, and where\<close>

definition finished :: "jstr list \<Rightarrow> (jstr \<times> jstr) list \<Rightarrow> kahn \<Rightarrow> bool" where
  "finished ids es s \<longleftrightarrow>
     fst ` set es \<union> snd ` set es \<subseteq> set ids
     \<and> walked (set ids) (mset es) (filter_mset (\<lambda>e. fst e \<in> set (k_placed s)) (mset es)) s"

lemma finished_ids: "finished ids es s \<Longrightarrow> (u, t) \<in> set es \<Longrightarrow> u \<in> set ids \<and> t \<in> set ids"
  by (force simp: finished_def)

lemma finished_layer:
  "finished ids es s \<Longrightarrow> (u, t) \<in> set es \<Longrightarrow> u \<in> set (k_placed s) \<Longrightarrow> layer_of s u < layer_of s t"
  unfolding finished_def using walkedD(7) [of "set ids" "mset es" _ s "(u, t)"] by auto

lemma finished_source:
  assumes f: "finished ids es s" and e: "(u, t) \<in> set es" "t \<in> set (k_placed s)"
  shows "u \<in> set (k_placed s)"
proof -
  let ?L = "filter_mset (\<lambda>e. fst e \<in> set (k_placed s)) (mset es)"
  have w: "walked (set ids) (mset es) ?L s" using f by (simp add: finished_def)
  have "t \<in> set ids" using finished_ids [OF f e(1)] by simp
  then have "feeds ?L t = feeds (mset es) t" using walkedD(5) [OF w] e(2) by simp
  then have "(u, t) \<in># ?L" using feeds_all [OF walkedD(1) [OF w] _ _ snd_conv, of t u] e(1) by simp
  then show ?thesis by simp
qed

lemma finished_stuck:
  assumes f: "finished ids es s" and t: "t \<in> set ids" "t \<notin> set (k_placed s)"
  obtains u where "(u, t) \<in> set es" "u \<notin> set (k_placed s)"
proof -
  let ?L = "filter_mset (\<lambda>e. fst e \<in> set (k_placed s)) (mset es)"
  have w: "walked (set ids) (mset es) ?L s" using f by (simp add: finished_def)
  have "feeds ?L t \<noteq> feeds (mset es) t" using walkedD(5) [OF w t(1)] t(2) by simp
  then have "\<exists>e \<in> set es. snd e = t \<and> fst e \<notin> set (k_placed s)"
    unfolding feeds_def by (auto simp: filter_filter_mset intro!: arg_cong [of _ _ size] filter_mset_cong)
  then show thesis using that by (metis prod.collapse)
qed

text \<open>The nodes no round places are those a cycle holds up: inside it, or fed by it.\<close>

lemma unplaced_iff:
  assumes f: "finished ids es s" and t: "t \<in> set ids"
  shows "t \<notin> set (k_placed s) \<longleftrightarrow> (\<exists>c. (c, c) \<in> (set es)\<^sup>+ \<and> (c, t) \<in> (set es)\<^sup>*)"
proof
  assume "\<exists>c. (c, c) \<in> (set es)\<^sup>+ \<and> (c, t) \<in> (set es)\<^sup>*"
  then obtain c where c: "(c, c) \<in> (set es)\<^sup>+" "(c, t) \<in> (set es)\<^sup>*" by blast
  show "t \<notin> set (k_placed s)"
  proof
    assume p: "t \<in> set (k_placed s)"
    have "c \<in> set (k_placed s)"
      using c(2) p by (induction rule: converse_rtrancl_induct) (auto intro: finished_source [OF f])
    then have "c \<in> set (k_placed s) \<and> layer_of s c < layer_of s c"
      using c(1)
    proof -
      have "b \<in> set (k_placed s) \<Longrightarrow> a \<in> set (k_placed s) \<and> layer_of s a < layer_of s b" if "(a, b) \<in> (set es)\<^sup>+" for a b
        using that
      proof (induction rule: converse_trancl_induct)
        case (base y)
        then show ?case using finished_source [OF f] finished_layer [OF f] by blast
      next
        case (step y z)
        then show ?case using finished_source [OF f] finished_layer [OF f] by (meson order.strict_trans)
      qed
      then show "c \<in> set (k_placed s) \<Longrightarrow> (c, c) \<in> (set es)\<^sup>+ \<Longrightarrow> c \<in> set (k_placed s) \<and> layer_of s c < layer_of s c"
        by blast
    qed
    then show False by simp
  qed
next
  assume u: "t \<notin> set (k_placed s)"
  show "\<exists>c. (c, c) \<in> (set es)\<^sup>+ \<and> (c, t) \<in> (set es)\<^sup>*"
  proof (rule ccontr)
    assume none: "\<nexists>c. (c, c) \<in> (set es)\<^sup>+ \<and> (c, t) \<in> (set es)\<^sup>*"
    let ?E = "{e \<in> set es. (snd e, t) \<in> (set es)\<^sup>*}"
    have sub: "?E\<^sup>+ \<subseteq> (set es)\<^sup>+" by (intro trancl_mono_subset) auto
    have tail: "(b, t) \<in> (set es)\<^sup>*" if "(a, b) \<in> ?E\<^sup>+" for a b
      using that by (induction rule: trancl_induct) auto
    have "acyclic ?E"
      unfolding acyclic_def using none sub tail by blast
    then have "wf ?E" by (intro finite_acyclic_wf) auto
    moreover have "t \<in> {x \<in> set ids. x \<notin> set (k_placed s) \<and> (x, t) \<in> (set es)\<^sup>*}" using u t by simp
    ultimately obtain m where m: "m \<in> set ids" "m \<notin> set (k_placed s)" "(m, t) \<in> (set es)\<^sup>*"
        "\<And>y. (y, m) \<in> ?E \<Longrightarrow> y \<notin> {x \<in> set ids. x \<notin> set (k_placed s) \<and> (x, t) \<in> (set es)\<^sup>*}"
      by (rule wfE_min) blast
    obtain w where w: "(w, m) \<in> set es" "w \<notin> set (k_placed s)" using finished_stuck [OF f m(1,2)] .
    then have "(w, t) \<in> (set es)\<^sup>*" using m(3) by (rule_tac converse_rtrancl_into_rtrancl)
    then show False using m(3) m(4) [of w] w finished_ids [OF f w(1)] by auto
  qed
qed

lemma placed_acyclic:
  assumes f: "finished ids es s"
  shows "set ids \<subseteq> set (k_placed s) \<longleftrightarrow> acyclic (set es)"
proof
  assume all: "set ids \<subseteq> set (k_placed s)"
  show "acyclic (set es)"
    unfolding acyclic_def
  proof (intro allI notI)
    fix c assume c: "(c, c) \<in> (set es)\<^sup>+"
    then obtain d where "(c, d) \<in> set es" by (meson tranclD)
    then have "c \<in> set ids" using finished_ids [OF f] by blast
    then show False using unplaced_iff [OF f, of c] c all by blast
  qed
next
  assume "acyclic (set es)"
  then show "set ids \<subseteq> set (k_placed s)" using unplaced_iff [OF f] by (auto simp: acyclic_def)
qed

text \<open>When all are placed, the layer of a node is the length of a longest chain of edges into it.\<close>

lemma layer_attained:
  assumes f: "finished ids es s" "set ids \<subseteq> set (k_placed s)"
  shows "\<exists>u. (u, t) \<in> set es ^^ layer_of s t"
proof (induction "layer_of s t" arbitrary: t)
  case 0
  have "(t, t) \<in> set es ^^ 0" by simp
  then show ?case using 0 by metis
next
  case (Suc k)
  have "layer_of s t = 0 \<or> (\<exists>u. (u, t) \<in># filter_mset (\<lambda>e. fst e \<in> set (k_placed s)) (mset es) \<and> layer_of s t = Suc (layer_of s u))"
    using f(1) unfolding finished_def by (elim conjE) (rule walkedD(8))
  then obtain u where u: "(u, t) \<in> set es" "layer_of s t = Suc (layer_of s u)" using Suc.hyps(2) by auto
  then obtain v where "(v, u) \<in> set es ^^ layer_of s u" using Suc.hyps by auto
  then have "(v, t) \<in> set es ^^ Suc (layer_of s u)" using u(1) by auto
  then show ?case using u(2) by metis
qed

lemma layer_longest:
  assumes f: "finished ids es s" "set ids \<subseteq> set (k_placed s)"
  shows "(u, t) \<in> set es ^^ k \<Longrightarrow> k \<le> layer_of s t"
proof (induction k arbitrary: t)
  case (Suc k)
  then obtain v where v: "(u, v) \<in> set es ^^ k" "(v, t) \<in> set es" by auto
  have "layer_of s v < layer_of s t"
    using finished_layer [OF f(1) v(2)] finished_ids [OF f(1) v(2)] f(2) by blast
  then show ?case using Suc.IH [OF v(1)] by simp
qed simp

end
