(* ===== verification/Graph_Shape.thy ===== *)
theory Graph_Shape
  imports Graph_Layout Document_Slots
begin

text \<open>
  What \<open>deriveWalkLayout\<close> answers on a document that was read: always something, a drawing exactly
  when the edges form no cycle, and then every node once, in the longest-path layer, in walk order.
\<close>

section \<open>The pieces of a layout\<close>

lemma set_structural:
  "set (structural document) =
     {(e_from e, e_to e) | e. e \<in> set (d_edges document)
        \<and> e_from e \<in> set (own_keys (d_nodes document)) \<and> e_to e \<in> set (own_keys (d_nodes document))}"
proof -
  let ?ids = "set (own_keys (d_nodes document))"
  have "structural document
      = map (\<lambda>p. (e_from (snd p), e_to (snd p)))
          (filter (\<lambda>p. e_from (snd p) \<in> ?ids \<and> e_to (snd p) \<in> ?ids) (enumerate 0 (d_edges document)))"
    by (simp add: structural_def walk_edges_def Let_def filter_map comp_def case_prod_unfold del: set_own_keys)
  then have "set (structural document)
      = (\<lambda>e. (e_from e, e_to e)) ` {e \<in> snd ` set (enumerate 0 (d_edges document)). e_from e \<in> ?ids \<and> e_to e \<in> ?ids}"
    by (simp add: image_image del: set_own_keys) blast
  then show ?thesis
    unfolding set_map [symmetric] map_snd_enumerate by blast
qed

lemma walk_finished:
  assumes "distinct (own_keys (d_nodes document))"
  obtains s where "kahn_walk (own_keys (d_nodes document)) (structural document) = Some s"
    "finished (own_keys (d_nodes document)) (structural document) s"
proof -
  have ends: "fst ` set (structural document) \<union> snd ` set (structural document) \<subseteq> set (own_keys (d_nodes document))"
    unfolding set_structural by (auto simp del: set_own_keys)
  from kahn_walk_ends [OF assms this] obtain s
    where "kahn_walk (own_keys (d_nodes document)) (structural document) = Some s"
      "walked (set (own_keys (d_nodes document))) (mset (structural document))
         (filter_mset (\<lambda>e. fst e \<in> set (k_placed s)) (mset (structural document))) s" by blast
  then show thesis using that ends by (simp add: finished_def)
qed

lemma walk_rank_inj:
  assumes "a \<in> set ids" "b \<in> set ids" "walk_rank ids order a = walk_rank ids order b"
  shows "a = b"
proof -
  obtain i j where i: "find_index (\<lambda>n. n = a) ids = Some i" and j: "find_index (\<lambda>n. n = b) ids = Some j"
    using assms(1,2) by (cases "find_index (\<lambda>n. n = a) ids"; cases "find_index (\<lambda>n. n = b) ids") (auto simp: find_index_None)
  show ?thesis
    using assms(3) find_index_Some [OF i] find_index_Some [OF j]
    by (auto simp: walk_rank_def i j split: option.splits dest!: find_index_Some)
qed

lemma insert_by_key:
  "sorted_wrt (\<lambda>a b. f a \<le> (f b :: int)) ys \<Longrightarrow> sorted_wrt (\<lambda>a b. f a \<le> f b) (insert_by (\<lambda>a b. f a - f b) x ys)"
  by (induction ys) auto

lemma sort_by_key: "sorted_wrt (\<lambda>a b. f a \<le> (f b :: int)) (sort_by (\<lambda>a b. f a - f b) xs)"
  by (induction xs) (simp_all add: sort_by_def insert_by_key)

lemma sorted_wrt_strict:
  "\<lbrakk>sorted_wrt (\<lambda>a b. f a \<le> (f b :: int)) xs; distinct xs; inj_on f (set xs)\<rbrakk> \<Longrightarrow> sorted_wrt (\<lambda>a b. f a < f b) xs"
proof (induction xs)
  case (Cons x xs)
  have "f x < f y" if y: "y \<in> set xs" for y
  proof -
    have "f x \<noteq> f y" using Cons.prems(2,3) y by (auto dest: inj_onD)
    then show ?thesis using Cons.prems(1) y by (auto simp: order.order_iff_strict)
  qed
  then show ?case using Cons by simp
qed simp

lemma walk_row_facts:
  assumes "distinct ids"
  shows "set (walk_row ids order layer l) = {n \<in> set ids. layer n = l}"
    and "mset (walk_row ids order layer l) = filter_mset (\<lambda>n. layer n = l) (mset ids)"
    and "sorted_wrt (\<lambda>a b. walk_rank ids order a < walk_rank ids order b) (walk_row ids order layer l)"
proof -
  let ?row = "walk_row ids order layer l"
  show s: "set ?row = {n \<in> set ids. layer n = l}" and m: "mset ?row = filter_mset (\<lambda>n. layer n = l) (mset ids)"
    by (simp_all add: walk_row_def)
  have "distinct ?row" using assms m by (metis distinct_filter mset_eq_imp_distinct_iff mset_filter)
  moreover have "inj_on (walk_rank ids order) (set ?row)"
    unfolding s by (intro inj_onI) (auto intro: walk_rank_inj)
  ultimately show "sorted_wrt (\<lambda>a b. walk_rank ids order a < walk_rank ids order b) ?row"
    unfolding walk_row_def by (intro sorted_wrt_strict sort_by_key) simp_all
qed

lemma mset_rows:
  assumes "distinct ids"
  shows "mset (concat (map (walk_row ids order layer) [0..<n])) = filter_mset (\<lambda>x. layer x < n) (mset ids)"
proof (induction n)
  case (Suc n)
  have "filter_mset (\<lambda>x. layer x < Suc n) (mset ids)
      = filter_mset (\<lambda>x. layer x < n) (mset ids) + filter_mset (\<lambda>x. layer x = n) (mset ids)"
    by (intro multiset_eqI) auto
  then show ?case using Suc walk_row_facts(2) [OF assms] by simp
qed simp

lemma foldr_max: "x \<in> set xs \<Longrightarrow> x \<le> foldr max xs (0 :: nat)"
  by (induction xs) auto

section \<open>The answer\<close>

lemma depth_bound:
  "n \<in> set ids \<Longrightarrow> layer n < (if ids = [] then 0 else foldr max (map layer ids) 0 + (1 :: nat))"
  using foldr_max [of "layer n" "map layer ids"] by (auto simp: less_Suc_eq_le)

text \<open>
  One node of the drawing, and the drawing as \<open>deriveWalkLayout\<close> builds it from a finished walk.
\<close>

definition drawn_node :: "graph_document \<Rightarrow> jstr list option \<Rightarrow> nat \<Rightarrow> nat \<times> jstr \<Rightarrow> walk_node" where
  "drawn_node document coverage l = (\<lambda>(column, n).
     \<lparr>w_id = n,
      w_pack = Option.bind (map_of (d_nodes document) n) n_pack,
      w_description = Option.bind (map_of (d_nodes document) n) n_description,
      w_layer = l, w_column = column,
      w_isResult = (\<not> (case d_result document of None \<Rightarrow> False | Some r \<Rightarrow> r \<notin> set (own_keys (d_nodes document)))
         \<and> d_result document = Some n),
      w_inCoverage = (n \<in> set (nodesInWalkOrder coverage))\<rparr>)"

abbreviation drawn_row :: "graph_document \<Rightarrow> jstr list option \<Rightarrow> (jstr \<Rightarrow> nat) \<Rightarrow> nat \<Rightarrow> walk_node list" where
  "drawn_row document coverage layer l \<equiv>
     map (drawn_node document coverage l)
       (enumerate 0 (walk_row (own_keys (d_nodes document)) (nodesInWalkOrder coverage) layer l))"

lemma layout_drawn:
  assumes "deriveWalkLayout document coverage = Some (Drawn sh)"
    and s: "kahn_walk (own_keys (d_nodes document)) (structural document) = Some s"
  obtains n where "set (own_keys (d_nodes document)) \<subseteq> set (k_placed s)"
    "\<forall>x \<in> set (own_keys (d_nodes document)). layer_of s x < n"
    "s_nodes sh = concat (map (drawn_row document coverage (layer_of s)) [0..<n])"
    "s_edges sh = walk_edges document"
proof -
  let ?ids = "own_keys (d_nodes document)"
  let ?n = "if ?ids = [] then 0 else foldr max (map (layer_of s) ?ids) 0 + (1 :: nat)"
  note eq = assms(1) [unfolded deriveWalkLayout_def Let_def s option.case]
  have u: "filter (\<lambda>n. n \<notin> set (k_placed s)) ?ids = []"
    using eq by (auto split: option.splits if_splits)
  note eq = eq [unfolded if_not_P [OF not_not [THEN iffD2, OF u]]]
  show thesis
  proof (rule that [of ?n])
    show "set ?ids \<subseteq> set (k_placed s)" using u by (simp add: filter_empty_conv subset_iff del: set_own_keys)
    show "\<forall>x \<in> set ?ids. layer_of s x < ?n" by (intro ballI depth_bound)
    have "s_nodes sh = concat (map (\<lambda>l. map (drawn_node document coverage l)
            (enumerate 0 (map (walk_row ?ids (nodesInWalkOrder coverage) (layer_of s)) [0..<?n] ! l))) [0..<?n])"
      using eq unfolding drawn_node_def by (auto split: option.splits)
    also have "\<dots> = concat (map (drawn_row document coverage (layer_of s)) [0..<?n])"
      by (intro arg_cong [of _ _ concat] map_cong) simp_all
    finally show "s_nodes sh = concat (map (drawn_row document coverage (layer_of s)) [0..<?n])" .
    show "s_edges sh = walk_edges document" using eq by (auto split: option.splits)
  qed
qed

lemma layout_outcomes:
  assumes d: "distinct (own_keys (d_nodes document))"
    and s: "kahn_walk (own_keys (d_nodes document)) (structural document) = Some s"
    and f: "finished (own_keys (d_nodes document)) (structural document) s"
  shows "acyclic (set (structural document)) \<Longrightarrow> \<exists>sh. deriveWalkLayout document coverage = Some (Drawn sh)"
    and "\<not> acyclic (set (structural document)) \<Longrightarrow>
           (\<exists>i n. (n, n) \<in> set (structural document)
              \<and> deriveWalkLayout document coverage = Some (NotDrawn (SelfLoop i n)))
           \<or> ((\<forall>n. (n, n) \<notin> set (structural document))
              \<and> deriveWalkLayout document coverage
                = Some (NotDrawn (CannotPlace (filter (\<lambda>n. n \<notin> set (k_placed s)) (own_keys (d_nodes document))))))"
proof -
  let ?E = "set (structural document)" and ?ids = "own_keys (d_nodes document)"
  let ?loop = "find (\<lambda>e. w_drawable e \<and> e_from (w_edge e) = e_to (w_edge e)) (walk_edges document)"
  have loop: "(n, n) \<in> ?E \<and> n = e_from (w_edge e)" if "?loop = Some e" "n = e_from (w_edge e)" for e n
    using that by (force simp: find_Some_iff structural_def)
  have noloop: "(n, n) \<notin> ?E" if "?loop = None" for n
    using that by (auto simp: find_None_iff structural_def)
  have eq: "deriveWalkLayout document coverage =
     (case ?loop of Some e \<Rightarrow> Some (NotDrawn (SelfLoop (w_index e) (e_from (w_edge e))))
      | None \<Rightarrow> if filter (\<lambda>n. n \<notin> set (k_placed s)) ?ids \<noteq> []
                then Some (NotDrawn (CannotPlace (filter (\<lambda>n. n \<notin> set (k_placed s)) ?ids)))
                else deriveWalkLayout document coverage)"
    by (cases ?loop) (simp_all add: deriveWalkLayout_def s Let_def del: set_own_keys)
  have all: "filter (\<lambda>n. n \<notin> set (k_placed s)) ?ids = [] \<longleftrightarrow> acyclic ?E"
    using placed_acyclic [OF f] by (auto simp: filter_empty_conv subset_iff simp del: set_own_keys)
  show "\<exists>sh. deriveWalkLayout document coverage = Some (Drawn sh)" if a: "acyclic ?E"
  proof -
    have "?loop = None" using loop a by (cases ?loop) (auto simp: acyclic_def)
    then show ?thesis using a all by (simp add: deriveWalkLayout_def s Let_def del: set_own_keys)
  qed
  show "(\<exists>i n. (n, n) \<in> ?E \<and> deriveWalkLayout document coverage = Some (NotDrawn (SelfLoop i n)))
      \<or> ((\<forall>n. (n, n) \<notin> ?E) \<and> deriveWalkLayout document coverage
          = Some (NotDrawn (CannotPlace (filter (\<lambda>n. n \<notin> set (k_placed s)) ?ids))))"
    if c: "\<not> acyclic ?E"
  proof (cases ?loop)
    case None
    then show ?thesis using eq noloop c all by simp
  next
    case (Some e)
    then show ?thesis using eq loop by auto
  qed
qed

lemma set_drawn_row:
  assumes "distinct (own_keys (d_nodes document))" "w \<in> set (drawn_row document coverage layer l)"
  shows "w_id w \<in> set (own_keys (d_nodes document))" "w_layer w = l" "layer (w_id w) = l"
    and "w_pack w = Option.bind (map_of (d_nodes document) (w_id w)) n_pack"
    and "w_description w = Option.bind (map_of (d_nodes document) (w_id w)) n_description"
    and "w_isResult w \<longleftrightarrow> d_result document = Some (w_id w)"
    and "w_inCoverage w \<longleftrightarrow> w_id w \<in> set (nodesInWalkOrder coverage)"
proof -
  obtain c n where w: "w = drawn_node document coverage l (c, n)"
      "(c, n) \<in> set (enumerate 0 (walk_row (own_keys (d_nodes document)) (nodesInWalkOrder coverage) layer l))"
    using assms(2) by auto
  have "n \<in> set (walk_row (own_keys (d_nodes document)) (nodesInWalkOrder coverage) layer l)"
    using w(2) by (metis enumerate_eq_zip set_zip_rightD)
  then have n: "n \<in> set (own_keys (d_nodes document))" "layer n = l"
    using walk_row_facts(1) [OF assms(1)] by auto
  then show "w_id w \<in> set (own_keys (d_nodes document))" "w_layer w = l" "layer (w_id w) = l"
      "w_pack w = Option.bind (map_of (d_nodes document) (w_id w)) n_pack"
      "w_description w = Option.bind (map_of (d_nodes document) (w_id w)) n_description"
      "w_isResult w \<longleftrightarrow> d_result document = Some (w_id w)"
      "w_inCoverage w \<longleftrightarrow> w_id w \<in> set (nodesInWalkOrder coverage)"
    by (auto simp: w(1) drawn_node_def simp del: set_own_keys split: option.splits)
qed

text \<open>The order of the drawing: by layer, then by column, which follows the walk.\<close>

definition drawn_before :: "graph_document \<Rightarrow> jstr list option \<Rightarrow> walk_node \<Rightarrow> walk_node \<Rightarrow> bool" where
  "drawn_before document coverage a b \<longleftrightarrow>
     w_layer a < w_layer b
     \<or> (w_layer a = w_layer b \<and> w_column a < w_column b
        \<and> walk_rank (own_keys (d_nodes document)) (nodesInWalkOrder coverage) (w_id a)
          < walk_rank (own_keys (d_nodes document)) (nodesInWalkOrder coverage) (w_id b))"

lemma drawn_row_sorted:
  assumes "distinct (own_keys (d_nodes document))"
  shows "sorted_wrt (drawn_before document coverage) (drawn_row document coverage layer l)"
  using walk_row_facts(3) [OF assms, of "nodesInWalkOrder coverage" layer l]
  by (auto simp: sorted_wrt_iff_nth_less nth_enumerate_eq drawn_before_def drawn_node_def)

lemma drawn_rows_sorted:
  assumes "distinct (own_keys (d_nodes document))"
  shows "sorted_wrt (drawn_before document coverage) (concat (map (drawn_row document coverage layer) [0..<n]))"
proof (induction n)
  case (Suc n)
  have "drawn_before document coverage a b"
    if "a \<in> set (drawn_row document coverage layer l)" "l < n" "b \<in> set (drawn_row document coverage layer n)" for a b l
    using set_drawn_row(2) [OF assms that(1)] set_drawn_row(2) [OF assms that(3)] that(2)
    by (simp add: drawn_before_def)
  then have "\<forall>a \<in> set (concat (map (drawn_row document coverage layer) [0..<n])).
      \<forall>b \<in> set (drawn_row document coverage layer n). drawn_before document coverage a b"
    unfolding set_concat set_map image_image by (intro ballI) (elim UN_E, simp only: set_upt atLeastLessThan_iff set_map)
  then show ?case using Suc drawn_row_sorted [OF assms]
    by (simp only: upt_Suc_append [OF le0] map_append concat_append list.map concat.simps append_Nil2 sorted_wrt_append)
qed simp

lemma ids_of_rows:
  "map w_id (concat (map (drawn_row document coverage layer) ls))
     = concat (map (walk_row (own_keys (d_nodes document)) (nodesInWalkOrder coverage) layer) ls)"
proof -
  have "map w_id (drawn_row document coverage layer l)
      = walk_row (own_keys (d_nodes document)) (nodesInWalkOrder coverage) layer l" for l
    unfolding drawn_node_def case_prod_unfold map_map comp_def walk_node.simps by (rule map_snd_enumerate)
  then show ?thesis by (simp add: map_concat comp_def)
qed

section \<open>A sample\<close>

definition sample_graph :: jstr where
  "sample_graph = js ''{'' @ stringify_string (js ''nodes'') @ js '':{'' @ stringify_string (js ''a'') @ js '':{},''
     @ stringify_string (js ''b'') @ js '':{}},'' @ stringify_string (js ''edges'') @ js '':[{''
     @ stringify_string (js ''from'') @ js '':'' @ stringify_string (js ''b'') @ js '',''
     @ stringify_string (js ''to'') @ js '':'' @ stringify_string (js ''a'') @ js ''}]}''"

lemma sample_graph_drawn:
  obtains document sh where "readGraphDocument sample_graph = Inr document"
    "deriveWalkLayout document None = Some (Drawn sh)" "map w_id (s_nodes sh) = [js ''b'', js ''a'']"
proof -
  have "case readGraphDocument sample_graph of Inl _ \<Rightarrow> False | Inr d \<Rightarrow>
     (case deriveWalkLayout d None of Some (Drawn sh) \<Rightarrow> map w_id (s_nodes sh) = [js ''b'', js ''a''] | _ \<Rightarrow> False)"
    by code_simp
  then show thesis using that
    by (auto simp del: js_Cons split: sum.splits option.splits walk_layout.splits)
qed

section \<open>The properties\<close>

text \<open>C14: On every document that was read the layering ends and answers: it draws when the drawable
  edges form no cycle; else it names a self-loop of the document, or, where there is none, exactly the
  nodes inside a cycle or fed by one, in the order of the document.\<close>

theorem layout_answers:
  assumes "readGraphDocument text = Inr document"
  shows "if acyclic (set (structural document))
         then \<exists>sh. deriveWalkLayout document coverage = Some (Drawn sh)
         else (\<exists>i n. (n, n) \<in> set (structural document)
                 \<and> deriveWalkLayout document coverage = Some (NotDrawn (SelfLoop i n)))
              \<or> (\<exists>ns. (\<forall>n. (n, n) \<notin> set (structural document))
                   \<and> deriveWalkLayout document coverage = Some (NotDrawn (CannotPlace ns))
                   \<and> subseq ns (own_keys (d_nodes document))
                   \<and> set ns = {n \<in> set (own_keys (d_nodes document)).
                        \<exists>c. (c, c) \<in> (set (structural document))\<^sup>+ \<and> (c, n) \<in> (set (structural document))\<^sup>*})"
proof -
  note d = read_distinct [OF assms]
  obtain s where s: "kahn_walk (own_keys (d_nodes document)) (structural document) = Some s"
      "finished (own_keys (d_nodes document)) (structural document) s"
    using walk_finished [OF d] .
  let ?ns = "filter (\<lambda>n. n \<notin> set (k_placed s)) (own_keys (d_nodes document))"
  have ns: "subseq ?ns (own_keys (d_nodes document))"
      "set ?ns = {n \<in> set (own_keys (d_nodes document)).
                    \<exists>c. (c, c) \<in> (set (structural document))\<^sup>+ \<and> (c, n) \<in> (set (structural document))\<^sup>*}"
    using unplaced_iff [OF s(2)] unfolding set_filter by (simp, intro Collect_cong conj_cong refl)
  show ?thesis
  proof (cases "acyclic (set (structural document))")
    case True
    then show ?thesis using layout_outcomes(1) [OF d s] by simp
  next
    case False
    show ?thesis
      unfolding if_not_P [OF False] using layout_outcomes(2) [OF d s False, of coverage]
    proof (elim disjE conjE, goal_cases)
      case 2
      then show ?case using ns by (intro disjI2 exI [of _ ?ns] conjI)
    qed (rule disjI1)
  qed
qed

theorem layout_answers_witness:
  "\<exists>document. readGraphDocument sample_graph = Inr document
     \<and> (acyclic (set (structural document)) \<longrightarrow> (\<exists>sh. deriveWalkLayout document None = Some (Drawn sh)))"
proof (rule sample_graph_drawn)
  fix document sh assume d: "readGraphDocument sample_graph = Inr document"
  show ?thesis using layout_answers [OF d, of None] d by auto
qed

text \<open>C15: A drawing shows each declared node exactly once, with what the document declares of it, in the
  layer that is the length of a longest chain of drawable edges into it; it marks the declared result
  and the nodes the coverage report names.\<close>

theorem layout_places_every_node:
  assumes "readGraphDocument text = Inr document" "deriveWalkLayout document coverage = Some (Drawn sh)"
  shows "mset (map w_id (s_nodes sh)) = mset (own_keys (d_nodes document))
    \<and> (\<forall>w \<in> set (s_nodes sh).
          (\<exists>u. (u, w_id w) \<in> set (structural document) ^^ w_layer w)
          \<and> (\<forall>u k. (u, w_id w) \<in> set (structural document) ^^ k \<longrightarrow> k \<le> w_layer w)
          \<and> w_pack w = Option.bind (map_of (d_nodes document) (w_id w)) n_pack
          \<and> w_description w = Option.bind (map_of (d_nodes document) (w_id w)) n_description
          \<and> (w_isResult w \<longleftrightarrow> d_result document = Some (w_id w))
          \<and> (w_inCoverage w \<longleftrightarrow> w_id w \<in> set (nodesInWalkOrder coverage)))"
proof -
  note d = read_distinct [OF assms(1)]
  obtain s where s: "kahn_walk (own_keys (d_nodes document)) (structural document) = Some s"
      "finished (own_keys (d_nodes document)) (structural document) s"
    using walk_finished [OF d] .
  obtain n where n: "set (own_keys (d_nodes document)) \<subseteq> set (k_placed s)"
      "\<forall>x \<in> set (own_keys (d_nodes document)). layer_of s x < n"
      "s_nodes sh = concat (map (drawn_row document coverage (layer_of s)) [0..<n])"
      "s_edges sh = walk_edges document"
    using layout_drawn [OF assms(2) s(1)] .
  have "mset (map w_id (s_nodes sh)) = filter_mset (\<lambda>x. layer_of s x < n) (mset (own_keys (d_nodes document)))"
    unfolding n(3) ids_of_rows mset_rows [OF d] ..
  also have "\<dots> = mset (own_keys (d_nodes document))"
    using n(2) by (simp add: filter_mset_eq_conv del: set_own_keys)
  finally have once: "mset (map w_id (s_nodes sh)) = mset (own_keys (d_nodes document))" .
  have row: "\<exists>l. w \<in> set (drawn_row document coverage (layer_of s) l)" if "w \<in> set (s_nodes sh)" for w
    using that unfolding n(3) set_concat set_map image_image by blast
  show ?thesis
  proof (intro conjI ballI allI impI once)
    fix w assume "w \<in> set (s_nodes sh)"
    then obtain l where l: "w \<in> set (drawn_row document coverage (layer_of s) l)" using row by blast
    note w = set_drawn_row [OF d l]
    show "\<exists>u. (u, w_id w) \<in> set (structural document) ^^ w_layer w"
      using layer_attained [OF s(2) n(1), of "w_id w"] w(2,3) by simp
    show "k \<le> w_layer w" if "(u, w_id w) \<in> set (structural document) ^^ k" for u k
      using layer_longest [OF s(2) n(1) that] w(2,3) by simp
  qed (use row set_drawn_row(4-7) [OF d] in blast)+
qed

theorem layout_places_every_node_witness:
  "\<exists>document sh. readGraphDocument sample_graph = Inr document
     \<and> deriveWalkLayout document None = Some (Drawn sh) \<and> map w_id (s_nodes sh) = [js ''b'', js ''a'']
     \<and> mset [js ''b'', js ''a''] = mset (own_keys (d_nodes document))"
proof (rule sample_graph_drawn)
  fix document sh
  assume d: "readGraphDocument sample_graph = Inr document" "deriveWalkLayout document None = Some (Drawn sh)"
    "map w_id (s_nodes sh) = [js ''b'', js ''a'']"
  show ?thesis using layout_places_every_node [OF d(1,2)] d by metis
qed

text \<open>The order of a drawing is layer by layer, and inside a layer the walk order of the coverage
  report, then the order of the document; every drawable edge leads to a strictly later layer.\<close>

theorem layout_follows_walk:
  assumes "readGraphDocument text = Inr document" "deriveWalkLayout document coverage = Some (Drawn sh)"
  shows "sorted_wrt (drawn_before document coverage) (s_nodes sh)
    \<and> (\<forall>a \<in> set (s_nodes sh). \<forall>b \<in> set (s_nodes sh).
          (w_id a, w_id b) \<in> set (structural document) \<longrightarrow> w_layer a < w_layer b)"
proof -
  note d = read_distinct [OF assms(1)]
  obtain s where s: "kahn_walk (own_keys (d_nodes document)) (structural document) = Some s"
      "finished (own_keys (d_nodes document)) (structural document) s"
    using walk_finished [OF d] .
  obtain n where n: "set (own_keys (d_nodes document)) \<subseteq> set (k_placed s)"
      "\<forall>x \<in> set (own_keys (d_nodes document)). layer_of s x < n"
      "s_nodes sh = concat (map (drawn_row document coverage (layer_of s)) [0..<n])"
      "s_edges sh = walk_edges document"
    using layout_drawn [OF assms(2) s(1)] .
  have row: "\<exists>l. w \<in> set (drawn_row document coverage (layer_of s) l)" if "w \<in> set (s_nodes sh)" for w
    using that unfolding n(3) set_concat set_map image_image by blast
  have at_layer: "w_layer w = layer_of s (w_id w)" if "w \<in> set (s_nodes sh)" for w
    using row [OF that] set_drawn_row(2,3) [OF d] by metis
  show ?thesis
  proof (intro conjI ballI impI)
    show "sorted_wrt (drawn_before document coverage) (s_nodes sh)"
      unfolding n(3) by (rule drawn_rows_sorted [OF d])
    fix a b assume ab: "a \<in> set (s_nodes sh)" "b \<in> set (s_nodes sh)" "(w_id a, w_id b) \<in> set (structural document)"
    then show "w_layer a < w_layer b"
      using finished_layer [OF s(2) ab(3)] finished_ids [OF s(2) ab(3)] n(1) at_layer by auto
  qed
qed

theorem layout_follows_walk_witness:
  "\<exists>document sh. readGraphDocument sample_graph = Inr document
     \<and> deriveWalkLayout document None = Some (Drawn sh) \<and> map w_id (s_nodes sh) = [js ''b'', js ''a'']
     \<and> sorted_wrt (drawn_before document None) (s_nodes sh)"
proof (rule sample_graph_drawn)
  fix document sh
  assume d: "readGraphDocument sample_graph = Inr document" "deriveWalkLayout document None = Some (Drawn sh)"
    "map w_id (s_nodes sh) = [js ''b'', js ''a'']"
  show ?thesis
    using d layout_follows_walk [OF d(1,2), THEN conjunct1] by (intro exI conjI)
qed

end
