(* ===== verification/Ed25519.thy ===== *)
theory Ed25519
  imports Canon
begin

text \<open>
  \<open>research/verify/ed25519.ts\<close>: Ed25519 verification over unbounded integers.  A point is in extended
  twisted Edwards coordinates.  SHA-512 is the argument \<open>sha512\<close>, since it is the platform's.
\<close>

unbundle bit_operations_syntax

section \<open>The field\<close>

definition P :: int where
  "P = push_bit 255 1 - 19"

definition L :: int where
  "L = push_bit 252 1 + 27742317777372353535851937790883648493"

text \<open>\<open>%\<close> on BigInt takes the sign of the dividend; \<open>mod_P\<close> is the source's \<open>mod\<close>.\<close>

definition js_rem :: "int \<Rightarrow> int \<Rightarrow> int" where
  "js_rem a b = (if a < 0 then - (\<bar>a\<bar> mod \<bar>b\<bar>) else \<bar>a\<bar> mod \<bar>b\<bar>)"

definition mod_P :: "int \<Rightarrow> int" where
  "mod_P a = (let r = js_rem a P in if r < 0 then r + P else r)"

text \<open>The loop of \<open>pow\<close>: the result so far, the base and the exponent that is left.\<close>

function pow_loop :: "int \<Rightarrow> int \<Rightarrow> int \<Rightarrow> int" where
  "pow_loop result b e =
     (if 0 < e
      then pow_loop (if e AND 1 \<noteq> 0 then js_rem (result * b) P else result) (js_rem (b * b) P) (drop_bit 1 e)
      else result)"
  by pat_completeness auto
termination
  by (relation "measure (\<lambda>(_, _, e). nat e)") (auto simp: drop_bit_eq_div)

declare pow_loop.simps [simp del]

definition pow :: "int \<Rightarrow> int \<Rightarrow> int" where
  "pow base exponent = pow_loop 1 (mod_P base) exponent"

definition inverse_P :: "int \<Rightarrow> int" where
  "inverse_P a = pow a (P - 2)"

definition D :: int where
  "D = mod_P (- 121665 * inverse_P 121666)"

definition SQRT_M1 :: int where
  "SQRT_M1 = pow 2 ((P - 1) div 4)"

definition BASE_Y :: int where
  "BASE_Y = mod_P (4 * inverse_P 5)"

section \<open>Points\<close>

record point =
  px :: int
  py :: int
  pz :: int
  pt :: int

definition IDENTITY :: point where
  "IDENTITY = \<lparr>px = 0, py = 1, pz = 1, pt = 0\<rparr>"

definition add :: "point \<Rightarrow> point \<Rightarrow> point" where
  "add p q =
     (let a = mod_P ((py p - px p) * (py q - px q));
          b = mod_P ((py p + px p) * (py q + px q));
          c = mod_P (2 * pt p * pt q * D);
          d = mod_P (2 * pz p * pz q);
          e = b - a;
          f = d - c;
          g = d + c;
          h = b + a
      in \<lparr>px = mod_P (e * f), py = mod_P (g * h), pz = mod_P (f * g), pt = mod_P (e * h)\<rparr>)"

definition double_point :: "point \<Rightarrow> point" where
  "double_point p = add p p"

function multiply_loop :: "point \<Rightarrow> point \<Rightarrow> int \<Rightarrow> point" where
  "multiply_loop result addend k =
     (if 0 < k
      then multiply_loop (if k AND 1 \<noteq> 0 then add result addend else result) (double_point addend) (drop_bit 1 k)
      else result)"
  by pat_completeness auto
termination
  by (relation "measure (\<lambda>(_, _, k). nat k)") (auto simp: drop_bit_eq_div)

declare multiply_loop.simps [simp del]

definition multiply :: "point \<Rightarrow> int \<Rightarrow> point" where
  "multiply p scalar = multiply_loop IDENTITY p scalar"

definition recoverX :: "int \<Rightarrow> int \<Rightarrow> int option" where
  "recoverX y sign =
     (let y2 = mod_P (y * y);
          u = mod_P (y2 - 1);
          v = mod_P (D * y2 + 1);
          x = mod_P (pow (u * inverse_P v) ((P + 3) div 8));
          vx2 = mod_P (v * x * x)
      in if vx2 \<noteq> u \<and> vx2 \<noteq> mod_P (- u) then None
         else (let x = (if vx2 \<noteq> u then mod_P (x * SQRT_M1) else x)
               in if x = 0 \<and> sign = 1 then None
                  else Some (if x AND 1 \<noteq> sign then mod_P (- x) else x)))"

section \<open>Bytes\<close>

definition bytesToBigIntLE :: "byte list \<Rightarrow> int" where
  "bytesToBigIntLE bytes = foldl (\<lambda>value b. push_bit 8 value OR int (unat b)) 0 (rev bytes)"

definition decodePoint :: "byte list \<Rightarrow> point option" where
  "decodePoint bytes =
     (if length bytes \<noteq> 32 then None
      else
        (let raw = bytesToBigIntLE bytes;
             sign = drop_bit 255 raw;
             y = raw AND (push_bit 255 1 - 1)
         in if P \<le> y then None
            else case recoverX y sign of
                   None \<Rightarrow> None
                 | Some x \<Rightarrow> Some \<lparr>px = x, py = y, pz = 1, pt = mod_P (x * y)\<rparr>))"

text \<open>The bytes of \<open>y\<close>, lowest first, and the sign of \<open>x\<close> in the top bit of the last.\<close>

fun le_bytes :: "nat \<Rightarrow> int \<Rightarrow> byte list" where
  "le_bytes 0 v = []"
| "le_bytes (Suc n) v = of_int (v AND 0xFF) # le_bytes n (drop_bit 8 v)"

definition encodePoint :: "point \<Rightarrow> byte list" where
  "encodePoint p =
     (let zi = inverse_P (pz p);
          x = mod_P (px p * zi);
          y = mod_P (py p * zi);
          out = le_bytes 32 y
      in out[31 := out ! 31 OR of_int (push_bit 7 (x AND 1))])"

text \<open>The base point; \<^term>\<open>None\<close> is the error the source throws where it cannot be recovered.\<close>

definition basePoint :: "point option" where
  "basePoint =
     map_option (\<lambda>x. \<lparr>px = x, py = BASE_Y, pz = 1, pt = mod_P (x * BASE_Y)\<rparr>) (recoverX BASE_Y 0)"

definition smallOrder :: "point \<Rightarrow> bool" where
  "smallOrder p =
     (let eight = double_point (double_point (double_point p));
          zi = inverse_P (pz eight)
      in mod_P (px eight * zi) = 0 \<and> mod_P (py eight * zi) = 1)"

definition isSmallOrderPoint :: "byte list \<Rightarrow> bool" where
  "isSmallOrderPoint bytes = (case decodePoint bytes of None \<Rightarrow> False | Some p \<Rightarrow> smallOrder p)"

text \<open>\<open>equal\<close>: the differences of all bytes, gathered before the one test.\<close>

definition same_bytes :: "byte list \<Rightarrow> byte list \<Rightarrow> bool" where
  "same_bytes a b =
     (if length a \<noteq> length b then False
      else fold (\<lambda>(x, y) diff. diff OR (x XOR y)) (zip a b) 0 = 0)"

definition verifyEd25519Pure :: "(byte list \<Rightarrow> byte list) \<Rightarrow> byte list \<Rightarrow> byte list \<Rightarrow> byte list \<Rightarrow> bool option" where
  "verifyEd25519Pure sha512 publicKey message signature =
     (if length publicKey \<noteq> 32 \<or> length signature \<noteq> 64 then Some False
      else
        (case (decodePoint publicKey, decodePoint (take 32 signature)) of
           (Some a, Some r) \<Rightarrow>
             if smallOrder a \<or> smallOrder r then Some False
             else
               (let s = bytesToBigIntLE (drop 32 signature)
                in if L \<le> s then Some False
                   else
                     (let hash = sha512 (take 32 signature @ publicKey @ message);
                          k = js_rem (bytesToBigIntLE hash) L
                      in case basePoint of
                           None \<Rightarrow> None
                         | Some b \<Rightarrow> Some (same_bytes (encodePoint (multiply b s)) (encodePoint (add r (multiply a k))))))
         | _ \<Rightarrow> Some False))"

end
