(* ===== verification/Receipt.thy ===== *)
theory Receipt
  imports Ed25519
begin

text \<open>
  \<open>research/verify/receipt.ts\<close>: what a receipt's and a seal's signature cover, the id of a public key,
  and the choice between the platform's Ed25519 and the one in this repository.  The platform is an
  argument: \<open>toLowerCase\<close>, SHA-256, SHA-512, and WebCrypto's import and verification of a key, where
  \<^term>\<open>None\<close> is an exception.
\<close>

record platform =
  p_lower :: "jstr \<Rightarrow> jstr"
  p_sha256 :: "byte list \<Rightarrow> byte list"
  p_sha512 :: "byte list \<Rightarrow> byte list"
  p_web :: "byte list \<Rightarrow> byte list \<Rightarrow> byte list \<Rightarrow> bool option"

datatype receipt_version = V2 | V3

datatype signing_error = NotAReceipt | NotASeal | SealWithout jstr | NotCanonical canon_error

definition RECEIPT_PREFIX_2 :: jstr where "RECEIPT_PREFIX_2 = js ''judgment-pack-gateway/receipt/2:''"
definition RECEIPT_PREFIX_3 :: jstr where "RECEIPT_PREFIX_3 = js ''judgment-pack-gateway/receipt/3:''"
definition SEAL_PREFIX :: jstr where "SEAL_PREFIX = js ''judgment-pack-gateway/seal/2:''"

definition withPrefix :: "jstr \<Rightarrow> byte list \<Rightarrow> byte list" where
  "withPrefix pre canonical = text_bytes pre @ canonical"

definition receiptSigningInput :: "json_node \<Rightarrow> receipt_version \<Rightarrow> signing_error + byte list" where
  "receiptSigningInput receipt version =
     (case receipt of
        NObj ms \<Rightarrow>
          (case canonicalize (NObj (filter (\<lambda>m. fst m \<noteq> js ''signature'') ms)) of
             Inl e \<Rightarrow> Inl (NotCanonical e)
           | Inr canonical \<Rightarrow>
               Inr (withPrefix (case version of V3 \<Rightarrow> RECEIPT_PREFIX_3 | V2 \<Rightarrow> RECEIPT_PREFIX_2) canonical))
      | _ \<Rightarrow> Inl NotAReceipt)"

fun seal_members :: "json_node \<Rightarrow> jstr list \<Rightarrow> signing_error + (jstr \<times> json_node) list" where
  "seal_members seal [] = Inr []"
| "seal_members seal (name # names) =
     (case memberOf seal name of
        None \<Rightarrow> Inl (SealWithout name)
      | Some value \<Rightarrow> map_sum id ((#) (name, value)) (seal_members seal names))"

definition sealSigningInput :: "json_node \<Rightarrow> signing_error + byte list" where
  "sealSigningInput seal =
     (case seal of
        NObj _ \<Rightarrow>
          (case seal_members seal [js ''sessionId'', js ''finalCount'', js ''sealedAt'', js ''keyId''] of
             Inl e \<Rightarrow> Inl e
           | Inr members \<Rightarrow>
               (case canonicalize (NObj members) of
                  Inl e \<Rightarrow> Inl (NotCanonical e)
                | Inr canonical \<Rightarrow> Inr (withPrefix SEAL_PREFIX canonical)))
      | _ \<Rightarrow> Inl NotASeal)"

definition sha256Hex :: "platform \<Rightarrow> byte list \<Rightarrow> jstr" where
  "sha256Hex pf bytes = bytesToHex (p_sha256 pf bytes)"

definition keyIdOf :: "platform \<Rightarrow> jstr \<Rightarrow> canon_error + jstr" where
  "keyIdOf pf publicKeyHex = map_sum id (\<lambda>key. take 32 (sha256Hex pf key)) (hexToBytes publicKeyHex)"

definition PROBE_PUBLIC :: jstr where
  "PROBE_PUBLIC = js ''d75a980182b10ab7d54bfed3c964073a0ee172f3daa62325af021a68f707511a''"

definition PROBE_SIGNATURE :: jstr where
  "PROBE_SIGNATURE = js ''e5564300c360ac729086e2cc806e828a84877f1eb8e5d974d873e065224901555fb8821590a33bacc61e39701cf9b46bd25bf5f0595bbe24655141438e7a100b''"

definition webCryptoSpeaksEd25519 :: "platform \<Rightarrow> bool" where
  "webCryptoSpeaksEd25519 pf =
     (case (hexToBytes PROBE_PUBLIC, hexToBytes PROBE_SIGNATURE) of
        (Inr key, Inr signature) \<Rightarrow> p_web pf key [] signature = Some True
      | _ \<Rightarrow> False)"

text \<open>\<^term>\<open>None\<close> is the error of a base point that could not be recovered.\<close>

definition verifyEd25519 :: "platform \<Rightarrow> jstr \<Rightarrow> byte list \<Rightarrow> jstr \<Rightarrow> bool option" where
  "verifyEd25519 pf publicKeyHex message signatureHex =
     (case (hexToBytes publicKeyHex, hexToBytes signatureHex) of
        (Inr publicKey, Inr signature) \<Rightarrow>
          if length publicKey \<noteq> 32 \<or> length signature \<noteq> 64 then Some False
          else if isSmallOrderPoint publicKey \<or> isSmallOrderPoint (take 32 signature) then Some False
          else if \<not> webCryptoSpeaksEd25519 pf then verifyEd25519Pure (p_sha512 pf) publicKey message signature
          else Some (p_web pf publicKey message signature = Some True)
      | _ \<Rightarrow> Some False)"

end
