(* ===== verification/Session.thy ===== *)
theory Session
  imports Receipt Js_Text
begin

text \<open>
  \<open>research/verify/session.ts\<close>: the consumer's verification of one session: the ladder every held
  receipt climbs, the sequence and the chain of those that passed, and the seal of the registry.
\<close>

section \<open>What is held, and what is said of it\<close>

record held_receipt =
  h_receipt :: json_node
  h_result :: "json_node option"

datatype status =
    OkStatus
  | Malformed
  | UnsupportedVersion
  | KeyMismatch
  | SignatureMismatch
  | Misfiled
  | AuthorityMismatch
  | ActionUnchecked
  | ArtifactMissing
  | ArtifactMismatch
  | SequenceBroken
  | ChainBroken
  | UnregisteredSession
  | TailRollback
  | CountExceedsSeal

record finding =
  f_sessionId :: jstr
  f_callIndex :: "int option"
  f_status :: status
  f_file :: "jstr option"

record session_input =
  i_sessionId :: jstr
  i_authority :: jstr
  i_publicKeyHex :: jstr
  i_receipts :: "held_receipt list"
  i_registryText :: jstr

record session_verdict =
  v_ok :: bool
  v_findings :: "finding list"
  v_sealed :: bool
  v_keyId :: jstr

text \<open>What \<open>verifySession\<close> throws: the pinned key is not hex, or Ed25519 has no base point.\<close>

datatype session_error = BadKey canon_error | NoBasePoint

section \<open>Tests on members\<close>

definition hex_char :: "code_unit \<Rightarrow> bool" where
  "hex_char c \<longleftrightarrow> is_lower_hex c \<or> (65 \<le> c \<and> c \<le> 70)"

definition DIGEST :: "jstr \<Rightarrow> bool" where
  "DIGEST t = (prefix (js ''sha256:'') t \<and> length (drop 7 t) = 64 \<and> list_all is_lower_hex (drop 7 t))"

definition SIGNATURE_3 :: "jstr \<Rightarrow> bool" where
  "SIGNATURE_3 t = (length t = 128 \<and> list_all is_lower_hex t)"

definition HEX :: "jstr \<Rightarrow> bool" where
  "HEX t = (t \<noteq> [] \<and> list_all hex_char t)"

definition HMAC_DIGEST :: "jstr \<Rightarrow> bool" where
  "HMAC_DIGEST t = (prefix (js ''hmac-sha256:'') t \<and> HEX (drop 12 t))"

definition token_char :: "code_unit \<Rightarrow> bool" where
  "token_char c \<longleftrightarrow>
     (65 \<le> c \<and> c \<le> 90) \<or> (97 \<le> c \<and> c \<le> 122) \<or> is_digit c \<or> c \<in> set (js ''._-'')"

definition SESSION_TOKEN :: "jstr \<Rightarrow> bool" where
  "SESSION_TOKEN t = (1 \<le> length t \<and> length t \<le> 128 \<and> list_all token_char t)"

definition SHAPES :: "jstr list" where
  "SHAPES = [js ''airbyte'', js ''mcp'', js ''http'', js ''command'']"

text \<open>A \<open>Map\<close> of the members, in which a repeated name has its last value.\<close>

definition membersOf :: "json_node \<Rightarrow> (jstr \<Rightarrow> json_node option) option" where
  "membersOf node = (case node of NObj ms \<Rightarrow> Some (map_of (rev ms)) | _ \<Rightarrow> None)"

definition isString :: "json_node option \<Rightarrow> bool" where
  "isString node = (case node of Some (NStr _) \<Rightarrow> True | _ \<Rightarrow> False)"

definition text_of :: "json_node option \<Rightarrow> jstr" where
  "text_of node = (case node of Some (NStr s) \<Rightarrow> s | _ \<Rightarrow> [])"

definition isNullOrString :: "json_node option \<Rightarrow> bool" where
  "isNullOrString node = (case node of Some NNull \<Rightarrow> True | Some (NStr _) \<Rightarrow> True | _ \<Rightarrow> False)"

definition isDigest :: "json_node option \<Rightarrow> bool" where
  "isDigest node = (case node of Some (NStr s) \<Rightarrow> DIGEST s | _ \<Rightarrow> False)"

definition isNullOrDigest :: "json_node option \<Rightarrow> bool" where
  "isNullOrDigest node = (case node of Some NNull \<Rightarrow> True | _ \<Rightarrow> isDigest node)"

definition isInteger :: "json_node option \<Rightarrow> bool" where
  "isInteger node = (case node of Some (NNum literal) \<Rightarrow> INTEGER_LITERAL literal | _ \<Rightarrow> False)"

definition integer_value :: "json_node option \<Rightarrow> int" where
  "integer_value node = (case node of Some (NNum literal) \<Rightarrow> int_literal literal | _ \<Rightarrow> 0)"

section \<open>The shape of a receipt\<close>

definition adapterMalformed :: "json_node option \<Rightarrow> bool" where
  "adapterMalformed node =
     (case Option.bind node membersOf of
        None \<Rightarrow> True
      | Some m \<Rightarrow> \<not> isString (m (js ''name'')) \<or> \<not> isString (m (js ''version'')) \<or> \<not> isDigest (m (js ''digest'')))"

definition acquisitionMalformed :: "json_node option \<Rightarrow> bool" where
  "acquisitionMalformed node =
     (case Option.bind node membersOf of
        None \<Rightarrow> True
      | Some a \<Rightarrow>
          if adapterMalformed (a (js ''adapter'')) then True
          else if \<not> isString (a (js ''shape'')) \<or> text_of (a (js ''shape'')) \<notin> set SHAPES then True
          else if \<not> isNullOrString (a (js ''endpoint'')) \<or> \<not> isNullOrDigest (a (js ''statement''))
                  \<or> \<not> isNullOrString (a (js ''snapshot'')) then True
          else if \<not> isNullOrString (a (js ''peerIdentity'')) \<or> \<not> isNullOrDigest (a (js ''schema''))
                  \<or> \<not> isNullOrString (a (js ''upstreamToken'')) then True
          else if \<not> isString (a (js ''observedAt'')) then True
          else (case a (js ''pageItems'') of
                  None \<Rightarrow> False
                | Some (NArr items) \<Rightarrow> \<not> list_all (\<lambda>x. isDigest (Some x)) items
                | Some _ \<Rightarrow> True))"

definition citeMalformed :: "json_node \<Rightarrow> bool" where
  "citeMalformed cite =
     (case membersOf cite of
        None \<Rightarrow> True
      | Some c \<Rightarrow>
          (let sessionId = c (js ''sessionId''); signature = c (js ''signature''); index = c (js ''callIndex'')
           in \<not> isString sessionId \<or> \<not> SESSION_TOKEN (text_of sessionId)
              \<or> text_of sessionId = js ''.'' \<or> text_of sessionId = js ''..''
              \<or> \<not> isInteger index \<or> integer_value index < 0
              \<or> \<not> isString signature \<or> \<not> SIGNATURE_3 (text_of signature)))"

definition actionMalformed :: "json_node option \<Rightarrow> bool" where
  "actionMalformed node =
     (case Option.bind node membersOf of
        None \<Rightarrow> True
      | Some a \<Rightarrow>
          (case Option.bind (a (js ''requester'')) membersOf of
             None \<Rightarrow> True
           | Some requester \<Rightarrow>
               if \<not> isString (requester (js ''issuer'')) \<or> \<not> isString (requester (js ''subject''))
                  \<or> \<not> isDigest (requester (js ''tokenDigest'')) then True
               else
                 (case Option.bind (a (js ''decision'')) membersOf of
                    None \<Rightarrow> True
                  | Some decision \<Rightarrow>
                      if \<not> isDigest (decision (js ''recordDigest'')) \<or> \<not> isDigest (decision (js ''packDigest'')) then True
                      else
                        (case a (js ''cites'') of
                           Some (NArr cites) \<Rightarrow>
                             if list_ex citeMalformed cites then True
                             else
                               (case Option.bind (a (js ''tool'')) membersOf of
                                  None \<Rightarrow> True
                                | Some tool \<Rightarrow>
                                    if \<not> isString (tool (js ''shape'')) \<or> \<not> isNullOrString (tool (js ''endpoint''))
                                       \<or> \<not> isString (tool (js ''name'')) then True
                                    else if \<not> isDigest (a (js ''request'')) then True
                                    else if adapterMalformed (a (js ''adapter'')) then True
                                    else \<not> isString (a (js ''observedAt'')))
                         | _ \<Rightarrow> True))))"

datatype receipt_shape = Shaped receipt_version | MalformedShape | UnsupportedShape

definition callerMalformed :: "json_node option \<Rightarrow> bool" where
  "callerMalformed caller =
     (case caller of
        None \<Rightarrow> True
      | Some NNull \<Rightarrow> False
      | Some node \<Rightarrow>
          (case membersOf node of
             None \<Rightarrow> True
           | Some c \<Rightarrow> \<not> isString (c (js ''issuer'')) \<or> \<not> isString (c (js ''subject'')) \<or> \<not> isDigest (c (js ''tokenDigest''))))"

text \<open>The conditions of every version, then those of version 2, then those of version 3.\<close>

definition commonMalformed :: "json_node \<Rightarrow> (jstr \<Rightarrow> json_node option) \<Rightarrow> bool" where
  "commonMalformed receipt r =
     ((case canonicalize receipt of Inl _ \<Rightarrow> True | Inr _ \<Rightarrow> False)
      \<or> \<not> isString (r (js ''signature'')) \<or> \<not> HEX (text_of (r (js ''signature'')))
      \<or> \<not> isInteger (r (js ''callIndex'')) \<or> integer_value (r (js ''callIndex'')) < 0
      \<or> \<not> isDigest (r (js ''resultDigest''))
      \<or> \<not> isString (r (js ''receiptVersion''))
      \<or> list_ex (\<lambda>name. \<not> isString (r (js name))) [''sessionId'', ''source'', ''servedAt'', ''authority'', ''keyId'']
      \<or> \<not> SESSION_TOKEN (text_of (r (js ''sessionId'')))
      \<or> text_of (r (js ''sessionId'')) = js ''.'' \<or> text_of (r (js ''sessionId'')) = js ''..''
      \<or> \<not> isNullOrString (r (js ''prevSignature'')))"

definition shapeOf :: "json_node \<Rightarrow> receipt_shape" where
  "shapeOf receipt =
     (case membersOf receipt of
        None \<Rightarrow> MalformedShape
      | Some r \<Rightarrow>
          if commonMalformed receipt r then MalformedShape
          else if text_of (r (js ''receiptVersion'')) = js ''2'' then
            (if \<not> isString (r (js ''argumentsDigest'')) \<or> \<not> HMAC_DIGEST (text_of (r (js ''argumentsDigest'')))
             then MalformedShape else Shaped V2)
          else if text_of (r (js ''receiptVersion'')) \<noteq> js ''3'' then UnsupportedShape
          else if \<not> SIGNATURE_3 (text_of (r (js ''signature''))) then MalformedShape
          else if r (js ''argumentsDigest'') \<noteq> None then MalformedShape
          else if \<not> isDigest (r (js ''argumentsCommitment'')) then MalformedShape
          else if callerMalformed (r (js ''caller'')) then MalformedShape
          else if \<not> isString (r (js ''kind'')) then MalformedShape
          else if text_of (r (js ''kind'')) = js ''acquisition'' then
            (if r (js ''action'') \<noteq> None \<or> acquisitionMalformed (r (js ''acquisition'')) then MalformedShape else Shaped V3)
          else if text_of (r (js ''kind'')) = js ''action'' then
            (if r (js ''acquisition'') \<noteq> None \<or> actionMalformed (r (js ''action'')) then MalformedShape else Shaped V3)
          else MalformedShape)"

section \<open>The ladder\<close>

record passed =
  p_index :: nat
  p_callIndex :: int
  p_version :: receipt_version
  p_signature :: jstr
  p_prevSignature :: "jstr option"

definition say :: "session_input \<Rightarrow> int option \<Rightarrow> status \<Rightarrow> jstr option \<Rightarrow> finding" where
  "say input callIndex status file =
     \<lparr>f_sessionId = i_sessionId input, f_callIndex = callIndex, f_status = status, f_file = file\<rparr>"

text \<open>What one receipt is said to be, and what it passes on where it is in order.\<close>

definition grade :: "platform \<Rightarrow> session_input \<Rightarrow> jstr \<Rightarrow> nat \<Rightarrow> held_receipt \<Rightarrow> session_error + (finding \<times> passed option)" where
  "grade pf input keyId index held =
     (let malformed = Inr (say input None Malformed (Some (dec index @ js ''.json'')), None)
      in case shapeOf (h_receipt held) of
           MalformedShape \<Rightarrow> malformed
         | UnsupportedShape \<Rightarrow> Inr (say input (Some (int index)) UnsupportedVersion None, None)
         | Shaped version \<Rightarrow>
             (let r = the (membersOf (h_receipt held));
                  callIndex = integer_value (r (js ''callIndex''));
                  signature = text_of (r (js ''signature''));
                  stop = (\<lambda>s. Inr (say input (Some callIndex) s None, None))
              in if text_of (r (js ''keyId'')) \<noteq> keyId then stop KeyMismatch
                 else
                   (case receiptSigningInput (h_receipt held) version of
                      Inl _ \<Rightarrow> malformed
                    | Inr input3 \<Rightarrow>
                        (case verifyEd25519 pf (i_publicKeyHex input) input3 (p_lower pf signature) of
                           None \<Rightarrow> Inl NoBasePoint
                         | Some valid \<Rightarrow>
                             if \<not> valid then stop SignatureMismatch
                             else if callIndex \<noteq> int index \<or> text_of (r (js ''sessionId'')) \<noteq> i_sessionId input then stop Misfiled
                             else if text_of (r (js ''authority'')) \<noteq> i_authority input then stop AuthorityMismatch
                             else if stringMember (h_receipt held) (js ''kind'') = Some (js ''action'') then stop ActionUnchecked
                             else
                               (case h_result held of
                                  None \<Rightarrow> stop ArtifactMissing
                                | Some result \<Rightarrow>
                                    (case canonicalize result of
                                       Inl _ \<Rightarrow> stop ArtifactMismatch
                                     | Inr bytes \<Rightarrow>
                                         if js ''sha256:'' @ sha256Hex pf bytes \<noteq> text_of (r (js ''resultDigest''))
                                         then stop ArtifactMismatch
                                         else Inr (say input (Some callIndex) OkStatus None,
                                                   Some \<lparr>p_index = index, p_callIndex = callIndex, p_version = version,
                                                         p_signature = signature,
                                                         p_prevSignature =
                                                           (case memberOf (h_receipt held) (js ''prevSignature'') of
                                                              Some (NStr s) \<Rightarrow> Some s | _ \<Rightarrow> None)\<rparr>)))))))"

fun grade_all :: "platform \<Rightarrow> session_input \<Rightarrow> jstr \<Rightarrow> nat \<Rightarrow> held_receipt list \<Rightarrow> session_error + (finding \<times> passed option) list" where
  "grade_all pf input keyId index [] = Inr []"
| "grade_all pf input keyId index (h # hs) =
     (case grade pf input keyId index h of
        Inl e \<Rightarrow> Inl e
      | Inr g \<Rightarrow> map_sum id ((#) g) (grade_all pf input keyId (Suc index) hs))"

section \<open>The sequence, the chain and the seal\<close>

fun chained :: "receipt_version \<Rightarrow> jstr option \<Rightarrow> passed list \<Rightarrow> bool" where
  "chained version expectedPrev [] = True"
| "chained version expectedPrev (p # ps) =
     (if p_prevSignature p \<noteq> expectedPrev \<or> p_version p \<noteq> version then False
      else chained version (Some (p_signature p)) ps)"

definition lineage :: "session_input \<Rightarrow> passed list \<Rightarrow> finding list" where
  "lineage input passed =
     (let indices = sort_by (\<lambda>a b. a - b) (map p_callIndex passed);
          contiguous = list_all (\<lambda>(at_i, v). v = int at_i) (enumerate 0 indices)
      in if \<not> contiguous then [say input None SequenceBroken None]
         else if passed \<noteq> [] \<and> \<not> chained (p_version (hd passed)) None passed then [say input None ChainBroken None]
         else [])"

text \<open>The count a line of the registry seals the session at; \<^term>\<open>Inr None\<close> where the line seals nothing.\<close>

definition seal_count :: "platform \<Rightarrow> session_input \<Rightarrow> jstr \<Rightarrow> jstr \<Rightarrow> session_error + int option" where
  "seal_count pf input keyId line =
     (if js_trim line = [] then Inr None
      else
        (case parseJsonText line of
           Inl _ \<Rightarrow> Inr None
         | Inr seal \<Rightarrow>
             if stringMember seal (js ''sessionId'') \<noteq> Some (i_sessionId input) then Inr None
             else if stringMember seal (js ''keyId'') \<noteq> Some keyId then Inr None
             else
               (case stringMember seal (js ''signature'') of
                  None \<Rightarrow> Inr None
                | Some signature \<Rightarrow>
                    if \<not> isInteger (memberOf seal (js ''finalCount'')) then Inr None
                    else
                      (case sealSigningInput seal of
                         Inl _ \<Rightarrow> Inr None
                       | Inr sealInput \<Rightarrow>
                           (case verifyEd25519 pf (i_publicKeyHex input) sealInput (p_lower pf signature) of
                              None \<Rightarrow> Inl NoBasePoint
                            | Some valid \<Rightarrow>
                                Inr (if valid then Some (integer_value (memberOf seal (js ''finalCount''))) else None))))))"

fun first_seal :: "platform \<Rightarrow> session_input \<Rightarrow> jstr \<Rightarrow> jstr list \<Rightarrow> session_error + int option" where
  "first_seal pf input keyId [] = Inr None"
| "first_seal pf input keyId (line # lines) =
     (case seal_count pf input keyId line of
        Inl e \<Rightarrow> Inl e
      | Inr (Some count) \<Rightarrow> Inr (Some count)
      | Inr None \<Rightarrow> first_seal pf input keyId lines)"

definition counted :: "session_input \<Rightarrow> nat \<Rightarrow> int option \<Rightarrow> finding list" where
  "counted input held finalCount =
     (case finalCount of
        None \<Rightarrow> [say input None UnregisteredSession None]
      | Some count \<Rightarrow>
          if int held < count then [say input None TailRollback None]
          else if count < int held then [say input None CountExceedsSeal None]
          else [])"

definition verifySession :: "platform \<Rightarrow> session_input \<Rightarrow> session_error + session_verdict" where
  "verifySession pf input =
     (case keyIdOf pf (i_publicKeyHex input) of
        Inl e \<Rightarrow> Inl (BadKey e)
      | Inr keyId \<Rightarrow>
          (case grade_all pf input keyId 0 (i_receipts input) of
             Inl e \<Rightarrow> Inl e
           | Inr graded \<Rightarrow>
               (case first_seal pf input keyId (split_on 10 (i_registryText input)) of
                  Inl e \<Rightarrow> Inl e
                | Inr finalCount \<Rightarrow>
                    (let held = length (i_receipts input);
                         passed = concat (map (\<lambda>g. case snd g of Some p \<Rightarrow> [p] | None \<Rightarrow> []) graded);
                         findings = map fst graded @ lineage input passed @ counted input held finalCount
                     in Inr \<lparr>v_ok = (0 < held \<and> list_all (\<lambda>f. f_status f = OkStatus) findings),
                             v_findings = findings, v_sealed = (finalCount \<noteq> None), v_keyId = keyId\<rparr>))))"

datatype verification_state =
    Unchecked
  | Verified jstr jstr
  | Failed jstr "finding list"

end
