(* ===== verification/Canon_Round.thy ===== *)
theory Canon_Round
  imports Canon_Facts
begin

text \<open>
  The renderer's text read back by the strict parser, and the properties of the canonical form.
\<close>

section \<open>Numbers\<close>

lemma dec_no_minus: "hd (dec k) \<noteq> uc CHR ''-''"
proof -
  have "is_digit (hd (dec k))" by (intro dec_digits [of _ k]) simp
  then show ?thesis by (auto simp: is_digit_def)
qed

lemma takeWhile_dec: "takeWhile is_digit (dec k) = dec k" "dropWhile is_digit (dec k) = []"
  using dec_digits by (auto simp: takeWhile_eq_all_conv dropWhile_eq_Nil_conv)

lemma json_int_dec: "json_int (dec k) = Some (dec k, [])"
proof -
  obtain c r where c: "dec k = c # r" by (cases "dec k") auto
  show ?thesis
  proof (cases "c = uc CHR ''0''")
    case True
    then have "k = 0" using hd_dec [of k] c by auto
    then show ?thesis by (simp add: json_int_def dec.simps)
  next
    case False
    then show ?thesis using takeWhile_dec [of k] c by (simp add: json_int_def json_digits_def)
  qed
qed

lemma json_number_dec: "json_number (dec k) = Some (dec k, [])" "json_number (uc CHR ''-'' # dec k) = Some (uc CHR ''-'' # dec k, [])"
proof -
  obtain c r where c: "dec k = c # r" by (cases "dec k") auto
  then have "c \<noteq> uc CHR ''-''" using dec_no_minus [of k] by simp
  then show "json_number (dec k) = Some (dec k, [])" using json_int_dec [of k] c
    by (simp add: json_number_def json_frac_def json_exp_def)
  show "json_number (uc CHR ''-'' # dec k) = Some (uc CHR ''-'' # dec k, [])" using json_int_dec [of k]
    by (simp add: json_number_def json_frac_def json_exp_def)
qed

lemma int_text_literal:
  "NUMBER_LITERAL (int_text i)" "INTEGER_LITERAL (int_text i)" "int_literal (int_text i) = i"
  using dec_no_minus [of "nat i"]
  by (auto simp: int_text_def NUMBER_LITERAL_def json_number_dec json_number_dec [simplified] INTEGER_LITERAL_def unsigned_part_def int_literal_def)

definition number_unit :: "code_unit \<Rightarrow> bool" where
  "number_unit c \<longleftrightarrow> is_digit c \<or> c \<in> set (js ''eE+-.'')"

lemma int_text_units: "list_all number_unit (int_text i)"
  using dec_digits by (auto simp: int_text_def number_unit_def list_all_iff)

lemma takeWhile_run: "\<lbrakk>list_all P xs; ys = [] \<or> \<not> P (hd ys)\<rbrakk> \<Longrightarrow> takeWhile P (xs @ ys) = xs \<and> dropWhile P (xs @ ys) = ys"
  by (induction xs) (auto simp: takeWhile_eq_Nil_iff dropWhile_eq_self_iff)

lemma canon_number_text:
  "r = [] \<or> \<not> number_unit (hd r) \<Longrightarrow> canon_number (int_text i @ r) = Inr (NNum (int_text i), r)"
  using takeWhile_run [OF int_text_units [of i], of r] int_text_literal(1) [of i]
  by (simp add: canon_number_def Let_def number_unit_def [abs_def])

section \<open>Strings\<close>

lemma canon_string_unicode:
  "\<lbrakk>\<not> is_high c; \<not> is_low c\<rbrakk> \<Longrightarrow> canon_string (unicode_escape c @ r) = prepend [c] (canon_string r)"
  using hex4_unicode [OF unat_nibble] by (simp add: unicode_escape_def Let_def)

lemma control_no_surrogate: "c < 0x20 \<Longrightarrow> \<not> is_high c \<and> \<not> is_low c"
  by (auto simp: is_high_def is_low_def word_less_nat_alt word_le_nat_alt)

lemma short_no_surrogate: "short_escape c = Some e \<Longrightarrow> \<not> is_high c \<and> \<not> is_low c"
  by (auto simp: short_escape_def is_high_def is_low_def split: if_splits)

lemma canon_string_short:
  "short_escape c = Some e \<Longrightarrow> canon_string (backslash # e # r) = prepend [c] (canon_string r)"
  by (auto simp: short_escape_def unescape_def split: if_splits)

lemma surrogate_unit: "is_high c \<or> is_low c \<Longrightarrow> canonical_unit c = [c] \<and> c \<noteq> quote_mark \<and> c \<noteq> backslash \<and> \<not> c < 0x20"
  using control_no_surrogate [of c] by (auto simp: canonical_unit_def short_escape_def is_high_def is_low_def)

lemma canon_string_units:
  "paired s \<Longrightarrow> canon_string (concat (map canonical_unit s) @ quote_mark # r) = Inr (s, r)"
proof (induction s rule: paired.induct)
  case (2 c s)
  show ?case
  proof (cases "is_high c")
    case True
    then obtain d s' where s: "s = d # s'" "is_low d" "paired s'" using "2.prems" by (auto split: list.splits)
    then have "canon_string (concat (map canonical_unit s') @ quote_mark # r) = Inr (s', r)"
      using "2.IH"(1) True by blast
    then show ?thesis using True s surrogate_unit [of c] surrogate_unit [of d] by (simp add: prepend_def)
  next
    case False
    then have s: "\<not> is_low c" "paired s" using "2.prems" by auto
    then have IH: "canon_string (concat (map canonical_unit s) @ quote_mark # r) = Inr (s, r)"
      using "2.IH"(2) False by blast
    show ?thesis
    proof (cases "short_escape c")
      case (Some e)
      then have "canonical_unit c = [backslash, e]" by (simp add: canonical_unit_def)
      then show ?thesis using canon_string_short [OF Some] IH by (simp add: prepend_def del: canon_string.simps)
    next
      case None
      note plain = short_escape_None [OF None]
      show ?thesis
      proof (cases "c < 0x20")
        case True
        then have "canonical_unit c = unicode_escape c" using None by (simp add: canonical_unit_def)
        then show ?thesis using canon_string_unicode [OF False s(1)] IH by (simp add: prepend_def del: canon_string.simps)
      next
        case big: False
        then have "canonical_unit c = [c]" using None by (simp add: canonical_unit_def)
        then show ?thesis using big IH plain False s(1) by (simp add: prepend_def)
      qed
    qed
  qed
qed simp

section \<open>The canonical node\<close>

fun normal :: "json_node \<Rightarrow> json_node" where
  "normal (NObj ms) = NObj (sort_by by_name (map (\<lambda>(k, v). (k, normal v)) ms))"
| "normal (NArr xs) = NArr (map normal xs)"
| "normal (NNum l) = NNum (int_text (int_literal l))"
| "normal n = n"

lemma all_parts_ok [simp]: "all_parts (map Inr ps) = Inr ps"
  by (induction ps) simp_all

lemma all_parts_Inr: "all_parts xs = Inr ps \<Longrightarrow> xs = map Inr ps"
proof (induction xs arbitrary: ps rule: all_parts.induct)
  case (3 t xs)
  then obtain ps' where "all_parts xs = Inr ps'" "ps = t # ps'" by (cases "all_parts xs") auto
  with "3.IH" show ?case by simp
qed auto

lemma render_object:
  assumes "render_node (NObj ms) = Inr c"
  obtains ps where "map (\<lambda>(k, v). map_sum id (\<lambda>t. canonicalString k @ colon # t) (render_node v)) (sort_by by_name ms) = map Inr ps"
    "c = open_brace # join_with [comma] ps @ [close_brace]"
proof -
  have eq: "map (\<lambda>(k, v). map_sum id (\<lambda>t. canonicalString k @ colon # t) v) (sort_by by_name (map (\<lambda>(k, v). (k, render_node v)) ms))
      = map (\<lambda>(k, v). map_sum id (\<lambda>t. canonicalString k @ colon # t) (render_node v)) (sort_by by_name ms)"
    unfolding sort_by_map by (simp add: case_prod_beta comp_def)
  show ?thesis using assms that unfolding render_node.simps eq
    by (cases "all_parts (map (\<lambda>(k, v). map_sum id (\<lambda>t. canonicalString k @ colon # t) (render_node v)) (sort_by by_name ms))")
      (auto dest: all_parts_Inr)
qed

lemma render_object_from:
  assumes "map (\<lambda>(k, v). map_sum id (\<lambda>t. canonicalString k @ colon # t) (render_node v)) (sort_by by_name ms) = map Inr ps"
  shows "render_node (NObj ms) = Inr (open_brace # join_with [comma] ps @ [close_brace])"
proof -
  have eq: "map (\<lambda>(k, v). map_sum id (\<lambda>t. canonicalString k @ colon # t) v) (sort_by by_name (map (\<lambda>(k, v). (k, render_node v)) ms))
      = map (\<lambda>(k, v). map_sum id (\<lambda>t. canonicalString k @ colon # t) (render_node v)) (sort_by by_name ms)"
    unfolding sort_by_map by (simp add: case_prod_beta comp_def)
  show ?thesis unfolding render_node.simps eq assms by simp
qed

section \<open>Reading the canonical text\<close>

definition ends :: "jstr \<Rightarrow> bool" where
  "ends r \<longleftrightarrow> r = [] \<or> \<not> number_unit (hd r)"

definition starts :: "jstr \<Rightarrow> bool" where
  "starts c \<longleftrightarrow> c \<noteq> [] \<and> \<not> isSpace (hd c) \<and> hd c \<noteq> close_bracket"

text \<open>\<open>c\<close> is the canonical text of the node, wherever it stands and with enough fuel.\<close>

definition reads_back :: "nat \<Rightarrow> json_node \<Rightarrow> jstr \<Rightarrow> bool" where
  "reads_back d n c \<longleftrightarrow>
     starts c \<and> (\<forall>f r. 2 * length c + 1 \<le> f \<longrightarrow> ends r \<longrightarrow> parse_node f d (c @ r) = Inr (normal n, r))"

lemma skip_ws_starts [simp]: "starts c \<Longrightarrow> skip_ws (c @ r) = c @ r"
  by (cases c) (simp_all add: starts_def skip_ws_def)

lemma skip_ws_mark [simp]: "\<not> isSpace c \<Longrightarrow> skip_ws (c # r) = c # r"
  by (simp add: skip_ws_def)

lemma marks [simp]:
  "\<not> isSpace comma" "\<not> isSpace colon" "\<not> isSpace quote_mark" "\<not> isSpace open_brace" "\<not> isSpace close_brace"
  "\<not> isSpace open_bracket" "\<not> isSpace close_bracket"
  by (simp_all add: isSpace_def)

lemma ends_marks [simp]: "ends (comma # r)" "ends (close_brace # r)" "ends (close_bracket # r)" "ends []"
  by (simp_all add: ends_def number_unit_def is_digit_def)

abbreviation entry_text :: "jstr \<times> json_node \<times> jstr \<Rightarrow> jstr" where
  "entry_text e \<equiv> canonicalString (fst e) @ colon # snd (snd e)"

lemma canonical_start: "canonicalString k @ r = quote_mark # concat (map canonical_unit k) @ quote_mark # r"
  by (simp add: canonicalString_def)

lemma members_read:
  assumes "es \<noteq> []" "2 * length (join_with [comma] (map entry_text es)) + 2 \<le> f"
    and "distinct (map fst acc @ map fst es)" "\<forall>e \<in> set es. paired (fst e) \<and> reads_back (Suc d) (fst (snd e)) (snd (snd e))"
  shows "parse_members f d acc (join_with [comma] (map entry_text es) @ close_brace # r)
    = Inr (NObj (acc @ map (\<lambda>e. (fst e, normal (fst (snd e)))) es), r)"
  using assms
proof (induction es arbitrary: f acc)
  case (Cons e es)
  obtain k v c where e: "e = (k, v, c)" by (rule prod_cases3)
  obtain f' where f': "f = Suc f'" using Cons.prems(2) by (cases f) auto
  define rest where "rest = (if es = [] then close_brace # r
      else comma # join_with [comma] (map entry_text es) @ close_brace # r)"
  have whole: "join_with [comma] (map entry_text (e # es)) @ close_brace # r = canonicalString k @ colon # c @ rest"
    by (cases es) (simp_all add: e rest_def)
  have p: "paired k" "reads_back (Suc d) v c" "k \<notin> fst ` set acc" using Cons.prems(3,4) e by auto
  have len: "2 * length c + 1 \<le> f'"
    using Cons.prems(2) f' by (cases es) (simp_all add: e)
  have st: "starts c" using p(2) by (simp add: reads_back_def)
  have node: "parse_node f' (Suc d) (skip_ws (c @ rest)) = Inr (normal v, rest)"
    using p(2) len st by (simp add: reads_back_def rest_def)
  have step: "parse_members f d acc (canonicalString k @ colon # c @ rest) =
      (case rest of [] \<Rightarrow> Inl (CommaExpected close_brace)
       | x # r4 \<Rightarrow> if x = comma then parse_members f' d (acc @ [(k, normal v)]) r4
                  else if x = close_brace then Inr (NObj (acc @ [(k, normal v)]), r4)
                  else Inl (CommaExpected close_brace))"
    unfolding canonical_start using canon_string_units [OF p(1)] p(3) node
    by (simp add: f' rest_def)
  show ?case
  proof (cases "es = []")
    case True
    then show ?thesis unfolding whole step by (simp add: rest_def e)
  next
    case False
    have "parse_members f' d (acc @ [(k, normal v)]) (join_with [comma] (map entry_text es) @ close_brace # r)
        = Inr (NObj ((acc @ [(k, normal v)]) @ map (\<lambda>e. (fst e, normal (fst (snd e)))) es), r)"
      using Cons.prems False f' by (intro Cons.IH) (auto simp: e join_with_Cons)
    then show ?thesis unfolding whole step using False by (simp add: rest_def e)
  qed
qed simp

lemma items_read:
  assumes "es \<noteq> []" "2 * length (join_with [comma] (map snd es)) + 2 \<le> f"
    and "\<forall>e \<in> set es. reads_back (Suc d) (fst e) (snd e)"
  shows "parse_items f d acc (join_with [comma] (map snd es) @ close_bracket # r)
    = Inr (NArr (acc @ map (\<lambda>e. normal (fst e)) es), r)"
  using assms
proof (induction es arbitrary: f acc)
  case (Cons e es)
  obtain v c where e: "e = (v, c)" by (rule prod.exhaust)
  obtain f' where f': "f = Suc f'" using Cons.prems(2) by (cases f) auto
  define rest where "rest = (if es = [] then close_bracket # r
      else comma # join_with [comma] (map snd es) @ close_bracket # r)"
  have whole: "join_with [comma] (map snd (e # es)) @ close_bracket # r = c @ rest"
    by (cases es) (simp_all add: e rest_def)
  have p: "reads_back (Suc d) v c" using Cons.prems(3) e by auto
  have len: "2 * length c + 1 \<le> f'" using Cons.prems(2) f' by (cases es) (simp_all add: e)
  have st: "starts c" using p by (simp add: reads_back_def)
  have node: "parse_node f' (Suc d) (skip_ws (c @ rest)) = Inr (normal v, rest)"
    using p len st by (simp add: reads_back_def rest_def)
  have step: "parse_items f d acc (c @ rest) =
      (case rest of [] \<Rightarrow> Inl (CommaExpected close_bracket)
       | x # r4 \<Rightarrow> if x = comma then parse_items f' d (acc @ [normal v]) r4
                  else if x = close_bracket then Inr (NArr (acc @ [normal v]), r4)
                  else Inl (CommaExpected close_bracket))"
    using node by (simp add: f' rest_def)
  show ?case
  proof (cases "es = []")
    case True
    then show ?thesis unfolding whole step by (simp add: rest_def e)
  next
    case False
    have "c \<noteq> []" using st by (simp add: starts_def)
    then have "parse_items f' d (acc @ [normal v]) (join_with [comma] (map snd es) @ close_bracket # r)
        = Inr (NArr ((acc @ [normal v]) @ map (\<lambda>e. normal (fst e)) es), r)"
      using Cons.prems False f' by (intro Cons.IH) (auto simp: e join_with_Cons)
    then show ?thesis unfolding whole step using False by (simp add: rest_def e)
  qed
qed simp

lemma rendered_entries:
  assumes "map (\<lambda>(k, v). map_sum id (\<lambda>t. canonicalString k @ colon # t) (render_node v)) ss = map Inr ps"
  defines "es \<equiv> map (\<lambda>(k, v). (k, v, projr (render_node v))) ss"
  shows "ps = map entry_text es" "\<forall>e \<in> set es. render_node (fst (snd e)) = Inr (snd (snd e))"
proof -
  have "ps = map entry_text (map (\<lambda>(k, v). (k, v, projr (render_node v))) ss)
     \<and> (\<forall>e \<in> set (map (\<lambda>(k, v). (k, v, projr (render_node v))) ss). render_node (fst (snd e)) = Inr (snd (snd e)))"
    using assms(1)
  proof (induction ss arbitrary: ps)
    case (Cons x ss)
    obtain k v where x: "x = (k, v)" by (rule prod.exhaust)
    obtain q qs where ps: "ps = q # qs" using Cons.prems by (cases ps) auto
    obtain t where t: "render_node v = Inr t" "q = canonicalString k @ colon # t"
      using Cons.prems x ps by (cases "render_node v") auto
    show ?case using Cons.IH [of qs] Cons.prems x ps t by simp
  qed simp
  then show "ps = map entry_text es" "\<forall>e \<in> set es. render_node (fst (snd e)) = Inr (snd (snd e))"
    by (auto simp: es_def)
qed

lemma rendered_items:
  assumes "map render_node xs = map Inr ps"
  shows "ps = map (\<lambda>x. projr (render_node x)) xs" "\<forall>x \<in> set xs. render_node x = Inr (projr (render_node x))"
proof -
  have "\<forall>i < length xs. render_node (xs ! i) = Inr (ps ! i)" "length ps = length xs"
    using assms by (metis length_map nth_map)+
  then show "ps = map (\<lambda>x. projr (render_node x)) xs" "\<forall>x \<in> set xs. render_node x = Inr (projr (render_node x))"
    by (auto intro!: nth_equalityI simp: in_set_conv_nth)
qed

lemma starts_intros [simp]:
  "starts (quote_mark # t)" "starts (open_brace # t)" "starts (open_bracket # t)" "starts (canonicalString s)" "starts (js ''true'')"
  "starts (js ''false'')" "starts (js ''null'')"
  by (simp_all add: starts_def isSpace_def canonicalString_def)

lemmas starts_words [simp] = starts_intros(5-7) [simplified]

lemma number_start: "\<exists>c r. int_text i = c # r \<and> (is_digit c \<or> c = uc CHR ''-'')"
proof -
  obtain c r where c: "dec (nat i) = c # r" by (cases "dec (nat i)") auto
  then have "is_digit c" using dec_digits [of c "nat i"] by simp
  then show ?thesis using c by (auto simp: int_text_def)
qed

lemma digit_start: "is_digit c \<or> c = uc CHR ''-'' \<Longrightarrow> \<not> isSpace c \<and> c \<noteq> close_bracket \<and> c \<noteq> open_brace \<and> c \<noteq> open_bracket
    \<and> c \<noteq> quote_mark \<and> c \<noteq> uc CHR ''t'' \<and> c \<noteq> uc CHR ''f'' \<and> c \<noteq> uc CHR ''n''"
  by (auto simp: is_digit_def isSpace_def)

lemma reads_backD: "\<lbrakk>reads_back d n c; 2 * length c + 1 \<le> f; ends r\<rbrakk> \<Longrightarrow> parse_node f d (c @ r) = Inr (normal n, r)"
  unfolding reads_back_def by blast

lemma reads_backI:
  "\<lbrakk>starts c; \<And>f r. parse_node (Suc f) d (c @ r) = Inr (normal n, r)\<rbrakk> \<Longrightarrow> reads_back d n c"
  unfolding reads_back_def by (metis Suc_le_D add.commute plus_1_eq_Suc)

lemma reads_back_render:
  "\<lbrakk>sound_node n; fits d n; render_node n = Inr c\<rbrakk> \<Longrightarrow> reads_back d n c"
proof (induction n arbitrary: c d rule: normal.induct)
  case (1 ms)
  let ?ss = "sort_by by_name ms"
  let ?es = "map (\<lambda>(k, v). (k, v, projr (render_node v))) ?ss"
  obtain ps where ps: "map (\<lambda>(k, v). map_sum id (\<lambda>t. canonicalString k @ colon # t) (render_node v)) ?ss = map Inr ps"
    "c = open_brace # join_with [comma] ps @ [close_brace]"
    by (rule render_object [OF "1.prems"(3)])
  note es = rendered_entries [OF ps(1)]
  have child: "\<forall>e \<in> set ?es. paired (fst e) \<and> reads_back (Suc d) (fst (snd e)) (snd (snd e))"
  proof
    fix e assume e: "e \<in> set ?es"
    then obtain k v where kv: "(k, v) \<in> set ms" "e = (k, v, projr (render_node v))" by auto
    then show "paired (fst e) \<and> reads_back (Suc d) (fst (snd e)) (snd (snd e))"
      using "1.IH" [OF kv(1) refl] "1.prems" es(2) e by (fastforce simp: list_all_iff)
  qed
  have normal: "normal (NObj ms) = NObj (map (\<lambda>e. (fst e, normal (fst (snd e)))) ?es)"
    by (simp add: sort_by_map case_prod_beta comp_def)
  have dist: "distinct (map fst ([] :: (jstr \<times> json_node) list) @ map fst ?es)"
  proof -
    have "mset (map fst ?es) = image_mset fst (mset ms)" by (simp add: case_prod_beta comp_def)
    then have "mset (map fst ?es) = mset (map fst ms)" by simp
    then show ?thesis using "1.prems"(1) mset_eq_imp_distinct_iff by fastforce
  qed
  have d: "d < MAX_NESTING" using "1.prems"(2) by simp
  show ?case unfolding reads_back_def
  proof (intro conjI allI impI)
    fix f r assume f: "2 * length c + 1 \<le> f"
    then obtain f' where f': "f = Suc f'" by (cases f) auto
    show "parse_node f d (c @ r) = Inr (normal (NObj ms), r)"
    proof (cases "?es = []")
      case True
      then have "ps = []" "ms = []" using es(1) by simp_all
      then show ?thesis using d by (simp add: f' ps(2) sort_by_def)
    next
      case False
      have head: "\<exists>u. join_with [comma] (map entry_text ?es) = quote_mark # u"
        using False by (cases ?es rule: list.exhaust; cases "tl ?es") (simp_all add: canonicalString_def)
      have "parse_members f' d [] (join_with [comma] (map entry_text ?es) @ close_brace # r)
          = Inr (NObj ([] @ map (\<lambda>e. (fst e, normal (fst (snd e)))) ?es), r)"
        using f f' ps(2) es(1) by (intro members_read [OF False _ dist child]) simp
      then show ?thesis using d head unfolding normal by (auto simp: f' ps(2) es(1) simp del: map_map)
    qed
  qed (simp add: ps(2))
next
  case (2 xs)
  let ?es = "map (\<lambda>x. (x, projr (render_node x))) xs"
  obtain ps where ps: "map render_node xs = map Inr ps" "c = open_bracket # join_with [comma] ps @ [close_bracket]"
    using "2.prems"(3) by (cases "all_parts (map render_node xs)") (auto dest: all_parts_Inr)
  note items = rendered_items [OF ps(1)]
  have psE: "ps = map snd ?es" using items(1) by (simp add: comp_def)
  have child: "\<forall>e \<in> set ?es. reads_back (Suc d) (fst e) (snd e)"
    using "2.IH" "2.prems" items(2) by (auto simp: list_all_iff)
  have d: "d < MAX_NESTING" using "2.prems"(2) by simp
  show ?case unfolding reads_back_def
  proof (intro conjI allI impI)
    fix f r assume f: "2 * length c + 1 \<le> f"
    then obtain f' where f': "f = Suc f'" by (cases f) auto
    show "parse_node f d (c @ r) = Inr (normal (NArr xs), r)"
    proof (cases "xs = []")
      case True
      then show ?thesis using d psE by (simp add: f' ps(2))
    next
      case False
      then obtain x ys where xs: "xs = x # ys" by (cases xs) auto
      have "starts (projr (render_node x))" using child xs by (simp add: reads_back_def)
      then have head: "\<exists>c' u. join_with [comma] (map snd ?es) = c' # u \<and> \<not> isSpace c' \<and> c' \<noteq> close_bracket"
        using xs by (cases ys; cases "projr (render_node x)") (simp_all add: starts_def)
      have "map (\<lambda>e. normal (fst e)) ?es = map normal xs" by simp
      then have "parse_items f' d [] (join_with [comma] (map snd ?es) @ close_bracket # r) = Inr (NArr (map normal xs), r)"
        using items_read [OF _ _ child, of f' "[]" r] f f' ps(2) psE False by (simp del: map_map)
      then show ?thesis using d head by (auto simp: f' ps(2) psE comp_def simp del: map_map)
    qed
  qed (simp add: ps(2))
next
  case (3 l)
  then have c: "c = int_text (int_literal l)" by (auto simp: render_number_def Let_def split: if_splits)
  obtain x u where x: "int_text (int_literal l) = x # u" "is_digit x \<or> x = uc CHR ''-''" using number_start by blast
  show ?case unfolding reads_back_def
  proof (intro conjI allI impI)
    fix f r assume "2 * length c + 1 \<le> f" "ends r"
    then show "parse_node f d (c @ r) = Inr (normal (NNum l), r)"
      using digit_start [OF x(2)] x canon_number_text [of r "int_literal l"]
      by (cases f) (auto simp: c ends_def)
  qed (use c x digit_start [OF x(2)] in \<open>simp add: starts_def\<close>)
next
  case "4_1"
  then show ?case using canon_string_units by (auto intro!: reads_backI simp: canonicalString_def)
next
  case "4_2"
  then show ?case by (intro reads_backI) (auto simp: canon_literal_def)
next
  case "4_3"
  then show ?case by (intro reads_backI) (auto simp: canon_literal_def)
qed

lemma distinct_sort: "distinct (map fst ms) \<Longrightarrow> distinct (map fst (sort_by by_name ms))"
  using mset_eq_imp_distinct_iff [of "map fst (sort_by by_name ms)" "map fst ms"] by simp

lemma normal_sound: "\<lbrakk>sound_node n; fits d n\<rbrakk> \<Longrightarrow> sound_node (normal n) \<and> fits d (normal n)"
proof (induction n arbitrary: d rule: normal.induct)
  case (1 ms)
  have "distinct (map fst (map (\<lambda>(k, v). (k, normal v)) (sort_by by_name ms)))"
    using distinct_sort [of ms] 1 by (simp add: case_prod_beta comp_def)
  then show ?case using 1 unfolding normal.simps sort_by_map by (fastforce simp: list_all_iff)
qed (auto simp: list_all_iff int_text_literal)

lemma render_normal: "\<lbrakk>sound_node n; render_node n = Inr c\<rbrakk> \<Longrightarrow> render_node (normal n) = Inr c"
proof (induction n arbitrary: c rule: normal.induct)
  case (1 ms)
  let ?ss = "sort_by by_name ms"
  let ?ns = "map (\<lambda>(k, v). (k, normal v)) ?ss"
  obtain ps where ps: "map (\<lambda>(k, v). map_sum id (\<lambda>t. canonicalString k @ colon # t) (render_node v)) ?ss = map Inr ps"
    "c = open_brace # join_with [comma] ps @ [close_brace]"
    by (rule render_object [OF "1.prems"(2)])
  have "ascending_by compareCodePoints ?ss" using "1.prems"(1) by (intro name_sorting(1)) simp
  then have "ascending_by compareCodePoints ?ns" by (auto simp: ascending_by_def sorted_wrt_map case_prod_beta)
  then have sorted: "sort_by by_name ?ns = ?ns" by (rule name_sorting(2))
  have same: "render_node (normal v) = render_node v" if "(k, v) \<in> set ?ss" for k v
  proof -
    have "\<exists>t. render_node v = Inr t" using that rendered_entries(2) [OF ps(1)] by fastforce
    then show ?thesis using "1.IH" [of "(k, v)" k v] that "1.prems"(1) by (auto simp: list_all_iff)
  qed
  have "map (\<lambda>(k, v). map_sum id (\<lambda>t. canonicalString k @ colon # t) (render_node v)) ?ns = map Inr ps"
    unfolding ps(1) [symmetric] using same by (auto simp: case_prod_beta)
  then show ?case unfolding normal.simps sort_by_map ps(2)
    by (intro render_object_from) (simp only: sorted)
next
  case (2 xs)
  then obtain ps where ps: "map render_node xs = map Inr ps" "c = open_bracket # join_with [comma] ps @ [close_bracket]"
    by (cases "all_parts (map render_node xs)") (auto dest: all_parts_Inr)
  have "map render_node (map normal xs) = map Inr ps"
    unfolding ps(1) [symmetric] using 2 rendered_items(2) [OF ps(1)] by (auto simp: list_all_iff)
  then show ?case using ps(2) by (simp del: map_map)
next
  case (3 l)
  then show ?case using int_text_literal by (auto simp: render_number_def Let_def split: if_splits)
qed simp_all

section \<open>Fuel\<close>

lemma canon_number_fuel: "canon_number (c # t) \<noteq> Inl NoFuel \<and> (\<forall>n r. canon_number (c # t) = Inr (n, r) \<longrightarrow> length r < length (c # t))"
proof -
  have "length (dropWhile P (c # t)) < length (c # t)" if "takeWhile P (c # t) \<noteq> []" for P
    using that length_dropWhile_le [of P t] by (auto split: if_splits)
  moreover have "\<not> NUMBER_LITERAL []" by (simp add: NUMBER_LITERAL_def json_number_def json_int_def)
  ultimately have "NUMBER_LITERAL (takeWhile P (c # t)) \<Longrightarrow> length (dropWhile P (c # t)) < length (c # t)" for P
    by metis
  then show ?thesis unfolding canon_number_def Let_def by (auto simp del: takeWhile.simps dropWhile.simps)
qed

lemma canon_string_fuel: "canon_string t \<noteq> Inl NoFuel"
  by (induction t rule: canon_string.induct)
    (auto simp: prepend_Inl split: if_splits list.splits option.splits)

lemma skip_ws_Cons: "skip_ws t = c # r \<Longrightarrow> length r < length t"
  using skip_ws_shorter [of t] by simp

lemma parse_node_fuel:
  "2 * length t + 1 \<le> f \<Longrightarrow> parse_node f d t \<noteq> Inl NoFuel \<and> (\<forall>n r. parse_node f d t = Inr (n, r) \<longrightarrow> length r < length t)"
  "2 * length t + 2 \<le> f \<Longrightarrow> parse_members f d ms t \<noteq> Inl NoFuel \<and> (\<forall>n r. parse_members f d ms t = Inr (n, r) \<longrightarrow> length r < length t)"
  "2 * length t + 2 \<le> f \<Longrightarrow> parse_items f d xs t \<noteq> Inl NoFuel \<and> (\<forall>n r. parse_items f d xs t = Inr (n, r) \<longrightarrow> length r \<le> length t)"
proof (induction f d t and f d ms t and f d xs t rule: parse_node_parse_members_parse_items.induct)
  case (2 f depth t)
  note IH = "2.IH" and p = "2.prems"
  show ?case
  proof (cases t)
    case (Cons c u)
    have sk: "skip_ws u = x # y \<Longrightarrow> length (x # y) \<le> length u" for x y using skip_ws_shorter [of u] by simp
    consider "c = open_brace" | "c = open_bracket" | "c = quote_mark"
      | "c \<noteq> open_brace" "c \<noteq> open_bracket" "c \<noteq> quote_mark" by blast
    then show ?thesis
    proof cases
      case 1
      show ?thesis
      proof (cases "skip_ws u")
        case Nil
        then show ?thesis using IH(1) p \<open>t = c # u\<close> 1 by auto
      next
        case (Cons x y)
        then show ?thesis
          using IH(2) [OF \<open>t = c # u\<close> 1 _ Cons] p \<open>t = c # u\<close> 1 sk [OF Cons]
          by (cases "MAX_NESTING \<le> depth"; cases "x = close_brace") (simp_all, metis less_SucI less_le_trans)
      qed
    next
      case 2
      show ?thesis
      proof (cases "skip_ws u")
        case Nil
        then show ?thesis using IH(3) p \<open>t = c # u\<close> 2 by auto
      next
        case (Cons x y)
        then show ?thesis
          using IH(4) [OF \<open>t = c # u\<close> _ 2 _ Cons] p \<open>t = c # u\<close> 2 sk [OF Cons]
          by (cases "MAX_NESTING \<le> depth"; cases "x = close_bracket") (simp_all, metis le_SucI less_Suc_eq_le le_trans)
      qed
    next
      case 3
      then show ?thesis using Cons canon_string_fuel [of u] canon_string_shorter [of u] by (auto split: sum.split)
    next
      case 4
      then show ?thesis using Cons canon_number_fuel [of c u] by (auto simp: canon_literal_def)
    qed
  qed (use p in simp)
next
  case (4 f depth members t)
  show ?case
  proof (cases "skip_ws t")
    case (Cons q r0)
    note t = this
    show ?thesis
    proof (cases "q = quote_mark")
      case True
      note q = this
      show ?thesis
      proof (cases "canon_string r0")
        case (Inl e)
        then show ?thesis using t q canon_string_fuel [of r0] by auto
      next
        case (Inr s)
        obtain name r1 where s: "canon_string r0 = Inr (name, r1)" using Inr by (cases s) simp
        show ?thesis
        proof (cases "name \<in> fst ` set members \<or> skip_ws r1 = [] \<or> hd (skip_ws r1) \<noteq> colon")
          case True
          then show ?thesis using t q s by (auto split: list.split)
        next
          case False
          then obtain r2 where r2: "skip_ws r1 = colon # r2" "name \<notin> fst ` set members"
            by (cases "skip_ws r1") auto
          have le: "length (skip_ws r2) + 3 \<le> length t"
            using canon_string_shorter [OF s] skip_ws_Cons [OF r2(1)] skip_ws_Cons [OF t] skip_ws_shorter [of r2] by simp
          have node: "parse_node f (Suc depth) (skip_ws r2) \<noteq> Inl NoFuel"
            "\<And>n r. parse_node f (Suc depth) (skip_ws r2) = Inr (n, r) \<Longrightarrow> length r < length (skip_ws r2)"
            using "4.IH"(1) [OF t _ s refl _ r2(1)] q r2(2) "4.prems" le by auto
          show ?thesis
          proof (cases "parse_node f (Suc depth) (skip_ws r2)")
            case (Inl e)
            then show ?thesis using t q s r2 node(1) by auto
          next
            case (Inr nr)
            obtain v r3 where v: "parse_node f (Suc depth) (skip_ws r2) = Inr (v, r3)" using Inr by (cases nr) simp
            show ?thesis
            proof (cases "skip_ws r3")
              case (Cons x r4)
              have l4: "length r4 + 4 \<le> length t" using le node(2) [OF v] skip_ws_Cons [OF Cons] by simp
              then have "2 * length r4 + 2 \<le> f" using "4.prems" by simp
              then have more: "parse_members f depth (members @ [(name, v)]) r4 \<noteq> Inl NoFuel"
                "\<And>n r. parse_members f depth (members @ [(name, v)]) r4 = Inr (n, r) \<Longrightarrow> length r < length t" if "x = comma"
                using "4.IH"(2) [OF t _ s refl _ r2(1) _ v refl Cons that] q r2(2) l4 by fastforce+
              show ?thesis using more q t s r2 v Cons l4 by (cases "x = comma") auto
            qed (use t q s r2 v in simp)
          qed
        qed
      qed
    qed (use t in simp)
  qed simp
next
  case (6 f depth items t)
  have le: "length (skip_ws t) \<le> length t" by (rule skip_ws_shorter)
  have node: "parse_node f (Suc depth) (skip_ws t) \<noteq> Inl NoFuel"
    "\<And>n r. parse_node f (Suc depth) (skip_ws t) = Inr (n, r) \<Longrightarrow> length r < length (skip_ws t)"
    using "6.IH"(1) "6.prems" le by auto
  show ?case
  proof (cases "parse_node f (Suc depth) (skip_ws t)")
    case (Inl e)
    then show ?thesis using node(1) by auto
  next
    case (Inr nr)
    obtain v r3 where v: "parse_node f (Suc depth) (skip_ws t) = Inr (v, r3)" using Inr by (cases nr) simp
    show ?thesis
    proof (cases "skip_ws r3")
      case (Cons x r4)
      have l4: "length r4 + 2 \<le> length t" using le node(2) [OF v] skip_ws_Cons [OF Cons] by simp
      then have more: "parse_items f depth (items @ [v]) r4 \<noteq> Inl NoFuel"
        "\<And>n r. parse_items f depth (items @ [v]) r4 = Inr (n, r) \<Longrightarrow> length r \<le> length t" if "x = comma"
        using "6.IH"(2) [OF v refl Cons that] "6.prems" by fastforce+
      show ?thesis using more v Cons l4 by (cases "x = comma") auto
    qed (use v in simp)
  qed
qed simp_all

section \<open>Order and numbers\<close>

fun literals :: "json_node \<Rightarrow> jstr list" where
  "literals (NObj ms) = concat (map (\<lambda>(k, v). literals v) ms)"
| "literals (NArr xs) = concat (map literals xs)"
| "literals (NNum l) = [l]"
| "literals n = []"

definition canonical_number :: "jstr \<Rightarrow> bool" where
  "canonical_number l \<longleftrightarrow> INTEGER_LITERAL l \<and> \<bar>int_literal l\<bar> \<le> 2 ^ 53 - 1"

lemma all_parts_some: "(\<exists>ps. all_parts xs = Inr ps) \<longleftrightarrow> list_all (\<lambda>x. \<exists>p. x = Inr p) xs"
proof (induction xs rule: all_parts.induct)
  case (3 t xs)
  then show ?case by (cases "all_parts xs") auto
qed auto

lemma render_some: "(\<exists>c. render_node n = Inr c) \<longleftrightarrow> list_all canonical_number (literals n)"
proof (induction n rule: normal.induct)
  case (1 ms)
  have map_sum_some: "(\<exists>p. map_sum id f x = Inr p) \<longleftrightarrow> (\<exists>p. x = Inr p)" for f :: "jstr \<Rightarrow> jstr" and x :: "canon_error + jstr"
    by (cases x) simp_all
  have map_sum_some': "(\<exists>p. map_sum id f x = Inr p) \<longleftrightarrow> (\<exists>p. x = Inr p)" for f :: "jstr list \<Rightarrow> jstr" and x :: "canon_error + jstr list"
    by (cases x) simp_all
  have each: "(\<exists>p. render_node (snd e) = Inr p) = list_all canonical_number (literals (snd e))" if "e \<in> set ms" for e
    using 1 [of e "fst e" "snd e"] that by simp
  have "(\<exists>c. render_node (NObj ms) = Inr c) \<longleftrightarrow> list_all (\<lambda>(k, v). \<exists>p. render_node v = Inr p) ms"
    unfolding render_node.simps map_sum_some' all_parts_some sort_by_map
    by (simp add: list_all_iff case_prod_beta map_sum_some)
  also have "\<dots> \<longleftrightarrow> list_all (\<lambda>(k, v). list_all canonical_number (literals v)) ms"
    by (rule list.pred_cong [OF refl]) (simp add: case_prod_beta each)
  finally show ?case by (auto simp: list_all_iff)
next
  case (2 xs)
  have map_sum_some': "(\<exists>p. map_sum id f x = Inr p) \<longleftrightarrow> (\<exists>p. x = Inr p)" for f :: "jstr list \<Rightarrow> jstr" and x :: "canon_error + jstr list"
    by (cases x) simp_all
  show ?case unfolding render_node.simps map_sum_some' all_parts_some using 2 by (auto simp: list_all_iff)
next
  case (3 l)
  show ?case by (auto simp: render_number_def canonical_number_def MAX_INTEGER_def Let_def)
qed auto

section \<open>Hex\<close>

lemma hex_pairs_bytes: "hex_pairs (bytesToHex bs) = bs"
proof (induction bs)
  case (Cons b bs)
  have "unat b < 256" using unsigned_less [of b, where 'a = nat] by simp
  then have "hex_value (hex_digit (unat b div 16)) = Some (unat b div 16)"
    "hex_value (hex_digit (unat b mod 16)) = Some (unat b mod 16)"
    by (simp_all add: hex_value_digit)
  then show ?case using Cons by (simp add: bytesToHex_def)
qed (simp add: bytesToHex_def)

lemma hex_digit_lower: "n < 16 \<Longrightarrow> is_lower_hex (hex_digit n)"
proof -
  have "list_all (\<lambda>n. is_lower_hex (hex_digit n)) [0..<16]"
    by (simp add: upt_rec is_lower_hex_def hex_digit_def is_digit_def)
  then show "n < 16 \<Longrightarrow> is_lower_hex (hex_digit n)" by (simp add: list_all_iff)
qed

lemma hex_digit_value: "is_lower_hex c \<Longrightarrow> \<exists>n < 16. hex_value c = Some n \<and> hex_digit n = c"
proof -
  assume c: "is_lower_hex c"
  have "c \<in> set (js ''0123456789abcdef'')"
  proof (cases "is_digit c")
    case False
    then have "97 \<le> unat c" "unat c \<le> 102" using c by (auto simp: is_lower_hex_def word_le_nat_alt)
    then have "unat c \<in> {97, 98, 99, 100, 101, 102}" by auto
    then have "c \<in> {97, 98, 99, 100, 101, 102}" by (auto simp: word_unat_eq_iff)
    then show ?thesis by auto
  qed (auto simp: is_digit_def)
  moreover have "list_all (\<lambda>c. case hex_value c of Some n \<Rightarrow> n < 16 \<and> hex_digit n = c | None \<Rightarrow> False)
      (js ''0123456789abcdef'')"
    by (simp add: hex_value_def is_digit_def digit_value_def hex_digit_def)
  ultimately have "case hex_value c of Some n \<Rightarrow> n < 16 \<and> hex_digit n = c | None \<Rightarrow> False"
    unfolding list_all_iff by blast
  then show ?thesis by (auto split: option.splits)
qed

lemma bytes_hex_pairs: "\<lbrakk>even (length h); list_all is_lower_hex h\<rbrakk> \<Longrightarrow> bytesToHex (hex_pairs h) = h"
proof (induction h rule: hex_pairs.induct)
  case (1 a b r)
  obtain m where m: "m < 16" "hex_value a = Some m" "hex_digit m = a" using 1 hex_digit_value [of a] by auto
  obtain n where n: "n < 16" "hex_value b = Some n" "hex_digit n = b" using 1 hex_digit_value [of b] by auto
  have "unat (of_nat (m * 16 + n) :: byte) = m * 16 + n" using m n by (simp add: unat_of_nat take_bit_eq_mod del: of_nat_add of_nat_mult)
  then show ?case using 1 m n by (simp add: bytesToHex_def)
qed (auto simp: bytesToHex_def)

lemma bytesToHex_lower: "list_all is_lower_hex (bytesToHex bs)" "even (length (bytesToHex bs))"
proof -
  show "list_all is_lower_hex (bytesToHex bs)"
  proof (induction bs)
    case (Cons b bs)
    have "unat b < 256" using unsigned_less [of b, where 'a = nat] by simp
    then show ?case using Cons by (simp add: bytesToHex_def hex_digit_lower)
  qed (simp add: bytesToHex_def)
  show "even (length (bytesToHex bs))" by (induction bs) (simp_all add: bytesToHex_def)
qed

lemma parsed_node: "parseJsonText t = Inr n \<Longrightarrow> \<exists>r. parse_node (2 * length t + 2) 0 (skip_ws t) = Inr (n, r)"
  by (auto simp: parseJsonText_def simp del: parse_node.simps split: sum.splits if_splits)

section \<open>Properties\<close>

text \<open>
  C10: the canonical form is canonical: the strict parser reads the rendered text back as the same
  document in canonical order, and rendering that gives the same text again.
\<close>

theorem canonical_text_stable:
  assumes "parseJsonText t = Inr n" "render_node n = Inr c"
  shows "parseJsonText c = Inr (normal n) \<and> render_node (normal n) = Inr c
     \<and> canonicalText c = canonicalText t"
proof -
  have n: "sound_node n" "fits 0 n"
    using parsed_node [OF assms(1)] parse_node_sound(1) by blast+
  have r: "reads_back 0 n c" by (rule reads_back_render [OF n assms(2)])
  then have "parse_node (2 * length c + 2) 0 (c @ []) = Inr (normal n, [])"
    by (rule reads_backD) simp_all
  moreover have "skip_ws (c @ []) = c @ []" using r skip_ws_starts unfolding reads_back_def by blast
  ultimately have "parseJsonText c = Inr (normal n)" by (simp add: parseJsonText_def skip_ws_def del: parse_node.simps)
  then show ?thesis using render_normal [OF n(1) assms(2)] assms
    by (simp add: canonicalText_def canonicalize_def)
qed

lemma negative_zero:
  "parseJsonText (js '' -0'') = Inr (NNum (js ''-0''))" "render_node (NNum (js ''-0'')) = Inr (js ''0'')"
proof -
  have f: "2 * length (js '' -0'') + 2 = Suc 7" by simp
  show "parseJsonText (js '' -0'') = Inr (NNum (js ''-0''))"
    unfolding parseJsonText_def f parse_node.simps
    by (simp add: skip_ws_def isSpace_def canon_number_def is_digit_def
        NUMBER_LITERAL_def json_number_def json_int_def json_frac_def json_exp_def)
  show "render_node (NNum (js ''-0'')) = Inr (js ''0'')"
    by (simp add: render_number_def INTEGER_LITERAL_def unsigned_part_def is_index_def int_literal_def
        digits_value_def digit_value_def MAX_INTEGER_def int_text_def dec.simps)
qed

theorem canonical_text_stable_witness:
  "parseJsonText (js ''0'') = Inr (normal (NNum (js ''-0''))) \<and> render_node (normal (NNum (js ''-0''))) = Inr (js ''0'')
   \<and> canonicalText (js ''0'') = canonicalText (js '' -0'')"
  by (rule canonical_text_stable [OF negative_zero])

text \<open>
  C12: whatever the strict parser accepts has no name twice in an object, no half of a surrogate pair,
  only literals of the JSON grammar, and no more containers inside each other than a decoder reads.
\<close>

theorem parseJsonText_strict:
  assumes "parseJsonText t = Inr n"
  shows "sound_node n \<and> fits 0 n"
  using parsed_node [OF assms] parse_node_sound(1) by blast

theorem parseJsonText_strict_witness:
  "sound_node (NNum (js ''-0'')) \<and> fits 0 (NNum (js ''-0''))"
  by (rule parseJsonText_strict [OF negative_zero(1)])

text \<open>
  the parser answers on every text, a node or one of its refusals.
\<close>

theorem parseJsonText_answers: "parseJsonText t \<noteq> Inl NoFuel"
proof -
  have "2 * length (skip_ws t) + 1 \<le> 2 * length t + 2" using skip_ws_shorter [of t] by simp
  from parse_node_fuel(1) [OF this, of 0] show ?thesis
    by (auto simp: parseJsonText_def simp del: parse_node.simps split: sum.split)
qed

text \<open>
  the canonical bytes do not depend on the order in which an object's members are written, and
  they hold the members in ascending order of code points.
\<close>

theorem canonical_member_order:
  assumes "distinct (map fst ms)" "mset ms = mset ms'"
  shows "canonicalize (NObj ms) = canonicalize (NObj ms')
     \<and> normal (NObj ms) = NObj (map (\<lambda>(k, v). (k, normal v)) (sort_by by_name ms))
     \<and> sorted_wrt (\<lambda>a b. compareCodePoints (fst a) (fst b) = - 1) (sort_by by_name ms)"
proof -
  have "sort_by by_name ms = sort_by by_name ms'" by (rule name_sorting(3) [OF assms])
  then have "render_node (NObj ms) = render_node (NObj ms')" by (simp add: sort_by_map)
  moreover have "sorted_wrt (\<lambda>a b. compareCodePoints (fst a) (fst b) = - 1) (sort_by by_name ms)"
    using name_sorting(1) [OF assms(1)] unfolding ascending_by_def
    by (rule sorted_wrt_mono_rel [rotated]) (auto simp: compareCodePoints_cases split: if_splits)
  ultimately show ?thesis by (simp add: canonicalize_def sort_by_map)
qed

theorem canonical_member_order_witness:
  "canonicalize (NObj [(js ''b'', NNull), (js ''a'', NNull)]) = canonicalize (NObj [(js ''a'', NNull), (js ''b'', NNull)])"
  using canonical_member_order [of "[(js ''b'', NNull), (js ''a'', NNull)]" "[(js ''a'', NNull), (js ''b'', NNull)]"]
  by simp

text \<open>
  C11: a document that parses has a canonical form exactly when every number in it is an integer
  literal within plus or minus \<open>2^53 - 1\<close>.
\<close>

theorem canonical_iff_integers:
  assumes "parseJsonText t = Inr n"
  shows "(\<exists>bytes. canonicalText t = Inr bytes) \<longleftrightarrow>
    list_all (\<lambda>l. INTEGER_LITERAL l \<and> \<bar>int_literal l\<bar> \<le> 2 ^ 53 - 1) (literals n)"
proof -
  have "(\<exists>bytes. canonicalText t = Inr bytes) \<longleftrightarrow> (\<exists>c. render_node n = Inr c)"
    using assms by (cases "render_node n") (simp_all add: canonicalText_def canonicalize_def)
  then show ?thesis by (simp add: render_some canonical_number_def [abs_def])
qed

theorem canonical_iff_integers_witness:
  "(\<exists>bytes. canonicalText (js '' -0'') = Inr bytes) \<longleftrightarrow>
    list_all (\<lambda>l. INTEGER_LITERAL l \<and> \<bar>int_literal l\<bar> \<le> 2 ^ 53 - 1) (literals (NNum (js ''-0'')))"
  by (rule canonical_iff_integers [OF negative_zero(1)])

text \<open>
  writing bytes as hex and reading them back are inverse, and lowercase hex of even length is
  all that is read.
\<close>

theorem hexToBytes_iff: "hexToBytes h = Inr bytes \<longleftrightarrow> h = bytesToHex bytes"
  using hex_pairs_bytes [of bytes] bytes_hex_pairs [of h] bytesToHex_lower [of bytes]
  by (auto simp: hexToBytes_def)

end
