(* ===== verification/Ed25519_Facts.thy ===== *)
theory Ed25519_Facts
  imports Ed25519
begin

text \<open>
  The field operations are those of the integers modulo \<open>P\<close>, and a decoded point encodes back to the
  bytes it came from: only the canonical encoding of a point is accepted.
\<close>

section \<open>The field\<close>

lemma P_value: "P = 2 ^ 255 - 19" and P_pos [simp]: "0 < P" and P_odd: "odd P"
  by (simp_all add: P_def push_bit_eq_mult)

lemma js_rem_nonneg: "\<lbrakk>0 \<le> a; 0 < b\<rbrakk> \<Longrightarrow> js_rem a b = a mod b"
  by (simp add: js_rem_def)

lemma mod_P: "mod_P a = a mod P"
proof (cases "a < 0")
  case True
  then have r: "js_rem a P = - ((- a) mod P)" using P_pos by (simp add: js_rem_def abs_of_pos)
  show ?thesis
  proof (cases "(- a) mod P = 0")
    case True
    then show ?thesis using r zmod_zminus1_not_zero [of "- a" P] by (auto simp: mod_P_def)
  next
    case False
    have "0 < (- a) mod P" using False pos_mod_sign [OF P_pos, of "- a"] by (metis order_le_less)
    then show ?thesis
      using r False zmod_zminus1_eq_if [of "- a" P] by (simp add: mod_P_def Let_def)
  qed
next
  case False
  have "\<not> a mod P < 0" using pos_mod_sign [OF P_pos, of a] by (simp only: not_less)
  then show ?thesis using False js_rem_nonneg [of a P] by (simp add: mod_P_def Let_def)
qed

lemma mod_P_range [simp]: "0 \<le> mod_P a" "mod_P a < P"
  by (simp_all add: mod_P)

lemma low_bit: "(e :: int) AND 1 = e mod 2"
  by (simp add: and_one_eq)

lemma pow_loop_power:
  "\<lbrakk>0 \<le> result; result < P; 0 \<le> b; 0 \<le> e\<rbrakk> \<Longrightarrow> pow_loop result b e = (result * b ^ nat e) mod P"
proof (induction result b e rule: pow_loop.induct)
  case (1 result b e)
  show ?case
  proof (cases "0 < e")
    case False
    then show ?thesis using 1 by (subst pow_loop.simps) simp
  next
    case True
    let ?r = "if e AND 1 \<noteq> 0 then js_rem (result * b) P else result"
    have sq: "js_rem (b * b) P = (b * b) mod P" using "1.prems" by (simp add: js_rem_nonneg)
    have r: "?r = (result * b ^ nat (e mod 2)) mod P"
      using "1.prems" by (auto simp: low_bit js_rem_nonneg)
    have half: "drop_bit 1 e = e div 2" by (simp add: drop_bit_eq_div)
    have "pow_loop result b e = pow_loop ?r (js_rem (b * b) P) (drop_bit 1 e)"
      using True by (subst pow_loop.simps) simp
    also have "\<dots> = (?r * (js_rem (b * b) P) ^ nat (drop_bit 1 e)) mod P"
    proof (rule "1.IH" [OF True])
      show "0 \<le> ?r" "?r < P" using "1.prems" by (simp_all add: r)
    qed (use sq half True in simp_all)
    also have "\<dots> = (result * b ^ nat (e mod 2) * (b * b) ^ nat (e div 2)) mod P"
      unfolding sq r half by (metis mod_mult_left_eq mod_mult_right_eq power_mod)
    also have "b ^ nat (e mod 2) * (b * b) ^ nat (e div 2) = b ^ nat e"
    proof -
      have "nat (e mod 2) + 2 * nat (e div 2) = nat e" using True by (simp add: nat_div_distrib nat_mod_distrib)
      then show ?thesis by (metis power2_eq_square power_add power_mult)
    qed
    then have "result * b ^ nat (e mod 2) * (b * b) ^ nat (e div 2) = result * b ^ nat e" by (simp add: mult.assoc)
    finally show ?thesis .
  qed
qed

lemma pow_power: "0 \<le> e \<Longrightarrow> pow b e = b ^ nat e mod P"
proof -
  have "1 < P" by (simp add: P_value)
  moreover assume "0 \<le> e"
  ultimately have "pow b e = (1 * (mod_P b) ^ nat e) mod P" unfolding pow_def by (intro pow_loop_power) simp_all
  then show ?thesis by (simp add: mod_P power_mod)
qed

lemma inverse_one [simp]: "inverse_P 1 = 1"
  by (simp add: inverse_P_def pow_power P_value)

section \<open>Bytes\<close>

lemma le_value_snoc:
  "bytesToBigIntLE (b # bs) = push_bit 8 (bytesToBigIntLE bs) OR int (unat b)"
  by (simp add: bytesToBigIntLE_def)

lemma byte_bound: "int (unat (b :: byte)) < 256"
  using unsigned_less [of b, where 'a = int] by simp

lemma byte_div_mod: "\<lbrakk>0 \<le> r; r < 256\<rbrakk> \<Longrightarrow> (A * 256 + r) mod 256 = r \<and> (A * 256 + r) div 256 = (A :: int)"
  by simp

lemma top_bit: "\<lbrakk>0 \<le> n; n < 256\<rbrakk> \<Longrightarrow> n div 128 mod 2 = n div (128 :: int) \<and> (n div 128 = 0 \<or> n div 128 = 1)"
  by (cases "n < 128") (auto simp: div_pos_geq)

lemma split_top: "(n :: int) * 2 ^ 248 = n mod 128 * 2 ^ 248 + n div 128 * 2 ^ 255"
proof -
  have "n * 2 ^ 248 = (n div 128 * 128 + n mod 128) * 2 ^ 248" by (simp only: div_mult_mod_eq)
  also have "\<dots> = n mod 128 * 2 ^ 248 + n div 128 * (128 * 2 ^ 248)" by (simp only: distrib_right mult.assoc add.commute)
  finally show ?thesis by simp
qed

lemma push_or:
  assumes "0 \<le> (v :: int)" "0 \<le> w" "w < 2 ^ n"
  shows "push_bit n v OR w = v * 2 ^ n + w"
proof -
  have "push_bit n v AND w = 0"
  proof (rule bit_eqI)
    fix k assume "possible_bit TYPE(int) k"
    have "take_bit n w = w" using assms by (simp add: take_bit_int_eq_self)
    then have "\<not> bit w k" if "n \<le> k" using that by (metis bit_take_bit_iff linorder_not_le)
    then show "bit (push_bit n v AND w) k = bit 0 k" by (auto simp: bit_and_iff bit_push_bit_iff)
  qed
  then show ?thesis by (simp add: disjunctive_add_eq_or [symmetric] push_bit_eq_mult)
qed

lemma value_Nil [simp]: "bytesToBigIntLE [] = 0"
  by (simp add: bytesToBigIntLE_def)

lemma value_nonneg [simp]: "0 \<le> bytesToBigIntLE bs"
  by (induction bs) (simp_all add: le_value_snoc)

lemma value_Cons: "bytesToBigIntLE (b # bs) = bytesToBigIntLE bs * 256 + int (unat b)"
  unfolding le_value_snoc by (subst push_or) (use byte_bound [of b] in simp_all)

lemma value_snoc: "bytesToBigIntLE (bs @ [z]) = bytesToBigIntLE bs + int (unat z) * 256 ^ length bs"
  by (induction bs) (simp_all add: value_Cons algebra_simps)

lemma value_bound: "bytesToBigIntLE bs < 256 ^ length bs"
proof (induction bs)
  case (Cons b bs)
  then have "bytesToBigIntLE bs + 1 \<le> 256 ^ length bs" by simp
  then have "(bytesToBigIntLE bs + 1) * 256 \<le> 256 ^ length bs * 256" by (rule mult_right_mono) simp
  then show ?case using byte_bound [of b] by (simp add: value_Cons)
qed simp

lemma le_bytes_value:
  "0 \<le> k \<Longrightarrow> le_bytes (length bs) (bytesToBigIntLE bs + k * 256 ^ length bs) = bs"
proof (induction bs)
  case (Cons b bs)
  let ?v = "bytesToBigIntLE (b # bs) + k * 256 ^ length (b # bs)"
  have e: "?v = (bytesToBigIntLE bs + k * 256 ^ length bs) * 256 + int (unat b)" by (simp add: value_Cons)
  have "?v AND 0xFF = ?v mod 256" using take_bit_eq_mask [of 8 ?v] by (simp add: take_bit_eq_mod mask_eq_exp_minus_1)
  also have "\<dots> = int (unat b)" unfolding e using byte_div_mod byte_bound [of b] of_nat_0_le_iff by blast
  finally have low: "(of_int (?v AND 0xFF) :: byte) = b" by simp
  have "drop_bit 8 ?v = bytesToBigIntLE bs + k * 256 ^ length bs"
    unfolding e drop_bit_eq_div power_one_right
    using byte_div_mod [OF of_nat_0_le_iff byte_bound [of b], THEN conjunct2] by simp
  then show ?case using Cons low by simp
qed simp

lemma le_bytes_snoc: "le_bytes (Suc n) v = le_bytes n v @ [of_int (drop_bit (8 * n) v AND 0xFF)]"
proof (induction n arbitrary: v)
  case (Suc n)
  have "le_bytes (Suc (Suc n)) v = of_int (v AND 0xFF) # le_bytes (Suc n) (drop_bit 8 v)" by simp
  also have "\<dots> = of_int (v AND 0xFF) # le_bytes n (drop_bit 8 v) @ [of_int (drop_bit (8 * n) (drop_bit 8 v) AND 0xFF)]"
    by (simp only: Suc)
  finally show ?case by (simp add: add.commute)
qed simp

lemma top_byte: "(of_int (int (unat (z :: byte)) mod 128) :: byte) OR of_int (push_bit 7 (int (unat z) div 128 AND 1)) = z"
proof -
  have "int (unat z) div 128 AND 1 = int (unat z) div 128"
    using top_bit [OF _ byte_bound [of z]] by (simp add: low_bit)
  moreover have "int (unat z) mod 128 OR push_bit 7 (int (unat z) div 128) = int (unat z)"
    using push_or [of "int (unat z) div 128" "int (unat z) mod 128" 7]
    by (simp add: or.commute pos_imp_zdiv_nonneg_iff)
  ultimately have "(of_int (int (unat z) mod 128 OR push_bit 7 (int (unat z) div 128 AND 1)) :: byte) = z" by simp
  then show ?thesis by (simp add: of_int_or_eq)
qed

section \<open>A point's encoding\<close>

lemma recoverX_facts:
  assumes "recoverX y sign = Some x" "sign = 0 \<or> sign = 1"
  shows "0 \<le> x" "x < P" "x AND 1 = sign"
proof -
  define u where "u = mod_P (mod_P (y * y) - 1)"
  define v where "v = mod_P (D * mod_P (y * y) + 1)"
  define r where "r = mod_P (pow (u * inverse_P v) ((P + 3) div 8))"
  define w where "w = (if mod_P (v * r * r) \<noteq> u then mod_P (r * SQRT_M1) else r)"
  have "recoverX y sign =
     (if mod_P (v * r * r) \<noteq> u \<and> mod_P (v * r * r) \<noteq> mod_P (- u) then None
      else if w = 0 \<and> sign = 1 then None
      else Some (if w AND 1 \<noteq> sign then mod_P (- w) else w))"
    unfolding recoverX_def Let_def
    unfolding u_def [symmetric] v_def [symmetric] unfolding r_def [symmetric] unfolding w_def [symmetric] ..
  then have w: "\<not> (w = 0 \<and> sign = 1)" "x = (if w AND 1 \<noteq> sign then mod_P (- w) else w)"
    using assms(1) by (auto split: if_splits)
  have range: "0 \<le> w" "w < P" by (auto simp: w_def r_def)
  show "0 \<le> x" "x < P" using w range by auto
  show "x AND 1 = sign"
  proof (cases "w AND 1 = sign")
    case False
    then have "w \<noteq> 0" using assms(2) w(1) by auto
    then have "mod_P (- w) = P - w" using range by (simp add: mod_P zmod_zminus1_eq_if)
    moreover have "odd (P - w) \<longleftrightarrow> even w" using P_odd by simp
    ultimately show ?thesis using w(2) False assms(2) by (auto simp: low_bit even_iff_mod_2_eq_zero odd_iff_mod_2_eq_one)
  qed (use w in simp)
qed

text \<open>C16: A decoded point is the canonical one: its coordinates are below the field order, and encoding
  it gives back the bytes it was decoded from, sign included.\<close>

theorem decode_encode:
  assumes "decodePoint bytes = Some p"
  shows "encodePoint p = bytes \<and> 0 \<le> px p \<and> px p < P \<and> 0 \<le> py p \<and> py p < P"
proof -
  let ?raw = "bytesToBigIntLE bytes"
  let ?y = "?raw AND (push_bit 255 1 - 1)"
  obtain x where x: "length bytes = 32" "?y < P" "recoverX ?y (drop_bit 255 ?raw) = Some x"
      "p = \<lparr>px = x, py = ?y, pz = 1, pt = mod_P (x * ?y)\<rparr>"
    using assms by (auto simp: decodePoint_def Let_def split: if_splits option.splits)
  obtain front z where fz: "bytes = front @ [z]" "length front = 31"
    using x(1) by (cases bytes rule: rev_cases) auto
  let ?V = "bytesToBigIntLE front" and ?z = "int (unat z)"
  have V: "0 \<le> ?V" "?V < 2 ^ 248" using value_bound [of front] fz(2) by simp_all
  have raw: "?raw = ?V + ?z * 2 ^ 248" using fz by (simp add: value_snoc)
  have y: "?y = ?V + ?z mod 128 * 2 ^ 248"
  proof -
    have "?y = ?raw mod 2 ^ 255"
      using take_bit_eq_mask [of 255 ?raw] by (simp add: take_bit_eq_mod mask_eq_exp_minus_1 push_bit_eq_mult)
    also have "?raw mod 2 ^ 255 = ((?V + ?z mod 128 * 2 ^ 248) + ?z div 128 * 2 ^ 255) mod 2 ^ 255"
      unfolding raw split_top [of ?z] by (simp only: add.assoc)
    also have "\<dots> = ?V + ?z mod 128 * 2 ^ 248"
    proof -
      have "?z mod 128 \<le> 127" by simp
      then have "?V + ?z mod 128 * 2 ^ 248 < 2 ^ 255" using V by simp
      then show ?thesis using V(1) by simp
    qed
    finally show ?thesis .
  qed
  have sign: "drop_bit 255 ?raw = ?z div 128"
  proof -
    have "?raw div 2 ^ 255 = ?raw div 2 ^ 248 div 2 ^ 7" by (simp flip: zdiv_zmult2_eq)
    also have "?raw div 2 ^ 248 = ?z" unfolding raw using V by simp
    finally show ?thesis by (simp add: drop_bit_eq_div)
  qed
  have bit: "?z div 128 = 0 \<or> ?z div 128 = 1" using top_bit [OF _ byte_bound [of z]] by simp
  note r = recoverX_facts [OF x(3) [unfolded sign] bit]
  have y0: "0 \<le> ?y" by simp
  have "le_bytes 32 ?y = le_bytes 31 ?y @ [of_int (drop_bit 248 ?y AND 0xFF)]"
    using le_bytes_snoc [of 31 ?y] by simp
  also have "le_bytes 31 ?y = front"
    using le_bytes_value [of "?z mod 128" front] fz(2) unfolding y by simp
  also have "drop_bit 248 ?y = ?z mod 128" unfolding y drop_bit_eq_div using V by simp
  also have "?z mod 128 AND 0xFF = ?z mod 128"
    using take_bit_eq_mask [of 8 "?z mod 128"] by (simp add: take_bit_eq_mod mask_eq_exp_minus_1)
  finally have out: "le_bytes 32 ?y = front @ [of_int (?z mod 128)]" .
  have "encodePoint p = (front @ [of_int (?z mod 128)])[31 := of_int (?z mod 128) OR of_int (push_bit 7 (x AND 1))]"
    using r y0 x(2) fz(2) out by (simp add: encodePoint_def x(4) Let_def mod_P nth_append del: push_bit_and)
  also have "\<dots> = bytes" using fz r(3) top_byte [of z] bit by (auto simp: low_bit list_update_append simp del: push_bit_and)
  finally show ?thesis using r x(2) y0 by (simp add: x(4))
qed

lemma value_zeros: "bytesToBigIntLE (replicate n 0) = 0"
  by (induction n) (simp_all add: value_Cons)

lemma decode_identity: "decodePoint (1 # replicate 31 0) = Some IDENTITY"
proof -
  have v: "bytesToBigIntLE (1 # replicate 31 0) = 1"
    by (simp only: value_Cons value_zeros) simp
  have P: "1 < P" "0 < nat ((P + 3) div 8)" by (simp_all add: P_value)
  have u: "mod_P (mod_P (1 * 1) - 1) = 0" using P(1) by (simp add: mod_P)
  have z: "mod_P (pow (0 * x) ((P + 3) div 8)) = 0" for x
    using P by (simp add: mod_P pow_power power_0_left)
  have "recoverX 1 0 = Some 0"
    unfolding recoverX_def Let_def u z by (simp add: mod_P)
  then show ?thesis using v P(1) by (simp add: decodePoint_def IDENTITY_def mod_P)
qed

theorem decode_encode_witness:
  "encodePoint IDENTITY = 1 # replicate 31 0 \<and> px IDENTITY < P \<and> py IDENTITY < P"
  using decode_encode [OF decode_identity] by simp

section \<open>Verification\<close>

lemma fold_or_zero: "fold (\<lambda>(x, y) diff. diff OR (x XOR y)) ps (d :: byte) = 0 \<longleftrightarrow> d = 0 \<and> (\<forall>(x, y) \<in> set ps. x = y)"
proof (induction ps arbitrary: d)
  case (Cons p ps)
  have "x XOR y = 0 \<longleftrightarrow> x = y" for x y :: byte
  proof
    assume "x XOR y = 0"
    then have "x XOR (x XOR y) = x" by simp
    then show "x = y" by (simp add: xor.assoc [symmetric])
  qed simp
  then show ?case using Cons by (auto simp: or_eq_0_iff split: prod.splits)
qed simp

lemma same_bytes_iff: "same_bytes a b \<longleftrightarrow> a = b"
proof
  assume s: "same_bytes a b"
  then have "length a = length b" "\<forall>(x, y) \<in> set (zip a b). x = y"
    by (simp_all add: same_bytes_def fold_or_zero split: if_splits)
  then show "a = b" by (simp add: list_eq_iff_zip_eq)
next
  assume "a = b"
  then show "same_bytes a b" by (auto simp: same_bytes_def fold_or_zero in_set_zip)
qed

text \<open>A signature verifies exactly when key and signature have their lengths, both points decode and
  neither has small order, \<open>S\<close> is below the group order, and the encodings of \<open>[S]B\<close> and \<open>R + [k]A\<close> are
  the same bytes; small-order keys, a point that is not canonical and a scalar at or past \<open>L\<close> never do.\<close>

theorem verifyEd25519Pure_iff:
  "verifyEd25519Pure sha512 publicKey message signature = Some True \<longleftrightarrow>
     length publicKey = 32 \<and> length signature = 64
     \<and> \<not> isSmallOrderPoint publicKey \<and> \<not> isSmallOrderPoint (take 32 signature)
     \<and> bytesToBigIntLE (drop 32 signature) < L
     \<and> (\<exists>a r b. decodePoint publicKey = Some a \<and> decodePoint (take 32 signature) = Some r \<and> basePoint = Some b
          \<and> encodePoint (multiply b (bytesToBigIntLE (drop 32 signature)))
            = encodePoint (add r (multiply a (bytesToBigIntLE (sha512 (take 32 signature @ publicKey @ message)) mod L))))"
proof -
  have "0 < L" by (simp add: L_def)
  then have "js_rem (bytesToBigIntLE bs) L = bytesToBigIntLE bs mod L" for bs by (simp add: js_rem_nonneg)
  moreover define bp where "bp = basePoint"
  ultimately show ?thesis
    unfolding verifyEd25519Pure_def isSmallOrderPoint_def Let_def same_bytes_iff bp_def [symmetric]
    by (cases "decodePoint publicKey"; cases "decodePoint (take 32 signature)"; cases bp) (auto simp: not_le)
qed

end
