(* ===== verification/Session_Facts.thy ===== *)
theory Session_Facts
  imports Session Canon_Round Ed25519_Facts
begin

text \<open>
  What a passing verdict is worth: a declarative account of a lawful session, the equivalence of the
  verifier with it, and what follows for the results that were held.
\<close>

section \<open>One receipt\<close>

definition receipt_member :: "held_receipt \<Rightarrow> string \<Rightarrow> json_node option" where
  "receipt_member held name = the (membersOf (h_receipt held)) (js name)"

text \<open>The receipt is of this version, under the pinned key, signed, filed where it is, and about this result.\<close>

definition in_order :: "platform \<Rightarrow> session_input \<Rightarrow> jstr \<Rightarrow> receipt_version \<Rightarrow> nat \<Rightarrow> held_receipt \<Rightarrow> bool" where
  "in_order pf input keyId version index held \<longleftrightarrow>
     shapeOf (h_receipt held) = Shaped version
     \<and> text_of (receipt_member held ''keyId'') = keyId
     \<and> (\<exists>covered. receiptSigningInput (h_receipt held) version = Inr covered
          \<and> verifyEd25519 pf (i_publicKeyHex input) covered (p_lower pf (text_of (receipt_member held ''signature''))) = Some True)
     \<and> integer_value (receipt_member held ''callIndex'') = int index
     \<and> text_of (receipt_member held ''sessionId'') = i_sessionId input
     \<and> text_of (receipt_member held ''authority'') = i_authority input
     \<and> stringMember (h_receipt held) (js ''kind'') \<noteq> Some (js ''action'')
     \<and> (\<exists>result bytes. h_result held = Some result \<and> canonicalize result = Inr bytes
          \<and> js ''sha256:'' @ sha256Hex pf bytes = text_of (receipt_member held ''resultDigest''))"

definition previous :: "held_receipt \<Rightarrow> jstr option" where
  "previous held = (case memberOf (h_receipt held) (js ''prevSignature'') of Some (NStr s) \<Rightarrow> Some s | _ \<Rightarrow> None)"

definition passes :: "receipt_version \<Rightarrow> nat \<Rightarrow> held_receipt \<Rightarrow> passed" where
  "passes version index held =
     \<lparr>p_index = index, p_callIndex = int index, p_version = version,
      p_signature = text_of (receipt_member held ''signature''), p_prevSignature = previous held\<rparr>"

lemma status_of_say [simp]: "f_status (say input c s f) = s" "f_sessionId (say input c s f) = i_sessionId input"
  by (simp_all add: say_def)

lemma grade_ok:
  "grade pf input keyId index held = Inr (say input (Some (int index)) OkStatus None, Some (passes version index held))
     \<longleftrightarrow> in_order pf input keyId version index held"
  by (auto simp: grade_def in_order_def passes_def previous_def receipt_member_def Let_def say_def
      split: receipt_shape.splits sum.splits option.splits if_splits)

lemma grade_status:
  assumes "grade pf input keyId index held = Inr (f, p)"
  shows "f_status f = OkStatus \<longleftrightarrow> (\<exists>version. in_order pf input keyId version index held)"
    and "p = None \<longleftrightarrow> f_status f \<noteq> OkStatus" "f_sessionId f = i_sessionId input"
    and "in_order pf input keyId version index held \<Longrightarrow> p = Some (passes version index held)"
proof -
  show "f_sessionId f = i_sessionId input" and n: "p = None \<longleftrightarrow> f_status f \<noteq> OkStatus"
    using assms
    by (auto simp: grade_def Let_def split: receipt_shape.splits sum.splits option.splits if_splits)
  have ok: "\<exists>version. grade pf input keyId index held
      = Inr (say input (Some (int index)) OkStatus None, Some (passes version index held))" if "f_status f = OkStatus"
    using assms that
    by (auto simp: grade_def Let_def passes_def previous_def receipt_member_def
        split: receipt_shape.splits sum.splits option.splits if_splits)
  show "f_status f = OkStatus \<longleftrightarrow> (\<exists>version. in_order pf input keyId version index held)"
    using ok assms unfolding grade_ok [symmetric] by auto
  show "in_order pf input keyId version index held \<Longrightarrow> p = Some (passes version index held)"
    using assms unfolding grade_ok [symmetric] by simp
qed

lemma grade_error: "grade pf input keyId index held = Inl e \<Longrightarrow> e = NoBasePoint \<and> basePoint = None \<and> \<not> webCryptoSpeaksEd25519 pf"
proof -
  have v: "verifyEd25519 pf k m s = None \<Longrightarrow> basePoint = None \<and> \<not> webCryptoSpeaksEd25519 pf" for k m s
    by (auto simp: verifyEd25519_def verifyEd25519Pure_def Let_def split: sum.splits if_splits option.splits)
  show "grade pf input keyId index held = Inl e \<Longrightarrow> e = NoBasePoint \<and> basePoint = None \<and> \<not> webCryptoSpeaksEd25519 pf"
    using v by (auto simp: grade_def Let_def split: receipt_shape.splits sum.splits option.splits if_splits)
qed

section \<open>All receipts\<close>

lemma grade_all_nth:
  "grade_all pf input keyId index hs = Inr gs \<longleftrightarrow>
     length gs = length hs \<and> (\<forall>i < length hs. grade pf input keyId (index + i) (hs ! i) = Inr (gs ! i))"
proof (induction hs arbitrary: index gs)
  case (Cons h hs)
  show ?case
  proof
    assume "grade_all pf input keyId index (h # hs) = Inr gs"
    then obtain g gs' where g: "grade pf input keyId index h = Inr g" "grade_all pf input keyId (Suc index) hs = Inr gs'" "gs = g # gs'"
      by (auto simp: map_sum_def split: sum.splits)
    then show "length gs = length (h # hs) \<and> (\<forall>i < length (h # hs). grade pf input keyId (index + i) ((h # hs) ! i) = Inr (gs ! i))"
      using Cons.IH [of "Suc index" gs'] by (auto simp: less_Suc_eq_0_disj)
  next
    assume a: "length gs = length (h # hs) \<and> (\<forall>i < length (h # hs). grade pf input keyId (index + i) ((h # hs) ! i) = Inr (gs ! i))"
    then obtain g gs' where g: "gs = g # gs'" "length gs' = length hs" by (cases gs) auto
    have "grade pf input keyId index h = Inr g" using a g by (metis add_0_right length_Cons nth_Cons_0 zero_less_Suc)
    moreover have "grade_all pf input keyId (Suc index) hs = Inr gs'"
      using a g unfolding Cons.IH by auto
    ultimately show "grade_all pf input keyId index (h # hs) = Inr gs" using g by (simp add: map_sum_def)
  qed
qed auto

lemma grade_all_error:
  "grade_all pf input keyId index hs = Inl e \<Longrightarrow> e = NoBasePoint \<and> basePoint = None \<and> \<not> webCryptoSpeaksEd25519 pf"
  by (induction hs arbitrary: index) (auto simp: map_sum_def dest: grade_error split: sum.splits)

lemma first_seal_error:
  "first_seal pf input keyId ls = Inl e \<Longrightarrow> e = NoBasePoint \<and> basePoint = None \<and> \<not> webCryptoSpeaksEd25519 pf"
proof (induction ls)
  case (Cons l ls)
  have v: "verifyEd25519 pf k m s = None \<Longrightarrow> basePoint = None \<and> \<not> webCryptoSpeaksEd25519 pf" for k m s
    by (auto simp: verifyEd25519_def verifyEd25519Pure_def Let_def split: sum.splits if_splits option.splits)
  have "seal_count pf input keyId l = Inl e \<Longrightarrow> e = NoBasePoint \<and> basePoint = None \<and> \<not> webCryptoSpeaksEd25519 pf"
    using v by (auto simp: seal_count_def split: sum.splits if_splits option.splits)
  then show ?case using Cons by (auto split: sum.splits option.splits)
qed simp

lemma first_seal_Some:
  "first_seal pf input keyId ls = Inr (Some n) \<longleftrightarrow>
     (\<exists>before line after. ls = before @ line # after \<and> seal_count pf input keyId line = Inr (Some n)
        \<and> (\<forall>l \<in> set before. seal_count pf input keyId l = Inr None))"
proof (induction ls)
  case (Cons l ls)
  have eq: "(\<exists>before line after. l # ls = before @ line # after \<and> A line \<and> (\<forall>l \<in> set before. B l))
      \<longleftrightarrow> A l \<or> B l \<and> (\<exists>before line after. ls = before @ line # after \<and> A line \<and> (\<forall>l \<in> set before. B l))"
    (is "?lhs A B \<longleftrightarrow> A l \<or> B l \<and> ?rest A B") for A B
  proof
    assume "?lhs A B"
    then obtain before line after where b: "l # ls = before @ line # after" "A line" "\<forall>l \<in> set before. B l" by blast
    then show "A l \<or> B l \<and> ?rest A B" by (cases before) auto
  next
    assume "A l \<or> B l \<and> ?rest A B"
    then show "?lhs A B"
    proof (elim disjE conjE exE)
      assume "A l"
      then show "?lhs A B" by (intro exI [of _ "[]"] exI [of _ l] exI [of _ ls]) simp
    next
      fix before line after assume "B l" "ls = before @ line # after" "A line" "\<forall>l \<in> set before. B l"
      then show "?lhs A B" by (intro exI [of _ "l # before"] exI [of _ line] exI [of _ after]) simp
    qed
  qed
  show ?case unfolding eq using Cons by (auto split: sum.splits option.splits)
qed simp

section \<open>The verdict\<close>

lemma chained_nth:
  "chained version e ps \<longleftrightarrow>
     (\<forall>i < length ps. p_version (ps ! i) = version
        \<and> p_prevSignature (ps ! i) = (if i = 0 then e else Some (p_signature (ps ! (i - 1)))))"
proof (induction ps arbitrary: e)
  case (Cons p ps)
  show ?case by (auto simp: Cons.IH less_Suc_eq_0_disj nth_Cons' split: if_splits)
qed simp

lemma sort_by_upt: "sort_by (\<lambda>a b. a - b) (map int [m..<n]) = map int [m..<n]"
proof (induction "n - m" arbitrary: m)
  case (Suc k)
  then have e: "[m..<n] = m # [Suc m..<n]" by (simp add: upt_rec)
  have "sort_by (\<lambda>a b. a - b) (map int [Suc m..<n]) = map int [Suc m..<n]" using Suc by simp
  then show ?case unfolding e
    by (cases "Suc m < n") (simp_all add: sort_by_def upt_rec [of "Suc m"])
qed (simp add: sort_by_def)

definition passing :: "(finding \<times> passed option) list \<Rightarrow> passed list" where
  "passing graded = concat (map (\<lambda>g. case snd g of Some p \<Rightarrow> [p] | None \<Rightarrow> []) graded)"

lemma verifySession_Inr:
  "verifySession pf input = Inr v \<longleftrightarrow>
     (\<exists>keyId graded sealed. keyIdOf pf (i_publicKeyHex input) = Inr keyId
        \<and> grade_all pf input keyId 0 (i_receipts input) = Inr graded
        \<and> first_seal pf input keyId (split_on 10 (i_registryText input)) = Inr sealed
        \<and> v = (let findings = map fst graded @ lineage input (passing graded) @ counted input (length (i_receipts input)) sealed
               in \<lparr>v_ok = (0 < length (i_receipts input) \<and> list_all (\<lambda>f. f_status f = OkStatus) findings),
                   v_findings = findings, v_sealed = (sealed \<noteq> None), v_keyId = keyId\<rparr>))"
  by (auto simp: verifySession_def Let_def passing_def split: sum.splits)

lemma passing_map: "\<forall>i < length gs. snd (gs ! i) = Some (f i) \<Longrightarrow> passing gs = map f [0..<length gs]"
proof (induction gs rule: rev_induct)
  case (snoc g gs)
  then have "passing gs = map f [0..<length gs]" "snd g = Some (f (length gs))"
    by (auto simp: nth_append split: if_splits)
  then show ?case by (simp add: passing_def)
qed (simp add: passing_def)

lemma counted_Nil: "counted input n sealed = [] \<longleftrightarrow> sealed = Some (int n)"
  and counted_ok: "list_all (\<lambda>f. f_status f = OkStatus) (counted input n sealed) \<longleftrightarrow> counted input n sealed = []"
  by (auto simp: counted_def split: option.splits)

lemma lineage_ok: "list_all (\<lambda>f. f_status f = OkStatus) (lineage input ps) \<longleftrightarrow> lineage input ps = []"
  by (auto simp: lineage_def Let_def)

lemma lineage_indices:
  assumes "\<And>i. i < n \<Longrightarrow> p_callIndex (f i) = int i"
  shows "lineage input (map f [0..<n]) = [] \<longleftrightarrow> n = 0 \<or> chained (p_version (f 0)) None (map f [0..<n])"
proof -
  have m: "map p_callIndex (map f [0..<n]) = map int [0..<n]" using assms by simp
  have i: "sort_by (\<lambda>a b. a - b) (map p_callIndex (map f [0..<n])) = map int [0..<n]"
    unfolding m by (rule sort_by_upt)
  have c: "list_all (\<lambda>(at_i, v). v = int at_i) (enumerate 0 (map int [0..<n]))"
    by (auto simp: list_all_iff in_set_enumerate_eq)
  have h: "hd (map f [0..<n]) = f 0" if "n \<noteq> 0" using that by (simp add: hd_map)
  show ?thesis unfolding lineage_def i Let_def using c h by (cases "n = 0") simp_all
qed

text \<open>What a session must be, said without the verifier's order of tests.\<close>

definition lawful :: "platform \<Rightarrow> session_input \<Rightarrow> bool" where
  "lawful pf input \<longleftrightarrow>
     (\<exists>keyId version. keyIdOf pf (i_publicKeyHex input) = Inr keyId \<and> i_receipts input \<noteq> []
        \<and> (\<forall>i < length (i_receipts input).
              in_order pf input keyId version i (i_receipts input ! i)
              \<and> previous (i_receipts input ! i)
                = (if i = 0 then None else Some (text_of (receipt_member (i_receipts input ! (i - 1)) ''signature''))))
        \<and> (\<exists>before line after. split_on 10 (i_registryText input) = before @ line # after
              \<and> seal_count pf input keyId line = Inr (Some (int (length (i_receipts input))))
              \<and> (\<forall>l \<in> set before. seal_count pf input keyId l = Inr None)))"

lemma in_order_version: "\<lbrakk>in_order pf input k v i h; in_order pf input k v' i h\<rbrakk> \<Longrightarrow> v = v'"
  by (simp add: in_order_def)

lemma ok_iff_lawful:
  "(\<exists>v. verifySession pf input = Inr v \<and> v_ok v) \<longleftrightarrow> lawful pf input"
proof
  let ?rs = "i_receipts input" and ?n = "length (i_receipts input)"
  assume "\<exists>v. verifySession pf input = Inr v \<and> v_ok v"
  then obtain keyId graded sealed where k: "keyIdOf pf (i_publicKeyHex input) = Inr keyId"
      "grade_all pf input keyId 0 ?rs = Inr graded"
      "first_seal pf input keyId (split_on 10 (i_registryText input)) = Inr sealed"
    and ok: "0 < ?n" "list_all (\<lambda>f. f_status f = OkStatus) (map fst graded)"
      "lineage input (passing graded) = []" "counted input ?n sealed = []"
    unfolding verifySession_Inr by (auto simp: Let_def lineage_ok counted_ok simp del: length_greater_0_conv)
  have g: "length graded = ?n" "\<And>i. i < ?n \<Longrightarrow> grade pf input keyId i (?rs ! i) = Inr (graded ! i)"
    using k(2) unfolding grade_all_nth by simp_all
  have "\<exists>version. in_order pf input keyId version i (?rs ! i)" if "i < ?n" for i
    using grade_status(1) [of pf input keyId i "?rs ! i" "fst (graded ! i)" "snd (graded ! i)"] g that ok(2)
    by (simp add: list_all_length)
  then obtain vs where vs: "\<And>i. i < ?n \<Longrightarrow> in_order pf input keyId (vs i) i (?rs ! i)" by metis
  have "snd (graded ! i) = Some (passes (vs i) i (?rs ! i))" if "i < ?n" for i
    using grade_status(4) [OF _ vs [OF that], of "fst (graded ! i)" "snd (graded ! i)"] g(2) [OF that] by simp
  then have p: "passing graded = map (\<lambda>i. passes (vs i) i (?rs ! i)) [0..<?n]"
    using passing_map [of graded "\<lambda>i. passes (vs i) i (?rs ! i)"] g(1) by simp
  have "chained (vs 0) None (map (\<lambda>i. passes (vs i) i (?rs ! i)) [0..<?n])"
    using ok(3) lineage_indices [of ?n "\<lambda>i. passes (vs i) i (?rs ! i)" input] ok(1)
    unfolding p by (simp add: passes_def)
  then have c: "vs i = vs 0 \<and> previous (?rs ! i) = (if i = 0 then None else Some (text_of (receipt_member (?rs ! (i - 1)) ''signature'')))"
    if "i < ?n" for i
    using that unfolding chained_nth by (auto simp: passes_def less_imp_diff_less split: if_splits)
  show "lawful pf input"
    unfolding lawful_def
  proof (intro exI [of _ keyId] exI [of _ "vs 0"] conjI allI impI)
    show "keyIdOf pf (i_publicKeyHex input) = Inr keyId" by (rule k(1))
    show "?rs \<noteq> []" using ok(1) by simp
    fix i assume i: "i < ?n"
    show "in_order pf input keyId (vs 0) i (?rs ! i)" using vs [OF i] c [OF i] by simp
    show "previous (?rs ! i) = (if i = 0 then None else Some (text_of (receipt_member (?rs ! (i - 1)) ''signature'')))"
      using c [OF i] by simp
  next
    have "first_seal pf input keyId (split_on 10 (i_registryText input)) = Inr (Some (int ?n))"
      using k(3) ok(4) by (simp add: counted_Nil)
    then show "\<exists>before line after. split_on 10 (i_registryText input) = before @ line # after
          \<and> seal_count pf input keyId line = Inr (Some (int ?n)) \<and> (\<forall>l \<in> set before. seal_count pf input keyId l = Inr None)"
      unfolding first_seal_Some .
  qed
next
  let ?rs = "i_receipts input" and ?n = "length (i_receipts input)"
  assume "lawful pf input"
  then obtain keyId version where k: "keyIdOf pf (i_publicKeyHex input) = Inr keyId" "?rs \<noteq> []"
    and o: "\<And>i. i < ?n \<Longrightarrow> in_order pf input keyId version i (?rs ! i)"
      "\<And>i. i < ?n \<Longrightarrow> previous (?rs ! i) = (if i = 0 then None else Some (text_of (receipt_member (?rs ! (i - 1)) ''signature'')))"
    and seal: "first_seal pf input keyId (split_on 10 (i_registryText input)) = Inr (Some (int ?n))"
    unfolding lawful_def first_seal_Some by blast
  let ?gs = "map (\<lambda>i. (say input (Some (int i)) OkStatus None, Some (passes version i (?rs ! i)))) [0..<?n]"
  have g: "grade_all pf input keyId 0 ?rs = Inr ?gs"
    unfolding grade_all_nth using o(1) by (simp add: grade_ok)
  have p: "passing ?gs = map (\<lambda>i. passes version i (?rs ! i)) [0..<?n]"
    using passing_map [of ?gs "\<lambda>i. passes version i (?rs ! i)"] by simp
  have "chained version None (map (\<lambda>i. passes version i (?rs ! i)) [0..<?n])"
    unfolding chained_nth using o(2) by (auto simp: passes_def less_imp_diff_less)
  then have "lineage input (passing ?gs) = []"
    unfolding p using lineage_indices [of ?n "\<lambda>i. passes version i (?rs ! i)" input] by (simp add: passes_def)
  then show "\<exists>v. verifySession pf input = Inr v \<and> v_ok v"
    unfolding verifySession_Inr using k g seal counted_Nil [of input ?n "Some (int ?n)"]
    by (auto simp: Let_def list_all_length)
qed

text \<open>C17: The verdict is \<open>ok\<close> exactly for a lawful session: at least one receipt, each well formed, under
  the pinned key, its signature valid over its canonical bytes, filed at its own index under this session
  and authority, not an action, about the result that is held; all of one version, each naming the
  signature before it; and the first seal of the registry that counts seals exactly as many.\<close>

theorem verdict_ok_iff_lawful:
  "(\<exists>v. verifySession pf input = Inr v \<and> v_ok v) \<longleftrightarrow> lawful pf input"
  by (rule ok_iff_lawful)

end
