(* ===== verification/Session_Trust.thy ===== *)
theory Session_Trust
  imports Session_Facts Shape
begin

text \<open>
  What the verdict is good for: the held results are the signed ones, the verifier says one thing of
  every receipt, and it fails only for the key it was given; on a sample session.
\<close>

section \<open>A sample session\<close>

text \<open>
  A platform whose SHA-256 keeps the first 32 bytes and whose WebCrypto accepts every signature; the key
  and the signatures are not points, so neither is refused for a small order.
\<close>

definition sample_platform :: platform where
  "sample_platform =
     \<lparr>p_lower = (\<lambda>t. t), p_sha256 = (\<lambda>bs. take 32 (bs @ replicate 32 0)), p_sha512 = (\<lambda>bs. []),
      p_web = (\<lambda>k m s. Some True)\<rparr>"

definition sample_receipt :: json_node where
  "sample_receipt =
     NObj (map (\<lambda>(k, v). (js k, v))
       [(''receiptVersion'', NStr (js ''2'')), (''sessionId'', NStr (js ''s'')), (''callIndex'', NNum (js ''0'')),
        (''source'', NStr []), (''servedAt'', NStr []), (''authority'', NStr (js ''a'')),
        (''keyId'', NStr (replicate 32 (uc CHR ''f''))), (''prevSignature'', NNull),
        (''argumentsDigest'', NStr (js ''hmac-sha256:0'')),
        (''resultDigest'', NStr (js ''sha256:6e756c6c'' @ replicate 56 (uc CHR ''0''))),
        (''signature'', NStr (replicate 128 (uc CHR ''f'')))])"

definition sample_seal :: jstr where
  "sample_seal =
     js ''{'' @ canonicalString (js ''sessionId'') @ js '':'' @ canonicalString (js ''s'')
     @ js '','' @ canonicalString (js ''finalCount'') @ js '':1,''
     @ canonicalString (js ''sealedAt'') @ js '':'' @ canonicalString []
     @ js '','' @ canonicalString (js ''keyId'') @ js '':'' @ canonicalString (replicate 32 (uc CHR ''f''))
     @ js '','' @ canonicalString (js ''signature'') @ js '':'' @ canonicalString (replicate 128 (uc CHR ''f'')) @ js ''}''"

definition sample_session :: "json_node \<Rightarrow> session_input" where
  "sample_session result =
     \<lparr>i_sessionId = js ''s'', i_authority = js ''a'', i_publicKeyHex = replicate 64 (uc CHR ''f''),
      i_receipts = [\<lparr>h_receipt = sample_receipt, h_result = Some result\<rparr>], i_registryText = sample_seal\<rparr>"

lemma canonicalize_some: "(\<exists>bytes. canonicalize n = Inr bytes) \<longleftrightarrow> list_all canonical_number (literals n)"
  unfolding render_some [symmetric] by (auto simp: canonicalize_def map_sum_def split: sum.splits)

lemma hex_of_bytes: "hexToBytes (bytesToHex bs) = Inr bs"
  using bytesToHex_lower [of bs] by (simp add: hexToBytes_def hex_pairs_bytes)

lemma bytesToHex_inj: "bytesToHex a = bytesToHex b \<Longrightarrow> a = b"
  by (metis hex_pairs_bytes)

lemma ff: "bytesToHex (replicate n 255) = replicate (2 * n) (uc CHR ''f'')"
  by (induction n) (simp_all add: bytesToHex_def hex_digit_def)

lemma zeros: "bytesToHex (replicate n 0) = replicate (2 * n) (uc CHR ''0'')"
  by (induction n) (simp_all add: bytesToHex_def hex_digit_def)

lemma bytesToHex_append: "bytesToHex (a @ b) = bytesToHex a @ bytesToHex b"
  by (simp add: bytesToHex_def)

lemma lower_hex_f: "is_lower_hex (uc CHR ''f'')" "is_lower_hex (uc CHR ''0'')"
  by (simp_all add: is_lower_hex_def is_digit_def)

lemma null_bytes: "canonicalize NNull = Inr [0x6e, 0x75, 0x6c, 0x6c]"
  by (simp add: canonicalize_def text_bytes_def utf8_def is_high_def is_low_def)

lemma null_digest: "sha256Hex sample_platform [0x6e, 0x75, 0x6c, 0x6c] = js ''6e756c6c'' @ replicate 56 (uc CHR ''0'')"
proof -
  have e: "p_sha256 sample_platform [0x6e, 0x75, 0x6c, 0x6c] = [0x6e, 0x75, 0x6c, 0x6c] @ replicate 28 0"
    by (simp add: sample_platform_def)
  have b: "bytesToHex [0x6e, 0x75, 0x6c, 0x6c] = js ''6e756c6c''" by (simp add: bytesToHex_def hex_digit_def)
  have z: "bytesToHex (replicate 28 0) = replicate 56 (uc CHR ''0'')" using zeros [of 28] by simp
  show ?thesis by (simp only: sha256Hex_def e bytesToHex_append b z)
qed

lemma sample_key: "keyIdOf sample_platform (replicate 64 (uc CHR ''f'')) = Inr (replicate 32 (uc CHR ''f''))"
proof -
  have "hexToBytes (replicate 64 (uc CHR ''f'')) = Inr (replicate 32 255)" using hex_of_bytes [of "replicate 32 255"] by (simp only: ff) simp
  moreover have "sha256Hex sample_platform (replicate 32 255) = replicate 64 (uc CHR ''f'')"
    using ff [of 32] by (simp add: sha256Hex_def sample_platform_def)
  ultimately show ?thesis by (simp add: keyIdOf_def)
qed

lemma sample_verifies:
  "verifyEd25519 sample_platform (replicate 64 (uc CHR ''f'')) m (replicate 128 (uc CHR ''f'')) = Some True"
proof -
  have k: "hexToBytes (replicate 64 (uc CHR ''f'')) = Inr (replicate 32 255)" using hex_of_bytes [of "replicate 32 255"] by (simp only: ff) simp
  have s: "hexToBytes (replicate 128 (uc CHR ''f'')) = Inr (replicate 64 255)" using hex_of_bytes [of "replicate 64 255"] by (simp only: ff) simp
  have "decodePoint (replicate 32 255) = None" by code_simp
  then have small: "\<not> isSmallOrderPoint (replicate 32 255)" by (simp add: isSmallOrderPoint_def)
  have t: "take 32 (replicate 64 255) = (replicate 32 255 :: byte list)" by simp
  have "list_all is_lower_hex PROBE_PUBLIC" "list_all is_lower_hex PROBE_SIGNATURE"
      "even (length PROBE_PUBLIC)" "even (length PROBE_SIGNATURE)"
    by (simp_all add: PROBE_PUBLIC_def PROBE_SIGNATURE_def is_lower_hex_def is_digit_def)
  then have w: "webCryptoSpeaksEd25519 sample_platform"
    by (simp add: webCryptoSpeaksEd25519_def hexToBytes_def sample_platform_def)
  show ?thesis unfolding verifyEd25519_def k s using small t w by (simp add: sample_platform_def)
qed

lemma map_of_js: "map_of (map (\<lambda>(k, v). (js k, v)) ms) (js n) = map_of ms n"
  by (induction ms) (auto simp del: js_Cons)

lemma sample_members:
  assumes "membersOf sample_receipt = Some r"
  shows "r (js ''receiptVersion'') = Some (NStr (js ''2''))" "r (js ''sessionId'') = Some (NStr (js ''s''))"
    "r (js ''callIndex'') = Some (NNum (js ''0''))" "r (js ''source'') = Some (NStr [])" "r (js ''servedAt'') = Some (NStr [])"
    "r (js ''authority'') = Some (NStr (js ''a''))" "r (js ''keyId'') = Some (NStr (replicate 32 (uc CHR ''f'')))"
    "r (js ''prevSignature'') = Some NNull" "r (js ''argumentsDigest'') = Some (NStr (js ''hmac-sha256:0''))"
    "r (js ''resultDigest'') = Some (NStr (js ''sha256:6e756c6c'' @ replicate 56 (uc CHR ''0'')))"
    "r (js ''signature'') = Some (NStr (replicate 128 (uc CHR ''f'')))"
  using assms unfolding sample_receipt_def membersOf_def json_node.case option.inject rev_map
  by (auto simp: map_of_js simp del: js_Cons)

lemma sample_shape: "shapeOf sample_receipt = Shaped V2"
proof -
  obtain r where r: "membersOf sample_receipt = Some r" by (simp add: sample_receipt_def membersOf_def)
  note m = sample_members [OF r]
  have lit: "literals sample_receipt = [js ''0'']" by (simp add: sample_receipt_def)
  obtain bytes where c: "canonicalize sample_receipt = Inr bytes"
    using canonicalize_some [of sample_receipt] unfolding lit
    by (auto simp: canonical_number_def INTEGER_LITERAL_def unsigned_part_def is_index_def int_literal_def digits_value_def digit_value_def)
  have "DIGEST (js ''sha256:6e756c6c'' @ replicate 56 (uc CHR ''0''))"
    by (simp add: DIGEST_def is_lower_hex_def is_digit_def list_all_iff)
  moreover have "HEX (replicate 128 (uc CHR ''f''))"
    using lower_hex_f(1) by (simp add: HEX_def hex_char_def list_all_iff)
  moreover have "HMAC_DIGEST (js ''hmac-sha256:0'')"
    by (simp add: HMAC_DIGEST_def HEX_def hex_char_def is_lower_hex_def is_digit_def)
  moreover have "SESSION_TOKEN (js ''s'')" by (simp add: SESSION_TOKEN_def token_char_def)
  moreover have "INTEGER_LITERAL (js ''0'')" "int_literal (js ''0'') = 0"
    by (simp_all add: INTEGER_LITERAL_def unsigned_part_def is_index_def int_literal_def digits_value_def digit_value_def)
  ultimately have "\<not> commonMalformed sample_receipt r"
    by (simp add: commonMalformed_def c m isString_def text_of_def isInteger_def integer_value_def isDigest_def isNullOrString_def del: js_Cons)
  then show ?thesis using \<open>HMAC_DIGEST (js ''hmac-sha256:0'')\<close>
    by (simp add: shapeOf_def r m isString_def text_of_def del: js_Cons)
qed

lemma sample_seal_parsed:
  "parseJsonText sample_seal = Inr (NObj
     [(js ''sessionId'', NStr (js ''s'')), (js ''finalCount'', NNum (js ''1'')), (js ''sealedAt'', NStr []),
      (js ''keyId'', NStr (replicate 32 (uc CHR ''f''))), (js ''signature'', NStr (replicate 128 (uc CHR ''f'')))])"
  by code_simp

lemma sample_in_order:
  "in_order sample_platform (sample_session NNull) (replicate 32 (uc CHR ''f'')) V2 0
     \<lparr>h_receipt = sample_receipt, h_result = Some NNull\<rparr>"
proof -
  obtain r where r: "membersOf sample_receipt = Some r" by (simp add: sample_receipt_def membersOf_def)
  have lit: "list_all canonical_number (literals (NObj (filter (\<lambda>m. fst m \<noteq> js ''signature'')
      (case sample_receipt of NObj ms \<Rightarrow> ms | _ \<Rightarrow> []))))"
    by (simp add: sample_receipt_def canonical_number_def INTEGER_LITERAL_def unsigned_part_def is_index_def int_literal_def
        digits_value_def digit_value_def)
  then obtain covered where c: "receiptSigningInput sample_receipt V2 = Inr covered"
    unfolding canonicalize_some [symmetric] by (auto simp: receiptSigningInput_def sample_receipt_def simp del: js_Cons)
  have "stringMember sample_receipt (js ''kind'') = None"
    by (simp add: stringMember_def memberOf_def sample_receipt_def map_of_js [of "[_, _, _, _, _, _, _, _, _, _, _]", simplified] del: js_Cons)
  moreover have "int_literal (js ''0'') = 0" by (simp add: int_literal_def digits_value_def digit_value_def)
  moreover have "p_lower sample_platform t = t" for t by (simp add: sample_platform_def)
  moreover have "js ''sha256:'' @ js ''6e756c6c'' = js ''sha256:6e756c6c''" by simp
  ultimately show ?thesis
    unfolding in_order_def receipt_member_def
    using sample_shape c sample_verifies null_bytes null_digest
    by (simp add: r sample_members [OF r] sample_session_def text_of_def integer_value_def append_assoc [symmetric]
        del: js_Cons append_assoc)
qed

lemma sample_lawful: "lawful sample_platform (sample_session NNull)"
proof -
  let ?node = "NObj
     [(js ''sessionId'', NStr (js ''s'')), (js ''finalCount'', NNum (js ''1'')), (js ''sealedAt'', NStr []),
      (js ''keyId'', NStr (replicate 32 (uc CHR ''f''))), (js ''signature'', NStr (replicate 128 (uc CHR ''f'')))]"
  have one: "INTEGER_LITERAL (js ''1'')" "int_literal (js ''1'') = 1"
    by (simp_all add: INTEGER_LITERAL_def unsigned_part_def is_index_def is_digit_def int_literal_def digits_value_def digit_value_def)
  have "list_all canonical_number (literals (NObj (butlast (case ?node of NObj ms \<Rightarrow> ms))))"
    using one by (simp add: canonical_number_def del: js_Cons)
  then obtain covered where c: "sealSigningInput ?node = Inr covered"
    unfolding canonicalize_some [symmetric] by (auto simp: sealSigningInput_def memberOf_def simp del: js_Cons)
  have line: "js_trim sample_seal \<noteq> []"
  proof -
    have "\<not> js_space (hd sample_seal)" "sample_seal \<noteq> []" by (simp_all add: sample_seal_def js_space_def)
    moreover have "js_trim (c # t) \<noteq> []" if "\<not> js_space c" for c t using that by (auto simp: js_trim_def dropWhile_eq_Nil_conv)
    ultimately show ?thesis by (metis list.collapse)
  qed
  have "seal_count sample_platform (sample_session NNull) (replicate 32 (uc CHR ''f'')) sample_seal = Inr (Some 1)"
    using line c sample_verifies one
    by (simp add: seal_count_def sample_seal_parsed stringMember_def memberOf_def sample_session_def isInteger_def integer_value_def
        sample_platform_def [THEN arg_cong, of p_lower] del: js_Cons)
  moreover have "10 \<notin> set sample_seal"
    by (simp add: sample_seal_def canonicalString_def canonical_unit_def short_escape_def)
  then have "split_on 10 (i_registryText (sample_session NNull)) = [] @ sample_seal # []"
    by (simp add: sample_session_def split_on_no_sep)
  moreover have "previous \<lparr>h_receipt = sample_receipt, h_result = Some NNull\<rparr> = None"
    by (simp add: previous_def memberOf_def sample_receipt_def del: js_Cons)
  moreover have "i_receipts (sample_session NNull) = [\<lparr>h_receipt = sample_receipt, h_result = Some NNull\<rparr>]"
      "i_publicKeyHex (sample_session NNull) = replicate 64 (uc CHR ''f'')"
    by (simp_all add: sample_session_def)
  moreover note sample_key sample_in_order
  ultimately show ?thesis
    unfolding lawful_def
    by (intro exI [of _ "replicate 32 (uc CHR ''f'')"] exI [of _ V2] conjI exI [of _ "[]"] exI [of _ sample_seal]) simp_all
qed

section \<open>What follows from a verdict\<close>

text \<open>C39: Two sessions that hold the same receipts and both pass hold the same results: for each receipt both
  results have a canonical form, and unless two byte strings with one SHA-256 digest have been found, the
  canonical forms are the same bytes.\<close>

theorem passing_results_agree:
  assumes "verifySession pf a = Inr va" "v_ok va" "verifySession pf b = Inr vb" "v_ok vb"
    and "map h_receipt (i_receipts a) = map h_receipt (i_receipts b)"
  shows "\<forall>i < length (i_receipts a). \<exists>ra rb ba bb.
      h_result (i_receipts a ! i) = Some ra \<and> canonicalize ra = Inr ba
      \<and> h_result (i_receipts b ! i) = Some rb \<and> canonicalize rb = Inr bb
      \<and> (ba = bb \<or> p_sha256 pf ba = p_sha256 pf bb \<and> ba \<noteq> bb)"
proof (intro allI impI)
  fix i assume i: "i < length (i_receipts a)"
  then have ib: "i < length (i_receipts b)" using assms(5) by (metis length_map)
  have same: "h_receipt (i_receipts a ! i) = h_receipt (i_receipts b ! i)"
    using assms(5) i ib by (metis nth_map)
  have "lawful pf a" "lawful pf b" using assms(1-4) ok_iff_lawful by blast+
  then obtain ka va kb vb where o: "in_order pf a ka va i (i_receipts a ! i)" "in_order pf b kb vb i (i_receipts b ! i)"
    using i ib unfolding lawful_def by metis
  obtain ra ba where a: "h_result (i_receipts a ! i) = Some ra" "canonicalize ra = Inr ba"
      "js ''sha256:'' @ sha256Hex pf ba = text_of (receipt_member (i_receipts a ! i) ''resultDigest'')"
    using o(1) unfolding in_order_def by blast
  obtain rb bb where b: "h_result (i_receipts b ! i) = Some rb" "canonicalize rb = Inr bb"
      "js ''sha256:'' @ sha256Hex pf bb = text_of (receipt_member (i_receipts b ! i) ''resultDigest'')"
    using o(2) unfolding in_order_def by blast
  have "sha256Hex pf ba = sha256Hex pf bb"
  proof -
    have "js ''sha256:'' @ sha256Hex pf ba = js ''sha256:'' @ sha256Hex pf bb"
      unfolding a(3) b(3) receipt_member_def same ..
    then show ?thesis by simp
  qed
  then have "p_sha256 pf ba = p_sha256 pf bb" by (simp add: sha256Hex_def bytesToHex_inj)
  then show "\<exists>ra rb ba bb. h_result (i_receipts a ! i) = Some ra \<and> canonicalize ra = Inr ba
      \<and> h_result (i_receipts b ! i) = Some rb \<and> canonicalize rb = Inr bb
      \<and> (ba = bb \<or> p_sha256 pf ba = p_sha256 pf bb \<and> ba \<noteq> bb)"
    using a b by blast
qed

theorem passing_results_agree_witness:
  "\<exists>v. verifySession sample_platform (sample_session NNull) = Inr v
     \<and> (\<forall>i < 1. \<exists>r bytes. h_result (i_receipts (sample_session NNull) ! i) = Some r \<and> canonicalize r = Inr bytes)"
proof -
  obtain v where v: "verifySession sample_platform (sample_session NNull) = Inr v" "v_ok v"
    using sample_lawful ok_iff_lawful by blast
  have "length (i_receipts (sample_session NNull)) = 1" by (simp add: sample_session_def)
  then show ?thesis using passing_results_agree [OF v v refl] v(1) by metis
qed

text \<open>The verifier gives every held receipt one finding, in order, and at most two more about the session
  as a whole; every finding names the session.\<close>

theorem one_finding_each:
  assumes "verifySession pf input = Inr v"
  shows "\<exists>first rest. v_findings v = first @ rest \<and> length first = length (i_receipts input) \<and> length rest \<le> 2
    \<and> (\<forall>f \<in> set (v_findings v). f_sessionId f = i_sessionId input)
    \<and> (\<forall>i < length first. f_status (first ! i) = OkStatus
          \<longleftrightarrow> (\<exists>version. in_order pf input (v_keyId v) version i (i_receipts input ! i)))"
proof -
  obtain keyId graded sealed where k: "grade_all pf input keyId 0 (i_receipts input) = Inr graded"
      "v_findings v = map fst graded @ lineage input (passing graded) @ counted input (length (i_receipts input)) sealed"
      "v_keyId v = keyId"
    using assms unfolding verifySession_Inr by (auto simp: Let_def)
  have g: "length graded = length (i_receipts input)"
      "\<And>i. i < length (i_receipts input) \<Longrightarrow> grade pf input keyId i (i_receipts input ! i) = Inr (fst (graded ! i), snd (graded ! i))"
    using k(1) unfolding grade_all_nth by simp_all
  have tail: "length (lineage input ps @ counted input n s) \<le> 2"
      "f \<in> set (lineage input ps @ counted input n s) \<Longrightarrow> f_sessionId f = i_sessionId input" for ps n s f
    by (auto simp: lineage_def counted_def Let_def split: option.splits if_splits)
  have own: "f_sessionId f = i_sessionId input" if f: "f \<in> set (map fst graded)" for f
  proof -
    obtain i where "i < length graded" "f = fst (graded ! i)" using f by (auto simp: in_set_conv_nth)
    then show ?thesis using grade_status(3) [OF g(2)] g(1) by simp
  qed
  have ok: "f_status (map fst graded ! i) = OkStatus
      \<longleftrightarrow> (\<exists>version. in_order pf input (v_keyId v) version i (i_receipts input ! i))" if "i < length (map fst graded)" for i
    using grade_status(1) [OF g(2)] g(1) that k(3) by simp
  have all: "f_sessionId f = i_sessionId input" if "f \<in> set (v_findings v)" for f
    using that own tail(2) unfolding k(2) set_append by blast
  have n: "length (map fst graded) = length (i_receipts input)" using g(1) by simp
  show ?thesis
    by (rule exI, rule exI, intro conjI ballI allI impI, rule k(2), rule n, rule tail(1), rule all, assumption, rule ok, assumption)
qed

theorem one_finding_each_witness:
  "\<exists>v first rest. verifySession sample_platform (sample_session NNull) = Inr v \<and> v_findings v = first @ rest
     \<and> length first = 1 \<and> length rest \<le> 2"
proof -
  obtain v where v: "verifySession sample_platform (sample_session NNull) = Inr v"
    using sample_lawful ok_iff_lawful by blast
  have "length (i_receipts (sample_session NNull)) = 1" by (simp add: sample_session_def)
  then show ?thesis using one_finding_each [OF v] v by metis
qed

text \<open>C40: The verifier throws only where the pinned key is not lowercase hex, or where the pure
  implementation has no base point while WebCrypto does not speak Ed25519: never for what is held.\<close>

theorem verifySession_throws:
  assumes "verifySession pf input = Inl e"
  shows "(\<exists>c. e = BadKey c \<and> hexToBytes (i_publicKeyHex input) = Inl c)
    \<or> (e = NoBasePoint \<and> basePoint = None \<and> \<not> webCryptoSpeaksEd25519 pf)"
proof (cases "keyIdOf pf (i_publicKeyHex input)")
  case (Inl c)
  then have "hexToBytes (i_publicKeyHex input) = Inl c" by (auto simp: keyIdOf_def map_sum_def split: sum.splits)
  then show ?thesis using assms Inl by (simp add: verifySession_def)
next
  case (Inr keyId)
  then show ?thesis
    using assms grade_all_error first_seal_error
    by (auto simp: verifySession_def Let_def split: sum.splits)
qed

theorem verifySession_throws_witness:
  "verifySession sample_platform ((sample_session NNull)\<lparr>i_publicKeyHex := js ''Z''\<rparr>) = Inl (BadKey NotLowercaseHex)
     \<and> hexToBytes (js ''Z'') = Inl NotLowercaseHex"
proof -
  have h: "hexToBytes (js ''Z'') = Inl NotLowercaseHex" by (simp add: hexToBytes_def)
  have e: "verifySession sample_platform ((sample_session NNull)\<lparr>i_publicKeyHex := js ''Z''\<rparr>) = Inl (BadKey NotLowercaseHex)"
    using h by (simp add: verifySession_def keyIdOf_def)
  show ?thesis using verifySession_throws [OF e] e h by blast
qed

end
