(* ===== verification/Refetch_Ledger.thy ===== *)
theory Refetch_Ledger
  imports Graph_Document Stringify
begin

text \<open>
  \<open>mcp/refetchLedger.ts\<close>: which divergent digest pairs a connection has already asked about.  The module's
  memory, a map from connection epochs to sets of identities, is a list of keyed lists that is passed on.
\<close>

section \<open>The memory\<close>

type_synonym asked = "(int \<times> jstr list) list"

definition divergentPairIdentity :: "(jstr \<Rightarrow> jstr) \<Rightarrow> jstr \<Rightarrow> jstr option \<Rightarrow> jstr option \<Rightarrow> jstr" where
  "divergentPairIdentity lower graphId run served =
     (let stated = (\<lambda>d. case statedDigest lower d of None \<Rightarrow> JNull | Some s \<Rightarrow> JStr s)
      in JSON_stringify [] (JArr [JStr graphId, stated run, stated served]))"

definition recordDivergentPair :: "int \<Rightarrow> jstr \<Rightarrow> asked \<Rightarrow> bool \<times> asked" where
  "recordDivergentPair connectionEpoch identity askedByEpoch =
     (let kept = filter (\<lambda>e. fst e = connectionEpoch) askedByEpoch;
          pairs = (case map_of kept connectionEpoch of None \<Rightarrow> [] | Some a \<Rightarrow> a)
      in if identity \<in> set pairs then (False, map_set connectionEpoch pairs kept)
         else (True, map_set connectionEpoch (pairs @ [identity]) kept))"

definition forgetDivergentPairs :: "asked \<Rightarrow> asked" where
  "forgetDivergentPairs askedByEpoch = []"

text \<open>What a sequence of calls answers.\<close>

fun recorded_answers :: "(int \<times> jstr) list \<Rightarrow> asked \<Rightarrow> bool list" where
  "recorded_answers [] m = []"
| "recorded_answers ((epoch, identity) # calls) m =
     (let (answer, m') = recordDivergentPair epoch identity m in answer # recorded_answers calls m')"

section \<open>What is remembered\<close>

text \<open>After some calls the memory holds one epoch, the last, and the pairs asked in its latest run of calls.\<close>

definition latest :: "(int \<times> jstr) list \<Rightarrow> jstr set" where
  "latest calls = snd ` set (takeWhile (\<lambda>c. fst c = fst (last calls)) (rev calls))"

definition remembers :: "(int \<times> jstr) list \<Rightarrow> asked \<Rightarrow> bool" where
  "remembers calls m \<longleftrightarrow>
     (if calls = [] then m = []
      else \<exists>pairs. m = [(fst (last calls), pairs)] \<and> set pairs = latest calls \<and> distinct pairs)"

lemma latest_snoc:
  "latest (calls @ [(epoch, identity)])
     = insert identity (if calls \<noteq> [] \<and> fst (last calls) = epoch then latest calls else {})"
  by (cases calls rule: rev_cases) (auto simp: latest_def)

lemma record_one:
  "recordDivergentPair epoch identity [(e, pairs)] =
     (if e = epoch \<and> identity \<in> set pairs then (False, [(epoch, pairs)])
      else (True, [(epoch, (if e = epoch then pairs else []) @ [identity])]))"
  by (simp add: recordDivergentPair_def)

lemma record_empty: "recordDivergentPair epoch identity [] = (True, [(epoch, [identity])])"
  by (simp add: recordDivergentPair_def)

lemma record_remembers:
  assumes r: "remembers calls m"
  shows "remembers (calls @ [(epoch, identity)]) (snd (recordDivergentPair epoch identity m))"
    and "fst (recordDivergentPair epoch identity m)
      \<longleftrightarrow> \<not> (calls \<noteq> [] \<and> fst (last calls) = epoch \<and> identity \<in> latest calls)"
proof -
  have "remembers (calls @ [(epoch, identity)]) (snd (recordDivergentPair epoch identity m))
    \<and> (fst (recordDivergentPair epoch identity m)
      \<longleftrightarrow> \<not> (calls \<noteq> [] \<and> fst (last calls) = epoch \<and> identity \<in> latest calls))"
  proof (cases "calls = []")
    case True
    then show ?thesis using r latest_snoc [of "[]" epoch identity] by (simp add: remembers_def record_empty)
  next
    case False
    then obtain pairs where m: "m = [(fst (last calls), pairs)]" "set pairs = latest calls" "distinct pairs"
      using r by (auto simp: remembers_def)
    show ?thesis
      using False m(2,3) latest_snoc [of calls epoch identity]
      by (cases "fst (last calls) = epoch") (auto simp: remembers_def record_one m(1))
  qed
  then show "remembers (calls @ [(epoch, identity)]) (snd (recordDivergentPair epoch identity m))"
    and "fst (recordDivergentPair epoch identity m)
      \<longleftrightarrow> \<not> (calls \<noteq> [] \<and> fst (last calls) = epoch \<and> identity \<in> latest calls)" by simp_all
qed

lemma answers_remember:
  "remembers past m \<Longrightarrow> length (recorded_answers calls m) = length calls
     \<and> (\<forall>i < length calls. recorded_answers calls m ! i
          \<longleftrightarrow> \<not> (past @ take i calls \<noteq> [] \<and> fst (last (past @ take i calls)) = fst (calls ! i)
                \<and> snd (calls ! i) \<in> latest (past @ take i calls)))"
proof (induction calls arbitrary: past m)
  case (Cons c calls)
  obtain e d where c: "c = (e, d)" by (cases c)
  obtain a m' where r: "recordDivergentPair e d m = (a, m')" by fastforce
  have next_: "remembers (past @ [c]) m'" using record_remembers(1) [OF Cons.prems, of e d] r c by simp
  have a: "a \<longleftrightarrow> \<not> (past \<noteq> [] \<and> fst (last past) = e \<and> d \<in> latest past)"
    using record_remembers(2) [OF Cons.prems, of e d] r by simp
  note ih = Cons.IH [OF next_]
  show ?case
  proof (intro conjI allI impI)
    show "length (recorded_answers (c # calls) m) = length (c # calls)" using ih r c by simp
    fix i assume i: "i < length (c # calls)"
    show "recorded_answers (c # calls) m ! i
      \<longleftrightarrow> \<not> (past @ take i (c # calls) \<noteq> [] \<and> fst (last (past @ take i (c # calls))) = fst ((c # calls) ! i)
            \<and> snd ((c # calls) ! i) \<in> latest (past @ take i (c # calls)))"
    proof (cases i)
      case 0
      then show ?thesis using a r c by simp
    next
      case (Suc j)
      then show ?thesis using ih i r c by simp
    qed
  qed
qed simp

lemma latest_iff:
  assumes "n < length calls"
  shows "identity \<in> latest (take (Suc n) calls) \<longleftrightarrow>
     (\<exists>j \<le> n. snd (calls ! j) = identity \<and> (\<forall>k. j \<le> k \<and> k \<le> n \<longrightarrow> fst (calls ! k) = fst (calls ! n)))"
  using assms
proof (induction n)
  case 0
  then obtain c cs where "calls = c # cs" by (cases calls) auto
  then show ?case by (auto simp: latest_def)
next
  case (Suc n)
  obtain e d where c: "calls ! Suc n = (e, d)" by (cases "calls ! Suc n")
  have t: "take (Suc (Suc n)) calls = take (Suc n) calls @ [(e, d)]" using take_Suc_conv_app_nth [OF Suc.prems] c by simp
  have l: "take (Suc n) calls \<noteq> []" "last (take (Suc n) calls) = calls ! n"
    using Suc.prems take_Suc_conv_app_nth [of n calls] by auto
  have step: "identity \<in> latest (take (Suc (Suc n)) calls)
      \<longleftrightarrow> identity = d \<or> (fst (calls ! n) = e \<and> identity \<in> latest (take (Suc n) calls))"
    unfolding t latest_snoc using l by auto
  have ih: "identity \<in> latest (take (Suc n) calls) \<longleftrightarrow>
     (\<exists>j \<le> n. snd (calls ! j) = identity \<and> (\<forall>k. j \<le> k \<and> k \<le> n \<longrightarrow> fst (calls ! k) = fst (calls ! n)))"
    using Suc.IH Suc.prems by simp
  show ?case
  proof
    assume "identity \<in> latest (take (Suc (Suc n)) calls)"
    then consider "identity = d" | j where "fst (calls ! n) = e" "j \<le> n" "snd (calls ! j) = identity"
        "\<forall>k. j \<le> k \<and> k \<le> n \<longrightarrow> fst (calls ! k) = fst (calls ! n)"
      using step ih by blast
    then show "\<exists>j \<le> Suc n. snd (calls ! j) = identity \<and> (\<forall>k. j \<le> k \<and> k \<le> Suc n \<longrightarrow> fst (calls ! k) = fst (calls ! Suc n))"
    proof cases
      case 1
      then show ?thesis using c by (intro exI [of _ "Suc n"]) (auto dest: le_antisym)
    next
      case 2
      have q: "fst (calls ! k) = fst (calls ! Suc n)" if "j \<le> k" "k \<le> Suc n" for k
        using that 2(4) [rule_format, of k] 2(1) c by (cases "k = Suc n") simp_all
      show ?thesis by (intro exI [of _ j] conjI allI impI) (use 2(2,3) in simp, use 2(3) in simp, elim conjE, rule q)
    qed
  next
    assume "\<exists>j \<le> Suc n. snd (calls ! j) = identity \<and> (\<forall>k. j \<le> k \<and> k \<le> Suc n \<longrightarrow> fst (calls ! k) = fst (calls ! Suc n))"
    then obtain j where j: "j \<le> Suc n" "snd (calls ! j) = identity"
      "\<And>k. j \<le> k \<Longrightarrow> k \<le> Suc n \<Longrightarrow> fst (calls ! k) = e" using c by auto
    show "identity \<in> latest (take (Suc (Suc n)) calls)"
    proof (cases "j = Suc n")
      case True
      then show ?thesis using j(2) c step by simp
    next
      case False
      then have "j \<le> n" "fst (calls ! n) = e" using j(1,3) by auto
      then show ?thesis using j c step ih by (metis le_SucI)
    qed
  qed
qed

section \<open>The properties\<close>

text \<open>C18: In any sequence of calls from an empty memory, a call answers true exactly when no earlier call
  recorded the same pair under the same epoch with no other epoch in between: once per pair and connection.\<close>

theorem asked_once:
  "length (recorded_answers calls []) = length calls
   \<and> (\<forall>i < length calls. recorded_answers calls [] ! i
        \<longleftrightarrow> \<not> (\<exists>j < i. calls ! j = calls ! i \<and> (\<forall>k. j \<le> k \<and> k < i \<longrightarrow> fst (calls ! k) = fst (calls ! i))))"
proof -
  have r: "remembers [] []" by (simp add: remembers_def)
  note a = answers_remember [OF r, of calls]
  have "take i calls \<noteq> [] \<and> fst (last (take i calls)) = fst (calls ! i) \<and> snd (calls ! i) \<in> latest (take i calls)
      \<longleftrightarrow> (\<exists>j < i. calls ! j = calls ! i \<and> (\<forall>k. j \<le> k \<and> k < i \<longrightarrow> fst (calls ! k) = fst (calls ! i)))"
    if i: "i < length calls" for i
  proof (cases i)
    case (Suc n)
    have l: "take (Suc n) calls \<noteq> []" "last (take (Suc n) calls) = calls ! n" "n < length calls"
      using i Suc take_Suc_conv_app_nth [of n calls] by auto
    show ?thesis
    proof
      assume h: "take i calls \<noteq> [] \<and> fst (last (take i calls)) = fst (calls ! i) \<and> snd (calls ! i) \<in> latest (take i calls)"
      then obtain j where j: "j \<le> n" "snd (calls ! j) = snd (calls ! i)" "\<forall>k. j \<le> k \<and> k \<le> n \<longrightarrow> fst (calls ! k) = fst (calls ! n)"
        unfolding Suc latest_iff [OF l(3)] by blast
      have e: "fst (calls ! n) = fst (calls ! i)" using h unfolding Suc l(2) by simp
      have q: "fst (calls ! k) = fst (calls ! i)" if "j \<le> k" "k < i" for k
        using that Suc j(3) [rule_format, of k] e by simp
      have "calls ! j = calls ! i" using q [of j] j(1,2) Suc by (intro prod_eqI) simp_all
      then show "\<exists>j < i. calls ! j = calls ! i \<and> (\<forall>k. j \<le> k \<and> k < i \<longrightarrow> fst (calls ! k) = fst (calls ! i))"
        using q j(1) Suc by (intro exI [of _ j] conjI allI impI) simp_all
    next
      assume "\<exists>j < i. calls ! j = calls ! i \<and> (\<forall>k. j \<le> k \<and> k < i \<longrightarrow> fst (calls ! k) = fst (calls ! i))"
      then obtain j where j: "j \<le> n" "calls ! j = calls ! i" "\<And>k. j \<le> k \<Longrightarrow> k \<le> n \<Longrightarrow> fst (calls ! k) = fst (calls ! i)"
        using Suc by (auto simp: less_Suc_eq_le)
      then have "snd (calls ! i) \<in> latest (take (Suc n) calls)"
        unfolding latest_iff [OF l(3)] by (intro exI [of _ j]) auto
      then show "take i calls \<noteq> [] \<and> fst (last (take i calls)) = fst (calls ! i) \<and> snd (calls ! i) \<in> latest (take i calls)"
        using l j(1) j(3) [of n] Suc by simp
    qed
  qed simp
  then show ?thesis using a by simp
qed

theorem asked_once_witness:
  "\<not> recorded_answers [(1, js ''a''), (1, js ''b''), (1, js ''a''), (2, js ''a''), (1, js ''a'')] [] ! 2
   \<and> recorded_answers [(1, js ''a''), (1, js ''b''), (1, js ''a''), (2, js ''a''), (1, js ''a'')] [] ! 4"
proof
  let ?c = "[(1, js ''a''), (1, js ''b''), (1, js ''a''), (2, js ''a''), (1, js ''a'')] :: (int \<times> jstr) list"
  have a: "recorded_answers ?c [] ! i \<longleftrightarrow>
       \<not> (\<exists>j < i. ?c ! j = ?c ! i \<and> (\<forall>k. j \<le> k \<and> k < i \<longrightarrow> fst (?c ! k) = fst (?c ! i)))" if "i < 5" for i
    using asked_once [of ?c] that by simp
  have "fst (?c ! k) = 1" if "k < 2" for k using that by (auto simp: less_Suc_eq numeral_2_eq_2)
  then have "\<exists>j < 2. ?c ! j = ?c ! 2 \<and> (\<forall>k. j \<le> k \<and> k < 2 \<longrightarrow> fst (?c ! k) = fst (?c ! 2))"
    by (intro exI [of _ 0]) simp
  then show "\<not> recorded_answers ?c [] ! 2" using a [of 2] by (simp only:) simp
  have "fst (?c ! 3) \<noteq> fst (?c ! 4)" by simp
  moreover have "j \<le> 3 \<and> (3::nat) < 4" if "j < 4" for j :: nat using that by simp
  ultimately have "\<not> (\<exists>j < 4. ?c ! j = ?c ! 4 \<and> (\<forall>k. j \<le> k \<and> k < 4 \<longrightarrow> fst (?c ! k) = fst (?c ! 4)))"
    by blast
  then show "recorded_answers ?c [] ! 4" using a [of 4] by (simp only:) simp
qed

text \<open>Two divergent pairs have one identity exactly when they name the same graph and state the same
  digests, absence included, up to white space and case.\<close>

theorem divergentPairIdentity_iff:
  "divergentPairIdentity lower g run served = divergentPairIdentity lower g' run' served'
     \<longleftrightarrow> g = g' \<and> statedDigest lower run = statedDigest lower run' \<and> statedDigest lower served = statedDigest lower served'"
proof
  let ?st = "\<lambda>d. case statedDigest lower d of None \<Rightarrow> JNull | Some s \<Rightarrow> JStr s"
  let ?v = "JArr [JStr g, ?st run, ?st served]" and ?v' = "JArr [JStr g', ?st run', ?st served']"
  assume "divergentPairIdentity lower g run served = divergentPairIdentity lower g' run' served'"
  moreover have "reads (JSON_stringify [] ?v) ?v" "reads (JSON_stringify [] ?v') ?v'"
    by (rule reads_JSON_stringify, simp split: option.split)+
  ultimately have "?v = ?v'"
    unfolding divergentPairIdentity_def Let_def by (simp add: reads_def)
  then show "g = g' \<and> statedDigest lower run = statedDigest lower run' \<and> statedDigest lower served = statedDigest lower served'"
    by (auto split: option.splits)
qed (simp add: divergentPairIdentity_def)

end
