(* ===== verification/Source_Ledger.thy ===== *)
theory Source_Ledger
  imports Session Js_Text
begin

text \<open>
  \<open>research/ledger.ts\<close>: the source ledger of one authoring run.  The object's fields are a record that
  every operation returns updated; the listeners are the count of the times they were called.  The time a
  record was opened at is an argument.
\<close>

section \<open>Records\<close>

record acquisition_summary =
  a_session :: jstr
  a_callIndex :: "jnum option"
  a_signature :: jstr
  a_resultDigest :: jstr
  a_observedAt :: jstr
  a_endpoint :: "jstr option"
  a_snapshot :: "jstr option"
  a_peerIdentity :: "jstr option"
  a_adapter :: "(jstr \<times> jstr \<times> jstr) option"

record excerpt =
  x_id :: jstr
  x_sourceId :: jstr
  x_start :: nat
  x_end :: nat
  x_text :: jstr

datatype source_kind = SearchSource | PageSource

record source_request =
  q_source :: jstr
  q_dialect :: jstr
  q_query :: "jstr option"
  q_url :: "jstr option"

record source_response =
  s_text :: jstr
  s_answer :: json_node
  s_receipt :: json_node
  s_salts :: "(jstr \<times> jstr) list"

record search_hit =
  t_rank :: jnum
  t_title :: jstr
  t_url :: jstr
  t_snippet :: jstr
  t_providerDate :: "jstr option"
  t_score :: "jstr option"

record read_document =
  o_url :: jstr
  o_title :: jstr
  o_text :: jstr
  o_httpStatus :: "jnum option"
  o_providerReportedTime :: "jstr option"
  o_issued :: "jstr option"
  o_modified :: "jstr option"
  o_language :: "jstr option"
  o_pages :: "jnum option"

record source_record =
  r_id :: jstr
  r_kind :: source_kind
  r_session :: jstr
  r_requestedAt :: jstr
  r_request :: source_request
  r_response :: "source_response option"
  r_acquisition :: "acquisition_summary option"
  r_failure :: "jstr option"
  r_hits :: "search_hit list option"
  r_document :: "read_document option"
  r_verification :: verification_state
  r_excerpts :: "excerpt list"

definition summarize :: "json_node \<Rightarrow> acquisition_summary option" where
  "summarize receipt =
     (let acquisition = memberOf receipt (js ''acquisition'');
          adapter = Option.bind acquisition (\<lambda>a. memberOf a (js ''adapter''));
          nullable = (\<lambda>name. Option.bind acquisition (\<lambda>a. stringMember a (js name)));
          or_empty = (\<lambda>s. case s of None \<Rightarrow> [] | Some t \<Rightarrow> t)
      in case (stringMember receipt (js ''sessionId''), stringMember receipt (js ''signature''),
               stringMember receipt (js ''resultDigest''), memberOf receipt (js ''callIndex'')) of
           (Some session, Some signature, Some resultDigest, Some (NNum literal)) \<Rightarrow>
             Some \<lparr>a_session = session, a_callIndex = js_Number literal, a_signature = signature,
                   a_resultDigest = resultDigest, a_observedAt = or_empty (nullable ''observedAt''),
                   a_endpoint = nullable ''endpoint'', a_snapshot = nullable ''snapshot'',
                   a_peerIdentity = nullable ''peerIdentity'',
                   a_adapter =
                     map_option (\<lambda>a. (or_empty (stringMember a (js ''name'')), or_empty (stringMember a (js ''version'')),
                                      or_empty (stringMember a (js ''digest'')))) adapter\<rparr>
         | _ \<Rightarrow> None)"

section \<open>The ledger\<close>

record ledger =
  lg_session :: jstr
  lg_records :: "source_record list"
  lg_changes :: nat

definition newLedger :: "jstr \<Rightarrow> ledger" where
  "newLedger session = \<lparr>lg_session = session, lg_records = [], lg_changes = 0\<rparr>"

definition openSession :: "jstr \<Rightarrow> ledger \<Rightarrow> ledger" where
  "openSession sid l = l\<lparr>lg_session := sid\<rparr>"

definition changed :: "ledger \<Rightarrow> ledger" where
  "changed l = l\<lparr>lg_changes := Suc (lg_changes l)\<rparr>"

definition byId :: "ledger \<Rightarrow> jstr \<Rightarrow> source_record option" where
  "byId l i = find (\<lambda>r. r_id r = i) (lg_records l)"

definition byUrl :: "ledger \<Rightarrow> jstr \<Rightarrow> source_record option" where
  "byUrl l url =
     find (\<lambda>r. r_kind r = PageSource \<and> q_url (r_request r) = Some url \<and> r_failure r = None) (lg_records l)"

fun excerpt_in :: "jstr \<Rightarrow> source_record list \<Rightarrow> excerpt option" where
  "excerpt_in i [] = None"
| "excerpt_in i (r # rs) =
     (case find (\<lambda>x. x_id x = i) (r_excerpts r) of
        Some found \<Rightarrow> Some found
      | None \<Rightarrow> excerpt_in i rs)"

definition excerpt_by_id :: "ledger \<Rightarrow> jstr \<Rightarrow> excerpt option" where
  "excerpt_by_id l i = excerpt_in i (lg_records l)"

definition is_verified :: "verification_state \<Rightarrow> bool" where
  "is_verified v = (case v of Verified _ _ \<Rightarrow> True | _ \<Rightarrow> False)"

definition verifiedExcerpt :: "ledger \<Rightarrow> jstr \<Rightarrow> excerpt option" where
  "verifiedExcerpt l i =
     (case excerpt_by_id l i of
        None \<Rightarrow> None
      | Some x \<Rightarrow>
          (case byId l (x_sourceId x) of
             Some r \<Rightarrow> if is_verified (r_verification r) then Some x else None
           | None \<Rightarrow> None))"

definition under :: "ledger \<Rightarrow> jstr \<Rightarrow> source_record list" where
  "under l session = filter (\<lambda>r. r_session r = session) (lg_records l)"

definition source_id :: "nat \<Rightarrow> jstr" where
  "source_id n = js ''src-'' @ dec n"

definition open_source :: "source_kind \<Rightarrow> source_request \<Rightarrow> jstr \<Rightarrow> ledger \<Rightarrow> source_record \<times> ledger" where
  "open_source kind request now l =
     (let r = \<lparr>r_id = source_id (length (lg_records l) + 1), r_kind = kind, r_session = lg_session l,
               r_requestedAt = now, r_request = request, r_response = None, r_acquisition = None,
               r_failure = None, r_hits = None, r_document = None, r_verification = Unchecked, r_excerpts = []\<rparr>
      in (r, changed (l\<lparr>lg_records := lg_records l @ [r]\<rparr>)))"

text \<open>The write through the reference \<open>byId\<close> returned: the first record of that id.\<close>

fun update_first :: "('a \<Rightarrow> bool) \<Rightarrow> ('a \<Rightarrow> 'a) \<Rightarrow> 'a list \<Rightarrow> 'a list" where
  "update_first p f [] = []"
| "update_first p f (x # xs) = (if p x then f x # xs else x # update_first p f xs)"

definition write_record :: "jstr \<Rightarrow> (source_record \<Rightarrow> source_record) \<Rightarrow> ledger \<Rightarrow> ledger" where
  "write_record i f l = l\<lparr>lg_records := update_first (\<lambda>r. r_id r = i) f (lg_records l)\<rparr>"

datatype outcome = Answered source_response "search_hit list option" "read_document option" | FailedWith jstr

definition settled_record :: "outcome \<Rightarrow> source_record \<Rightarrow> source_record" where
  "settled_record out r =
     (case out of
        FailedWith failure \<Rightarrow> r\<lparr>r_failure := Some failure\<rparr>
      | Answered response hits document \<Rightarrow>
          r\<lparr>r_response := Some response, r_acquisition := summarize (s_receipt response),
            r_hits := (case hits of Some h \<Rightarrow> Some h | None \<Rightarrow> r_hits r),
            r_document := (case document of Some d \<Rightarrow> Some d | None \<Rightarrow> r_document r)\<rparr>)"

text \<open>\<^term>\<open>None\<close> is the error thrown where the run has no such source.\<close>

definition settle :: "jstr \<Rightarrow> outcome \<Rightarrow> ledger \<Rightarrow> (source_record \<times> ledger) option" where
  "settle i out l =
     map_option (\<lambda>r. (settled_record out r, changed (write_record i (settled_record out) l))) (byId l i)"

definition verified :: "jstr \<Rightarrow> verification_state \<Rightarrow> ledger \<Rightarrow> ledger" where
  "verified i verification l =
     (case byId l i of
        None \<Rightarrow> l
      | Some _ \<Rightarrow> changed (write_record i (\<lambda>r. r\<lparr>r_verification := verification\<rparr>) l))"

section \<open>Citing\<close>

datatype refusal = NoSource | NotAPage | TooShort | NotInText

text \<open>
  The folding loop: each character kept, with the index it came from, and a run of white space as one
  space, none at the start; and the same folding of a quote, which has no leading space.
\<close>

fun fold_spaces :: "bool \<Rightarrow> nat \<Rightarrow> jstr \<Rightarrow> (code_unit \<times> nat) list" where
  "fold_spaces lastSpace i [] = []"
| "fold_spaces lastSpace i (c # cs) =
     (if js_space c
      then (if lastSpace then [] else [(0x20, i)]) @ fold_spaces True (Suc i) cs
      else (c, i) # fold_spaces False (Suc i) cs)"

fun collapse_spaces :: "bool \<Rightarrow> jstr \<Rightarrow> jstr" where
  "collapse_spaces lastSpace [] = []"
| "collapse_spaces lastSpace (c # cs) =
     (if js_space c then (if lastSpace then [] else [0x20]) @ collapse_spaces True cs
      else c # collapse_spaces False cs)"

text \<open>Where the quote is: as written, or with white space folded on both sides.\<close>

definition locate :: "jstr \<Rightarrow> jstr \<Rightarrow> (nat \<times> nat) option" where
  "locate text wanted =
     (case index_of_word wanted text of
        Some start \<Rightarrow> Some (start, start + length wanted)
      | None \<Rightarrow>
          (let folded = fold_spaces True 0 text; foldedQuote = collapse_spaces False wanted
           in map_option
                (\<lambda>at_i. (snd (folded ! at_i), snd (folded ! (at_i + length foldedQuote - 1)) + 1))
                (index_of_word foldedQuote (map fst folded))))"

definition cite :: "jstr \<Rightarrow> jstr \<Rightarrow> ledger \<Rightarrow> refusal + (excerpt \<times> ledger)" where
  "cite sourceId quote l =
     (case byId l sourceId of
        None \<Rightarrow> Inl NoSource
      | Some r \<Rightarrow>
          (case (r_kind r, r_document r) of
             (PageSource, Some d) \<Rightarrow>
               (let wanted = js_trim quote in
                if length wanted < 8 then Inl TooShort
                else
                  (case locate (o_text d) wanted of
                     None \<Rightarrow> Inl NotInText
                   | Some (start, end_i) \<Rightarrow>
                       (case find (\<lambda>x. x_start x = start \<and> x_end x = end_i) (r_excerpts r) of
                          Some existing \<Rightarrow> Inr (existing, l)
                        | None \<Rightarrow>
                            (let x = \<lparr>x_id = sourceId @ js ''#e'' @ dec (length (r_excerpts r) + 1), x_sourceId = sourceId,
                                      x_start = start, x_end = end_i, x_text = slice (o_text d) start end_i\<rparr>
                             in Inr (x, changed (write_record sourceId (\<lambda>r. r\<lparr>r_excerpts := r_excerpts r @ [x]\<rparr>) l))))))
           | _ \<Rightarrow> Inl NotAPage))"

section \<open>Folding\<close>

lemma fold_spaces_collapse: "map fst (fold_spaces b i t) = collapse_spaces b t"
  by (induction t arbitrary: b i) simp_all

lemma fold_spaces_at:
  "\<lbrakk>fold_spaces b i t = A @ (c, j) # S; \<not> js_space c\<rbrakk>
     \<Longrightarrow> \<exists>k < length t. j = i + k \<and> t ! k = c \<and> S = fold_spaces False (Suc j) (drop (Suc k) t)
          \<and> collapse_spaces b (take (Suc k) t) = map fst A @ [c]"
proof (induction t arbitrary: b i A)
  case (Cons d t)
  show ?case
  proof (cases "js_space d")
    case True
    have sp: "js_space 0x20" by (simp add: js_space_def)
    obtain A' where A: "A = (if b then [] else [(0x20, i)]) @ A'" "fold_spaces True (Suc i) t = A' @ (c, j) # S"
    proof (cases b)
      case True
      then show ?thesis using Cons.prems(1) \<open>js_space d\<close> that [of A] by simp
    next
      case False
      then have "(0x20, i) # fold_spaces True (Suc i) t = A @ (c, j) # S" using Cons.prems(1) \<open>js_space d\<close> by simp
      moreover have "A \<noteq> []" using calculation Cons.prems(2) sp by auto
      ultimately show ?thesis using that [of "tl A"] False by (cases A) auto
    qed
    obtain k where k: "k < length t" "j = Suc i + k" "t ! k = c" "S = fold_spaces False (Suc j) (drop (Suc k) t)"
        "collapse_spaces True (take (Suc k) t) = map fst A' @ [c]"
      using Cons.IH [OF A(2) Cons.prems(2)] by blast
    show ?thesis using k True A(1) by (intro exI [of _ "Suc k"]) auto
  next
    case False
    show ?thesis
    proof (cases A)
      case Nil
      then show ?thesis using Cons.prems(1) False by (intro exI [of _ 0]) auto
    next
      case (Cons a A')
      then have e: "fold_spaces False (Suc i) t = A' @ (c, j) # S" "a = (d, i)" using Cons.prems(1) False by auto
      obtain k where k: "k < length t" "j = Suc i + k" "t ! k = c" "S = fold_spaces False (Suc j) (drop (Suc k) t)"
          "collapse_spaces False (take (Suc k) t) = map fst A' @ [c]"
        using Cons.IH [OF e(1) Cons.prems(2)] by blast
      show ?thesis using k False Cons e(2) by (intro exI [of _ "Suc k"]) auto
    qed
  qed
qed simp

lemma collapse_ends:
  assumes "w \<noteq> []" "\<not> js_space (hd w)" "\<not> js_space (last w)"
  shows "collapse_spaces False w \<noteq> []" "hd (collapse_spaces False w) = hd w" "last (collapse_spaces False w) = last w"
proof -
  obtain c t where c: "w = c # t" using assms(1) by (cases w) auto
  then show "collapse_spaces False w \<noteq> []" "hd (collapse_spaces False w) = hd w" using assms(2) by simp_all
  have "u \<noteq> [] \<Longrightarrow> \<not> js_space (last u) \<Longrightarrow> collapse_spaces b u \<noteq> [] \<and> last (collapse_spaces b u) = last u" for b u
    by (induction u arbitrary: b) (auto split: if_splits)
  then show "last (collapse_spaces False w) = last w" using assms by simp
qed

lemma locate_sound:
  assumes l: "locate text w = Some (a, b)" and w: "w \<noteq> []" "\<not> js_space (hd w)" "\<not> js_space (last w)"
  shows "a < b \<and> b \<le> length text \<and> collapse_spaces False (slice text a b) = collapse_spaces False w"
proof (cases "index_of_word w text")
  case (Some i)
  then have "a = i" "b = i + length w" using l by (simp_all add: locate_def)
  then show ?thesis using index_of_word_Some [OF Some] w(1) by (simp add: slice_def)
next
  case None
  let ?F = "fold_spaces True 0 text" and ?q = "collapse_spaces False w"
  obtain at_i where i: "index_of_word ?q (map fst ?F) = Some at_i"
      "a = snd (?F ! at_i)" "b = snd (?F ! (at_i + length ?q - 1)) + 1"
    using l None by (auto simp: locate_def Let_def)
  note q = collapse_ends [OF w]
  obtain c r where cr: "?q = c # r" using q(1) by (cases ?q) auto
  have f: "at_i + length ?q \<le> length ?F" "take (length ?q) (drop at_i (map fst ?F)) = ?q"
    using index_of_word_Some [OF i(1)] by simp_all
  have m: "fst (?F ! (at_i + n)) = ?q ! n" if "n < length ?q" for n
  proof -
    have "?q ! n = take (length ?q) (drop at_i (map fst ?F)) ! n" using f(2) by simp
    also have "\<dots> = fst (?F ! (at_i + n))" using that f(1) by simp
    finally show ?thesis by simp
  qed
  define j where "j = snd (?F ! at_i)"
  have cj: "?F ! at_i = (c, j)" using m [of 0] cr by (simp add: j_def prod_eq_iff)
  define S where "S = drop (Suc at_i) ?F"
  have split: "?F = take at_i ?F @ (c, j) # S"
    using id_take_nth_drop [of at_i ?F] f(1) cr cj by (simp add: S_def)
  have nc: "\<not> js_space c" using q(2) w(2) cr by simp
  obtain k where k: "k < length text" "j = k" "text ! k = c" "S = fold_spaces False (Suc j) (drop (Suc k) text)"
    using fold_spaces_at [OF split nc] by auto
  show ?thesis
  proof (cases r)
    case Nil
    then have "b = Suc j" "a = j" using i cr cj by simp_all
    moreover have "slice text j (Suc j) = [c]" using k by (simp add: slice_def take_Suc_conv_app_nth hd_drop_conv_nth take_Suc)
    ultimately show ?thesis using k nc cr Nil by simp
  next
    case (Cons d t)
    let ?n = "length r - 1"
    have S: "?n < length S" using f(1) cr Cons by (simp add: S_def)
    define j' where "j' = snd (S ! ?n)"
    have at_n: "?F ! (at_i + length ?q - 1) = S ! ?n" using cr Cons f(1) by (simp add: S_def)
    have last: "fst (S ! ?n) = last ?q"
      using m [of "length r"] cr Cons at_n by (simp add: last_conv_nth)
    have sj: "S ! ?n = (last ?q, j')" using last by (simp add: j'_def prod_eq_iff)
    have nl: "\<not> js_space (last ?q)" using q(3) w(3) by simp
    have "fold_spaces False (Suc j) (drop (Suc k) text) = take ?n S @ (last ?q, j') # drop (Suc ?n) S"
      using id_take_nth_drop [OF S] sj k(4) by simp
    then obtain k' where k': "k' < length (drop (Suc k) text)" "j' = Suc j + k'"
        "collapse_spaces False (take (Suc k') (drop (Suc k) text)) = map fst (take ?n S) @ [last ?q]"
      using fold_spaces_at [OF _ nl] by blast
    have b: "b = Suc j'" "a = j" using i(2,3) at_n sj cj by simp_all
    have "slice text a b = c # take (Suc k') (drop (Suc k) text)"
      using k k' by (simp add: slice_def b Cons_nth_drop_Suc [symmetric])
    then have "collapse_spaces False (slice text a b) = c # map fst (take ?n S) @ [last ?q]" using nc k'(3) by simp
    also have "map fst (take ?n S) @ [last ?q] = r"
    proof -
      have "r = butlast r @ [last r]" using Cons by simp
      moreover have "map fst (take ?n S) = butlast r"
      proof (rule nth_equalityI)
        show "length (map fst (take ?n S)) = length (butlast r)" using S by simp
        fix x assume "x < length (map fst (take ?n S))"
        then have x: "x < ?n" by simp
        then show "map fst (take ?n S) ! x = butlast r ! x"
          using m [of "Suc x"] cr S f(1) by (simp add: S_def nth_butlast)
      qed
      moreover have "last ?q = last r" using cr Cons by simp
      ultimately show ?thesis by simp
    qed
    finally show ?thesis using cr b k k' by simp
  qed
qed

end
