(* ===== verification/Ledger_Facts.thy ===== *)
theory Ledger_Facts
  imports Source_Ledger
begin

text \<open>
  What holds of every ledger a run can reach: ids are those of the order of opening, every excerpt is the
  text of its source between its offsets, and is found again under its id.
\<close>

section \<open>Ids\<close>

lemma dec_prefix: "takeWhile is_digit (dec n @ 0x23 # t) = dec n"
proof -
  have "takeWhile is_digit (xs @ 0x23 # t) = xs" if "\<forall>c \<in> set xs. is_digit c" for xs
    using that by (induction xs) (auto simp: is_digit_def)
  then show ?thesis using dec_digits by blast
qed

definition excerpt_id :: "nat \<Rightarrow> nat \<Rightarrow> jstr" where
  "excerpt_id m a = source_id m @ js ''#e'' @ dec a"

lemma source_id_inj [simp]: "source_id m = source_id n \<longleftrightarrow> m = n"
  by (simp add: source_id_def)

lemma excerpt_id_inj [simp]: "excerpt_id m a = excerpt_id n b \<longleftrightarrow> m = n \<and> a = b"
proof
  assume e: "excerpt_id m a = excerpt_id n b"
  then have d: "dec m @ 0x23 # (uc CHR ''e'') # dec a = dec n @ 0x23 # (uc CHR ''e'') # dec b"
    by (simp add: excerpt_id_def source_id_def)
  then have "dec m = dec n" using dec_prefix [of m "(uc CHR ''e'') # dec a"] dec_prefix [of n "(uc CHR ''e'') # dec b"] by simp
  with d show "m = n \<and> a = b" by simp
qed simp

section \<open>The invariant\<close>

definition excerpt_ok :: "source_record \<Rightarrow> excerpt \<Rightarrow> bool" where
  "excerpt_ok r x \<longleftrightarrow>
     r_kind r = PageSource \<and> x_sourceId x = r_id r
     \<and> (\<exists>d. r_document r = Some d \<and> x_start x < x_end x \<and> x_end x \<le> length (o_text d)
          \<and> x_text x = slice (o_text d) (x_start x) (x_end x))"

definition record_ok :: "nat \<Rightarrow> source_record \<Rightarrow> bool" where
  "record_ok n r \<longleftrightarrow>
     r_id r = source_id n \<and> (\<forall>x \<in> set (r_excerpts r). excerpt_ok r x)
     \<and> map x_id (r_excerpts r) = map (excerpt_id n) [1..<Suc (length (r_excerpts r))]"

definition ledger_ok :: "ledger \<Rightarrow> bool" where
  "ledger_ok l \<longleftrightarrow> (\<forall>i < length (lg_records l). record_ok (Suc i) (lg_records l ! i))"

text \<open>What a run does with its ledger; a source is settled before anything is cited from it.\<close>

inductive ledger_run :: "ledger \<Rightarrow> bool" where
  run_new: "ledger_run (newLedger session)"
| run_session: "ledger_run l \<Longrightarrow> ledger_run (openSession sid l)"
| run_open: "ledger_run l \<Longrightarrow> open_source kind request now l = (r, l') \<Longrightarrow> ledger_run l'"
| run_settle: "\<lbrakk>ledger_run l; byId l i = Some r; r_excerpts r = []; settle i out l = Some (r', l')\<rbrakk> \<Longrightarrow> ledger_run l'"
| run_verified: "ledger_run l \<Longrightarrow> ledger_run (verified i v l)"
| run_cite: "ledger_run l \<Longrightarrow> cite sourceId quote l = Inr (x, l') \<Longrightarrow> ledger_run l'"

lemma find_unique:
  "\<lbrakk>i < length xs; \<And>j. j < length xs \<Longrightarrow> p (xs ! j) \<longleftrightarrow> j = i\<rbrakk> \<Longrightarrow> find p xs = Some (xs ! i)"
  by (auto simp: find_Some_iff)

lemma update_unique:
  "\<lbrakk>i < length xs; \<And>j. j < length xs \<Longrightarrow> p (xs ! j) \<longleftrightarrow> j = i\<rbrakk> \<Longrightarrow> update_first p f xs = xs[i := f (xs ! i)]"
proof (induction xs arbitrary: i)
  case (Cons x xs)
  show ?case
  proof (cases i)
    case 0
    then show ?thesis using Cons.prems(2) [of 0] by simp
  next
    case (Suc k)
    have "p (xs ! j) \<longleftrightarrow> j = k" if "j < length xs" for j using Cons.prems(2) [of "Suc j"] that Suc by simp
    then show ?thesis using Cons.IH [of k] Cons.prems(1) Cons.prems(2) [of 0] Suc by simp
  qed
qed simp

lemma ok_id: "\<lbrakk>ledger_ok l; i < length (lg_records l)\<rbrakk> \<Longrightarrow> r_id (lg_records l ! i) = source_id (Suc i)"
  by (simp add: ledger_ok_def record_ok_def)

lemma byId_index:
  assumes "ledger_ok l"
  shows "byId l s = Some r \<longleftrightarrow> (\<exists>i < length (lg_records l). s = source_id (Suc i) \<and> r = lg_records l ! i)"
proof
  assume "byId l s = Some r"
  then show "\<exists>i < length (lg_records l). s = source_id (Suc i) \<and> r = lg_records l ! i"
    using ok_id [OF assms] by (auto simp: byId_def find_Some_iff)
next
  assume "\<exists>i < length (lg_records l). s = source_id (Suc i) \<and> r = lg_records l ! i"
  then obtain i where i: "i < length (lg_records l)" "s = source_id (Suc i)" "r = lg_records l ! i" by blast
  have "r_id (lg_records l ! j) = s \<longleftrightarrow> j = i" if "j < length (lg_records l)" for j
    using ok_id [OF assms that] i(2) by simp
  then show "byId l s = Some r" using find_unique [of i "lg_records l"] i by (simp add: byId_def)
qed

lemma write_index:
  assumes "ledger_ok l" "i < length (lg_records l)"
  shows "write_record (source_id (Suc i)) f l = l\<lparr>lg_records := (lg_records l)[i := f (lg_records l ! i)]\<rparr>"
proof -
  have "r_id (lg_records l ! j) = source_id (Suc i) \<longleftrightarrow> j = i" if "j < length (lg_records l)" for j
    using ok_id [OF assms(1) that] by simp
  then show ?thesis using update_unique [of i "lg_records l"] assms(2) by (simp add: write_record_def)
qed

lemma ok_write:
  "\<lbrakk>ledger_ok l; i < length (lg_records l); record_ok (Suc i) (f (lg_records l ! i))\<rbrakk>
     \<Longrightarrow> ledger_ok (changed (write_record (source_id (Suc i)) f l))"
  by (simp add: write_index) (auto simp: ledger_ok_def changed_def nth_list_update)

lemma ok_changed [simp]: "ledger_ok (changed l) = ledger_ok l" "ledger_ok (openSession s l) = ledger_ok l"
  by (simp_all add: ledger_ok_def changed_def openSession_def)

lemma trimmed_quote: "8 \<le> length (js_trim quote) \<Longrightarrow> js_trim quote \<noteq> [] \<and> \<not> js_space (hd (js_trim quote)) \<and> \<not> js_space (last (js_trim quote))"
  using js_trim_ends [of quote] by (cases "js_trim quote") auto

text \<open>What a citation that is not refused did: it found the excerpt again, or added one to its source.\<close>

lemma cite_cases:
  assumes ok: "ledger_ok l" and c: "cite s quote l = Inr (x, l')"
  obtains i r d where "i < length (lg_records l)" "s = source_id (Suc i)" "r = lg_records l ! i"
    "r_kind r = PageSource" "r_document r = Some d" "8 \<le> length (js_trim quote)"
    "locate (o_text d) (js_trim quote) = Some (x_start x, x_end x)"
    "(x \<in> set (r_excerpts r) \<and> find (\<lambda>y. x_start y = x_start x \<and> x_end y = x_end x) (r_excerpts r) = Some x \<and> l' = l)
     \<or> (find (\<lambda>y. x_start y = x_start x \<and> x_end y = x_end x) (r_excerpts r) = None
        \<and> x_id x = excerpt_id (Suc i) (Suc (length (r_excerpts r)))
        \<and> x_sourceId x = s \<and> x_text x = slice (o_text d) (x_start x) (x_end x)
        \<and> l' = changed (write_record s (\<lambda>r. r\<lparr>r_excerpts := r_excerpts r @ [x]\<rparr>) l))"
proof -
  obtain r where r: "byId l s = Some r" using c by (auto simp: cite_def split: option.splits)
  obtain i where i: "i < length (lg_records l)" "s = source_id (Suc i)" "r = lg_records l ! i"
    using r byId_index [OF ok] by blast
  obtain d where d: "r_kind r = PageSource" "r_document r = Some d"
    using c r by (auto simp: cite_def split: source_kind.splits option.splits)
  have len: "8 \<le> length (js_trim quote)" using c r d by (auto simp: cite_def Let_def split: if_splits)
  obtain a b where ab: "locate (o_text d) (js_trim quote) = Some (a, b)"
    using c r d len by (auto simp: cite_def Let_def split: option.splits)
  show thesis
  proof (cases "find (\<lambda>y. x_start y = a \<and> x_end y = b) (r_excerpts r)")
    case (Some y)
    then have xy: "x = y" "l' = l" using c r d len ab by (simp_all add: cite_def)
    have "x_start y = a" "x_end y = b" "y \<in> set (r_excerpts r)" using Some by (auto simp: find_Some_iff)
    then show thesis using that [OF i d len] ab Some xy by simp
  next
    case None
    define z where "z = \<lparr>x_id = s @ js ''#e'' @ dec (length (r_excerpts r) + 1), x_sourceId = s,
        x_start = a, x_end = b, x_text = slice (o_text d) a b\<rparr>"
    have xl: "x = z" "l' = changed (write_record s (\<lambda>r. r\<lparr>r_excerpts := r_excerpts r @ [z]\<rparr>) l)"
    proof -
      have "cite s quote l = Inr (z, changed (write_record s (\<lambda>r. r\<lparr>r_excerpts := r_excerpts r @ [z]\<rparr>) l))"
        using r d len ab None by (simp add: cite_def Let_def z_def)
      then show "x = z" "l' = changed (write_record s (\<lambda>r. r\<lparr>r_excerpts := r_excerpts r @ [z]\<rparr>) l)" using c by simp_all
    qed
    have f: "x_start x = a" "x_end x = b" "x_sourceId x = s" "x_text x = slice (o_text d) a b"
      "x_id x = excerpt_id (Suc i) (Suc (length (r_excerpts r)))"
      by (simp_all add: xl(1) z_def excerpt_id_def i(2))
    show thesis using that [OF i d len] ab None f xl by simp
  qed
qed

lemma ledger_run_ok: "ledger_run l \<Longrightarrow> ledger_ok l"
proof (induction rule: ledger_run.induct)
  case (run_new session)
  then show ?case by (simp add: ledger_ok_def newLedger_def)
next
  case (run_open l kind request now r l')
  then show ?case
    by (auto simp: open_source_def Let_def ledger_ok_def changed_def record_ok_def nth_append less_Suc_eq simp del: upt_Suc)
next
  case (run_settle l i r out r' l')
  obtain k where k: "k < length (lg_records l)" "i = source_id (Suc k)" "r = lg_records l ! k"
    using run_settle.hyps(2) byId_index [OF run_settle.IH] by blast
  have "record_ok (Suc k) (settled_record out (lg_records l ! k))"
    using run_settle.IH k run_settle.hyps(3)
    by (cases out) (auto simp: ledger_ok_def record_ok_def settled_record_def simp del: upt_Suc)
  then show ?case
    using ok_write [OF run_settle.IH k(1)] run_settle.hyps(2,4) k by (auto simp: settle_def)
next
  case (run_verified l i v)
  show ?case
  proof (cases "byId l i")
    case (Some r)
    then obtain k where k: "k < length (lg_records l)" "i = source_id (Suc k)" "r = lg_records l ! k"
      using byId_index [OF run_verified.IH] by blast
    have "record_ok (Suc k) ((lg_records l ! k)\<lparr>r_verification := v\<rparr>)"
      using run_verified.IH k by (auto simp: ledger_ok_def record_ok_def excerpt_ok_def simp del: upt_Suc)
    then show ?thesis using ok_write [OF run_verified.IH k(1)] Some k by (simp add: verified_def)
  qed (simp add: verified_def run_verified.IH)
next
  case (run_cite l s quote x l')
  from run_cite.IH run_cite.hyps(2) show ?case
  proof (rule cite_cases)
    fix i r d
    assume i: "i < length (lg_records l)" "s = source_id (Suc i)" "r = lg_records l ! i"
      and d: "r_kind r = PageSource" "r_document r = Some d"
      and q: "8 \<le> length (js_trim quote)" "locate (o_text d) (js_trim quote) = Some (x_start x, x_end x)"
      and e: "(x \<in> set (r_excerpts r) \<and> find (\<lambda>y. x_start y = x_start x \<and> x_end y = x_end x) (r_excerpts r) = Some x \<and> l' = l)
     \<or> (find (\<lambda>y. x_start y = x_start x \<and> x_end y = x_end x) (r_excerpts r) = None
        \<and> x_id x = excerpt_id (Suc i) (Suc (length (r_excerpts r)))
        \<and> x_sourceId x = s \<and> x_text x = slice (o_text d) (x_start x) (x_end x)
        \<and> l' = changed (write_record s (\<lambda>r. r\<lparr>r_excerpts := r_excerpts r @ [x]\<rparr>) l))"
    have at_x: "x_start x < x_end x" "x_end x \<le> length (o_text d)"
      using locate_sound [OF q(2)] trimmed_quote [OF q(1)] by simp_all
    have r: "record_ok (Suc i) r" using run_cite.IH i by (simp add: ledger_ok_def)
    show "ledger_ok l'"
      using e
    proof (elim disjE conjE)
      assume x: "x_id x = excerpt_id (Suc i) (Suc (length (r_excerpts r)))" "x_sourceId x = s"
        "x_text x = slice (o_text d) (x_start x) (x_end x)"
        "l' = changed (write_record s (\<lambda>r. r\<lparr>r_excerpts := r_excerpts r @ [x]\<rparr>) l)"
      have "record_ok (Suc i) (r\<lparr>r_excerpts := r_excerpts r @ [x]\<rparr>)"
        using r x d at_x i(2) by (auto simp: record_ok_def excerpt_ok_def)
      then show ?thesis using ok_write [OF run_cite.IH i(1)] x(4) i(2,3) by simp
    qed (simp add: run_cite.IH)
  qed
qed simp

section \<open>Finding excerpts again\<close>

lemma excerpt_in_Some: "excerpt_in i rs = Some x \<Longrightarrow> \<exists>r \<in> set rs. x \<in> set (r_excerpts r) \<and> x_id x = i"
  by (induction rs) (auto simp: find_Some_iff split: option.splits)

lemma excerpt_in_None: "excerpt_in i rs = None \<Longrightarrow> r \<in> set rs \<Longrightarrow> x \<in> set (r_excerpts r) \<Longrightarrow> x_id x \<noteq> i"
  by (induction rs) (auto simp: find_None_iff split: option.splits)

lemma excerpt_ids:
  assumes "ledger_ok l" "i < length (lg_records l)" "k < length (r_excerpts (lg_records l ! i))"
  shows "x_id (r_excerpts (lg_records l ! i) ! k) = excerpt_id (Suc i) (Suc k)"
proof -
  let ?xs = "r_excerpts (lg_records l ! i)"
  have "map x_id ?xs ! k = map (excerpt_id (Suc i)) [1..<Suc (length ?xs)] ! k"
    using assms(1,2) by (simp add: ledger_ok_def record_ok_def del: upt_Suc)
  then show ?thesis using assms(3) by (simp del: upt_Suc)
qed

lemma excerpt_unique:
  assumes ok: "ledger_ok l" and x: "r \<in> set (lg_records l)" "x \<in> set (r_excerpts r)"
    and y: "r' \<in> set (lg_records l)" "y \<in> set (r_excerpts r')" and same: "x_id x = x_id y"
  shows "x = y \<and> r = r'"
proof -
  obtain i k where i: "i < length (lg_records l)" "r = lg_records l ! i" "k < length (r_excerpts r)" "x = r_excerpts r ! k"
    using x by (auto simp: in_set_conv_nth)
  obtain j m where j: "j < length (lg_records l)" "r' = lg_records l ! j" "m < length (r_excerpts r')" "y = r_excerpts r' ! m"
    using y by (auto simp: in_set_conv_nth)
  have "i = j \<and> k = m" using same excerpt_ids [OF ok] i j by simp
  then show ?thesis using i j by simp
qed

lemma excerpt_by_id_iff:
  assumes "ledger_ok l"
  shows "excerpt_by_id l i = Some x \<longleftrightarrow> (\<exists>r \<in> set (lg_records l). x \<in> set (r_excerpts r) \<and> x_id x = i)"
proof
  show "excerpt_by_id l i = Some x \<Longrightarrow> \<exists>r \<in> set (lg_records l). x \<in> set (r_excerpts r) \<and> x_id x = i"
    using excerpt_in_Some [of i "lg_records l" x] by (auto simp: excerpt_by_id_def)
  assume "\<exists>r \<in> set (lg_records l). x \<in> set (r_excerpts r) \<and> x_id x = i"
  then obtain r where r: "r \<in> set (lg_records l)" "x \<in> set (r_excerpts r)" "x_id x = i" by blast
  show "excerpt_by_id l i = Some x"
  proof (cases "excerpt_by_id l i")
    case None
    then show ?thesis using r excerpt_in_None by (auto simp: excerpt_by_id_def)
  next
    case (Some y)
    then obtain r' where "r' \<in> set (lg_records l)" "y \<in> set (r_excerpts r')" "x_id y = i"
      using excerpt_in_Some [of i "lg_records l" y] by (auto simp: excerpt_by_id_def)
    then show ?thesis using excerpt_unique [OF assms r(1,2)] r(3) Some by simp
  qed
qed

lemma excerpt_source:
  assumes "ledger_ok l" "r \<in> set (lg_records l)" "x \<in> set (r_excerpts r)"
  shows "excerpt_ok r x" "byId l (x_sourceId x) = Some r"
proof -
  obtain i where i: "i < length (lg_records l)" "r = lg_records l ! i" using assms(2) by (auto simp: in_set_conv_nth)
  then have r: "record_ok (Suc i) r" using assms(1) by (simp add: ledger_ok_def)
  then show "excerpt_ok r x" using assms(3) by (simp add: record_ok_def)
  then have "x_sourceId x = source_id (Suc i)" using r by (simp add: excerpt_ok_def record_ok_def)
  then show "byId l (x_sourceId x) = Some r" using i byId_index [OF assms(1)] by blast
qed

section \<open>A sample run\<close>

definition sample_page :: read_document where
  "sample_page =
     \<lparr>o_url = [], o_title = [], o_text = js ''the quoted  words'', o_httpStatus = None, o_providerReportedTime = None,
      o_issued = None, o_modified = None, o_language = None, o_pages = None\<rparr>"

definition sample_ledger :: ledger where
  "sample_ledger =
     snd (the (settle (source_id 1)
       (Answered \<lparr>s_text = [], s_answer = NNull, s_receipt = NNull, s_salts = []\<rparr> None (Some sample_page))
       (snd (open_source PageSource \<lparr>q_source = [], q_dialect = [], q_query = None, q_url = None\<rparr> [] (newLedger [])))))"

definition sample_quote :: jstr where
  "sample_quote = js '' quoted words ''"

lemma sample_run: "ledger_run sample_ledger"
proof -
  define l where "l = snd (open_source PageSource \<lparr>q_source = [], q_dialect = [], q_query = None, q_url = None\<rparr> [] (newLedger []))"
  have l: "ledger_run l" unfolding l_def by (rule run_open [OF run_new [of "[]"]]) (rule prod.collapse [symmetric])
  obtain r where r: "byId l (source_id 1) = Some r" "r_excerpts r = []"
    by (simp add: l_def open_source_def newLedger_def byId_def changed_def Let_def)
  let ?o = "Answered \<lparr>s_text = [], s_answer = NNull, s_receipt = NNull, s_salts = []\<rparr> None (Some sample_page)"
  have "settle (source_id 1) ?o l = Some (settled_record ?o r, sample_ledger)"
    using r by (simp add: sample_ledger_def l_def [symmetric] settle_def)
  then show ?thesis using run_settle [OF l r] by blast
qed

lemma sample_cited: "\<exists>x l'. cite (source_id 1) sample_quote sample_ledger = Inr (x, l')
   \<and> x_start x = 4 \<and> x_end x = 17"
proof -
  have "case cite (source_id 1) sample_quote sample_ledger of Inl _ \<Rightarrow> False | Inr (x, l') \<Rightarrow> x_start x = 4 \<and> x_end x = 17"
    by code_simp
  then show ?thesis by (auto split: sum.splits)
qed

section \<open>The properties\<close>

text \<open>C19: In every ledger a run can reach, each excerpt belongs to a page that was read, its text is that page's
  text between its two offsets, not empty, and its id finds it and no other.\<close>

theorem excerpts_are_quotes:
  assumes "ledger_run l" "r \<in> set (lg_records l)" "x \<in> set (r_excerpts r)"
  shows "r_kind r = PageSource \<and> byId l (x_sourceId x) = Some r \<and> excerpt_by_id l (x_id x) = Some x
    \<and> (\<exists>d. r_document r = Some d \<and> x_start x < x_end x \<and> x_end x \<le> length (o_text d)
         \<and> x_text x = slice (o_text d) (x_start x) (x_end x))"
  using excerpt_source [OF ledger_run_ok [OF assms(1)] assms(2,3)] excerpt_by_id_iff [OF ledger_run_ok [OF assms(1)], of "x_id x" x] assms(2,3)
  by (auto simp: excerpt_ok_def)

theorem excerpts_are_quotes_witness:
  "\<exists>x l' r. cite (source_id 1) sample_quote sample_ledger = Inr (x, l') \<and> r \<in> set (lg_records l')
     \<and> x \<in> set (r_excerpts r) \<and> excerpt_by_id l' (x_id x) = Some x"
proof -
  obtain x l' where c: "cite (source_id 1) sample_quote sample_ledger = Inr (x, l')" using sample_cited by blast
  have run: "ledger_run l'" using run_cite [OF sample_run c] .
  have "case cite (source_id 1) sample_quote sample_ledger of Inl _ \<Rightarrow> False | Inr (x, l') \<Rightarrow> r_excerpts (hd (lg_records l')) = [x] \<and> lg_records l' \<noteq> []"
    by code_simp
  then have "hd (lg_records l') \<in> set (lg_records l')" "x \<in> set (r_excerpts (hd (lg_records l')))" using c by simp_all
  then show ?thesis using excerpts_are_quotes [OF run] c by blast
qed

text \<open>C20: A citation that is not refused returns an excerpt of the source it names whose text is the quote, up to
  runs of white space and what trims off; the excerpt is found under its id in the new ledger.\<close>

theorem cite_finds_quote:
  assumes "ledger_run l" "cite s quote l = Inr (x, l')"
  shows "x_sourceId x = s \<and> excerpt_by_id l' (x_id x) = Some x
    \<and> collapse_spaces False (x_text x) = collapse_spaces False (js_trim quote)
    \<and> (\<exists>r d. byId l' s = Some r \<and> r_document r = Some d \<and> x_text x = slice (o_text d) (x_start x) (x_end x))"
proof -
  note ok = ledger_run_ok [OF assms(1)]
  have ok': "ledger_ok l'" using ledger_run_ok [OF run_cite [OF assms]] .
  from ok assms(2) show ?thesis
  proof (rule cite_cases)
    fix i r d
    assume i: "i < length (lg_records l)" "s = source_id (Suc i)" "r = lg_records l ! i"
      and d: "r_kind r = PageSource" "r_document r = Some d"
      and q: "8 \<le> length (js_trim quote)" "locate (o_text d) (js_trim quote) = Some (x_start x, x_end x)"
      and e: "(x \<in> set (r_excerpts r) \<and> find (\<lambda>y. x_start y = x_start x \<and> x_end y = x_end x) (r_excerpts r) = Some x \<and> l' = l)
     \<or> (find (\<lambda>y. x_start y = x_start x \<and> x_end y = x_end x) (r_excerpts r) = None
        \<and> x_id x = excerpt_id (Suc i) (Suc (length (r_excerpts r)))
        \<and> x_sourceId x = s \<and> x_text x = slice (o_text d) (x_start x) (x_end x)
        \<and> l' = changed (write_record s (\<lambda>r. r\<lparr>r_excerpts := r_excerpts r @ [x]\<rparr>) l))"
    have "\<exists>r' \<in> set (lg_records l'). x \<in> set (r_excerpts r') \<and> r_document r' = Some d \<and> r_id r' = s"
      using e
    proof (elim disjE conjE)
      assume "l' = changed (write_record s (\<lambda>r. r\<lparr>r_excerpts := r_excerpts r @ [x]\<rparr>) l)"
      then have l': "lg_records l' = (lg_records l)[i := r\<lparr>r_excerpts := r_excerpts r @ [x]\<rparr>]"
        using write_index [OF ok i(1)] i(2,3) by (simp add: changed_def)
      then show ?thesis using i d ok_id [OF ok i(1)]
        by (intro bexI [of _ "r\<lparr>r_excerpts := r_excerpts r @ [x]\<rparr>"]) (auto simp: set_update_memI)
    next
      assume "x \<in> set (r_excerpts r)" "l' = l"
      then show ?thesis using i d ok_id [OF ok i(1)] by (intro bexI [of _ r]) auto
    qed
    then obtain r' where r': "r' \<in> set (lg_records l')" "x \<in> set (r_excerpts r')" "r_document r' = Some d" "r_id r' = s"
      by blast
    note src = excerpt_source [OF ok' r'(1,2)]
    have x: "x_sourceId x = s" "x_text x = slice (o_text d) (x_start x) (x_end x)"
      using src(1) r'(3,4) by (simp_all add: excerpt_ok_def)
    show ?thesis
      using x src(2) r' excerpt_by_id_iff [OF ok', of "x_id x" x] locate_sound [OF q(2)] trimmed_quote [OF q(1)] by auto
  qed
qed

theorem cite_finds_quote_witness:
  "\<exists>x l'. cite (source_id 1) sample_quote sample_ledger = Inr (x, l') \<and> excerpt_by_id l' (x_id x) = Some x
     \<and> x_end x = 17 \<and> collapse_spaces False (x_text x) = collapse_spaces False (js_trim sample_quote)"
  using sample_cited cite_finds_quote [OF sample_run] by metis

text \<open>A verified excerpt is one that exists and whose source's receipt has verified, and every such excerpt is
  one: an excerpt of a source whose verification failed, or has not been made, never is.\<close>

theorem verifiedExcerpt_iff:
  assumes "ledger_run l"
  shows "verifiedExcerpt l i = Some x \<longleftrightarrow>
     (\<exists>r \<in> set (lg_records l). x \<in> set (r_excerpts r) \<and> x_id x = i \<and> is_verified (r_verification r))"
proof -
  note ok = ledger_run_ok [OF assms]
  have v: "verifiedExcerpt l i = Some x \<longleftrightarrow> excerpt_by_id l i = Some x
      \<and> (\<exists>r. byId l (x_sourceId x) = Some r \<and> is_verified (r_verification r))"
    by (auto simp: verifiedExcerpt_def split: option.splits)
  show ?thesis
    unfolding v excerpt_by_id_iff [OF ok] using excerpt_source(2) [OF ok] by force
qed

theorem verifiedExcerpt_iff_witness:
  "\<exists>x l'. cite (source_id 1) sample_quote sample_ledger = Inr (x, l') \<and> verifiedExcerpt l' (x_id x) = None
     \<and> (\<nexists>r. r \<in> set (lg_records l') \<and> x \<in> set (r_excerpts r) \<and> is_verified (r_verification r))"
proof -
  obtain x l' where c: "cite (source_id 1) sample_quote sample_ledger = Inr (x, l')" using sample_cited by blast
  have "case cite (source_id 1) sample_quote sample_ledger of Inl _ \<Rightarrow> False | Inr (x, l') \<Rightarrow> verifiedExcerpt l' (x_id x) = None"
    by code_simp
  then have n: "verifiedExcerpt l' (x_id x) = None" using c by simp
  then show ?thesis using c verifiedExcerpt_iff [OF run_cite [OF sample_run c], of "x_id x" x] by auto
qed

end
