(* ===== verification/Member_Bytes.thy ===== *)
theory Member_Bytes
  imports Document_Inserts
begin

text \<open>
  \<open>admin/memberBytes.ts\<close>: the bytes of one top-level member of a configuration file, and of the items of an
  array, found by a scan of its own.  The scan is compared with the index of \<open>packs/documentText.ts\<close>: on every
  text that scans both name the same bytes.
\<close>

section \<open>The scan\<close>

definition skipSpace :: "jstr \<Rightarrow> nat \<Rightarrow> nat" where
  "skipSpace src from = skip src from"

text \<open>Of \<open>stringEnd\<close> and the loop in \<open>readString\<close> of \<open>documentText.ts\<close> the bodies are the same.\<close>

definition stringEnd :: "jstr \<Rightarrow> nat \<Rightarrow> nat option" where
  "stringEnd src from = (case string_end src (Suc from) of Inl _ \<Rightarrow> None | Inr e \<Rightarrow> Some e)"

definition read_name_at :: "jstr \<Rightarrow> nat \<Rightarrow> (jstr \<times> nat) option" where
  "read_name_at src from =
     (case stringEnd src from of
        None \<Rightarrow> None
      | Some e \<Rightarrow> (case parse_string (slice src from e) of None \<Rightarrow> None | Some s \<Rightarrow> Some (s, e)))"

text \<open>The two loops of \<open>valueEnd\<close>: over a scalar, and over brackets that are counted.\<close>

definition scalar_char :: "code_unit \<Rightarrow> bool" where
  "scalar_char c \<longleftrightarrow> \<not> isSpace c \<and> c \<noteq> comma \<and> c \<noteq> close_brace"

function scalar_end :: "jstr \<Rightarrow> nat \<Rightarrow> nat" where
  "scalar_end src i = (if i < length src \<and> scalar_char (src ! i) then scalar_end src (Suc i) else i)"
  by pat_completeness auto
termination
  by (relation "measure (\<lambda>(src, i). length src - i)") auto

lemma stringEnd_gt: "stringEnd src i = Some e \<Longrightarrow> i < e \<and> e \<le> length src"
  using string_end_bounds [of src "Suc i" e] by (auto simp: stringEnd_def split: sum.splits)

function bracket_end :: "jstr \<Rightarrow> nat \<Rightarrow> int \<Rightarrow> nat option" where
  "bracket_end src i depth =
     (if length src \<le> i then None
      else if src ! i = quote_mark then
        (case stringEnd src i of None \<Rightarrow> None | Some e \<Rightarrow> bracket_end src e depth)
      else if src ! i = open_brace \<or> src ! i = open_bracket then bracket_end src (Suc i) (depth + 1)
      else if src ! i = close_brace \<or> src ! i = close_bracket then
        (if depth - 1 = 0 then Some (Suc i)
         else if depth - 1 < 0 then None
         else bracket_end src (Suc i) (depth - 1))
      else bracket_end src (Suc i) depth)"
  by pat_completeness auto
termination
  by (relation "measure (\<lambda>(src, i, depth). length src - i)") (auto dest: stringEnd_gt)

declare scalar_end.simps [simp del] bracket_end.simps [simp del]

definition value_end :: "jstr \<Rightarrow> nat \<Rightarrow> nat option" where
  "value_end src from =
     (case char_at src from of
        None \<Rightarrow> None
      | Some first \<Rightarrow>
          if first = quote_mark then stringEnd src from
          else if first \<noteq> open_brace \<and> first \<noteq> open_bracket then
            (let e = scalar_end src from in if e = from then None else Some e)
          else bracket_end src from 0)"

text \<open>The loop of \<open>memberBytes\<close>, from the name of a member; \<open>found\<close> is what the members before gave.\<close>

function member_loop :: "jstr \<Rightarrow> jstr \<Rightarrow> nat \<Rightarrow> jstr option \<Rightarrow> jstr option" where
  "member_loop src member i found =
     (if char_at src i \<noteq> Some quote_mark then None
      else (case read_name_at src i of
        None \<Rightarrow> None
      | Some (name, e) \<Rightarrow>
          (let sep = skipSpace src e in
           if char_at src sep \<noteq> Some colon then None
           else
             (let start = skipSpace src (Suc sep) in
              case value_end src start of
                None \<Rightarrow> None
              | Some e' \<Rightarrow>
                  if name = member \<and> found \<noteq> None then None
                  else
                    (let found' = (if name = member then Some (slice src start e') else found);
                         behind = skipSpace src e'
                     in if char_at src behind = Some comma then member_loop src member (skipSpace src (Suc behind)) found'
                        else if char_at src behind = Some close_brace then found'
                        else None)))))"
  by pat_completeness auto

lemma read_name_at_gt: "read_name_at src i = Some (s, e) \<Longrightarrow> i < e \<and> e \<le> length src"
  by (auto simp: read_name_at_def dest: stringEnd_gt split: option.splits)

lemma scalar_end_ge: "i \<le> scalar_end src i"
  by (induction src i rule: scalar_end.induct) (subst scalar_end.simps, auto intro: Suc_leD)

lemma bracket_end_gt: "bracket_end src i depth = Some e \<Longrightarrow> i < e"
proof (induction src i depth rule: bracket_end.induct)
  case (1 src i depth)
  note prem = "1.prems" [unfolded bracket_end.simps [of src i depth]]
  have i: "\<not> length src \<le> i" using prem by (auto split: if_splits)
  show ?case
  proof (cases "src ! i = quote_mark")
    case True
    then obtain e' where "stringEnd src i = Some e'" "bracket_end src e' depth = Some e"
      using prem i by (auto split: option.splits)
    then show ?thesis using "1.IH"(1) [OF i True] stringEnd_gt [of src i e'] by simp
  next
    case False
    note ih = "1.IH"(2-4) [OF i False]
    show ?thesis
    proof (cases "src ! i = open_brace \<or> src ! i = open_bracket")
      case open_: True
      then show ?thesis using prem i False ih(1) [OF open_] by simp
    next
      case open_: False
      show ?thesis
      proof (cases "src ! i = close_brace \<or> src ! i = close_bracket")
        case close_: True
        have p: "(if depth - 1 = 0 then Some (Suc i)
            else if depth - 1 < 0 then None else bracket_end src (Suc i) (depth - 1)) = Some e"
          using prem i False open_ close_ by (simp only: if_False if_True)
        show ?thesis
        proof (cases "depth - 1 = 0 \<or> depth - 1 < 0")
          case True
          then show ?thesis using p by (elim disjE) simp_all
        next
          case less: False
          then have "bracket_end src (Suc i) (depth - 1) = Some e" using p by simp
          then show ?thesis using ih(2) [OF open_ close_] less by simp
        qed
      next
        case close_: False
        then show ?thesis using prem i False open_ ih(3) [OF open_ close_] by simp
      qed
    qed
  qed
qed

lemma value_end_gt: "value_end src i = Some e \<Longrightarrow> i < e"
  unfolding value_end_def Let_def
  using scalar_end_ge [of i src] stringEnd_gt [of src i e] bracket_end_gt [of src i 0 e]
  by (simp split: option.splits if_splits)

lemma skipSpace_ge: "i \<le> skipSpace src i"
  by (simp add: skipSpace_def skip_ge)

termination member_loop
proof (relation "measure (\<lambda>(src, member, i, found). length src - i)")
  fix src member i found p s e sep start e' found' behind
  assume q: "\<not> char_at src i \<noteq> Some quote_mark" and r: "read_name_at src i = Some p" "(s, e) = p"
    and h: "sep = skipSpace src e" "start = skipSpace src (Suc sep)" "value_end src start = Some e'"
      "behind = skipSpace src e'"
  have "i < length src" using q by (auto dest: char_at_SomeD)
  moreover have "i < skipSpace src (Suc behind)"
    using read_name_at_gt [of src i s e] r h value_end_gt [of src start e'] skipSpace_ge [of e src]
      skipSpace_ge [of "Suc sep" src] skipSpace_ge [of e' src] skipSpace_ge [of "Suc behind" src] by simp
  ultimately show "((src, member, skipSpace src (Suc behind), found'), (src, member, i, found))
    \<in> measure (\<lambda>(src, member, i, found). length src - i)" by simp
qed simp

declare member_loop.simps [simp del]

definition memberBytes :: "jstr \<Rightarrow> jstr \<Rightarrow> jstr option" where
  "memberBytes src member =
     (let i = skipSpace src 0 in
      if char_at src i \<noteq> Some open_brace then None
      else
        (let j = skipSpace src (Suc i) in
         if char_at src j = Some close_brace then None else member_loop src member j None))"

function items_loop :: "jstr \<Rightarrow> nat \<Rightarrow> jstr list \<Rightarrow> jstr list" where
  "items_loop src i acc =
     (if char_at src i = Some close_bracket then acc
      else (case value_end src i of
        None \<Rightarrow> []
      | Some e \<Rightarrow>
          (let acc' = acc @ [slice src i e]; behind = skipSpace src e in
           if char_at src behind = Some close_bracket then acc'
           else if char_at src behind \<noteq> Some comma then []
           else items_loop src (skipSpace src (Suc behind)) acc')))"
  by pat_completeness auto
termination
proof (relation "measure (\<lambda>(src, i, acc). length src - i)")
  fix src i acc e acc' behind
  assume h: "value_end src i = Some e" "behind = skipSpace src e"
  then have "i < length src" by (auto simp: value_end_def char_at_def split: if_splits option.splits)
  then show "((src, skipSpace src (Suc behind), acc'), (src, i, acc)) \<in> measure (\<lambda>(src, i, acc). length src - i)"
    using h value_end_gt [of src i e] skipSpace_ge [of e src] skipSpace_ge [of "Suc behind" src] by simp
qed simp

declare items_loop.simps [simp del]

definition arrayItemsBytes :: "jstr \<Rightarrow> jstr list" where
  "arrayItemsBytes src =
     (let i = skipSpace src 0 in
      if char_at src i \<noteq> Some open_bracket then []
      else items_loop src (skipSpace src (Suc i)) [])"

section \<open>A value's bytes\<close>

text \<open>Texts the loop over brackets walks past without coming out of the bracket it is in.\<close>

definition passes_over :: "jstr \<Rightarrow> bool" where
  "passes_over x \<longleftrightarrow> (\<forall>src k r d. drop k src = x @ r \<longrightarrow> 1 \<le> d \<longrightarrow> bracket_end src k d = bracket_end src (k + length x) d)"

lemma passesD: "\<lbrakk>passes_over x; drop k src = x @ r; 1 \<le> d\<rbrakk> \<Longrightarrow> bracket_end src k d = bracket_end src (k + length x) d"
  by (simp add: passes_over_def)

lemma passes_append: "\<lbrakk>passes_over x; passes_over y\<rbrakk> \<Longrightarrow> passes_over (x @ y)"
  unfolding passes_over_def
proof (intro allI impI)
  fix src k r and d :: int
  assume x: "\<forall>src k r d. drop k src = x @ r \<longrightarrow> 1 \<le> d \<longrightarrow> bracket_end src k d = bracket_end src (k + length x) d"
    and y: "\<forall>src k r d. drop k src = y @ r \<longrightarrow> 1 \<le> d \<longrightarrow> bracket_end src k d = bracket_end src (k + length y) d"
    and d: "drop k src = (x @ y) @ r" "1 \<le> d"
  have "drop k src = x @ y @ r" using d(1) by simp
  then show "bracket_end src k d = bracket_end src (k + length (x @ y)) d"
    using x [rule_format, of k src "y @ r" d] y [rule_format, of "k + length x" src r d] drop_add [of k src x "y @ r"] d(2)
    by (simp add: add.assoc)
qed

definition plain :: "code_unit \<Rightarrow> bool" where
  "plain c \<longleftrightarrow> c \<noteq> quote_mark \<and> c \<noteq> open_brace \<and> c \<noteq> open_bracket \<and> c \<noteq> close_brace \<and> c \<noteq> close_bracket"

lemma drop_first: "drop k src = c # r \<Longrightarrow> k < length src \<and> src ! k = c \<and> drop (Suc k) src = r"
  by (metis Cons_nth_drop_Suc drop_eq_Nil2 leI list.discI list.inject)

lemma passes_plain: "list_all plain x \<Longrightarrow> passes_over x"
proof (induction x)
  case (Cons c x)
  have "passes_over [c]"
    unfolding passes_over_def
  proof (intro allI impI)
    fix src k r and d :: int
    assume "drop k src = [c] @ r"
    then have "k < length src" "src ! k = c" using drop_first [of k src c r] by auto
    then show "bracket_end src k d = bracket_end src (k + length [c]) d"
      using Cons.prems by (subst bracket_end.simps) (simp add: plain_def)
  qed
  then show ?case using passes_append [of "[c]" x] Cons by simp
qed (simp add: passes_over_def)

lemma passes_ws: "ws w \<Longrightarrow> passes_over w"
  by (rule passes_plain) (auto simp: ws_def list_all_iff plain_def isSpace_def)

lemma stringEnd_raw:
  assumes "raw_string n" "drop k src = n @ r"
  shows "stringEnd src k = Some (k + length n)"
  using string_end_local [of n 1 "length n" k src r] assms by (simp add: raw_string_def stringEnd_def)

lemma passes_string:
  assumes n: "raw_string n"
  shows "passes_over n"
  unfolding passes_over_def
proof (intro allI impI)
  fix src k r and d :: int
  assume d: "drop k src = n @ r"
  obtain q where "n = quote_mark # q" using raw_string_hd [OF n] by blast
  then have "k < length src" "src ! k = quote_mark" using d drop_first [of k src quote_mark "q @ r"] by auto
  then show "bracket_end src k d = bracket_end src (k + length n) d"
    using stringEnd_raw [OF n d] by (subst bracket_end.simps) simp
qed

lemma raw_leaf_plain:
  assumes "raw_leaf t" "\<not> raw_string t"
  shows "list_all plain t \<and> list_all scalar_char t \<and> t \<noteq> [] \<and> hd t \<noteq> quote_mark \<and> hd t \<noteq> open_brace \<and> hd t \<noteq> open_bracket"
proof -
  have "list_all plain t \<and> list_all scalar_char t \<and> t \<noteq> []"
    using assms number_char_start
    by (auto simp: raw_leaf_def raw_number_def plain_def scalar_char_def list_all_iff isSpace_def)
  then show ?thesis by (cases t) (auto simp: plain_def)
qed

lemma passes_brackets:
  assumes x: "passes_over x" and b: "b = open_brace \<and> c = close_brace \<or> b = open_bracket \<and> c = close_bracket"
  shows "passes_over (b # x @ [c])"
  unfolding passes_over_def
proof (intro allI impI)
  fix src k r and d :: int
  assume d: "drop k src = (b # x @ [c]) @ r" "1 \<le> d"
  have k: "k < length src" "src ! k = b" and d1: "drop (Suc k) src = x @ c # r"
    using d(1) drop_first [of k src b "x @ c # r"] by auto
  have e: "Suc k + length x < length src" "src ! (Suc k + length x) = c"
    using drop_add [OF d1] drop_first [of "Suc k + length x" src c r] by auto
  have "bracket_end src k d = bracket_end src (Suc k) (d + 1)"
    using k b by (subst bracket_end.simps) auto
  also have "\<dots> = bracket_end src (Suc k + length x) (d + 1)" by (rule passesD [OF x d1]) (use d(2) in simp)
  also have "\<dots> = bracket_end src (Suc (Suc k + length x)) d"
    using e b d(2) by (subst bracket_end.simps) auto
  finally show "bracket_end src k d = bracket_end src (k + length (b # x @ [c])) d" by simp
qed

lemma passes_join: "(\<And>x. x \<in> set xs \<Longrightarrow> passes_over x) \<Longrightarrow> passes_over (join_with [comma] xs)"
proof (induction "[comma]" xs rule: join_with.induct)
  case 1
  show ?case by (simp add: passes_plain)
next
  case (3 t u ts)
  have "passes_over [comma]" by (simp add: passes_plain plain_def)
  then show ?case using 3 passes_append [of t "[comma] @ join_with [comma] (u # ts)"] passes_append [of "[comma]"] by simp
qed simp

definition inside :: "tree \<Rightarrow> jstr" where
  "inside c = (case c of Leaf t \<Rightarrow> t | Obj w ms \<Rightarrow> if ms = [] then w else join_with [comma] (map render_member ms)
               | Arr w es \<Rightarrow> if es = [] then w else join_with [comma] (map render_element es))"

lemma passes_render: "wf_tree c \<Longrightarrow> passes_over (render c) \<and> (is_container c \<longrightarrow> passes_over (inside c))"
proof (induction c rule: tree.induct [where ?P2.0 = "\<lambda>m. wf_member m \<longrightarrow> passes_over (render_member m)"
      and ?P3.0 = "\<lambda>e. wf_element e \<longrightarrow> passes_over (render_element e)"])
  case (Leaf t)
  then show ?case
    using passes_string [of t] passes_plain [of t] raw_leaf_plain [of t] by (cases "raw_string t") (simp_all add: is_container_def)
next
  case (Obj w ms)
  have "passes_over (inside (Obj w ms))"
    using Obj passes_ws passes_join [of "map render_member ms"] by (auto simp: inside_def list_all_iff)
  then show ?case using passes_brackets [of "inside (Obj w ms)" open_brace close_brace] by (simp add: inside_def)
next
  case (Arr w es)
  have "passes_over (inside (Arr w es))"
    using Arr passes_ws passes_join [of "map render_element es"] by (auto simp: inside_def list_all_iff)
  then show ?case using passes_brackets [of "inside (Arr w es)" open_bracket close_bracket] by (simp add: inside_def)
next
  case (Member l n a b c t)
  have colon: "passes_over [colon]" by (simp add: passes_plain plain_def)
  show ?case
  proof
    assume "wf_member (Member l n a b c t)"
    then have "passes_over l" "passes_over n" "passes_over a" "passes_over b" "passes_over (render c)" "passes_over t"
      using Member by (auto intro: passes_ws passes_string)
    then have "passes_over (l @ n @ a @ [colon] @ b @ render c @ t)" by (intro passes_append colon)
    then show "passes_over (render_member (Member l n a b c t))" by simp
  qed
next
  case (Element l c t)
  then show ?case using passes_ws by (auto intro!: passes_append)
qed

lemma bracket_end_outer:
  assumes x: "passes_over x" and b: "b = open_brace \<and> c = close_brace \<or> b = open_bracket \<and> c = close_bracket"
    and d: "drop k src = b # x @ c # r"
  shows "bracket_end src k 0 = Some (k + length x + 2)"
proof -
  have k: "k < length src" "src ! k = b" and d1: "drop (Suc k) src = x @ c # r"
    using d drop_first [of k src b "x @ c # r"] by auto
  have e: "Suc k + length x < length src" "src ! (Suc k + length x) = c"
    using drop_add [OF d1] drop_first [of "Suc k + length x" src c r] by auto
  have "bracket_end src k 0 = bracket_end src (Suc k) 1"
    using k b by (subst bracket_end.simps) auto
  also have "\<dots> = bracket_end src (Suc k + length x) 1" by (rule passesD [OF x d1]) simp
  also have "\<dots> = Some (Suc (Suc k + length x))" using e b by (subst bracket_end.simps) auto
  finally show ?thesis by simp
qed

lemma scalar_end_eq: "drop k src = t @ post \<Longrightarrow> list_all scalar_char t \<Longrightarrow> post = [] \<or> \<not> scalar_char (hd post)
    \<Longrightarrow> scalar_end src k = k + length t"
proof (induction t arbitrary: k)
  case Nil
  then show ?case using drop_first [of k src "hd post" "tl post"] by (subst scalar_end.simps) (cases post; auto)
next
  case (Cons c t)
  then show ?case using drop_first [of k src c "t @ post"] by (subst scalar_end.simps) auto
qed

lemma value_end_open:
  assumes c: "wf_tree c" and d: "drop k src = render c @ post" and n: "\<not> (\<exists>t. c = Leaf t \<and> \<not> raw_string t)"
  shows "value_end src k = Some (k + length (render c))"
proof (cases c)
  case (Leaf t)
  then have "raw_string t" using n by simp
  then show ?thesis using Leaf d stringEnd_raw [of t k src post] raw_string_hd [of t] by (auto simp: value_end_def char_at_drop)
next
  case (Obj w ms)
  then have "drop k src = open_brace # inside c @ close_brace # post" using d by (simp add: inside_def)
  moreover have "passes_over (inside c)" using passes_render [OF c] Obj by simp
  ultimately show ?thesis using bracket_end_outer [of "inside c" open_brace close_brace k src post] Obj
    by (simp add: value_end_def char_at_drop) (simp add: inside_def)
next
  case (Arr w es)
  then have "drop k src = open_bracket # inside c @ close_bracket # post" using d by (simp add: inside_def)
  moreover have "passes_over (inside c)" using passes_render [OF c] Arr by simp
  ultimately show ?thesis using bracket_end_outer [of "inside c" open_bracket close_bracket k src post] Arr
    by (simp add: value_end_def char_at_drop) (simp add: inside_def)
qed

lemma value_end_render:
  assumes c: "wf_tree c" and d: "drop k src = render c @ post" and p: "post = [] \<or> \<not> scalar_char (hd post)"
  shows "value_end src k = Some (k + length (render c))"
proof (cases "\<exists>t. c = Leaf t \<and> \<not> raw_string t")
  case True
  then obtain t where c': "c = Leaf t" "\<not> raw_string t" by blast
  then have t: "list_all scalar_char t" "t \<noteq> []" "hd t \<noteq> quote_mark" "hd t \<noteq> open_brace" "hd t \<noteq> open_bracket"
    using raw_leaf_plain [of t] c by auto
  then have "char_at src k = Some (hd t)" using d c' by (cases t) (simp_all add: char_at_drop)
  then show ?thesis using t c' scalar_end_eq [of k src t post] d p by (simp add: value_end_def Let_def)
qed (rule value_end_open [OF c d])

lemma skipSpace_drop: "\<lbrakk>drop k src = w @ r; ws w; r = [] \<or> \<not> isSpace (hd r)\<rbrakk> \<Longrightarrow> skipSpace src k = k + length w"
  by (simp add: skipSpace_def skip_drop)

section \<open>One member\<close>

definition found_text :: "jstr \<Rightarrow> member list \<Rightarrow> jstr list" where
  "found_text k ms = map (\<lambda>m. render (member_tree m)) (filter (\<lambda>m. member_name m = k) ms)"

definition opt_list :: "'a option \<Rightarrow> 'a list" where
  "opt_list x = (case x of None \<Rightarrow> [] | Some a \<Rightarrow> [a])"

text \<open>One member of the loop, on the text it is written with.\<close>

lemma member_loop_step:
  assumes d: "drop i src = l @ n @ a @ colon # b @ render c @ t @ e # r"
    and w: "ws l" "raw_string n" "ws a" "ws b" "wf_tree c" "ws t" and e: "e = comma \<or> e = close_brace"
  defines "j \<equiv> i + length l + length n + length a + 1 + length b + length (render c) + length t + 1"
  shows "drop j src = r \<and>
    member_loop src k (skipSpace src i) found =
      (if name_of n = k \<and> found \<noteq> None then None
       else (let found' = (if name_of n = k then Some (render c) else found)
             in if e = comma then member_loop src k (skipSpace src j) found' else found'))"
proof -
  obtain q where q: "n = quote_mark # q" using raw_string_hd [OF w(2)] by blast
  have d1: "drop (i + length l) src = n @ a @ colon # b @ render c @ t @ e # r" using d by (rule drop_add)
  have s1: "skipSpace src i = i + length l" using skipSpace_drop [OF d w(1)] q by simp
  have c1: "char_at src (i + length l) = Some quote_mark" using d1 q by (simp add: char_at_drop)
  have sl: "slice src (i + length l) (i + length l + length n) = n" using d1 by (rule slice_drop)
  have p: "parse_string n = Some (name_of n)" using w(2) by (auto simp: raw_string_def name_of_def)
  have r1: "read_name_at src (i + length l) = Some (name_of n, i + length l + length n)"
    using stringEnd_raw [OF w(2) d1] sl p by (simp add: read_name_at_def)
  have d2: "drop (i + length l + length n) src = a @ colon # b @ render c @ t @ e # r" using d1 by (rule drop_add)
  have s2: "skipSpace src (i + length l + length n) = i + length l + length n + length a"
    by (rule skipSpace_drop [OF d2 w(3)]) simp
  have d3: "drop (i + length l + length n + length a) src = colon # b @ render c @ t @ e # r" using d2 by (rule drop_add)
  let ?s = "i + length l + length n + length a + 1"
  have d4: "drop ?s src = b @ render c @ t @ e # r" using drop_first [OF d3] by simp
  have rc: "render c \<noteq> []" "\<not> isSpace (hd (render c))" using render_start [OF w(5)] by auto
  have s3: "skipSpace src ?s = ?s + length b" by (rule skipSpace_drop [OF d4 w(4)]) (use rc in simp)
  have d5: "drop (?s + length b) src = render c @ t @ e # r" using d4 by (rule drop_add)
  have post: "\<not> scalar_char (hd (t @ e # r))" using w(6) e by (cases t) (auto simp: scalar_char_def)
  have v: "value_end src (?s + length b) = Some (?s + length b + length (render c))"
    by (rule value_end_render [OF w(5) d5]) (use post in simp)
  have sv: "slice src (?s + length b) (?s + length b + length (render c)) = render c" using d5 by (rule slice_drop)
  have d6: "drop (?s + length b + length (render c)) src = t @ e # r" using d5 by (rule drop_add)
  have s4: "skipSpace src (?s + length b + length (render c)) = ?s + length b + length (render c) + length t"
    by (rule skipSpace_drop [OF d6 w(6)]) (use e in auto)
  have d7: "drop (?s + length b + length (render c) + length t) src = e # r" using d6 by (rule drop_add)
  have c4: "char_at src (?s + length b + length (render c) + length t) = Some e" using d7 by (rule char_at_drop_Cons)
  have "drop j src = r" using drop_first [OF d7] by (simp add: j_def)
  moreover have "j = Suc (?s + length b + length (render c) + length t)" by (simp add: j_def)
  ultimately show ?thesis
    using s1 c1 r1 s2 d3 s3 v sv s4 c4 e
    by (subst member_loop.simps) (auto simp: Let_def char_at_drop)
qed

lemma member_loop_render:
  "\<lbrakk>drop i src = join_with [comma] (map render_member ms) @ close_brace # r; ms \<noteq> []; list_all wf_member ms\<rbrakk>
    \<Longrightarrow> member_loop src k (skipSpace src i) found = single (opt_list found @ found_text k ms)"
proof (induction ms arbitrary: i found)
  case (Cons m ms)
  obtain l n a b c t where m: "m = Member l n a b c t" by (cases m)
  have w: "ws l" "raw_string n" "ws a" "ws b" "wf_tree c" "ws t" using Cons.prems(3) m by auto
  let ?found = "if name_of n = k then Some (render c) else found"
  have name: "member_name m = name_of n" by (simp add: m member_name_def)
  have twice: "single (opt_list (Some x) @ y # ys) = None" for x y :: jstr and ys by (simp add: single_def opt_list_def)
  show ?case
  proof (cases ms)
    case Nil
    have d: "drop i src = l @ n @ a @ colon # b @ render c @ t @ close_brace # r" using Cons.prems(1) m Nil by simp
    show ?thesis using member_loop_step [OF d w, of k found] name
      by (cases found) (auto simp: Nil found_text_def m single_def opt_list_def)
  next
    case (Cons m' ms')
    let ?rest = "join_with [comma] (map render_member ms) @ close_brace # r"
    have d: "drop i src = l @ n @ a @ colon # b @ render c @ t @ comma # ?rest"
      using Cons.prems(1) m Cons by simp
    note step = member_loop_step [OF d w, of k found]
    have ih: "member_loop src k (skipSpace src j) f = single (opt_list f @ found_text k ms)"
      if "drop j src = ?rest" for j f using Cons.IH [OF that] Cons Cons.prems(3) by simp
    show ?thesis
    proof (cases "name_of n = k")
      case True
      then show ?thesis using step ih name
        by (cases found) (auto simp: found_text_def m twice, simp add: opt_list_def)
    next
      case False
      then show ?thesis using step ih name by (simp add: found_text_def)
    qed
  qed
qed simp

lemma memberBytes_object:
  assumes "wf_tree (Obj w0 ms)" "ws w" "ws w'"
  shows "memberBytes (w @ render (Obj w0 ms) @ w') k = single (found_text k ms)"
proof -
  let ?src = "w @ render (Obj w0 ms) @ w'"
  let ?body = "if ms = [] then w0 else join_with [comma] (map render_member ms)"
  have s: "skipSpace ?src 0 = length w" using skipSpace_drop [of 0 ?src w "render (Obj w0 ms) @ w'"] assms by simp
  have d: "drop (length w) ?src = open_brace # ?body @ close_brace # w'" by simp
  have d1: "drop (Suc (length w)) ?src = ?body @ close_brace # w'" by simp
  show ?thesis
  proof (cases "ms = []")
    case True
    have "skipSpace ?src (Suc (length w)) = Suc (length w) + length w0"
      by (rule skipSpace_drop [of _ _ _ "close_brace # w'"]) (use d1 True assms in auto)
    moreover have "char_at ?src (Suc (length w) + length w0) = Some close_brace" using True by (simp add: char_at_drop)
    ultimately show ?thesis using s True by (simp add: memberBytes_def char_at_drop found_text_def single_def)
  next
    case False
    then obtain m ms' where ms: "ms = m # ms'" by (cases ms) auto
    obtain l n a b c t where m: "m = Member l n a b c t" by (cases m)
    have w: "ws l" "raw_string n" using assms(1) ms m by auto
    obtain q where q: "n = quote_mark # q" using raw_string_hd [OF w(2)] by blast
    obtain z where z: "?body @ close_brace # w' = l @ quote_mark # z"
      using ms m q by (cases ms') auto
    have "skipSpace ?src (Suc (length w)) = Suc (length w) + length l"
      by (rule skipSpace_drop [of _ _ _ "quote_mark # z"]) (use d1 z w in auto)
    moreover have "char_at ?src (Suc (length w) + length l) = Some quote_mark"
      by (rule char_at_drop_Cons) (use d1 z drop_add [of "Suc (length w)" ?src l "quote_mark # z"] in simp)
    moreover have "member_loop ?src k (skipSpace ?src (Suc (length w))) None = single (opt_list None @ found_text k ms)"
      by (rule member_loop_render) (use d1 False assms in auto)
    ultimately show ?thesis using s by (simp add: memberBytes_def Let_def char_at_drop opt_list_def)
  qed
qed

section \<open>The index of the same text\<close>

lemma map_of_add_spans: "map_of (add_spans es sps) k = (case map_of sps k of None \<Rightarrow> map_of es k | Some sp \<Rightarrow> Some sp)"
proof (induction es arbitrary: sps)
  case (Cons e es)
  have "map_of (add_span e sps) k = (case map_of sps k of None \<Rightarrow> if fst e = k then Some (snd e) else None | Some sp \<Rightarrow> Some sp)"
  proof (cases "fst e \<in> fst ` set sps")
    case True
    then have "map_of sps k = None \<Longrightarrow> fst e \<noteq> k" by (auto simp: map_of_eq_None_iff)
    then show ?thesis using True by (auto simp: add_span_def split: option.split)
  next
    case False
    then show ?thesis by (cases e) (simp add: add_span_def map_add_def split: option.split)
  qed
  then show ?case using Cons by (cases e) (auto split: option.splits)
qed (simp split: option.split)

lemma nodes_below_path: "e \<in> set (nodes p s m c) \<Longrightarrow> \<exists>q. fst e = pointer (p @ q)"
  using nodes_all_below(1) [of p s m c] by (auto simp: list_all_iff below_def)

lemma map_of_nodes_own: "map_of (nodes p s m c) (pointer p) = Some (span_of p s (s + length (render c)) m)"
proof (cases c)
  case (Obj w ms)
  have "map_of (member_nodes p (Suc s) ms) (pointer p) = None"
    using member_not_own by (fastforce simp: map_of_eq_None_iff)
  then show ?thesis using Obj by (simp add: map_add_def del: render.simps)
next
  case (Arr w es)
  have "map_of (element_nodes p 0 (Suc s) es) (pointer p) = None"
    using element_not_own by (fastforce simp: map_of_eq_None_iff)
  then show ?thesis using Arr by (simp add: map_add_def del: render.simps)
qed simp

lemma map_of_nodes_sibling: "x \<noteq> k \<Longrightarrow> map_of (nodes (p @ [x]) s m c) (pointer (p @ [k])) = None"
proof -
  assume "x \<noteq> k"
  then have "fst e \<noteq> pointer (p @ [k])" if "e \<in> set (nodes (p @ [x]) s m c)" for e
    using nodes_below_path [OF that] by auto
  then show ?thesis by (fastforce simp: map_of_eq_None_iff)
qed

definition bytes_of :: "jstr \<Rightarrow> (jstr \<times> span) list \<Rightarrow> jstr \<Rightarrow> jstr option" where
  "bytes_of src es ptr = map_option (\<lambda>sp. slice src (valueStart sp) (valueEnd sp)) (map_of es ptr)"

lemma bytes_of_append:
  "bytes_of src (xs @ ys) ptr = (case bytes_of src xs ptr of None \<Rightarrow> bytes_of src ys ptr | Some t \<Rightarrow> Some t)"
  by (simp add: bytes_of_def map_add_def split: option.split)

lemma bytes_of_nodes:
  "drop s src = render c @ r \<Longrightarrow> bytes_of src (nodes (p @ [x]) s m c) (pointer (p @ [k])) = (if x = k then Some (render c) else None)"
  by (simp add: bytes_of_def map_of_nodes_own map_of_nodes_sibling span_of_def slice_drop)

lemma bytes_of_members:
  "drop s src = join_with [comma] (map render_member ms) @ r \<Longrightarrow>
   bytes_of src (member_nodes p s ms) (pointer (p @ [k])) = (case found_text k ms of [] \<Rightarrow> None | t # _ \<Rightarrow> Some t)"
proof (induction ms arbitrary: s)
  case (Cons m ms)
  obtain l n a b c t where m: "m = Member l n a b c t" by (cases m)
  obtain z where z: "drop s src = (l @ n @ a @ [colon] @ b) @ render c @ t @ z"
    and rest: "ms \<noteq> [] \<Longrightarrow> z = comma # join_with [comma] (map render_member ms) @ r"
    using Cons.prems m by (cases ms) auto
  have d: "drop (s + length l + length n + length a + 1 + length b) src = render c @ t @ z"
    using drop_add [OF z] by (simp add: add.assoc)
  have ih: "bytes_of src (member_nodes p (s + length (render_member m) + 1) ms) (pointer (p @ [k]))
      = (case found_text k ms of [] \<Rightarrow> None | t # _ \<Rightarrow> Some t)"
  proof (cases "ms = []")
    case False
    have "drop s src = (render_member m @ [comma]) @ join_with [comma] (map render_member ms) @ r"
      using z rest [OF False] m by simp
    from drop_add [OF this] show ?thesis using Cons.IH by (simp add: add.assoc)
  qed (simp add: bytes_of_def found_text_def)
  show ?case
    using ih bytes_of_nodes [OF d, of p "name_of n" "s + length l" k]
    by (simp add: m bytes_of_append found_text_def member_name_def)
qed (simp add: bytes_of_def found_text_def)

lemma dups_below: "e \<in> set (dups p c) \<Longrightarrow> \<exists>q. q \<noteq> [] \<and> fst e = pointer (p @ q)"
  "e \<in> set (member_dups p seen ms) \<Longrightarrow> \<exists>q. q \<noteq> [] \<and> fst e = pointer (p @ q)"
  "e \<in> set (element_dups p i es) \<Longrightarrow> \<exists>q. q \<noteq> [] \<and> fst e = pointer (p @ q)"
  by (induction p c and p seen ms and p i es rule: dups_member_dups_element_dups.induct)
    (fastforce split: if_splits)+

lemma twice_iff:
  "(pointer (p @ [k]), k) \<in> set (member_dups p seen ms)
     \<longleftrightarrow> found_text k ms \<noteq> [] \<and> (k \<in> seen \<or> 1 < length (found_text k ms))"
proof (induction ms arbitrary: seen)
  case (Cons m ms)
  obtain l n a b c t where m: "m = Member l n a b c t" by (cases m)
  have "(pointer (p @ [k]), k) \<notin> set (dups (p @ [name_of n]) c)"
    using dups_below(1) [of "(pointer (p @ [k]), k)" "p @ [name_of n]" c] by auto
  then show ?case using Cons [of "insert (name_of n) seen"]
    by (auto simp: m found_text_def member_name_def)
qed (simp add: found_text_def)

section \<open>The items of an array\<close>

text \<open>An item that is a number or a literal and touches the closing bracket: \<open>valueEnd\<close> reads the bracket with it.\<close>

definition touches :: "element \<Rightarrow> bool" where
  "touches e \<longleftrightarrow> etrail e = [] \<and> (\<exists>t. element_tree e = Leaf t \<and> \<not> raw_string t)"

lemma items_loop_step:
  assumes d: "drop i src = l @ render c @ t @ e # r" and w: "ws l" "wf_tree c" "ws t"
    and e: "e = comma \<or> e = close_bracket" and n: "e = comma \<or> \<not> touches (Element l c t)"
  defines "j \<equiv> i + length l + length (render c) + length t + 1"
  shows "drop j src = r \<and> items_loop src (skipSpace src i) acc =
     (let acc' = acc @ [render c] in if e = close_bracket then acc' else items_loop src (skipSpace src j) acc')"
proof -
  have rc: "render c \<noteq> []" "\<not> isSpace (hd (render c))" "hd (render c) \<noteq> close_bracket" using render_start [OF w(2)] by auto
  have s1: "skipSpace src i = i + length l" by (rule skipSpace_drop [OF d w(1)]) (use rc in simp)
  have d1: "drop (i + length l) src = render c @ t @ e # r" using d by (rule drop_add)
  have c1: "char_at src (i + length l) \<noteq> Some close_bracket" using d1 rc by (cases "render c") (simp_all add: char_at_drop)
  have v: "value_end src (i + length l) = Some (i + length l + length (render c))"
  proof (cases "\<not> (\<exists>t. c = Leaf t \<and> \<not> raw_string t)")
    case False
    then have "t \<noteq> [] \<or> e = comma" using n by (auto simp: touches_def)
    then have "\<not> scalar_char (hd (t @ e # r))" using w(3) by (cases t) (auto simp: scalar_char_def)
    then show ?thesis by (intro value_end_render [OF w(2) d1]) simp
  qed (rule value_end_open [OF w(2) d1])
  have sv: "slice src (i + length l) (i + length l + length (render c)) = render c" using d1 by (rule slice_drop)
  have d2: "drop (i + length l + length (render c)) src = t @ e # r" using d1 by (rule drop_add)
  have s2: "skipSpace src (i + length l + length (render c)) = i + length l + length (render c) + length t"
    by (rule skipSpace_drop [OF d2 w(3)]) (use e in auto)
  have d3: "drop (i + length l + length (render c) + length t) src = e # r" using d2 by (rule drop_add)
  have "drop j src = r" using drop_first [OF d3] by (simp add: j_def)
  moreover have "j = Suc (i + length l + length (render c) + length t)" by (simp add: j_def)
  ultimately show ?thesis
    using s1 c1 v sv s2 char_at_drop_Cons [OF d3] e
    by (subst items_loop.simps) (auto simp: Let_def)
qed

lemma items_loop_touching:
  assumes d: "drop i src = l @ render c @ close_bracket # r" and w: "ws l" "wf_tree c" "ws r"
    and c: "c = Leaf u" "\<not> raw_string u"
  shows "items_loop src (skipSpace src i) acc = []"
proof -
  have u: "list_all scalar_char u" "u \<noteq> []" "hd u \<noteq> quote_mark" "hd u \<noteq> open_brace" "hd u \<noteq> open_bracket"
    using raw_leaf_plain [of u] w(2) c by auto
  have rc: "\<not> isSpace (hd u)" "hd u \<noteq> close_bracket" using render_start [OF w(2)] c(1) by auto
  have s1: "skipSpace src i = i + length l" by (rule skipSpace_drop [OF d w(1)]) (use rc c u in simp)
  have d1: "drop (i + length l) src = (u @ [close_bracket]) @ r" using drop_add [OF d] c(1) by simp
  have c1: "char_at src (i + length l) = Some (hd u)" using d1 u(2) by (cases u) (simp_all add: char_at_drop)
  have "scalar_end src (i + length l) = i + length l + length (u @ [close_bracket])"
    by (rule scalar_end_eq [OF d1]) (use u(1) w(3) in \<open>cases r; auto simp: scalar_char_def isSpace_def\<close>)+
  then have v: "value_end src (i + length l) = Some (i + length l + length (u @ [close_bracket]))"
    using c1 u by (simp add: value_end_def Let_def)
  have d2: "drop (i + length l + length (u @ [close_bracket])) src = r @ []" using drop_add [OF d1] by simp
  have "skipSpace src (i + length l + length (u @ [close_bracket])) = i + length l + length (u @ [close_bracket]) + length r"
    by (rule skipSpace_drop [OF d2 w(3)]) simp
  moreover have "drop (i + length l + length (u @ [close_bracket]) + length r) src = []" using drop_add [OF d2] by simp
  ultimately show ?thesis
    using s1 c1 rc v by (subst items_loop.simps) (simp add: Let_def char_at_drop_Nil)
qed

lemma items_loop_render:
  "\<lbrakk>drop i src = join_with [comma] (map render_element es) @ close_bracket # r; es \<noteq> []; list_all wf_element es; ws r\<rbrakk>
    \<Longrightarrow> items_loop src (skipSpace src i) acc
        = (if touches (last es) then [] else acc @ map (\<lambda>e. render (element_tree e)) es)"
proof (induction es arbitrary: i acc)
  case (Cons x es)
  obtain l c t where x: "x = Element l c t" by (cases x)
  have w: "ws l" "wf_tree c" "ws t" using Cons.prems(3) x by auto
  show ?case
  proof (cases "es = []")
    case True
    have d: "drop i src = l @ render c @ t @ close_bracket # r" using Cons.prems(1) x True by simp
    show ?thesis
    proof (cases "touches x")
      case touching: True
      then obtain u where "t = []" "c = Leaf u" "\<not> raw_string u" by (auto simp: touches_def x)
      then show ?thesis using items_loop_touching [of i src l c r u acc] d w Cons.prems(4) True touching by simp
    next
      case False
      then show ?thesis using items_loop_step [OF d w, of acc] True x by simp
    qed
  next
    case False
    have d: "drop i src = l @ render c @ t @ comma # join_with [comma] (map render_element es) @ close_bracket # r"
      using Cons.prems(1) x False by (simp add: join_with_Cons)
    show ?thesis
      using items_loop_step [OF d w, of acc] Cons.IH [OF _ False] Cons.prems(3,4) False x by simp
  qed
qed simp

lemma arrayItemsBytes_array:
  assumes "wf_tree (Arr w0 es)" "ws w" "ws w'"
  shows "arrayItemsBytes (w @ render (Arr w0 es) @ w')
    = (if es \<noteq> [] \<and> touches (last es) then [] else map (\<lambda>e. render (element_tree e)) es)"
proof -
  let ?src = "w @ render (Arr w0 es) @ w'"
  let ?body = "if es = [] then w0 else join_with [comma] (map render_element es)"
  have s: "skipSpace ?src 0 = length w" using skipSpace_drop [of 0 ?src w "render (Arr w0 es) @ w'"] assms by simp
  have c: "char_at ?src (length w) = Some open_bracket" by (simp add: char_at_drop)
  have d1: "drop (Suc (length w)) ?src = ?body @ close_bracket # w'" by simp
  show ?thesis
  proof (cases "es = []")
    case True
    have "skipSpace ?src (Suc (length w)) = Suc (length w) + length w0"
      by (rule skipSpace_drop [of _ _ _ "close_bracket # w'"]) (use d1 True assms in auto)
    moreover have "char_at ?src (Suc (length w) + length w0) = Some close_bracket" using True by (simp add: char_at_drop)
    ultimately show ?thesis using s c True by (simp add: arrayItemsBytes_def items_loop.simps)
  next
    case False
    then show ?thesis
      using items_loop_render [of "Suc (length w)" ?src es w' "[]"] d1 s c assms by (simp add: arrayItemsBytes_def)
  qed
qed

text \<open>Where the index has the items.\<close>

lemma element_span:
  "\<lbrakk>drop s src = join_with [comma] (map render_element es) @ r; j < length es\<rbrakk> \<Longrightarrow>
   \<exists>sp z. map_of (element_nodes p i s es) (pointer (p @ [dec (i + j)])) = Some sp
     \<and> drop (valueStart sp) src = render (element_tree (es ! j)) @ etrail (es ! j) @ z
     \<and> valueEnd sp = valueStart sp + length (render (element_tree (es ! j))) \<and> (Suc j = length es \<longrightarrow> z = r)"
proof (induction es arbitrary: s i j)
  case (Cons x es)
  obtain l c t where x: "x = Element l c t" by (cases x)
  obtain z where z: "drop s src = l @ render c @ t @ z"
    and rest: "if es = [] then z = r else z = comma # join_with [comma] (map render_element es) @ r"
    using Cons.prems x by (cases es) auto
  have d: "drop (s + length l) src = render c @ t @ z" using z by (rule drop_add)
  show ?case
  proof (cases j)
    case 0
    have "map_of (nodes (p @ [dec i]) (s + length l) (s + length l) c) (pointer (p @ [dec i]))
        = Some (span_of (p @ [dec i]) (s + length l) (s + length l + length (render c)) (s + length l))"
      by (rule map_of_nodes_own)
    then show ?thesis
      using d rest 0 x by (cases "es = []") (auto simp: map_add_def span_of_def)
  next
    case (Suc j')
    then have ne: "es \<noteq> []" using Cons.prems(2) by auto
    have "drop s src = (render_element x @ [comma]) @ join_with [comma] (map render_element es) @ r"
      using z rest ne x by simp
    from drop_add [OF this] have "drop (s + length (render_element x) + 1) src = join_with [comma] (map render_element es) @ r"
      by (simp add: add.assoc)
    from Cons.IH [OF this, of j' "Suc i"] Cons.prems(2) Suc
    obtain sp z' where ih: "map_of (element_nodes p (Suc i) (s + length (render_element x) + 1) es) (pointer (p @ [dec (Suc i + j')])) = Some sp"
      "drop (valueStart sp) src = render (element_tree (es ! j')) @ etrail (es ! j') @ z'"
      "valueEnd sp = valueStart sp + length (render (element_tree (es ! j')))" "Suc j' = length es \<longrightarrow> z' = r" by auto
    have "map_of (element_nodes p i s (x # es)) (pointer (p @ [dec (i + j)])) = Some sp"
      using ih(1) Suc x map_of_nodes_sibling [of "dec i" "dec (Suc i + j')" p]
      by (simp add: map_add_def)
    then show ?thesis using ih(2-4) Suc by (intro exI [of _ sp] exI [of _ z']) simp
  qed
qed simp

section \<open>The properties\<close>

lemma memberBytes_of_object:
  assumes c: "src = w @ render c @ w'" "wf_tree c" "ws w" "ws w'" "indexDocument src = tree_index w c" and v: "tree_value c = JObj ms"
  shows "memberBytes src k =
     (if (pointer [k], k) \<in> set (ix_duplicates (indexDocument src)) then None else value_text src [k])"
proof -
  obtain w0 ms' where o: "c = Obj w0 ms'" using v by (cases c) (auto simp: leaf_value_def split: if_splits)
  let ?body = "if ms' = [] then w0 else join_with [comma] (map render_member ms')"
  have d: "drop (Suc (length w)) src = ?body @ close_brace # w'" using c(1) o by simp
  have b: "bytes_of src (member_nodes [] (Suc (length w)) ms') (pointer ([] @ [k]))
      = (case found_text k ms' of [] \<Rightarrow> None | t # _ \<Rightarrow> Some t)"
    using bytes_of_members [of "Suc (length w)" src ms' "close_brace # w'" "[]" k] d
    by (cases "ms' = []") (simp_all add: bytes_of_def found_text_def)
  have v: "value_text src [k] = (case found_text k ms' of [] \<Rightarrow> None | t # _ \<Rightarrow> Some t)"
  proof -
    let ?own = "(pointer [], span_of [] (length w) (length w + length (render c)) (length w))"
    have "map_of (ix_spans (indexDocument src)) (pointer [k])
        = map_of (member_nodes [] (Suc (length w)) ms' @ [?own]) (pointer [k])"
      unfolding c(5) tree_index_def o by (simp only: document_index.simps map_of_add_spans nodes.simps map_of.simps option.case)
    also have "\<dots> = map_of (member_nodes [] (Suc (length w)) ms') (pointer [k])"
      by (simp add: map_add_def split: option.split)
    finally show ?thesis
      using b by (cases "map_of (member_nodes [] (Suc (length w)) ms') (pointer [k])") (simp_all add: value_text_def spanAt_def bytes_of_def)
  qed
  have u: "(pointer [k], k) \<in> set (ix_duplicates (indexDocument src)) \<longleftrightarrow> 1 < length (found_text k ms')"
    using twice_iff [of "[]" k "{}" ms'] c(5) o by (auto simp: tree_index_def)
  have "memberBytes src k = single (found_text k ms')"
    using memberBytes_object c o by simp
  then show ?thesis using u v by (auto simp: single_def split: list.split)
qed

lemma memberBytes_other:
  assumes "wf_tree c" "ws w" "ws w'" "\<nexists>w0 ms. c = Obj w0 ms"
  shows "memberBytes (w @ render c @ w') k = None"
proof -
  let ?src = "w @ render c @ w'"
  obtain h r where h: "render c = h # r" "\<not> isSpace h" "h \<noteq> open_brace"
  proof (cases c)
    case (Leaf t)
    then show ?thesis using raw_leaf_start [of t] assms(1) render_start [OF assms(1)] that by (cases t) (auto simp: scalar_start_def)
  qed (use assms(4) that in auto)
  then have "skipSpace ?src 0 = length w" using skipSpace_drop [of 0 ?src w "render c @ w'"] assms(2) by simp
  then show ?thesis using h by (simp add: memberBytes_def Let_def char_at_drop)
qed

text \<open>C21: On every text that scans, the bytes of a top-level member are those its span in the index
  encloses, unless the document writes the member twice; then, when there is none, and when the text is not an
  object, nothing is quoted.\<close>

theorem memberBytes_agrees:
  assumes "ix_error (indexDocument src) = None"
  shows "memberBytes src k =
     (case ix_value (indexDocument src) of
        Some (JObj ms) \<Rightarrow>
          if (pointer [k], k) \<in> set (ix_duplicates (indexDocument src)) then None else value_text src [k]
      | _ \<Rightarrow> None)"
proof -
  obtain w c w' where c: "src = w @ render c @ w'" "wf_tree c" "ws w" "ws w'" "indexDocument src = tree_index w c"
    using indexDocument_sound [OF assms] by blast
  show ?thesis
  proof (cases "\<exists>w0 ms. c = Obj w0 ms")
    case True
    then obtain ms where "tree_value c = JObj ms" by auto
    then show ?thesis using memberBytes_of_object [OF c] c(5) by (simp add: tree_index_def)
  next
    case False
    then have "tree_value c \<noteq> JObj ms" for ms by (cases c) (auto simp: leaf_value_def split: if_splits)
    then show ?thesis using memberBytes_other [OF c(2-4)] False c(1,5) by (auto simp: tree_index_def split: jval.split)
  qed
qed

theorem memberBytes_agrees_witness:
  "memberBytes (js ''{'' @ [quote_mark] @ js ''a'' @ [quote_mark] @ js '': [] }'') (js ''a'') = Some (js ''[]'')"
proof -
  let ?s = "js ''{'' @ [quote_mark] @ js ''a'' @ [quote_mark] @ js '': [] }''"
  have e: "ix_error (indexDocument ?s) = None"
    "ix_value (indexDocument ?s) = Some (JObj (case ix_value (indexDocument ?s) of Some (JObj ms) \<Rightarrow> ms | _ \<Rightarrow> []))"
    by code_simp+
  show ?thesis
    by (subst memberBytes_agrees [OF e(1)]) code_simp
qed

lemma item_span:
  assumes "src = w @ render (Arr w0 es) @ w'" "ws w" "ws w'" "j < length es"
  obtains sp z where "spanAt (tree_index w (Arr w0 es)) (pointer [dec j]) = Some sp"
    "drop (valueStart sp) src = render (element_tree (es ! j)) @ etrail (es ! j) @ z"
    "valueEnd sp = valueStart sp + length (render (element_tree (es ! j)))"
    "Suc j = length es \<longrightarrow> z = close_bracket # w'"
proof -
  have "drop (Suc (length w)) src = join_with [comma] (map render_element es) @ close_bracket # w'" using assms by auto
  from element_span [OF this assms(4), of "[]" 0]
  obtain sp z where sp: "map_of (element_nodes [] 0 (Suc (length w)) es) (pointer [dec j]) = Some sp"
    "drop (valueStart sp) src = render (element_tree (es ! j)) @ etrail (es ! j) @ z"
    "valueEnd sp = valueStart sp + length (render (element_tree (es ! j)))" "Suc j = length es \<longrightarrow> z = close_bracket # w'" by auto
  have "spanAt (tree_index w (Arr w0 es)) (pointer [dec j]) = Some sp"
    unfolding tree_index_def spanAt_def
    by (simp only: document_index.simps map_of_add_spans nodes.simps map_of.simps option.case)
      (simp add: map_add_def sp(1) [simplified])
  then show ?thesis using that sp by blast
qed

lemma touches_iff:
  assumes "wf_tree d" "ws t"
    and "drop (valueStart sp) src = render d @ t @ close_bracket # w'" "valueEnd sp = valueStart sp + length (render d)"
  shows "touches (Element l d t) \<longleftrightarrow> char_at src (valueEnd sp) = Some close_bracket
    \<and> char_at src (valueStart sp) \<notin> {Some quote_mark, Some open_brace, Some open_bracket}"
proof -
  have "char_at src (valueEnd sp) = Some (hd (t @ [close_bracket]))"
    using drop_add [OF assms(3)] assms(4) by (cases t) (simp_all add: char_at_drop)
  moreover have "hd (t @ [close_bracket]) = close_bracket \<longleftrightarrow> t = []" using assms(2) by (cases t) auto
  moreover have "(\<exists>u. d = Leaf u \<and> \<not> raw_string u) \<longleftrightarrow> hd (render d) \<notin> {quote_mark, open_brace, open_bracket}"
    using assms(1) raw_leaf_plain raw_string_hd by (cases d) force+
  moreover have "char_at src (valueStart sp) = Some (hd (render d))"
    using assms(3) render_start [OF assms(1)] by (cases "render d") (simp_all add: char_at_drop)
  ultimately show ?thesis by (simp add: touches_def)
qed

text \<open>On an array that scans, the items' bytes are those their spans enclose, unless the last item is a
  number or a literal with the closing bracket right behind it: then no item at all is returned.\<close>

theorem arrayItemsBytes_agrees:
  assumes "ix_error (indexDocument src) = None" "ix_value (indexDocument src) = Some (JArr vs)"
  defines "span \<equiv> \<lambda>i. the (spanAt (indexDocument src) (pointer [dec i]))"
  shows "arrayItemsBytes src =
     (if vs \<noteq> [] \<and> char_at src (valueEnd (span (length vs - 1))) = Some close_bracket
         \<and> char_at src (valueStart (span (length vs - 1))) \<notin> {Some quote_mark, Some open_brace, Some open_bracket}
      then [] else map (\<lambda>i. slice src (valueStart (span i)) (valueEnd (span i))) [0..<length vs])"
proof -
  obtain w c w' where c: "src = w @ render c @ w'" "wf_tree c" "ws w" "ws w'" "indexDocument src = tree_index w c"
    using indexDocument_sound [OF assms(1)] by blast
  have v: "tree_value c = JArr vs" using assms(2) c(5) by (simp add: tree_index_def)
  then obtain w0 es where o: "c = Arr w0 es" by (cases c) (auto simp: leaf_value_def split: if_splits)
  have len: "length es = length vs" using v o by auto
  have at_: "\<exists>z. drop (valueStart (span j)) src = render (element_tree (es ! j)) @ etrail (es ! j) @ z
     \<and> valueEnd (span j) = valueStart (span j) + length (render (element_tree (es ! j)))
     \<and> (Suc j = length es \<longrightarrow> z = close_bracket # w')" if j: "j < length es" for j
    using item_span [OF c(1) [unfolded o] c(3,4) j] unfolding span_def c(5) o by (metis option.sel)
  have bytes: "map (\<lambda>i. slice src (valueStart (span i)) (valueEnd (span i))) [0..<length vs] = map (\<lambda>e. render (element_tree e)) es"
  proof (rule nth_equalityI)
    fix j assume "j < length (map (\<lambda>i. slice src (valueStart (span i)) (valueEnd (span i))) [0..<length vs])"
    then have j: "j < length vs" by simp
    then obtain z where z: "drop (valueStart (span j)) src = render (element_tree (es ! j)) @ etrail (es ! j) @ z"
      "valueEnd (span j) = valueStart (span j) + length (render (element_tree (es ! j)))" using at_ [of j] len by auto
    have "slice src (valueStart (span j)) (valueEnd (span j)) = render (element_tree (es ! j))"
      unfolding z(2) by (rule slice_drop [OF z(1)])
    then show "map (\<lambda>i. slice src (valueStart (span i)) (valueEnd (span i))) [0..<length vs] ! j = map (\<lambda>e. render (element_tree e)) es ! j"
      using j len by simp
  qed (simp add: len)
  have "touches (last es) \<longleftrightarrow> char_at src (valueEnd (span (length vs - 1))) = Some close_bracket
         \<and> char_at src (valueStart (span (length vs - 1))) \<notin> {Some quote_mark, Some open_brace, Some open_bracket}"
    if ne: "es \<noteq> []"
  proof -
    let ?j = "length vs - 1"
    have "0 < length vs" using ne len by (metis length_greater_0_conv)
    then have j: "?j < length es" "es ! ?j = last es" "Suc ?j = length es" using ne len by (auto simp: last_conv_nth)
    obtain l d t where x: "last es = Element l d t" by (cases "last es")
    have w: "wf_tree d" "ws t" using c(2) o ne x by (auto simp: list_all_iff dest!: last_in_set)
    obtain z where z: "drop (valueStart (span ?j)) src = render d @ t @ close_bracket # w'"
      "valueEnd (span ?j) = valueStart (span ?j) + length (render d)" using at_ [OF j(1)] j x by auto
    show ?thesis unfolding x by (rule touches_iff [OF w z])
  qed
  then show ?thesis
    unfolding bytes using arrayItemsBytes_array [of w0 es w w'] c o len by auto
qed

theorem arrayItemsBytes_agrees_witness:
  "arrayItemsBytes (js ''[true]'') = []"
proof -
  let ?s = "js ''[true]''"
  have e: "ix_error (indexDocument ?s) = None"
    "ix_value (indexDocument ?s) = Some (JArr (case ix_value (indexDocument ?s) of Some (JArr vs) \<Rightarrow> vs | _ \<Rightarrow> []))"
    by code_simp+
  show ?thesis
    by (subst arrayItemsBytes_agrees [OF e]) code_simp
qed

end
