(* ===== verification/Proposal_Diff.thy ===== *)
theory Proposal_Diff
  imports Document_Gate Json_Text Js_Text Json_Proper
begin

text \<open>
  \<open>assistant/proposalDiff.ts\<close>: a proposed document as a diff on the draft.  \<open>matchElements\<close> lines the elements
  of two arrays up, by \<open>id\<close> where both carry one and by order where neither does; \<open>diffProposal\<close> reports every
  member of either document once.  A sentence shown in place of a diff is a constructor.
\<close>

section \<open>Matching\<close>

definition sameValue :: "jval \<Rightarrow> jval \<Rightarrow> bool" where
  "sameValue l r \<longleftrightarrow> JSON_stringify [] l = JSON_stringify [] r"

definition jsonText :: "jval \<Rightarrow> jstr" where
  "jsonText v = JSON_stringify (js ''  '') v"

record matching =
  pairs :: "nat option list"
  dropped :: "nat list"
  byId :: bool

definition idOf :: "jval \<Rightarrow> jstr option" where
  "idOf v =
     (case v of
        JObj ms \<Rightarrow> (case map_of ms (js ''id'') of Some (JStr i) \<Rightarrow> if i = [] then None else Some i | _ \<Rightarrow> None)
      | _ \<Rightarrow> None)"

text \<open>\<open>unique\<close>: the loop fills \<open>found\<close> and \<open>collided\<close>; the collided ids are deleted behind it.\<close>

definition unique_step :: "jval list \<Rightarrow> nat \<Rightarrow> (jstr \<times> nat) list \<times> jstr set \<Rightarrow> (jstr \<times> nat) list \<times> jstr set" where
  "unique_step vs index s =
     (case idOf (vs ! index) of
        None \<Rightarrow> s
      | Some i \<Rightarrow>
          (case map_of (fst s) i of
             Some _ \<Rightarrow> (fst s, insert i (snd s))
           | None \<Rightarrow> (map_set i index (fst s), snd s)))"

definition unique :: "jval list \<Rightarrow> (jstr \<times> nat) list" where
  "unique vs =
     (let (found, collided) = fold (unique_step vs) [0..<length vs] ([], {})
      in filter (\<lambda>e. fst e \<notin> collided) found)"

text \<open>The first loop of \<open>matchElements\<close>, the loop over the spare elements, and the whole.\<close>

definition keyed_step ::
  "jval list \<Rightarrow> (jstr \<times> nat) list \<Rightarrow> (jstr \<times> nat) list \<Rightarrow> nat
     \<Rightarrow> nat option list \<times> nat set \<times> bool \<Rightarrow> nat option list \<times> nat set \<times> bool" where
  "keyed_step after beforeIds afterIds to s =
     (let (ps, taken, by_id) = s in
      case idOf (after ! to) of
        None \<Rightarrow> s
      | Some i \<Rightarrow>
          if map_of afterIds i \<noteq> Some to then s
          else (case map_of beforeIds i of
                  None \<Rightarrow> s
                | Some f \<Rightarrow> if f \<in> taken then s else (ps[to := Some f], insert f taken, True)))"

fun fill_spare :: "jval list \<Rightarrow> nat list \<Rightarrow> nat list \<Rightarrow> nat option list \<times> nat set \<Rightarrow> nat option list \<times> nat set" where
  "fill_spare after [] spare s = s"
| "fill_spare after (to # tos) spare (ps, taken) =
     (if ps ! to \<noteq> None \<or> idOf (after ! to) \<noteq> None then fill_spare after tos spare (ps, taken)
      else (case spare of
              [] \<Rightarrow> (ps, taken)
            | f # spare' \<Rightarrow> fill_spare after tos spare' (ps[to := Some f], insert f taken)))"

definition matchElements :: "jval list \<Rightarrow> jval list \<Rightarrow> matching" where
  "matchElements before after =
     (let beforeIds = unique before; afterIds = unique after;
          (ps, taken, by_id) = fold (keyed_step after beforeIds afterIds) [0..<length after]
                                 (replicate (length after) None, {}, False);
          spare = filter (\<lambda>f. \<not> (f \<in> taken \<or> idOf (before ! f) \<noteq> None)) [0..<length before];
          (ps', taken') = fill_spare after [0..<length after] spare (ps, taken)
      in \<lparr>pairs = ps', dropped = filter (\<lambda>f. f \<notin> taken') [0..<length before], byId = by_id\<rparr>)"

section \<open>The diff\<close>

datatype diff_status = Added | Removed | Changed | Unchanged

definition status_text :: "diff_status \<Rightarrow> jstr" where
  "status_text s = (case s of Added \<Rightarrow> js ''added'' | Removed \<Rightarrow> js ''removed'' | Changed \<Rightarrow> js ''changed''
                    | Unchanged \<Rightarrow> js ''unchanged'')"

text \<open>\<open>before\<close>, \<open>after\<close> and \<open>children\<close> may be absent; \<open>moved\<close> is \<open>true\<close> or absent.\<close>

datatype diff_entry =
  DiffEntry (d_key: jstr) (d_pointer: jstr) (d_label: jstr) (d_status: diff_status)
    (d_before: "jstr option") (d_after: "jstr option") (d_moved: bool) (d_children: "diff_entry list option")

definition entryOf ::
  "jstr \<Rightarrow> jstr \<Rightarrow> diff_status \<Rightarrow> jstr option \<Rightarrow> jstr option \<Rightarrow> bool \<Rightarrow> diff_entry list option \<Rightarrow> diff_entry" where
  "entryOf ptr label st bef aft moved children =
     DiffEntry (status_text st @ colon # ptr) ptr label st bef aft moved children"

definition labelOf :: "jval \<Rightarrow> nat \<Rightarrow> jstr" where
  "labelOf v index = (case idOf v of Some i \<Rightarrow> i | None \<Rightarrow> open_bracket # dec index @ [close_bracket])"

definition element_pointer :: "jstr \<Rightarrow> nat \<Rightarrow> jstr" where
  "element_pointer ptr i = ptr @ slash # dec i"

definition compare_element :: "jstr \<Rightarrow> jval list \<Rightarrow> jval list \<Rightarrow> nat option list \<Rightarrow> nat \<Rightarrow> diff_entry" where
  "compare_element ptr before after ps to =
     (case ps ! to of
        None \<Rightarrow>
          entryOf (element_pointer ptr to) (labelOf (after ! to) to) Added None (Some (jsonText (after ! to))) False None
      | Some f \<Rightarrow>
          (let same = sameValue (before ! f) (after ! to)
           in entryOf (element_pointer ptr to) (labelOf (after ! to) to) (if same then Unchanged else Changed)
                (Some (jsonText (before ! f))) (Some (jsonText (after ! to))) (same \<and> f \<noteq> to) None))"

definition removed_element :: "jstr \<Rightarrow> jval list \<Rightarrow> nat \<Rightarrow> diff_entry" where
  "removed_element ptr before f =
     entryOf (element_pointer ptr f) (labelOf (before ! f) f) Removed (Some (jsonText (before ! f))) None False None"

definition compareElements :: "jstr \<Rightarrow> jval list \<Rightarrow> jval list \<Rightarrow> diff_entry list" where
  "compareElements ptr before after =
     (let m = matchElements before after
      in map (compare_element ptr before after (pairs m)) [0..<length after]
         @ map (removed_element ptr before) (dropped m))"

definition counted_entries :: "diff_entry list \<Rightarrow> diff_status \<Rightarrow> nat" where
  "counted_entries entries = fold (\<lambda>e counts. counts(d_status e := counts (d_status e) + 1)) entries (\<lambda>_. 0)"

text \<open>What the draft is, or why it cannot be compared with.\<close>

datatype draft_problem = NoDraft | Disagrees disagreement | NotAnObject

definition readDraft :: "jstr option \<Rightarrow> draft_problem + (jstr \<times> jval) list" where
  "readDraft draft =
     (case draft of
        None \<Rightarrow> Inl NoDraft
      | Some src \<Rightarrow>
          if js_trim src = [] then Inl NoDraft
          else (let index = indexDocument src in
                case agreesWithParse src index of
                  first # _ \<Rightarrow> Inl (Disagrees first)
                | [] \<Rightarrow> (case ix_value index of Some (JObj ms) \<Rightarrow> Inr ms | _ \<Rightarrow> Inl NotAnObject)))"

record proposal_diff =
  beforeText :: jstr
  afterText :: jstr
  compared :: bool
  reason :: "draft_problem option"
  entries :: "diff_entry list"
  counts :: "diff_status \<Rightarrow> nat"

definition added_member :: "(jstr \<times> jval) list \<Rightarrow> jstr \<Rightarrow> diff_entry" where
  "added_member proposed name =
     entryOf (pointer [name]) name Added None (Some (jsonText (the (map_of proposed name)))) False None"

definition compare_member :: "(jstr \<times> jval) list \<Rightarrow> (jstr \<times> jval) list \<Rightarrow> jstr \<Rightarrow> diff_entry" where
  "compare_member draft proposed name =
     (case map_of draft name of
        None \<Rightarrow> added_member proposed name
      | Some bef \<Rightarrow>
          (let aft = the (map_of proposed name) in
           if sameValue bef aft
           then entryOf (pointer [name]) name Unchanged (Some (jsonText bef)) (Some (jsonText aft)) False None
           else entryOf (pointer [name]) name Changed (Some (jsonText bef)) (Some (jsonText aft)) False
                  (case (bef, aft) of
                     (JArr bs, JArr as) \<Rightarrow> Some (compareElements (pointer [name]) bs as)
                   | _ \<Rightarrow> None)))"

definition removed_member :: "(jstr \<times> jval) list \<Rightarrow> jstr \<Rightarrow> diff_entry" where
  "removed_member draft name =
     entryOf (pointer [name]) name Removed (Some (jsonText (the (map_of draft name)))) None False None"

definition compare_objects :: "(jstr \<times> jval) list \<Rightarrow> (jstr \<times> jval) list \<Rightarrow> diff_entry list" where
  "compare_objects draft proposed =
     map (compare_member draft proposed) (own_keys proposed)
     @ map (removed_member draft) (filter (\<lambda>name. map_of proposed name = None) (own_keys draft))"

definition whole_label :: jstr where "whole_label = js ''the whole document''"

definition diffProposal :: "jstr option \<Rightarrow> jval \<Rightarrow> proposal_diff" where
  "diffProposal draftText proposal =
     (case readDraft draftText of
        Inl problem \<Rightarrow>
          (let es = (case proposal of
                       JObj ms \<Rightarrow> map (added_member ms) (own_keys ms)
                     | _ \<Rightarrow> [entryOf [] whole_label Added None (Some (jsonText proposal)) False None])
           in \<lparr>beforeText = [], afterText = jsonText proposal, compared = False, reason = Some problem,
               entries = es, counts = counted_entries es\<rparr>)
      | Inr draft \<Rightarrow>
          (let es = (case proposal of
                       JObj ms \<Rightarrow> compare_objects draft ms
                     | _ \<Rightarrow> [entryOf [] whole_label (if sameValue (JObj draft) proposal then Unchanged else Changed)
                               (Some (jsonText (JObj draft))) (Some (jsonText proposal)) False None])
           in \<lparr>beforeText = jsonText (JObj draft), afterText = jsonText proposal, compared = True, reason = None,
               entries = es, counts = counted_entries es\<rparr>))"

end
