(* ===== verification/Proposal_Facts.thy ===== *)
theory Proposal_Facts
  imports Proposal_Diff "HOL-Library.Multiset"
begin

text \<open>
  What \<open>matchElements\<close> pairs, and what the rows of a diff account for: every element of both arrays and every
  member of both documents, once.
\<close>

section \<open>Ids that name one element\<close>

definition occurrences :: "jval list \<Rightarrow> jstr \<Rightarrow> nat list" where
  "occurrences vs i = filter (\<lambda>k. idOf (vs ! k) = Some i) [0..<length vs]"

lemma unique_scan:
  "map_of (fst (fold (unique_step vs) [0..<n] ([], {}))) i
     = (case filter (\<lambda>k. idOf (vs ! k) = Some i) [0..<n] of [] \<Rightarrow> None | k # _ \<Rightarrow> Some k)
   \<and> (i \<in> snd (fold (unique_step vs) [0..<n] ([], {})) \<longleftrightarrow> 2 \<le> length (filter (\<lambda>k. idOf (vs ! k) = Some i) [0..<n]))"
proof (induction n arbitrary: i)
  case (Suc n)
  let ?s = "fold (unique_step vs) [0..<n] ([], {})"
  have s: "fold (unique_step vs) [0..<Suc n] ([], {}) = unique_step vs n ?s" by simp
  show ?case
  proof (cases "idOf (vs ! n)")
    case None
    then show ?thesis using Suc [of i] by (simp add: s unique_step_def)
  next
    case (Some j)
    note at_j = Suc [of j] and at_i = Suc [of i]
    show ?thesis
    proof (cases "filter (\<lambda>k. idOf (vs ! k) = Some j) [0..<n]")
      case Nil
      then show ?thesis using at_i at_j Some by (auto simp: s unique_step_def map_of_map_set)
    next
      case (Cons k ks)
      then show ?thesis using at_i at_j Some by (cases "i = j") (auto simp: s unique_step_def split: list.splits)
    qed
  qed
qed simp

lemma map_of_filter_keys: "map_of (filter (\<lambda>e. fst e \<notin> c) es) i = (if i \<in> c then None else map_of es i)"
  by (induction es) auto

lemma unique_occurrences: "map_of (unique vs) i = single (occurrences vs i)"
  using unique_scan [of vs "length vs" i]
  by (simp add: unique_def split_beta map_of_filter_keys occurrences_def single_def split: list.splits)

lemma single_occurrence:
  "single (occurrences vs i) = Some k \<longleftrightarrow>
     k < length vs \<and> idOf (vs ! k) = Some i \<and> (\<forall>j < length vs. idOf (vs ! j) = Some i \<longrightarrow> j = k)"
proof
  assume "single (occurrences vs i) = Some k"
  then have o: "occurrences vs i = [k]" by (simp add: single_eq_Some)
  have "j \<in> set (occurrences vs i) \<longleftrightarrow> j < length vs \<and> idOf (vs ! j) = Some i" for j
    by (auto simp: occurrences_def)
  then show "k < length vs \<and> idOf (vs ! k) = Some i \<and> (\<forall>j < length vs. idOf (vs ! j) = Some i \<longrightarrow> j = k)"
    unfolding o by auto
next
  assume k: "k < length vs \<and> idOf (vs ! k) = Some i \<and> (\<forall>j < length vs. idOf (vs ! j) = Some i \<longrightarrow> j = k)"
  have "set (occurrences vs i) = {k}" using k by (auto simp: occurrences_def)
  moreover have "distinct (occurrences vs i)" by (simp add: occurrences_def)
  ultimately have "length (occurrences vs i) = 1" using distinct_card [of "occurrences vs i"] by simp
  then obtain x where "occurrences vs i = [x]" by (auto simp: length_Suc_conv)
  then have "occurrences vs i = [k]" using \<open>set (occurrences vs i) = {k}\<close> by simp
  then show "single (occurrences vs i) = Some k" by (simp add: single_def)
qed

section \<open>The loops\<close>

definition keyed_pair :: "jval list \<Rightarrow> jval list \<Rightarrow> nat \<Rightarrow> nat option" where
  "keyed_pair before after to =
     (case idOf (after ! to) of
        None \<Rightarrow> None
      | Some i \<Rightarrow> if single (occurrences after i) = Some to then single (occurrences before i) else None)"

lemma keyed_pair_Some:
  "keyed_pair before after to = Some f \<longleftrightarrow>
     (\<exists>i. idOf (after ! to) = Some i \<and> single (occurrences after i) = Some to \<and> single (occurrences before i) = Some f)"
  by (auto simp: keyed_pair_def split: option.splits)

lemma keyed_pair_inj: "\<lbrakk>keyed_pair before after to = Some f; keyed_pair before after to' = Some f\<rbrakk> \<Longrightarrow> to = to'"
proof -
  assume "keyed_pair before after to = Some f" "keyed_pair before after to' = Some f"
  then obtain i j where a: "single (occurrences after i) = Some to" "single (occurrences before i) = Some f"
      "single (occurrences after j) = Some to'" "single (occurrences before j) = Some f"
    by (auto simp: keyed_pair_Some)
  then have "Some i = Some j" using single_occurrence [of before i f] single_occurrence [of before j f] by simp
  then show "to = to'" using a by simp
qed

lemma keyed_loop:
  "n \<le> length after \<Longrightarrow>
   fold (keyed_step after (unique before) (unique after)) [0..<n] (replicate (length after) None, {}, False)
     = (map (\<lambda>to. if to < n then keyed_pair before after to else None) [0..<length after],
        {f. \<exists>to < n. keyed_pair before after to = Some f}, \<exists>to < n. keyed_pair before after to \<noteq> None)"
proof (induction n)
  case 0
  show ?case by (auto intro!: nth_equalityI)
next
  case (Suc n)
  let ?k = "keyed_pair before after"
  let ?ps = "map (\<lambda>to. if to < n then ?k to else None) [0..<length after]"
  let ?taken = "{f. \<exists>to < n. ?k to = Some f}"
  have s: "fold (keyed_step after (unique before) (unique after)) [0..<Suc n] (replicate (length after) None, {}, False)
      = keyed_step after (unique before) (unique after) n (?ps, ?taken, \<exists>to < n. ?k to \<noteq> None)"
    using Suc by simp
  show ?case
  proof (cases "?k n")
    case None
    then have "keyed_step after (unique before) (unique after) n (?ps, ?taken, \<exists>to < n. ?k to \<noteq> None)
        = (?ps, ?taken, \<exists>to < n. ?k to \<noteq> None)"
      by (auto simp: keyed_step_def keyed_pair_def unique_occurrences split: option.splits if_splits)
    moreover have "?ps = map (\<lambda>to. if to < Suc n then ?k to else None) [0..<length after]"
      using None by (intro map_cong) (auto simp: less_Suc_eq)
    moreover have "?taken = {f. \<exists>to < Suc n. ?k to = Some f}" using None by (auto simp: less_Suc_eq)
    moreover have "(\<exists>to < n. ?k to \<noteq> None) \<longleftrightarrow> (\<exists>to < Suc n. ?k to \<noteq> None)" using None by (metis less_Suc_eq)
    ultimately show ?thesis unfolding s by (simp only:)
  next
    case (Some f)
    have free: "f \<notin> ?taken" using keyed_pair_inj [OF Some] by auto
    have "keyed_step after (unique before) (unique after) n (?ps, ?taken, \<exists>to < n. ?k to \<noteq> None)
        = (?ps[n := Some f], insert f ?taken, True)"
      using Some free by (auto simp: keyed_step_def keyed_pair_Some unique_occurrences)
    moreover have "?ps[n := Some f] = map (\<lambda>to. if to < Suc n then ?k to else None) [0..<length after]"
      using Some Suc.prems by (intro nth_equalityI) (auto simp: nth_list_update less_Suc_eq)
    moreover have "insert f ?taken = {f. \<exists>to < Suc n. ?k to = Some f}" using Some by (auto simp: less_Suc_eq)
    moreover have "True \<longleftrightarrow> (\<exists>to < Suc n. ?k to \<noteq> None)" using Some by blast
    ultimately show ?thesis unfolding s by (simp only:)
  qed
qed

definition write_pairs :: "(nat \<times> nat) list \<Rightarrow> nat option list \<Rightarrow> nat option list" where
  "write_pairs zs ps = fold (\<lambda>(to, f) p. p[to := Some f]) zs ps"

lemma write_pairs_simps [simp]: "write_pairs [] ps = ps" "write_pairs ((to, f) # zs) ps = write_pairs zs (ps[to := Some f])"
  by (simp_all add: write_pairs_def)

lemma length_write_pairs [simp]: "length (write_pairs zs ps) = length ps"
  by (induction zs arbitrary: ps) auto

lemma nth_write_pairs:
  "\<lbrakk>distinct (map fst zs); to < length ps\<rbrakk> \<Longrightarrow>
     write_pairs zs ps ! to = (case map_of zs to of Some f \<Rightarrow> Some f | None \<Rightarrow> ps ! to)"
proof (induction zs arbitrary: ps)
  case (Cons z zs)
  obtain t f where z: "z = (t, f)" by (cases z)
  have "map_of zs t = None" using Cons.prems(1) z by (auto simp: map_of_eq_None_iff)
  then show ?case using Cons z by (auto simp: nth_list_update split: option.split)
qed simp

lemma fill_spare_eq:
  "\<lbrakk>distinct tos; \<forall>to \<in> set tos. to < length ps\<rbrakk> \<Longrightarrow>
   fill_spare after tos spare (ps, taken)
     = (let cs = filter (\<lambda>to. ps ! to = None \<and> idOf (after ! to) = None) tos
        in (write_pairs (zip cs spare) ps, taken \<union> set (take (length cs) spare)))"
proof (induction tos arbitrary: spare ps taken)
  case (Cons to tos)
  show ?case
  proof (cases "ps ! to \<noteq> None \<or> idOf (after ! to) \<noteq> None")
    case True
    then show ?thesis using Cons by (auto simp: Let_def)
  next
    case False
    show ?thesis
    proof (cases spare)
      case Nil
      then show ?thesis using False by (simp add: Let_def)
    next
      case (Cons f spare')
      have same: "filter (\<lambda>t. ps[to := Some f] ! t = None \<and> idOf (after ! t) = None) tos
          = filter (\<lambda>t. ps ! t = None \<and> idOf (after ! t) = None) tos"
      proof (rule filter_cong [OF refl])
        fix t assume "t \<in> set tos"
        then have "to \<noteq> t" using Cons.prems(1) by auto
        then show "(ps[to := Some f] ! t = None \<and> idOf (after ! t) = None) = (ps ! t = None \<and> idOf (after ! t) = None)"
          by simp
      qed
      show ?thesis
        using False Cons.IH [of "ps[to := Some f]" spare' "insert f taken"] Cons.prems Cons same by (simp add: Let_def)
    qed
  qed
qed simp

section \<open>What is lined_up\<close>

definition unkeyed :: "jval list \<Rightarrow> nat list" where
  "unkeyed vs = filter (\<lambda>k. idOf (vs ! k) = None) [0..<length vs]"

text \<open>The elements without an id in front of one.\<close>

definition rank :: "jval list \<Rightarrow> nat \<Rightarrow> nat" where
  "rank vs k = length (filter (\<lambda>j. idOf (vs ! j) = None) [0..<k])"

lemma nth_filter_upt:
  "j < length (filter Q [0..<n]) \<and> filter Q [0..<n] ! j = k \<longleftrightarrow> k < n \<and> Q k \<and> length (filter Q [0..<k]) = j"
proof (induction n)
  case (Suc n)
  have le: "k < n \<Longrightarrow> Q k \<Longrightarrow> length (filter Q [0..<k]) < length (filter Q [0..<n])"
  proof -
    assume k: "k < n" "Q k"
    then have "[0..<n] = [0..<k] @ k # [Suc k..<n]"
      using upt_add_eq_append [of 0 k "n - k"] by (simp add: upt_conv_Cons)
    then show ?thesis using k by simp
  qed
  show ?case
  proof (cases "j < length (filter Q [0..<n])")
    case True
    then show ?thesis using Suc by (auto simp: nth_append less_Suc_eq)
  next
    case False
    then show ?thesis using Suc le by (auto simp: nth_append less_Suc_eq)
  qed
qed simp

lemma unkeyed_nth: "j < length (unkeyed vs) \<and> unkeyed vs ! j = k \<longleftrightarrow> k < length vs \<and> idOf (vs ! k) = None \<and> rank vs k = j"
  unfolding unkeyed_def rank_def by (rule nth_filter_upt)

text \<open>When an element of the one list is the other's: the only ones with their id, or the same in the order of those without.\<close>

definition only :: "jval list \<Rightarrow> nat \<Rightarrow> bool" where
  "only vs k \<longleftrightarrow> (\<forall>j < length vs. idOf (vs ! j) = idOf (vs ! k) \<longrightarrow> j = k)"

definition counterpart :: "jval list \<Rightarrow> jval list \<Rightarrow> nat \<Rightarrow> nat \<Rightarrow> bool" where
  "counterpart before after f to \<longleftrightarrow>
     (if idOf (before ! f) = None \<and> idOf (after ! to) = None then rank before f = rank after to
      else idOf (before ! f) = idOf (after ! to) \<and> only before f \<and> only after to)"

lemma matchElements_eq:
  "matchElements before after =
     (let ps = write_pairs (zip (unkeyed after) (unkeyed before)) (map (keyed_pair before after) [0..<length after])
      in \<lparr>pairs = ps,
          dropped = filter (\<lambda>f. f \<notin> {f. \<exists>to < length after. keyed_pair before after to = Some f}
                                     \<union> set (take (length (unkeyed after)) (unkeyed before))) [0..<length before],
          byId = (\<exists>to < length after. keyed_pair before after to \<noteq> None)\<rparr>)"
proof -
  let ?k = "keyed_pair before after"
  let ?taken = "{f. \<exists>to < length after. ?k to = Some f}"
  have loop: "fold (keyed_step after (unique before) (unique after)) [0..<length after] (replicate (length after) None, {}, False)
     = (map ?k [0..<length after], ?taken, \<exists>to < length after. ?k to \<noteq> None)"
    unfolding keyed_loop [OF order_refl] by (auto intro: map_cong)
  have spare: "filter (\<lambda>f. \<not> (f \<in> ?taken \<or> idOf (before ! f) \<noteq> None)) [0..<length before] = unkeyed before"
    unfolding unkeyed_def by (rule filter_cong) (auto simp: keyed_pair_Some single_occurrence)
  have cs: "filter (\<lambda>to. map ?k [0..<length after] ! to = None \<and> idOf (after ! to) = None) [0..<length after] = unkeyed after"
    unfolding unkeyed_def by (rule filter_cong) (auto simp: keyed_pair_def)
  have fill: "fill_spare after [0..<length after] (unkeyed before) (map ?k [0..<length after], ?taken)
      = (write_pairs (zip (unkeyed after) (unkeyed before)) (map ?k [0..<length after]),
         ?taken \<union> set (take (length (unkeyed after)) (unkeyed before)))"
    by (subst fill_spare_eq) (simp_all add: cs Let_def)
  show ?thesis
    unfolding matchElements_def Let_def loop prod.case spare fill by (rule refl)
qed

lemma counterpart_same_id: "counterpart before after f to \<Longrightarrow> idOf (before ! f) = idOf (after ! to)"
  by (simp add: counterpart_def split: if_splits)

lemma counterpart_keyed:
  "idOf (after ! to) = Some i \<Longrightarrow>
     counterpart before after f to \<longleftrightarrow> idOf (before ! f) = Some i \<and> only before f \<and> only after to"
  by (simp add: counterpart_def)

lemma counterpart_unkeyed:
  "idOf (after ! to) = None \<Longrightarrow>
     counterpart before after f to \<longleftrightarrow> idOf (before ! f) = None \<and> rank before f = rank after to"
  by (auto simp: counterpart_def only_def)

lemma rank_inj:
  "\<lbrakk>rank vs k = rank vs k'; idOf (vs ! k) = None; idOf (vs ! k') = None; k < length vs; k' < length vs\<rbrakk> \<Longrightarrow> k = k'"
  using unkeyed_nth [of "rank vs k" vs k] unkeyed_nth [of "rank vs k" vs k'] by simp

lemma onlyD: "\<lbrakk>only vs k; idOf (vs ! j) = idOf (vs ! k); j < length vs\<rbrakk> \<Longrightarrow> j = k"
  by (simp add: only_def)

lemma counterpart_inj:
  assumes "counterpart before after f to" "counterpart before after f to'" "to < length after" "to' < length after"
  shows "to = to'"
proof (cases "idOf (after ! to)")
  case None
  moreover have "idOf (after ! to') = None"
    using counterpart_same_id [OF assms(1)] counterpart_same_id [OF assms(2)] None by simp
  ultimately show ?thesis using assms rank_inj [of after to to'] by (simp add: counterpart_unkeyed)
next
  case (Some i)
  moreover have "idOf (after ! to') = Some i"
    using counterpart_same_id [OF assms(1)] counterpart_same_id [OF assms(2)] Some by simp
  ultimately show ?thesis using assms onlyD [of after to' to] by (simp add: counterpart_keyed)
qed

lemma counterpart_fun:
  assumes "counterpart before after f to" "counterpart before after f' to" "f < length before" "f' < length before"
  shows "f = f'"
proof (cases "idOf (after ! to)")
  case None
  then show ?thesis using assms rank_inj [of before f f'] by (simp add: counterpart_unkeyed)
next
  case (Some i)
  then show ?thesis using assms onlyD [of before f' f] by (simp add: counterpart_keyed)
qed

lemma single_only:
  "k < length vs \<Longrightarrow> single (occurrences vs i) = Some k \<longleftrightarrow> idOf (vs ! k) = Some i \<and> only vs k"
  unfolding single_occurrence only_def by (cases "idOf (vs ! k) = Some i") simp_all

lemma pairs_nth:
  assumes to: "to < length after"
  shows "pairs (matchElements before after) ! to = Some f \<longleftrightarrow> f < length before \<and> counterpart before after f to"
proof -
  let ?zs = "zip (unkeyed after) (unkeyed before)"
  have dz: "distinct (map fst ?zs)"
    by (simp add: unkeyed_def map_fst_zip_take distinct_take del: distinct_filter) (simp add: distinct_take)
  have p: "pairs (matchElements before after) ! to
      = (case map_of ?zs to of Some f \<Rightarrow> Some f | None \<Rightarrow> keyed_pair before after to)"
    using nth_write_pairs [OF dz, of to "map (keyed_pair before after) [0..<length after]"] to
    by (simp add: matchElements_eq split: option.split)
  have z: "map_of ?zs to = Some f \<longleftrightarrow> idOf (after ! to) = None \<and> f < length before \<and> idOf (before ! f) = None \<and> rank before f = rank after to" for f
  proof -
    have "map_of ?zs to = Some f \<longleftrightarrow> (\<exists>j. (j < length (unkeyed after) \<and> unkeyed after ! j = to) \<and> (j < length (unkeyed before) \<and> unkeyed before ! j = f))"
      unfolding map_of_eq_Some_iff [OF dz] in_set_zip by auto
    also have "\<dots> \<longleftrightarrow> (idOf (after ! to) = None \<and> f < length before \<and> idOf (before ! f) = None \<and> rank before f = rank after to)"
      unfolding unkeyed_nth using to by auto
    finally show ?thesis .
  qed
  show ?thesis
  proof (cases "idOf (after ! to)")
    case None
    then have "keyed_pair before after to = None" by (simp add: keyed_pair_def)
    then have "pairs (matchElements before after) ! to = Some f \<longleftrightarrow> map_of ?zs to = Some f"
      unfolding p by (simp split: option.split)
    then show ?thesis using z [of f] None by (auto simp: counterpart_def)
  next
    case (Some i)
    then have "map_of ?zs to = None" using z by (cases "map_of ?zs to") auto
    then have "pairs (matchElements before after) ! to = Some f
        \<longleftrightarrow> single (occurrences after i) = Some to \<and> single (occurrences before i) = Some f"
      unfolding p using Some by (simp add: keyed_pair_Some)
    also have "\<dots> \<longleftrightarrow> f < length before \<and> counterpart before after f to"
      using single_only [OF to, of i] single_only [of f before i] single_occurrence [of before i f] Some
      by (auto simp: counterpart_keyed)
    finally show ?thesis .
  qed
qed

lemma length_pairs [simp]: "length (pairs (matchElements before after)) = length after"
  by (simp add: matchElements_eq)

lemma dropped_eq:
  "dropped (matchElements before after) = filter (\<lambda>f. \<not> (\<exists>to < length after. counterpart before after f to)) [0..<length before]"
proof -
  let ?m = "matchElements before after"
  have "f \<in> {f. \<exists>to < length after. keyed_pair before after to = Some f} \<union> set (take (length (unkeyed after)) (unkeyed before))
      \<longleftrightarrow> (\<exists>to < length after. counterpart before after f to)" (is "?l \<longleftrightarrow> ?r") if f: "f < length before" for f
  proof
    assume ?l
    then consider to where "to < length after" "keyed_pair before after to = Some f"
      | j where "j < length (unkeyed after)" "j < length (unkeyed before)" "unkeyed before ! j = f"
      by (auto simp: in_set_conv_nth)
    then show ?r
    proof cases
      case 1
      then have "counterpart before after f to"
        using f by (auto simp: keyed_pair_Some single_only counterpart_keyed)
      then show ?thesis using 1(1) by blast
    next
      case 2
      then have "counterpart before after f (unkeyed after ! j)"
        using unkeyed_nth [of j before f] unkeyed_nth [of j after "unkeyed after ! j"] by (simp add: counterpart_def)
      then show ?thesis using unkeyed_nth [of j after "unkeyed after ! j"] 2(1) by blast
    qed
  next
    assume ?r
    then obtain to where to: "to < length after" "counterpart before after f to" by blast
    show ?l
    proof (cases "idOf (after ! to)")
      case None
      then have n: "idOf (before ! f) = None" "rank before f = rank after to"
        using to(2) by (auto simp: counterpart_def split: if_splits)
      let ?j = "rank before f"
      have "?j < length (unkeyed after)" "?j < length (unkeyed before)" "unkeyed before ! ?j = f"
        using unkeyed_nth [of ?j before f] unkeyed_nth [of ?j after to] n None f to(1) by simp_all
      then have "f \<in> set (take (length (unkeyed after)) (unkeyed before))"
        unfolding in_set_conv_nth by (intro exI [of _ ?j]) simp
      then show ?thesis by blast
    next
      case (Some i)
      then have "keyed_pair before after to = Some f"
        using to f by (simp add: keyed_pair_Some single_only counterpart_keyed)
      then show ?thesis using to(1) by blast
    qed
  qed
  then show ?thesis unfolding matchElements_eq Let_def matching.simps by (intro filter_cong) auto
qed

section \<open>Every element once\<close>

definition lined_up :: "jval list \<Rightarrow> jval list \<Rightarrow> nat list" where
  "lined_up before after = map the (filter (\<lambda>p. p \<noteq> None) (pairs (matchElements before after)))"

lemma distinct_filter_nth:
  "(\<And>i j. \<lbrakk>i < length xs; j < length xs; xs ! i = xs ! j; Q (xs ! i)\<rbrakk> \<Longrightarrow> i = j) \<Longrightarrow> distinct (filter Q xs)"
proof (induction xs)
  case (Cons x xs)
  have "distinct (filter Q xs)"
  proof (rule Cons.IH)
    fix i j assume "i < length xs" "j < length xs" "xs ! i = xs ! j" "Q (xs ! i)"
    then show "i = j" using Cons.prems [of "Suc i" "Suc j"] by simp
  qed
  moreover have "x \<notin> set (filter Q xs)" if "Q x"
  proof
    assume "x \<in> set (filter Q xs)"
    then obtain j where "j < length xs" "xs ! j = x" by (auto simp: in_set_conv_nth)
    then show False using Cons.prems [of 0 "Suc j"] that by simp
  qed
  ultimately show ?case by simp
qed simp

lemma distinct_paired: "distinct (lined_up before after)"
proof -
  let ?ps = "pairs (matchElements before after)"
  have "distinct (filter (\<lambda>p. p \<noteq> None) ?ps)"
  proof (rule distinct_filter_nth)
    fix i j assume a: "i < length ?ps" "j < length ?ps" "?ps ! i = ?ps ! j" "?ps ! i \<noteq> None"
    obtain f where "?ps ! i = Some f" "?ps ! j = Some f" using a(3,4) by auto
    then have "counterpart before after f i" "counterpart before after f j" using a(1,2) pairs_nth by auto
    then show "i = j" using counterpart_inj a(1,2) by simp
  qed
  moreover have "inj_on the (set (filter (\<lambda>p. p \<noteq> None) ?ps))" by (auto simp: inj_on_def)
  ultimately show ?thesis unfolding lined_up_def by (simp only: distinct_map)
qed

lemma set_paired: "set (lined_up before after) = {f. f < length before \<and> (\<exists>to < length after. counterpart before after f to)}"
proof -
  have "f \<in> set (lined_up before after) \<longleftrightarrow> (\<exists>to < length after. pairs (matchElements before after) ! to = Some f)" for f
    by (force simp: lined_up_def in_set_conv_nth image_iff)
  moreover have "(\<exists>to < length after. pairs (matchElements before after) ! to = Some f)
      \<longleftrightarrow> f < length before \<and> (\<exists>to < length after. counterpart before after f to)" for f
    using pairs_nth [of _ after before f] by blast
  ultimately show ?thesis by blast
qed

text \<open>Every element of the draft's array is lined_up or dropped, and once.\<close>

lemma paired_or_dropped: "mset (lined_up before after) + mset (dropped (matchElements before after)) = mset [0..<length before]"
proof -
  have "mset (lined_up before after @ dropped (matchElements before after)) = mset [0..<length before]"
    by (subst set_eq_iff_mset_eq_distinct [symmetric])
      (auto simp: distinct_paired set_paired dropped_eq)
  then show ?thesis by simp
qed

lemma status_key_inj [simp]:
  "status_text s @ colon # p = status_text s' @ colon # p' \<longleftrightarrow> s = s' \<and> p = p'"
  by (cases s; cases s') (simp_all add: status_text_def)

lemma element_pointer_inj [simp]: "element_pointer p i = element_pointer p j \<longleftrightarrow> i = j"
  by (simp add: element_pointer_def)

lemma d_entryOf [simp]:
  "d_key (entryOf p l s b a m c) = status_text s @ colon # p" "d_pointer (entryOf p l s b a m c) = p"
  "d_label (entryOf p l s b a m c) = l" "d_status (entryOf p l s b a m c) = s"
  "d_before (entryOf p l s b a m c) = b" "d_after (entryOf p l s b a m c) = a"
  "d_children (entryOf p l s b a m c) = c"
  by (simp_all add: entryOf_def)

lemma compare_element_fields:
  "d_after (compare_element ptr before after ps to) = Some (jsonText (after ! to))"
  "d_status (compare_element ptr before after ps to) \<noteq> Removed"
  "d_status (compare_element ptr before after ps to) = Added \<longleftrightarrow> ps ! to = None"
  "d_before (compare_element ptr before after ps to) = map_option (\<lambda>f. jsonText (before ! f)) (ps ! to)"
  "d_pointer (compare_element ptr before after ps to) = element_pointer ptr to"
  "d_key (compare_element ptr before after ps to)
     = status_text (d_status (compare_element ptr before after ps to)) @ colon # element_pointer ptr to"
  by (auto simp: compare_element_def Let_def split: option.split)

lemma removed_element_fields [simp]:
  "d_status (removed_element ptr before f) = Removed" "d_before (removed_element ptr before f) = Some (jsonText (before ! f))"
  "d_key (removed_element ptr before f) = status_text Removed @ colon # element_pointer ptr f"
  by (simp_all add: removed_element_def)

lemma counted_entries_eq: "counted_entries es st = length (filter (\<lambda>e. d_status e = st) es)"
proof -
  have "fold (\<lambda>e counts. counts(d_status e := counts (d_status e) + 1)) es c st
      = c st + length (filter (\<lambda>e. d_status e = st) es)" for c :: "diff_status \<Rightarrow> nat"
    by (induction es arbitrary: c) auto
  then show ?thesis by (simp add: counted_entries_def)
qed

section \<open>The properties\<close>

text \<open>Two elements are paired exactly when they are counterparts: the only ones in their arrays with their
  id, or, without an id, at the same place among the elements without one; every other element of the draft
  is dropped.\<close>

theorem matchElements_pairs:
  assumes "to < length after"
  shows "(pairs (matchElements before after) ! to = Some f \<longleftrightarrow> f < length before \<and> counterpart before after f to)
    \<and> (f \<in> set (dropped (matchElements before after))
         \<longleftrightarrow> f < length before \<and> Some f \<notin> set (pairs (matchElements before after)))"
proof
  show "pairs (matchElements before after) ! to = Some f \<longleftrightarrow> f < length before \<and> counterpart before after f to"
    by (rule pairs_nth [OF assms])
  show "f \<in> set (dropped (matchElements before after))
      \<longleftrightarrow> f < length before \<and> Some f \<notin> set (pairs (matchElements before after))"
    using pairs_nth [of _ after before f] by (auto simp: dropped_eq in_set_conv_nth)
qed

definition sample_before :: "jval list" where
  "sample_before = [JObj [(js ''id'', JStr (js ''r''))], JNull, JObj [(js ''id'', JStr (js ''s''))]]"

definition sample_after :: "jval list" where
  "sample_after = [JBool True, JObj [(js ''id'', JStr (js ''s'')), (js ''on'', JBool True)], JNull]"

theorem matchElements_pairs_witness:
  "pairs (matchElements sample_before sample_after) ! 1 = Some 2 \<and> 2 \<notin> set (dropped (matchElements sample_before sample_after))"
proof -
  have l: "(1::nat) < length sample_after" by (simp add: sample_after_def)
  have "counterpart sample_before sample_after 2 1"
    by (auto simp: counterpart_def only_def sample_before_def sample_after_def idOf_def less_Suc_eq numeral_2_eq_2)
  moreover have "(2::nat) < length sample_before" by (simp add: sample_before_def)
  ultimately have p: "pairs (matchElements sample_before sample_after) ! 1 = Some 2"
    using matchElements_pairs [OF l, of sample_before 2] by blast
  then have "Some 2 \<in> set (pairs (matchElements sample_before sample_after))" using l by (metis length_pairs nth_mem)
  then show ?thesis using p matchElements_pairs [OF l, of sample_before 2] by blast
qed

text \<open>The rows of an array account for both arrays: in order, those that are not removals show every element
  of the proposal; those that are not additions show every element of the draft once; no two have one key.\<close>

theorem compareElements_accounts:
  "map d_after (filter (\<lambda>e. d_status e \<noteq> Removed) (compareElements ptr before after)) = map (\<lambda>v. Some (jsonText v)) after
   \<and> mset (map d_before (filter (\<lambda>e. d_status e \<noteq> Added) (compareElements ptr before after)))
       = mset (map (\<lambda>v. Some (jsonText v)) before)
   \<and> distinct (map d_key (compareElements ptr before after))"
proof (intro conjI)
  let ?ps = "pairs (matchElements before after)" and ?dr = "dropped (matchElements before after)"
  let ?row = "compare_element ptr before after ?ps" and ?gone = "removed_element ptr before"
  have es: "compareElements ptr before after = map ?row [0..<length after] @ map ?gone ?dr"
    by (simp add: compareElements_def Let_def)
  have "filter (\<lambda>e. d_status e \<noteq> Removed) (map ?row [0..<length after]) = map ?row [0..<length after]"
    by (rule filter_True) (auto simp: compare_element_fields(2))
  moreover have "filter (\<lambda>e. d_status e \<noteq> Removed) (map ?gone ?dr) = []" by (rule filter_False) auto
  ultimately show "map d_after (filter (\<lambda>e. d_status e \<noteq> Removed) (compareElements ptr before after)) = map (\<lambda>v. Some (jsonText v)) after"
    unfolding es filter_append by (intro nth_equalityI) (simp_all add: compare_element_fields(1))
  have rows: "map d_before (filter (\<lambda>e. d_status e \<noteq> Added) (map ?row [0..<length after]))
      = map (\<lambda>f. Some (jsonText (before ! f))) (lined_up before after)"
  proof -
    have "map d_before (filter (\<lambda>e. d_status e \<noteq> Added) (map ?row [0..<length after]))
        = map (\<lambda>p. map_option (\<lambda>f. jsonText (before ! f)) p) (filter (\<lambda>p. p \<noteq> None) (map (\<lambda>to. ?ps ! to) [0..<length after]))"
      by (simp add: filter_map o_def compare_element_fields)
    also have "map (\<lambda>to. ?ps ! to) [0..<length after] = ?ps" using map_nth [of ?ps] by simp
    finally show ?thesis by (auto simp: lined_up_def)
  qed
  have "mset (map d_before (filter (\<lambda>e. d_status e \<noteq> Added) (compareElements ptr before after)))
      = mset (map (\<lambda>f. Some (jsonText (before ! f))) (lined_up before after)) + mset (map (\<lambda>f. Some (jsonText (before ! f))) ?dr)"
    unfolding es by (simp only: filter_append map_append rows mset_append) (simp add: filter_map o_def)
  also have "\<dots> = image_mset (\<lambda>f. Some (jsonText (before ! f))) (mset (lined_up before after) + mset ?dr)" by simp
  also have "\<dots> = mset (map (\<lambda>f. Some (jsonText (before ! f))) [0..<length before])"
    unfolding paired_or_dropped by (rule mset_map [symmetric])
  also have "map (\<lambda>f. Some (jsonText (before ! f))) [0..<length before] = map (\<lambda>v. Some (jsonText v)) before"
    by (intro nth_equalityI) simp_all
  finally show "mset (map d_before (filter (\<lambda>e. d_status e \<noteq> Added) (compareElements ptr before after)))
      = mset (map (\<lambda>v. Some (jsonText v)) before)" .
  have "distinct (map (\<lambda>to. d_key (?row to)) [0..<length after])"
    by (auto simp: distinct_map inj_on_def compare_element_fields(6))
  moreover have "distinct (map (\<lambda>f. d_key (?gone f)) ?dr)" by (auto simp: distinct_map inj_on_def dropped_eq)
  moreover have "d_key (?row to) \<noteq> d_key (?gone f)" for to f
    using compare_element_fields(2) [of ptr before after ?ps to] by (simp add: compare_element_fields(6))
  ultimately show "distinct (map d_key (compareElements ptr before after))" unfolding es by (auto simp: o_def)
qed

definition member_status :: "jval option \<Rightarrow> jval option \<Rightarrow> diff_status" where
  "member_status b a =
     (case b of
        None \<Rightarrow> Added
      | Some v \<Rightarrow> (case a of None \<Rightarrow> Removed | Some w \<Rightarrow> if sameValue v w then Unchanged else Changed))"

text \<open>C22: Compared with a draft, a proposed object is reported member by member: each name of either document
  has one row, in the proposal's order and then the draft's, with both values as they are and the status they
  give it; the counts are those of the rows.\<close>

theorem diffProposal_reports:
  fixes ms :: "(jstr \<times> jval) list"
  assumes "readDraft bytes = Inr draft"
  defines "es \<equiv> entries (diffProposal bytes (JObj ms))"
  shows "map d_label es = own_keys ms @ filter (\<lambda>n. n \<notin> fst ` set ms) (own_keys draft)
   \<and> (\<forall>e \<in> set es. d_pointer e = pointer [d_label e]
        \<and> d_before e = map_option jsonText (map_of draft (d_label e))
        \<and> d_after e = map_option jsonText (map_of ms (d_label e))
        \<and> d_status e = member_status (map_of draft (d_label e)) (map_of ms (d_label e)))
   \<and> counts (diffProposal bytes (JObj ms)) st = length (filter (\<lambda>e. d_status e = st) es)"
proof (intro conjI)
  have es: "es = map (compare_member draft ms) (own_keys ms)
      @ map (removed_member draft) (filter (\<lambda>n. map_of ms n = None) (own_keys draft))"
    using assms(1) by (simp add: es_def diffProposal_def compare_objects_def Let_def)
  have absent: "map_of ms n = None \<longleftrightarrow> n \<notin> fst ` set ms" for n by (simp add: map_of_eq_None_iff)
  have row: "d_label (compare_member draft ms n) = n" "d_pointer (compare_member draft ms n) = pointer [n]" for n
    by (auto simp: compare_member_def added_member_def Let_def split: option.split)
  have gone: "d_label (removed_member draft n) = n" "d_pointer (removed_member draft n) = pointer [n]" for n
    by (simp_all add: removed_member_def)
  show "map d_label es = own_keys ms @ filter (\<lambda>n. n \<notin> fst ` set ms) (own_keys draft)"
    unfolding es by (simp add: row gone absent o_def)
  show "counts (diffProposal bytes (JObj ms)) st = length (filter (\<lambda>e. d_status e = st) es)"
    using assms(1) by (simp add: es_def diffProposal_def counted_entries_eq Let_def)
  show "\<forall>e \<in> set es. d_pointer e = pointer [d_label e]
        \<and> d_before e = map_option jsonText (map_of draft (d_label e))
        \<and> d_after e = map_option jsonText (map_of ms (d_label e))
        \<and> d_status e = member_status (map_of draft (d_label e)) (map_of ms (d_label e))"
  proof
    fix e assume "e \<in> set es"
    then consider n where "e = compare_member draft ms n" "n \<in> fst ` set ms"
      | n where "e = removed_member draft n" "n \<in> fst ` set draft" "map_of ms n = None"
      unfolding es by auto
    then show "d_pointer e = pointer [d_label e]
        \<and> d_before e = map_option jsonText (map_of draft (d_label e))
        \<and> d_after e = map_option jsonText (map_of ms (d_label e))
        \<and> d_status e = member_status (map_of draft (d_label e)) (map_of ms (d_label e))"
    proof cases
      case 1
      then obtain v where "map_of ms n = Some v" using absent [of n] by (cases "map_of ms n") auto
      then show ?thesis using row [of n]
        by (auto simp: 1(1) compare_member_def added_member_def member_status_def Let_def split: option.split)
    next
      case 2
      then obtain v where "map_of draft n = Some v" by (cases "map_of draft n") (auto simp: map_of_eq_None_iff)
      then show ?thesis using 2(3) gone [of n] by (simp add: 2(1) removed_member_def member_status_def)
    qed
  qed
qed

definition sample_draft :: jstr where
  "sample_draft = js ''{'' @ stringify_string (js ''a'') @ js '':true}''"

theorem diffProposal_reports_witness:
  "map d_status (entries (diffProposal (Some sample_draft) (JObj [(js ''b'', JNull)]))) = [Added, Removed]"
proof -
  have r: "readDraft (Some sample_draft) = Inr [(js ''a'', JBool True)]" by code_simp
  let ?es = "entries (diffProposal (Some sample_draft) (JObj [(js ''b'', JNull)]))"
  have k: "own_keys [(js ''b'', JNull)] @ filter (\<lambda>n. n \<notin> fst ` set [(js ''b'', JNull)]) (own_keys [(js ''a'', JBool True)])
      = [js ''b'', js ''a'']" by code_simp
  have l: "map d_label ?es = [js ''b'', js ''a'']"
    and s: "\<And>e. e \<in> set ?es \<Longrightarrow> d_status e = member_status (map_of [(js ''a'', JBool True)] (d_label e)) (map_of [(js ''b'', JNull)] (d_label e))"
    using diffProposal_reports [OF r, of "[(js ''b'', JNull)]"] k by auto
  obtain e e' where es: "?es = [e, e']" "d_label e = js ''b''" "d_label e' = js ''a''" using l by auto
  have "d_status e = Added" "d_status e' = Removed" using s [of e] s [of e'] es by (simp_all add: member_status_def)
  then show ?thesis using es by simp
qed

end
