(* ===== verification/Proposal_Accept.thy ===== *)
theory Proposal_Accept
  imports Proposal_Diff Writes
begin

text \<open>
  \<open>assistant/acceptProposal.ts\<close>: an accepted proposal as edits of the draft's text, made by the writers the form
  uses (\<open>Writes\<close>), and the question whether it may be accepted.  The reasons shown are constructors.
\<close>

section \<open>Bytes and indentation\<close>

definition endsWith_newline :: "jstr \<Rightarrow> bool" where
  "endsWith_newline src \<longleftrightarrow> src \<noteq> [] \<and> last src = 10"

text \<open>The function \<open>text\<close>.\<close>

definition laid_out :: "jval \<Rightarrow> jstr \<Rightarrow> jstr \<Rightarrow> jstr" where
  "laid_out v indent step =
     (let written = JSON_stringify step v
      in if indent = [] then written else join_with (10 # indent) (split_on 10 written))"

definition is_blank :: "code_unit \<Rightarrow> bool" where
  "is_blank c \<longleftrightarrow> c = 32 \<or> c = 9"

text \<open>\<open>indentAt\<close>: back to the line break in front of the offset, and then over blanks, at most to the offset.\<close>

definition indentAt :: "jstr \<Rightarrow> nat \<Rightarrow> jstr" where
  "indentAt src offset = takeWhile is_blank (rev (takeWhile (\<lambda>c. c \<noteq> 10) (rev (take offset src))))"

definition childIndent :: "buffer \<Rightarrow> jstr \<Rightarrow> jstr" where
  "childIndent current container =
     (let pre = container @ [slash] in
      case find (\<lambda>(ptr, sp). prefix pre ptr \<and> slash \<notin> set (drop (length pre) ptr)) (ix_spans (b_index current)) of
        None \<Rightarrow> []
      | Some (ptr, sp) \<Rightarrow> indentAt (b_text current) (memberStart sp))"

definition indentOf :: "buffer \<Rightarrow> jstr \<Rightarrow> jstr" where
  "indentOf current ptr =
     (case spanAt (b_index current) ptr of None \<Rightarrow> [] | Some sp \<Rightarrow> indentAt (b_text current) (memberStart sp))"

definition stepOf :: "buffer \<Rightarrow> jstr" where
  "stepOf current = (let first = childIndent current [] in if first = [] then js ''  '' else first)"

definition whole :: "buffer \<Rightarrow> jval \<Rightarrow> buffer" where
  "whole current proposed =
     (let tail = (if b_text current = [] \<or> endsWith_newline (b_text current) then [10] else [])
      in buffered (laid_out proposed [] (js ''  '') @ tail))"

definition isArrayAt :: "buffer \<Rightarrow> jstr \<Rightarrow> bool" where
  "isArrayAt current ptr =
     (case spanAt (b_index current) ptr of
        None \<Rightarrow> False
      | Some sp \<Rightarrow> char_at (b_text current) (valueStart sp) = Some open_bracket)"

text \<open>The backward loop of \<open>placeAfter\<close>, over the earlier names, nearest first.\<close>

fun nearest_before :: "document_index \<Rightarrow> jstr list \<Rightarrow> placement" where
  "nearest_before index [] = First"
| "nearest_before index (n # earlier) =
     (if spanAt index (pointer [n]) \<noteq> None then After (pointer [n]) else nearest_before index earlier)"

definition place_after :: "buffer \<Rightarrow> (jstr \<times> jval) list \<Rightarrow> jstr \<Rightarrow> placement" where
  "place_after current proposed name =
     (let names = own_keys proposed in
      case find_index (\<lambda>n. n = name) names of
        None \<Rightarrow> First
      | Some i \<Rightarrow> nearest_before (b_index current) (rev (take i names)))"

section \<open>One array\<close>

definition kept_pairs :: "nat option list \<Rightarrow> (nat \<times> nat) list" where
  "kept_pairs ps = fold (\<lambda>to kept. case ps ! to of None \<Rightarrow> kept | Some f \<Rightarrow> map_set f to kept) [0..<length ps] []"

definition remove_unkept :: "(nat \<Rightarrow> 'b \<Rightarrow> 'b) \<Rightarrow> (nat \<times> nat) list \<Rightarrow> nat \<Rightarrow> 'b \<Rightarrow> 'b" where
  "remove_unkept remove kept f b = (if map_of kept f \<noteq> None then b else remove f b)"

text \<open>\<open>order.indexOf(wanted[position], position)\<close>; where it is \<open>-1\<close> both splices work on the last place.\<close>

definition move_step ::
  "(int \<Rightarrow> int \<Rightarrow> 'b \<Rightarrow> 'b) \<Rightarrow> nat list \<Rightarrow> nat \<Rightarrow> nat list \<times> 'b \<Rightarrow> nat list \<times> 'b" where
  "move_step move wanted position s =
     (let (order, b) = s in
      if order ! position = wanted ! position then s
      else (case find_index (\<lambda>t. t = wanted ! position) (drop position order) of
              None \<Rightarrow> (splice_move (length order - 1) position order, move (- 1) (int position) b)
            | Some i \<Rightarrow> (splice_move (position + i) position order, move (int (position + i)) (int position) b)))"

definition rewrite_survivor ::
  "(nat \<Rightarrow> jval \<Rightarrow> 'b \<Rightarrow> 'b) \<Rightarrow> jval list \<Rightarrow> jval list \<Rightarrow> nat option list \<Rightarrow> nat list \<Rightarrow> nat \<Rightarrow> 'b \<Rightarrow> 'b" where
  "rewrite_survivor replace before after ps wanted position b =
     (let to = wanted ! position in
      if sameValue (before ! the (ps ! to)) (after ! to) then b else replace position (after ! to) b)"

definition add_new_at ::
  "(nat \<Rightarrow> jval \<Rightarrow> 'b \<Rightarrow> 'b) \<Rightarrow> jval list \<Rightarrow> nat option list \<Rightarrow> nat \<Rightarrow> 'b \<Rightarrow> 'b" where
  "add_new_at insert_at after ps to b = (if ps ! to \<noteq> None then b else insert_at to (after ! to) b)"

text \<open>The four loops of \<open>applyArray\<close>, over the writes they make, and the writes.\<close>

definition apply_elements ::
  "(nat \<Rightarrow> 'b \<Rightarrow> 'b) \<Rightarrow> (int \<Rightarrow> int \<Rightarrow> 'b \<Rightarrow> 'b) \<Rightarrow> (nat \<Rightarrow> jval \<Rightarrow> 'b \<Rightarrow> 'b) \<Rightarrow> (nat \<Rightarrow> jval \<Rightarrow> 'b \<Rightarrow> 'b)
     \<Rightarrow> jval list \<Rightarrow> jval list \<Rightarrow> 'b \<Rightarrow> 'b" where
  "apply_elements remove move replace insert_at before after b =
     (let ps = pairs (matchElements before after);
          kept = kept_pairs ps;
          b1 = fold (remove_unkept remove kept) (rev [0..<length before]) b;
          order = map (\<lambda>f. the (map_of kept f)) (sort (map fst kept));
          wanted = sort order;
          (order', b2) = fold (move_step move wanted) [0..<length wanted] (order, b1);
          b3 = fold (rewrite_survivor replace before after ps wanted) [0..<length wanted] b2
      in fold (add_new_at insert_at after ps) [0..<length after] b3)"

definition remove_element :: "jstr \<Rightarrow> nat \<Rightarrow> buffer \<Rightarrow> buffer" where
  "remove_element ptr i current = removeAt current (element_pointer ptr i)"

definition move_element :: "jstr \<Rightarrow> int \<Rightarrow> int \<Rightarrow> buffer \<Rightarrow> buffer" where
  "move_element ptr found position current = moveRule current ptr found position"

definition replace_element :: "jstr \<Rightarrow> jstr \<Rightarrow> nat \<Rightarrow> jval \<Rightarrow> buffer \<Rightarrow> buffer" where
  "replace_element ptr step i v current =
     (let p = element_pointer ptr i in setRawJson current p (laid_out v (indentOf current p) step))"

definition insert_element :: "jstr \<Rightarrow> jstr \<Rightarrow> nat \<Rightarrow> jval \<Rightarrow> buffer \<Rightarrow> buffer" where
  "insert_element ptr step to v current =
     (let placement = (if to = 0 then First else After (element_pointer ptr (to - 1)));
          neighbour = element_pointer ptr (if to = 0 then 0 else to - 1)
      in addElement current ptr (laid_out v (indentOf current neighbour) step) placement)"

definition applyArray :: "jstr \<Rightarrow> jval list \<Rightarrow> jval list \<Rightarrow> jstr \<Rightarrow> buffer \<Rightarrow> buffer" where
  "applyArray ptr before after step =
     apply_elements (remove_element ptr) (move_element ptr) (replace_element ptr step) (insert_element ptr step) before after"

section \<open>The whole proposal\<close>

definition drop_absent :: "(jstr \<times> jval) list \<Rightarrow> jstr \<Rightarrow> buffer \<Rightarrow> buffer" where
  "drop_absent proposed name current =
     (if map_of proposed name \<noteq> None then current else removeAt current (pointer [name]))"

definition write_changed :: "(jstr \<times> jval) list \<Rightarrow> (jstr \<times> jval) list \<Rightarrow> jstr \<Rightarrow> jstr \<Rightarrow> buffer \<Rightarrow> buffer" where
  "write_changed draft proposed step name current =
     (case map_of draft name of
        None \<Rightarrow> current
      | Some bef \<Rightarrow>
          (let ptr = pointer [name]; aft = the (map_of proposed name);
               overwritten = setRawJson current ptr (laid_out aft (indentOf current ptr) step)
           in if sameValue bef aft then current
              else (case (bef, aft) of
                      (JArr bs, JArr as) \<Rightarrow> if isArrayAt current ptr then applyArray ptr bs as step current else overwritten
                    | _ \<Rightarrow> overwritten)))"

definition add_missing :: "(jstr \<times> jval) list \<Rightarrow> (jstr \<times> jval) list \<Rightarrow> jstr \<Rightarrow> jstr \<Rightarrow> buffer \<Rightarrow> buffer" where
  "add_missing draft proposed step name current =
     (if map_of draft name \<noteq> None then current
      else addMember current [] name
             (laid_out (the (map_of proposed name)) (childIndent current []) step)
             (place_after current proposed name))"

definition apply_members :: "(jstr \<times> jval) list \<Rightarrow> (jstr \<times> jval) list \<Rightarrow> buffer \<Rightarrow> buffer" where
  "apply_members draft proposed current =
     (let step = stepOf current
      in fold (add_missing draft proposed step) (own_keys proposed)
           (fold (write_changed draft proposed step) (own_keys proposed)
             (fold (drop_absent proposed) (own_keys draft) current)))"

definition applyProposal :: "buffer \<Rightarrow> jval \<Rightarrow> buffer" where
  "applyProposal current proposed =
     (let readable = (ix_error (b_index current) = None \<and> agreesWithParse (b_text current) (b_index current) = []);
          draft = (if readable then ix_value (b_index current) else None);
          otherwise =
            (if \<not> readable \<or> spanAt (b_index current) [] = None then whole current proposed
             else setRawJson current [] (laid_out proposed [] (stepOf current)))
      in case (draft, proposed) of
           (Some (JObj dm), JObj pm) \<Rightarrow> apply_members dm pm current
         | _ \<Rightarrow> otherwise)"

section \<open>May it be accepted\<close>

definition writable :: "jval \<Rightarrow> bool" where
  "writable v = is_object v"

datatype disposition = Open | Accepted | Rejected

datatype accept_reason =
    OpenEditFirst | NoProposalYet | RunFailed jstr | StillRunning | WasRejected | AlreadyInDraft | DRAFT_MOVED
  | DraftBusy jstr | NotJsonData

record accept_input =
  a_editing :: bool
  a_proposal :: bool
  a_failure :: jstr
  a_running :: bool
  a_onBaseline :: bool
  a_busy :: jstr
  a_disposition :: disposition
  a_writable :: bool

text \<open>Enabled is \<^term>\<open>None\<close>: no reason why not.\<close>

definition acceptState :: "accept_input \<Rightarrow> accept_reason option" where
  "acceptState i =
     (if \<not> a_editing i then Some OpenEditFirst
      else if \<not> a_proposal i then Some NoProposalYet
      else if a_failure i \<noteq> [] then Some (RunFailed (a_failure i))
      else if a_running i then Some StillRunning
      else if a_disposition i = Rejected then Some WasRejected
      else if a_disposition i = Accepted then Some AlreadyInDraft
      else if \<not> a_onBaseline i then Some DRAFT_MOVED
      else if a_busy i \<noteq> [] then Some (DraftBusy (a_busy i))
      else if \<not> a_writable i then Some NotJsonData
      else None)"

end
