(* ===== verification/Accept_Arrays.thy ===== *)
theory Accept_Arrays
  imports Proposal_Facts Proposal_Accept
begin

text \<open>
  The loops of \<open>applyArray\<close> turn the draft's array into the proposal's, whatever the writes do beside keeping to
  their contract: the contract is the locale \<open>array_writes\<close>, and the writers of a form meet it.
\<close>

section \<open>Lists\<close>

lemma sorted_filter_upt: "sorted (filter Q [a..<b])"
  by (simp add: sorted_wrt_filter)

lemma sort_distinct_eq: "\<lbrakk>distinct xs; distinct ys; sorted ys; set xs = set ys\<rbrakk> \<Longrightarrow> sort xs = ys"
  by (rule sorted_distinct_set_unique) simp_all

lemma splice_move_map: "f < length xs \<Longrightarrow> splice_move f t (map g xs) = map g (splice_move f t xs)"
  by (simp add: splice_move_def Let_def take_map drop_map)

lemma moved_length: "f < length xs \<Longrightarrow> length (splice_move f t xs) = length xs"
  using mset_splice_move [of f xs t] by (metis size_mset)

lemma splice_move_front:
  "\<lbrakk>t \<le> f; f < length xs\<rbrakk> \<Longrightarrow> take t (splice_move f t xs) = take t xs \<and> splice_move f t xs ! t = xs ! f"
  by (simp add: splice_move_def Let_def nth_append)

section \<open>What is kept\<close>

lemma kept_pairs_map:
  assumes inj: "\<And>i j. \<lbrakk>i < length ps; j < length ps; ps ! i = ps ! j; ps ! i \<noteq> None\<rbrakk> \<Longrightarrow> i = j"
  shows "map_of (kept_pairs ps) f = Some to \<longleftrightarrow> to < length ps \<and> ps ! to = Some f"
    and "distinct (map fst (kept_pairs ps))"
proof -
  let ?step = "\<lambda>to kept. case ps ! to of None \<Rightarrow> kept | Some f \<Rightarrow> map_set f to kept"
  have "(map_of (fold ?step [0..<n] []) f = Some to \<longleftrightarrow> to < n \<and> ps ! to = Some f) \<and> distinct (map fst (fold ?step [0..<n] []))"
    if "n \<le> length ps" for n f to
    using that
  proof (induction n arbitrary: f to)
    case (Suc n)
    show ?case
    proof (cases "ps ! n")
      case None
      then show ?thesis using Suc by (auto simp: less_Suc_eq)
    next
      case (Some g)
      have "to = n" if "ps ! to = Some g" "to < Suc n" for to using inj [of to n] that Some Suc.prems by simp
      then show ?thesis using Suc Some by (auto simp: map_of_map_set distinct_map_set less_Suc_eq)
    qed
  qed simp
  from this [of "length ps"] show "map_of (kept_pairs ps) f = Some to \<longleftrightarrow> to < length ps \<and> ps ! to = Some f"
    and "distinct (map fst (kept_pairs ps))" by (simp_all add: kept_pairs_def)
qed

lemma matched_inj:
  "\<lbrakk>i < length (pairs (matchElements before after)); j < length (pairs (matchElements before after));
    pairs (matchElements before after) ! i = pairs (matchElements before after) ! j;
    pairs (matchElements before after) ! i \<noteq> None\<rbrakk> \<Longrightarrow> i = j"
proof -
  let ?ps = "pairs (matchElements before after)"
  assume a: "i < length ?ps" "j < length ?ps" "?ps ! i = ?ps ! j" "?ps ! i \<noteq> None"
  obtain f where "?ps ! i = Some f" "?ps ! j = Some f" using a(3,4) by auto
  then have "counterpart before after f i" "counterpart before after f j" using a(1,2) pairs_nth by auto
  then show "i = j" using counterpart_inj a(1,2) by simp
qed

section \<open>The contract\<close>

text \<open>
  \<open>holds b xs\<close>: the state \<open>b\<close> holds the array \<open>xs\<close>.  What the four writes promise of it, on values that are
  written so that they read back.
\<close>

locale array_writes =
  fixes holds :: "'b \<Rightarrow> jval list \<Rightarrow> bool"
    and remove :: "nat \<Rightarrow> 'b \<Rightarrow> 'b"
    and move :: "int \<Rightarrow> int \<Rightarrow> 'b \<Rightarrow> 'b"
    and replace :: "nat \<Rightarrow> jval \<Rightarrow> 'b \<Rightarrow> 'b"
    and insert_at :: "nat \<Rightarrow> jval \<Rightarrow> 'b \<Rightarrow> 'b"
    and faithful :: "jval \<Rightarrow> bool"
  assumes holds_remove: "\<lbrakk>holds b xs; i < length xs\<rbrakk> \<Longrightarrow> holds (remove i b) (take i xs @ drop (Suc i) xs)"
    and holds_move: "\<lbrakk>holds b xs; i < length xs; j < length xs; i \<noteq> j\<rbrakk>
      \<Longrightarrow> holds (move (int i) (int j) b) (splice_move i j xs)"
    and holds_replace: "\<lbrakk>holds b xs; i < length xs; faithful v\<rbrakk> \<Longrightarrow> holds (replace i v b) (xs[i := v])"
    and holds_insert: "\<lbrakk>holds b xs; i \<le> length xs; faithful v\<rbrakk> \<Longrightarrow> holds (insert_at i v b) (take i xs @ v # drop i xs)"
    and same_value: "\<lbrakk>faithful v; faithful w; sameValue v w\<rbrakk> \<Longrightarrow> v = w"
begin

lemma removals:
  assumes "holds b before" "m \<le> length before"
  shows "holds (fold (remove_unkept remove kept) (rev [m..<length before]) b)
    (take m before @ map (\<lambda>f. before ! f) (filter (\<lambda>f. map_of kept f \<noteq> None) [m..<length before]))"
  using assms(2)
proof (induction "length before - m" arbitrary: m)
  case 0
  then show ?case using assms(1) by simp
next
  case (Suc d)
  then have m: "m < length before" by simp
  let ?xs = "take (Suc m) before @ map (\<lambda>f. before ! f) (filter (\<lambda>f. map_of kept f \<noteq> None) [Suc m..<length before])"
  let ?b = "fold (remove_unkept remove kept) (rev [Suc m..<length before]) b"
  have ih: "holds ?b ?xs" using Suc m by simp
  have u: "[m..<length before] = m # [Suc m..<length before]" using m by (rule upt_conv_Cons)
  have t: "take (Suc m) before = take m before @ [before ! m]" using m by (rule take_Suc_conv_app_nth)
  show ?case
  proof (cases "map_of kept m")
    case None
    have "holds (remove m ?b) (take m ?xs @ drop (Suc m) ?xs)" by (rule holds_remove [OF ih]) (use m in simp)
    moreover have "take m ?xs = take m before" "drop (Suc m) ?xs = map (\<lambda>f. before ! f) (filter (\<lambda>f. map_of kept f \<noteq> None) [Suc m..<length before])"
      using m by simp_all
    ultimately show ?thesis using None by (simp only: u) (simp add: remove_unkept_def)
  next
    case (Some k)
    then show ?thesis using ih unfolding t by (simp only: u) (simp add: remove_unkept_def)
  qed
qed

text \<open>The moves sort the labels, and the elements with them.\<close>

lemma moves:
  assumes b: "holds b (map g order)" and w: "mset wanted = mset order" and n: "n \<le> length wanted"
  defines "s \<equiv> fold (move_step move wanted) [0..<n] (order, b)"
  shows "holds (snd s) (map g (fst s)) \<and> mset (fst s) = mset order \<and> take n (fst s) = take n wanted"
  unfolding s_def using n
proof (induction n)
  case 0
  then show ?case using b by simp
next
  case (Suc n)
  let ?s = "fold (move_step move wanted) [0..<n] (order, b)"
  obtain o' b' where s: "?s = (o', b')" by (cases ?s)
  have ih: "holds b' (map g o')" "mset o' = mset order" "take n o' = take n wanted" using Suc s by simp_all
  have len: "length o' = length wanted" using ih(2) w by (metis size_mset)
  have n: "n < length o'" "n < length wanted" using Suc.prems len by simp_all
  have step: "fold (move_step move wanted) [0..<Suc n] (order, b) = move_step move wanted n (o', b')" by (simp add: s)
  show ?case
  proof (cases "o' ! n = wanted ! n")
    case True
    then show ?thesis unfolding step using ih n by (simp add: move_step_def take_Suc_conv_app_nth)
  next
    case False
    have "mset (take n o') + mset (drop n o') = mset (take n wanted) + mset (drop n wanted)"
      using ih(2) w by (metis append_take_drop_id mset_append)
    then have rest: "mset (drop n o') = mset (drop n wanted)" using ih(3) by simp
    have "wanted ! n \<in> set (drop n wanted)" using n(2) by (metis Cons_nth_drop_Suc list.set_intros(1))
    then have "wanted ! n \<in> set (drop n o')" using rest by (metis mset_eq_setD)
    then obtain i where i: "find_index (\<lambda>t. t = wanted ! n) (drop n o') = Some i"
      using find_index_None [of "\<lambda>t. t = wanted ! n" "drop n o'"]
      by (cases "find_index (\<lambda>t. t = wanted ! n) (drop n o')") auto
    then have at_i: "n + i < length o'" "o' ! (n + i) = wanted ! n" using find_index_Some [OF i] by auto
    have "i \<noteq> 0" using at_i(2) False by (cases i) auto
    let ?o = "splice_move (n + i) n o'"
    have "holds (move (int (n + i)) (int n) b') (splice_move (n + i) n (map g o'))"
      by (rule holds_move [OF ih(1)]) (use at_i n \<open>i \<noteq> 0\<close> in simp_all)
    then have "holds (move (int (n + i)) (int n) b') (map g ?o)" using at_i(1) by (simp add: splice_move_map)
    moreover have "mset ?o = mset order" using mset_splice_move [OF at_i(1)] ih(2) by simp
    moreover have "take (Suc n) ?o = take (Suc n) wanted"
    proof -
      have "n < length ?o" using moved_length [OF at_i(1), of n] n by simp
      then show ?thesis using splice_move_front [of n "n + i" o'] at_i ih(3) n by (simp add: take_Suc_conv_app_nth)
    qed
    ultimately show ?thesis unfolding step using False i by (simp add: move_step_def)
  qed
qed

lemma rewritten:
  assumes b: "holds b (map (\<lambda>to. before ! the (ps ! to)) wanted)" and n: "n \<le> length wanted"
    and f: "\<And>to. to \<in> set wanted \<Longrightarrow> faithful (after ! to) \<and> faithful (before ! the (ps ! to))"
  shows "holds (fold (rewrite_survivor replace before after ps wanted) [0..<n] b)
    (map (\<lambda>to. after ! to) (take n wanted) @ map (\<lambda>to. before ! the (ps ! to)) (drop n wanted))"
  using n
proof (induction n)
  case 0
  then show ?case using b by simp
next
  case (Suc n)
  let ?g = "\<lambda>to. before ! the (ps ! to)"
  let ?b = "fold (rewrite_survivor replace before after ps wanted) [0..<n] b"
  let ?xs = "map (\<lambda>to. after ! to) (take n wanted) @ map ?g (drop n wanted)"
  have ih: "holds ?b ?xs" using Suc by simp
  have n: "n < length wanted" using Suc.prems by simp
  have d: "drop n wanted = wanted ! n # drop (Suc n) wanted" using n by (rule Cons_nth_drop_Suc [symmetric])
  have t: "take (Suc n) wanted = take n wanted @ [wanted ! n]" using n by (rule take_Suc_conv_app_nth)
  have w: "wanted ! n \<in> set wanted" using n by simp
  have step: "fold (rewrite_survivor replace before after ps wanted) [0..<Suc n] b = rewrite_survivor replace before after ps wanted n ?b"
    by simp
  show ?case
  proof (cases "sameValue (?g (wanted ! n)) (after ! (wanted ! n))")
    case True
    then have "?g (wanted ! n) = after ! (wanted ! n)" using f [OF w] same_value by blast
    then have "?xs = map (\<lambda>to. after ! to) (take (Suc n) wanted) @ map ?g (drop (Suc n) wanted)" unfolding t d by simp
    then show ?thesis using ih True unfolding step by (simp only: rewrite_survivor_def Let_def if_True)
  next
    case False
    have "holds (replace n (after ! (wanted ! n)) ?b) (?xs[n := after ! (wanted ! n)])"
      by (rule holds_replace [OF ih]) (use n f [OF w] in simp_all)
    moreover have "?xs[n := after ! (wanted ! n)] = map (\<lambda>to. after ! to) (take (Suc n) wanted) @ map ?g (drop (Suc n) wanted)"
      unfolding t d using n by (simp add: list_update_append)
    ultimately show ?thesis using False unfolding step by (simp only: rewrite_survivor_def Let_def if_False)
  qed
qed

lemma additions:
  assumes w: "wanted = filter (\<lambda>to. ps ! to \<noteq> None) [0..<length after]" and b: "holds b (map (\<lambda>to. after ! to) wanted)"
    and f: "\<And>v. v \<in> set after \<Longrightarrow> faithful v" and n: "n \<le> length after"
  shows "holds (fold (add_new_at insert_at after ps) [0..<n] b)
    (map (\<lambda>to. after ! to) ([0..<n] @ filter (\<lambda>to. ps ! to \<noteq> None) [n..<length after]))"
  using n
proof (induction n)
  case 0
  then show ?case using b w by simp
next
  case (Suc n)
  let ?b = "fold (add_new_at insert_at after ps) [0..<n] b"
  let ?rest = "\<lambda>n. map (\<lambda>to. after ! to) (filter (\<lambda>to. ps ! to \<noteq> None) [n..<length after])"
  let ?xs = "map (\<lambda>to. after ! to) [0..<n] @ ?rest n"
  have ih: "holds ?b ?xs" using Suc by simp
  have n: "n < length after" using Suc.prems by simp
  have u: "[n..<length after] = n # [Suc n..<length after]" using n by (rule upt_conv_Cons)
  have step: "fold (add_new_at insert_at after ps) [0..<Suc n] b = add_new_at insert_at after ps n ?b" by simp
  have all: "map (\<lambda>to. after ! to) ([0..<Suc n] @ filter (\<lambda>to. ps ! to \<noteq> None) [Suc n..<length after])
      = map (\<lambda>to. after ! to) [0..<Suc n] @ ?rest (Suc n)" by simp
  show ?case
  proof (cases "ps ! n")
    case None
    have "holds (insert_at n (after ! n) ?b) (take n ?xs @ after ! n # drop n ?xs)"
      by (rule holds_insert [OF ih]) (use f n in simp_all)
    moreover have "take n ?xs @ after ! n # drop n ?xs = map (\<lambda>to. after ! to) [0..<Suc n] @ ?rest (Suc n)"
      unfolding u using None by simp
    ultimately show ?thesis using None unfolding step all by (simp only: add_new_at_def not_True_eq_False if_False simp_thms)
  next
    case (Some g)
    have "?xs = map (\<lambda>to. after ! to) [0..<Suc n] @ ?rest (Suc n)" unfolding u using Some by simp
    moreover have "add_new_at insert_at after ps n ?b = ?b" using Some by (simp add: add_new_at_def)
    ultimately show ?thesis using ih unfolding step all by simp
  qed
qed

text \<open>All four loops: the array is the proposal's.\<close>

lemma holds_proposal:
  assumes b: "holds b before" and f: "\<And>v. v \<in> set before \<union> set after \<Longrightarrow> faithful v"
  shows "holds (apply_elements remove move replace insert_at before after b) after"
proof -
  define ps where "ps = pairs (matchElements before after)"
  define kept where "kept = kept_pairs ps"
  have len: "length ps = length after" by (simp add: ps_def)
  have inj: "i = j" if "i < length ps" "j < length ps" "ps ! i = ps ! j" "ps ! i \<noteq> None" for i j
    using matched_inj that unfolding ps_def by blast
  have k1: "map_of kept f = Some to \<longleftrightarrow> to < length ps \<and> ps ! to = Some f" for f to
    unfolding kept_def by (rule kept_pairs_map(1)) (rule inj)
  have k2: "distinct (map fst kept)" unfolding kept_def by (rule kept_pairs_map(2)) (rule inj)
  have bound: "f < length before" if "map_of kept f = Some to" for f to
    using k1 [of f to] that pairs_nth [of to after before f] len by (simp add: ps_def)
  let ?kept = "filter (\<lambda>f. map_of kept f \<noteq> None) [0..<length before]"
  have keys: "sort (map fst kept) = ?kept"
  proof (rule sort_distinct_eq)
    have "f \<in> set (map fst kept) \<longleftrightarrow> map_of kept f \<noteq> None" for f by (simp add: map_of_eq_None_iff)
    then show "set (map fst kept) = set ?kept" using bound by auto
  qed (simp_all add: k2 sorted_filter_upt)
  let ?g = "\<lambda>to. before ! the (ps ! to)"
  define order where "order = map (\<lambda>f. the (map_of kept f)) ?kept"
  let ?wanted = "filter (\<lambda>to. ps ! to \<noteq> None) [0..<length after]"
  have unsorted: "map ?g order = map (\<lambda>f. before ! f) ?kept"
  proof -
    have "before ! the (ps ! the (map_of kept f)) = before ! f" if kept_f: "f \<in> set ?kept" for f
    proof -
      obtain to where "map_of kept f = Some to" using kept_f by auto
      then show ?thesis using k1 [of f to] by simp
    qed
    then show ?thesis by (simp add: order_def)
  qed
  have d: "distinct order"
    unfolding order_def
  proof (subst distinct_map, intro conjI inj_onI)
    fix x y assume "x \<in> set ?kept" "y \<in> set ?kept" "the (map_of kept x) = the (map_of kept y)"
    then obtain to where "map_of kept x = Some to" "map_of kept y = Some to" by auto
    then show "x = y" using k1 [of x to] k1 [of y to] by simp
  qed simp
  have "set order = set ?wanted"
  proof (intro equalityI subsetI)
    fix to assume "to \<in> set order"
    then obtain f where f: "to = the (map_of kept f)" "map_of kept f \<noteq> None" by (auto simp: order_def)
    then show "to \<in> set ?wanted" using k1 [of f to] len by auto
  next
    fix to assume "to \<in> set ?wanted"
    then obtain f where f: "map_of kept f = Some to" using k1 [of _ to] len by auto
    then show "to \<in> set order" using bound [OF f] by (auto simp: order_def intro!: image_eqI [of _ _ f])
  qed
  then have wanted: "sort order = ?wanted" using d by (intro sort_distinct_eq) (simp_all add: sorted_filter_upt)
  let ?b1 = "fold (remove_unkept remove kept) (rev [0..<length before]) b"
  have b1: "holds ?b1 (map ?g order)" using removals [OF b, of 0 kept] unsorted by simp
  let ?s = "fold (move_step move (sort order)) [0..<length (sort order)] (order, ?b1)"
  obtain o' b2 where s: "?s = (o', b2)" by (cases ?s)
  have "holds b2 (map ?g o')" "mset o' = mset order" "take (length (sort order)) o' = sort order"
    using moves [OF b1, of "sort order" "length (sort order)"] s by simp_all
  moreover from this have "o' = sort order" by (metis length_sort size_mset take_all_iff order_refl)
  ultimately have b2: "holds b2 (map ?g (sort order))" by simp
  let ?b3 = "fold (rewrite_survivor replace before after ps (sort order)) [0..<length (sort order)] b2"
  have "faithful (after ! to) \<and> faithful (?g to)" if to: "to \<in> set (sort order)" for to
  proof -
    obtain g where "ps ! to = Some g" "to < length after" using to wanted by auto
    then show ?thesis using f pairs_nth [of to after before g] by (auto simp: ps_def)
  qed
  then have b3: "holds ?b3 (map (\<lambda>to. after ! to) ?wanted)"
    using rewritten [OF b2, of "length (sort order)" after] wanted by simp
  have "holds (fold (add_new_at insert_at after ps) [0..<length after] ?b3) (map (\<lambda>to. after ! to) [0..<length after])"
    using additions [OF refl b3, of "length after"] f by simp
  moreover have "apply_elements remove move replace insert_at before after b = fold (add_new_at insert_at after ps) [0..<length after] ?b3"
    unfolding apply_elements_def Let_def ps_def [symmetric] kept_def [symmetric] keys order_def [symmetric] s prod.case by (rule refl)
  ultimately show ?thesis by (simp add: map_nth)
qed

end

end
