(* ===== verification/Accept_Facts.thy ===== *)
theory Accept_Facts
  imports Accept_Arrays Document_Layout
begin

text \<open>
  Accepting a proposal leaves a text that reads as the proposal.  The form's writers are an instance of
  \<open>array_writes\<close>; the members of the document are dropped, rewritten and added around that.
\<close>

section \<open>What is written reads back\<close>

lemma ws_indentAt: "ws (indentAt src k)"
  by (auto simp: indentAt_def ws_def list_all_iff is_blank_def isSpace_def dest!: set_takeWhileD)

lemma ws_childIndent: "ws (childIndent b c)"
  by (auto simp: childIndent_def Let_def ws_indentAt split: option.split)

lemma ws_indentOf: "ws (indentOf b p)"
  by (auto simp: indentOf_def ws_indentAt split: option.split)

lemma ws_stepOf: "ws (stepOf b)"
  by (simp add: stepOf_def Let_def ws_childIndent isSpace_def)

lemma reads_value_bytes:
  assumes "stable v" "ws step" "ws indent"
  shows "reads (laid_out v indent step) v"
proof -
  have "ws (take 10 step)" using assms(2) by (auto simp: ws_def list_all_iff dest: in_set_takeD)
  then have r: "reads (JSON_stringify step v) v" using assms(1) by (simp add: JSON_stringify_def reads_stringify)
  then show ?thesis using reads_indented assms(3) by (simp add: laid_out_def Let_def)
qed

lemma reads_unique: "\<lbrakk>reads src v; reads src w\<rbrakk> \<Longrightarrow> v = w"
  by (simp add: reads_def)

lemma reads_trailing: "\<lbrakk>reads src v; ws w\<rbrakk> \<Longrightarrow> reads (src @ w) v"
proof -
  assume r: "reads src v" and w: "ws w"
  obtain e where e: "src = render_element e" "document e" "v = tree_element e" using r by (rule reads_cases)
  obtain l c t where x: "e = Element l c t" by (cases e)
  have "document (Element l c (t @ w))" using e(2) w by (simp add: document_def x)
  from reads_document [OF this] show "reads (src @ w) v" using e by (simp add: x)
qed

lemma same_stable: "\<lbrakk>stable v; stable w; sameValue v w\<rbrakk> \<Longrightarrow> v = w"
  using reads_JSON_stringify [of v] reads_JSON_stringify [of w] reads_unique by (auto simp: sameValue_def)

section \<open>Writing at one place twice\<close>

lemma update_at_comp: "update_at q f (update_at q g v) = update_at q (\<lambda>w. f (g w)) v"
proof (induction q arbitrary: v)
  case (Cons k ks)
  then show ?case by (auto split: jval.split option.split)
qed simp

lemma value_down_set: "value_down v0 q = Some u \<Longrightarrow> value_down (update_at q (\<lambda>_. w) v0) q = Some w"
  by (simp add: value_down_update_at)

lemma element_pointer_snoc: "element_pointer (pointer q) i = pointer (q @ [dec i])"
proof -
  have "escape_token (dec i) = dec i" by (rule escape_digits) (simp add: list_all_iff dec_digits)
  then show ?thesis by (simp add: element_pointer_def pointer_append)
qed

section \<open>The writers of the form\<close>

definition holds_array :: "jstr list \<Rightarrow> jval \<Rightarrow> jstr \<Rightarrow> buffer \<Rightarrow> jval list \<Rightarrow> bool" where
  "holds_array q v0 step b xs \<longleftrightarrow>
     in_step b \<and> reads (b_text b) (update_at q (\<lambda>_. JArr xs) v0) \<and> (\<exists>zs. value_down v0 q = Some (JArr zs)) \<and> ws step"

lemma holds_arrayD:
  assumes "holds_array q v0 step b xs"
  shows "in_step b" "reads (b_text b) (update_at q (\<lambda>_. JArr xs) v0)" "ws step"
    "value_down (update_at q (\<lambda>_. JArr xs) v0) q = Some (JArr xs)"
  using assms value_down_set by (auto simp: holds_array_def)

lemma holds_arrayI:
  assumes "holds_array q v0 step b xs" "in_step b'" "reads (b_text b') (update_at q f (update_at q (\<lambda>_. JArr xs) v0))"
    "f (JArr xs) = JArr ys"
  shows "holds_array q v0 step b' ys"
  using assms by (simp add: holds_array_def update_at_comp)

lemma step_into_dec: "i < length xs \<Longrightarrow> step_into (JArr xs) (dec i) = Some (xs ! i)"
  by (simp add: step_into_def)

interpretation form_arrays: array_writes "holds_array q v0 step" "remove_element (pointer q)" "move_element (pointer q)"
  "replace_element (pointer q) step" "insert_element (pointer q) step" stable for q v0 step
proof
  fix b xs and i :: nat
  assume h: "holds_array q v0 step b xs" and i: "i < length xs"
  note d = holds_arrayD [OF h]
  have "value_down (update_at q (\<lambda>_. JArr xs) v0) (q @ [dec i]) = Some (xs ! i)"
    using d(4) i by (simp add: value_down_append step_into_dec)
  then have "drop_value (q @ [dec i]) (update_at q (\<lambda>_. JArr xs) v0) = update_at q (drop_child (dec i)) (update_at q (\<lambda>_. JArr xs) v0)"
    by (simp add: drop_value_def)
  then show "holds_array q v0 step (remove_element (pointer q) i b) (take i xs @ drop (Suc i) xs)"
    using remove_reads [OF d(1,2), of "q @ [dec i]"]
    by (intro holds_arrayI [OF h, where f = "drop_child (dec i)"])
      (simp_all add: remove_element_def removeAt_def element_pointer_snoc del: pointer.simps)
next
  fix b xs and i j :: nat
  assume h: "holds_array q v0 step b xs" and i: "i < length xs" "j < length xs" "i \<noteq> j"
  note d = holds_arrayD [OF h]
  show "holds_array q v0 step (move_element (pointer q) (int i) (int j) b) (splice_move i j xs)"
    using edited_reads [OF d(2) edited_moveElement [OF d(2), of q "int i" "int j"]] d(1) i
    by (intro holds_arrayI [OF h, where f = "move_child (int i) (int j)"])
      (simp_all add: move_element_def moveRule_def in_step_def)
next
  fix b xs and i :: nat and v
  assume h: "holds_array q v0 step b xs" and i: "i < length xs" and v: "stable v"
  note d = holds_arrayD [OF h]
  let ?p = "pointer (q @ [dec i])" and ?v = "update_at q (\<lambda>_. JArr xs) v0"
  have bytes: "reads (laid_out v (indentOf b ?p) step) v" by (rule reads_value_bytes [OF v d(3) ws_indentOf])
  have "value_down ?v (q @ [dec i]) = Some (xs ! i)" using d(4) i by (simp add: value_down_append step_into_dec)
  then have "put_value (q @ [dec i]) v ?v = update_at q (update_at [dec i] (\<lambda>_. v)) ?v"
    by (simp add: put_value_def update_at_append del: update_at.simps)
  then have "reads (b_text (place_json b ?p (laid_out v (indentOf b ?p) step))) (update_at q (update_at [dec i] (\<lambda>_. v)) ?v)"
    using place_reads [OF d(1,2) bytes, of "q @ [dec i]"] by (simp del: pointer.simps update_at.simps)
  then show "holds_array q v0 step (replace_element (pointer q) step i v b) (xs[i := v])"
    using i in_step_place [OF d(1)]
    by (intro holds_arrayI [OF h, where f = "update_at [dec i] (\<lambda>_. v)"])
      (simp_all add: replace_element_def setRawJson_def element_pointer_snoc Let_def del: pointer.simps)
next
  fix b xs and i :: nat and v
  assume h: "holds_array q v0 step b xs" and i: "i \<le> length xs" and v: "stable v"
  note d = holds_arrayD [OF h]
  let ?v = "update_at q (\<lambda>_. JArr xs) v0"
  let ?pl = "if i = 0 then First else After (element_pointer (pointer q) (i - 1))"
  let ?n = "element_pointer (pointer q) (if i = 0 then 0 else i - 1)"
  have bytes: "reads (laid_out v (indentOf b ?n) step) v" by (rule reads_value_bytes [OF v d(3) ws_indentOf])
  have pl: "place q (child_keys (JArr xs)) ?pl = i"
  proof (cases i)
    case (Suc k)
    have "find_index (\<lambda>x. pointer (q @ [x]) = pointer (q @ [dec k])) (map dec [0..<length xs]) = Some k"
    proof -
      have "distinct (map dec [0..<length xs])" by (simp add: distinct_map inj_on_def)
      then have "find_index (\<lambda>x. id x = id (map dec [0..<length xs] ! k)) (map dec [0..<length xs]) = Some k"
        using i Suc by (intro find_index_distinct) simp_all
      then show ?thesis using i Suc by simp
    qed
    then show ?thesis using Suc by (simp add: place_def child_keys_def element_pointer_snoc del: pointer.simps)
  qed (simp add: place_def)
  have "reads (insertMember (b_text b) (indexDocument (b_text b)) (pointer q) None (laid_out v (indentOf b ?n) step) ?pl)
      (update_at q (\<lambda>w. insert_child (place q (child_keys w) ?pl) None v w) ?v)"
    by (rule edited_reads [OF d(2) edited_insertMember [OF d(2) bytes]]) simp
  then show "holds_array q v0 step (insert_element (pointer q) step i v b) (take i xs @ v # drop i xs)"
    using d(1) pl
    by (intro holds_arrayI [OF h, where f = "\<lambda>w. insert_child (place q (child_keys w) ?pl) None v w"])
      (simp_all add: insert_element_def addElement_def in_step_def Let_def del: pointer.simps)
next
  fix v w assume "stable v" "stable w" "sameValue v w"
  then show "v = w" by (rule same_stable)
qed

section \<open>The members\<close>

definition holds_object :: "buffer \<Rightarrow> (jstr \<times> jval) list \<Rightarrow> bool" where
  "holds_object b ms \<longleftrightarrow> in_step b \<and> reads (b_text b) (JObj ms)"

lemma holds_once: "holds_object b ms \<Longrightarrow> distinct (map fst ms)"
  using reads_once [of "b_text b" "JObj ms"] by (simp add: holds_object_def)

lemma holds_drop:
  assumes "holds_object b ms"
  shows "holds_object (drop_absent pm n b) (filter (\<lambda>m. \<not> (fst m = n \<and> map_of pm n = None)) ms)"
proof (cases "map_of pm n")
  case None
  have "reads (b_text (removeAt b (pointer [n]))) (drop_value [n] (JObj ms))"
    using remove_reads [of b "JObj ms" "[n]"] assms by (simp add: holds_object_def removeAt_def del: pointer.simps)
  moreover have "drop_value [n] (JObj ms) = JObj (filter (\<lambda>m. fst m \<noteq> n) ms)"
  proof (cases "map_of ms n")
    case None
    then have "filter (\<lambda>m. fst m \<noteq> n) ms = ms" by (auto simp: filter_id_conv map_of_eq_None_iff)
    then show ?thesis using None by (simp add: drop_value_def step_into_obj)
  next
    case (Some w)
    have "filter (\<lambda>(n', w). n' \<noteq> n) ms = filter (\<lambda>m. fst m \<noteq> n) ms" by (rule filter_cong) auto
    then show ?thesis using Some by (simp add: drop_value_def step_into_obj)
  qed
  ultimately show ?thesis using None by (simp add: holds_object_def drop_absent_def removeAt_def del: pointer.simps)
qed (use assms in \<open>simp add: drop_absent_def\<close>)

lemma holds_drops:
  "holds_object b ms \<Longrightarrow>
   holds_object (fold (drop_absent pm) ns b) (filter (\<lambda>m. \<not> (fst m \<in> set ns \<and> map_of pm (fst m) = None)) ms)"
proof (induction ns arbitrary: b ms)
  case (Cons n ns)
  have "filter (\<lambda>m. \<not> (fst m \<in> set ns \<and> map_of pm (fst m) = None)) (filter (\<lambda>m. \<not> (fst m = n \<and> map_of pm n = None)) ms)
      = filter (\<lambda>m. \<not> (fst m \<in> set (n # ns) \<and> map_of pm (fst m) = None)) ms"
    unfolding filter_filter by (rule filter_cong) auto
  then show ?case using Cons.IH [OF holds_drop [OF Cons.prems, of pm n]] by simp
qed simp

definition set_member :: "jstr \<Rightarrow> jval \<Rightarrow> (jstr \<times> jval) list \<Rightarrow> (jstr \<times> jval) list" where
  "set_member n v ms = map (\<lambda>(k, w). (k, if k = n then v else w)) ms"

lemma fst_set_member [simp]: "map fst (set_member n v ms) = map fst ms"
  by (auto simp: set_member_def)

lemma map_of_set_member:
  "map_of (set_member n v ms) k = (if k = n then map_option (\<lambda>_. v) (map_of ms n) else map_of ms k)"
  by (induction ms) (auto simp: set_member_def)

lemma update_at_member: "update_at [n] (\<lambda>_. v) (JObj ms) = JObj (set_member n v ms)"
  by (auto simp: set_member_def)

lemma set_member_same: "\<lbrakk>distinct (map fst ms); map_of ms n = Some v\<rbrakk> \<Longrightarrow> set_member n v ms = ms"
  unfolding set_member_def
proof (rule map_idI)
  fix x assume a: "distinct (map fst ms)" "map_of ms n = Some v" "x \<in> set ms"
  obtain k w where x: "x = (k, w)" by (cases x)
  then have "map_of ms k = Some w" using a(1,3) by simp
  then show "(case x of (k, w) \<Rightarrow> (k, if k = n then v else w)) = x" using a(2) x by auto
qed

lemma isArrayAt_array:
  assumes "holds_object b ms" "map_of ms n = Some (JArr xs)"
  shows "isArrayAt b (pointer [n])"
proof -
  have r: "reads (b_text b) (JObj ms)" and i: "b_index b = indexDocument (b_text b)" using assms(1) by (simp_all add: holds_object_def in_step_def)
  obtain e where e: "b_text b = render_element e" "document e" "JObj ms = tree_element e" "indexDocument (b_text b) = index_of e"
    using r by (rule reads_cases)
  have down: "value_down (JObj ms) [n] = Some (JArr xs)" using assms(2) by (simp add: step_into_obj)
  have "spanAt (indexDocument (b_text b)) (pointer [n]) \<noteq> None" using spanAt_declared [OF r, of "[n]"] down by simp
  then obtain sp where sp: "spanAt (indexDocument (b_text b)) (pointer [n]) = Some sp" by blast
  then obtain x where x: "slot_at e [n] = Some x"
    using spanAt_none [OF e(2), of "[n]"] e(4) by (cases "slot_at e [n]") auto
  have "tree_element x = JArr xs" using value_down_slot [of e "[n]"] e x down by (simp add: document_def)
  moreover have "document x" using document_slot_at [OF x e(2)] .
  ultimately obtain w es where t: "element_tree x = Arr w es"
    by (cases "element_tree x") (auto simp: leaf_value_def document_def tree_value_Obj uniq_element_iff split: if_splits)
  obtain PRE POST where "render_element e = PRE @ render (element_tree x) @ POST" "valueStart sp = length PRE"
    using container_span [OF e(2) x] sp e(4) by (metis option.inject)
  then have "char_at (b_text b) (valueStart sp) = Some open_bracket" using e(1) t by simp
  then show ?thesis using sp i by (simp add: isArrayAt_def del: pointer.simps)
qed

text \<open>One member that both documents have.\<close>

lemma holds_write:
  assumes h: "holds_object b ms" and m: "map_of dm n = Some bef" "map_of pm n = Some aft" "map_of ms n = Some bef"
    and s: "stable bef" "stable aft" "ws step"
  shows "holds_object (write_changed dm pm step n b) (set_member n aft ms)"
proof (cases "sameValue bef aft")
  case True
  then have "bef = aft" by (rule same_stable [OF s(1,2)])
  then show ?thesis using True h m set_member_same [OF holds_once [OF h]] by (simp add: write_changed_def)
next
  case False
  have d: "in_step b" "reads (b_text b) (JObj ms)" using h by (simp_all add: holds_object_def)
  let ?over = "setRawJson b (pointer [n]) (laid_out aft (indentOf b (pointer [n])) step)"
  have "reads (b_text ?over) (put_value [n] aft (JObj ms))"
    unfolding setRawJson_def by (rule place_reads [OF d reads_value_bytes [OF s(2,3) ws_indentOf]])
  moreover have "put_value [n] aft (JObj ms) = JObj (set_member n aft ms)"
    using m(3) update_at_member [of n aft ms] by (simp add: put_value_def step_into_obj)
  ultimately have over: "holds_object ?over (set_member n aft ms)"
    using in_step_place [OF d(1)] by (simp add: holds_object_def setRawJson_def del: pointer.simps)
  show ?thesis
  proof (cases "\<exists>bs as. bef = JArr bs \<and> aft = JArr as")
    case True
    then obtain bs as where a: "bef = JArr bs" "aft = JArr as" by blast
    have "update_at [n] (\<lambda>_. JArr bs) (JObj ms) = JObj ms"
      using set_member_same [OF holds_once [OF h]] m(3) a(1) unfolding update_at_member by simp
    then have "holds_array [n] (JObj ms) step b bs"
      using d m(3) a(1) s(3) by (simp add: holds_array_def step_into_obj)
    then have "holds_array [n] (JObj ms) step (applyArray (pointer [n]) bs as step b) as"
      unfolding applyArray_def by (rule form_arrays.holds_proposal) (use s a in \<open>auto simp: list_all_iff\<close>)
    then have "holds_object (applyArray (pointer [n]) bs as step b) (set_member n aft ms)"
      using a(2) unfolding holds_array_def holds_object_def update_at_member by simp
    then show ?thesis
      using False m a isArrayAt_array [OF h m(3) [unfolded a(1)]] by (simp add: write_changed_def del: pointer.simps)
  next
    case no_arrays: False
    have "write_changed dm pm step n b = ?over"
      using False m no_arrays by (auto simp: write_changed_def Let_def split: jval.split)
    then show ?thesis using over by simp
  qed
qed

lemma holds_writes:
  assumes h: "holds_object b ms" and d: "distinct ns" and s: "ws step"
    and m: "\<And>n. n \<in> set ns \<Longrightarrow> \<exists>v. map_of pm n = Some v \<and> stable v"
    and same: "\<And>n. n \<in> set ns \<Longrightarrow> map_of ms n = map_of dm n" and st: "\<And>n v. map_of dm n = Some v \<Longrightarrow> stable v"
  shows "holds_object (fold (write_changed dm pm step) ns b) (map (\<lambda>(k, w). (k, if k \<in> set ns then the (map_of pm k) else w)) ms)"
  using h d m same
proof (induction ns arbitrary: b ms)
  case Nil
  then show ?case by (simp add: map_idI split_beta)
next
  case (Cons n ns)
  obtain aft where aft: "map_of pm n = Some aft" "stable aft" using Cons.prems(3) by auto
  have step1: "holds_object (write_changed dm pm step n b) (set_member n aft ms)"
  proof (cases "map_of dm n")
    case None
    then have "map_of ms n = None" using Cons.prems(4) by simp
    then have "set_member n aft ms = ms"
      unfolding set_member_def by (intro map_idI) (auto simp: map_of_eq_None_iff image_iff)
    then show ?thesis using Cons.prems(1) None by (simp add: write_changed_def)
  next
    case (Some bef)
    then show ?thesis using holds_write [OF Cons.prems(1) Some aft(1) _ st [OF Some] aft(2) s] Cons.prems(4) by simp
  qed
  have "holds_object (fold (write_changed dm pm step) ns (write_changed dm pm step n b))
      (map (\<lambda>(k, w). (k, if k \<in> set ns then the (map_of pm k) else w)) (set_member n aft ms))"
    using Cons.prems by (intro Cons.IH [OF step1]) (auto simp: map_of_set_member)
  moreover have "map (\<lambda>(k, w). (k, if k \<in> set ns then the (map_of pm k) else w)) (set_member n aft ms)
      = map (\<lambda>(k, w). (k, if k \<in> set (n # ns) then the (map_of pm k) else w)) ms"
    using aft(1) by (auto simp: set_member_def)
  ultimately show ?case by simp
qed

lemma holds_add:
  assumes h: "holds_object b ms" and n: "n \<notin> fst ` set ms" "map_of dm n = None" "map_of pm n = Some v" "stable v" "ws step"
  shows "\<exists>ms'. holds_object (add_missing dm pm step n b) ms' \<and> mset ms' = add_mset (n, v) (mset ms)"
proof -
  have d: "in_step b" "reads (b_text b) (JObj ms)" using h by (simp_all add: holds_object_def)
  let ?j = "laid_out v (childIndent b []) step" and ?pl = "place_after b pm n"
  let ?i = "place [] (map fst ms) ?pl"
  have "reads (insertMember (b_text b) (indexDocument (b_text b)) (pointer []) (Some n) ?j ?pl)
      (update_at [] (\<lambda>w. insert_child (place [] (child_keys w) ?pl) (Some n) v w) (JObj ms))"
    using n(1) by (intro edited_reads [OF d(2)] edited_insertMember [OF d(2) reads_value_bytes [OF n(4,5) ws_childIndent]]) simp
  then have "reads (b_text (add_missing dm pm step n b)) (JObj (take ?i ms @ (n, v) # drop ?i ms))"
    using d(1) n(2,3) by (simp add: add_missing_def addMember_def in_step_def child_keys_def)
  moreover have "mset (take ?i ms @ (n, v) # drop ?i ms) = add_mset (n, v) (mset ms)"
    by (metis append_take_drop_id mset.simps(2) mset_append union_mset_add_mset_right)
  ultimately show ?thesis using n(2) by (auto simp: holds_object_def add_missing_def addMember_def)
qed

lemma holds_adds:
  assumes "holds_object b ms" "distinct ns" "ws step" "\<And>n. n \<in> set ns \<Longrightarrow> \<exists>v. map_of pm n = Some v \<and> stable v"
    "\<And>n. \<lbrakk>n \<in> set ns; map_of dm n = None\<rbrakk> \<Longrightarrow> n \<notin> fst ` set ms"
  shows "\<exists>ms'. holds_object (fold (add_missing dm pm step) ns b) ms'
    \<and> mset ms' = mset ms + mset (map (\<lambda>n. (n, the (map_of pm n))) (filter (\<lambda>n. map_of dm n = None) ns))"
  using assms
proof (induction ns arbitrary: b ms)
  case (Cons n ns)
  show ?case
  proof (cases "map_of dm n")
    case None
    obtain v where v: "map_of pm n = Some v" "stable v" using Cons.prems(4) by auto
    obtain ms1 where ms1: "holds_object (add_missing dm pm step n b) ms1" "mset ms1 = add_mset (n, v) (mset ms)"
      using holds_add [OF Cons.prems(1) _ None v Cons.prems(3)] Cons.prems(5) None by auto
    have keys: "fst ` set ms1 = insert n (fst ` set ms)"
    proof -
      have "set ms1 = insert (n, v) (set ms)" using ms1(2) by (metis set_mset_add_mset_insert set_mset_mset)
      then show ?thesis by simp
    qed
    obtain ms' where "holds_object (fold (add_missing dm pm step) ns (add_missing dm pm step n b)) ms'"
      "mset ms' = mset ms1 + mset (map (\<lambda>n. (n, the (map_of pm n))) (filter (\<lambda>n. map_of dm n = None) ns))"
    proof -
      have "m \<notin> fst ` set ms1" if "m \<in> set ns" "map_of dm m = None" for m
        using Cons.prems(2) Cons.prems(5) [of m] that keys by auto
      then have "\<exists>ms'. holds_object (fold (add_missing dm pm step) ns (add_missing dm pm step n b)) ms'
          \<and> mset ms' = mset ms1 + mset (map (\<lambda>n. (n, the (map_of pm n))) (filter (\<lambda>n. map_of dm n = None) ns))"
        using Cons.prems(2-4) by (intro Cons.IH [OF ms1(1)]) simp_all
      then show thesis using that by blast
    qed
    then show ?thesis using ms1(2) None v(1) by (intro exI [of _ ms']) simp
  next
    case (Some w)
    then have "add_missing dm pm step n b = b" by (simp add: add_missing_def)
    then show ?thesis using Cons.IH [OF Cons.prems(1)] Cons.prems(2-5) Some by simp
  qed
qed auto

section \<open>The properties\<close>

text \<open>One document up to the order of the members at its top.\<close>

definition same_document :: "jval \<Rightarrow> jval \<Rightarrow> bool" where
  "same_document v w \<longleftrightarrow> (case (v, w) of (JObj ms, JObj ns) \<Rightarrow> mset ms = mset ns | _ \<Rightarrow> v = w)"

lemma same_document_refl [simp]: "same_document v v"
  by (simp add: same_document_def split: jval.split)

lemma own_keys_stable: "stable (JObj ms) \<Longrightarrow> own_keys ms = map fst ms"
proof -
  assume "stable (JObj ms)"
  then have "list_all (\<lambda>k. \<not> array_index_name k) (map fst ms)" by (auto simp: list_all_iff)
  then have "filter array_index_name (map fst ms) = []" "filter (\<lambda>k. \<not> array_index_name k) (map fst ms) = map fst ms"
    by (auto simp: list_all_iff filter_empty_conv filter_id_conv)
  then show ?thesis by (simp add: own_keys_def Let_def)
qed

lemma stable_member: "\<lbrakk>stable (JObj ms); map_of ms n = Some v\<rbrakk> \<Longrightarrow> stable v"
  by (auto simp: list_all_iff dest!: map_of_SomeD)

lemma mset_keyed:
  assumes d: "distinct (map fst xs)" "distinct (map fst ys)" and k: "fst ` set xs = fst ` set ys"
    and m: "\<And>k. map_of xs k = map_of ys k"
  shows "mset xs = mset ys"
proof -
  have "set xs = set ys"
    using map_of_eq_Some_iff [OF d(1)] map_of_eq_Some_iff [OF d(2)] m by auto
  then show ?thesis using d by (simp add: set_eq_iff_mset_eq_distinct [symmetric] distinct_map)
qed

lemma apply_members_reads:
  assumes h: "holds_object b dm" and s: "stable (JObj dm)" "stable (JObj pm)"
  shows "\<exists>ms. holds_object (apply_members dm pm b) ms \<and> mset ms = mset pm"
proof -
  have dd: "distinct (map fst dm)" "distinct (map fst pm)" using s by simp_all
  have keys: "own_keys dm = map fst dm" "own_keys pm = map fst pm" using own_keys_stable s by simp_all
  have step: "ws (stepOf b)" by (rule ws_stepOf)
  have in_pm: "\<exists>v. map_of pm n = Some v \<and> stable v" if n: "n \<in> set (map fst pm)" for n
  proof -
    obtain v where "map_of pm n = Some v" using n by (cases "map_of pm n") (auto simp: map_of_eq_None_iff)
    then show ?thesis using stable_member [OF s(2)] by blast
  qed
  let ?b1 = "fold (drop_absent pm) (map fst dm) b"
  let ?ms1 = "filter (\<lambda>m. map_of pm (fst m) \<noteq> None) dm"
  have "filter (\<lambda>m. \<not> (fst m \<in> set (map fst dm) \<and> map_of pm (fst m) = None)) dm = ?ms1" by (rule filter_cong) auto
  then have b1: "holds_object ?b1 ?ms1" using holds_drops [OF h, of pm "map fst dm"] by simp
  let ?b2 = "fold (write_changed dm pm (stepOf b)) (map fst pm) ?b1"
  let ?ms2 = "map (\<lambda>(k, w). (k, the (map_of pm k))) ?ms1"
  have present: "map_of ?ms1 n = map_of dm n" if "map_of pm n \<noteq> None" for n
    using that by (induction dm) auto
  have "holds_object ?b2 (map (\<lambda>(k, w). (k, if k \<in> set (map fst pm) then the (map_of pm k) else w)) ?ms1)"
    by (rule holds_writes [OF b1 dd(2) step in_pm]) (use in_pm present stable_member [OF s(1)] in auto)
  moreover have "map (\<lambda>(k, w). (k, if k \<in> set (map fst pm) then the (map_of pm k) else w)) ?ms1 = ?ms2"
  proof (rule map_cong [OF refl])
    fix x assume x: "x \<in> set ?ms1"
    obtain k w where kw: "x = (k, w)" by (cases x)
    then have "k \<in> fst ` set pm" using x by (simp add: map_of_eq_None_iff [of pm k, symmetric] del: not_None_eq) (metis map_of_eq_None_iff)
    then show "(case x of (k, w) \<Rightarrow> (k, if k \<in> set (map fst pm) then the (map_of pm k) else w))
        = (case x of (k, w) \<Rightarrow> (k, the (map_of pm k)))" using kw by simp
  qed
  ultimately have b2: "holds_object ?b2 ?ms2" by (simp only:)
  have fst2: "map fst ?ms2 = map fst ?ms1" by auto
  let ?new = "map (\<lambda>n. (n, the (map_of pm n))) (filter (\<lambda>n. map_of dm n = None) (map fst pm))"
  have "n \<notin> fst ` set ?ms2" if "map_of dm n = None" for n
    using that by (force simp: map_of_eq_None_iff)
  then obtain ms where ms: "holds_object (fold (add_missing dm pm (stepOf b)) (map fst pm) ?b2) ms" "mset ms = mset ?ms2 + mset ?new"
    using holds_adds [OF b2 dd(2) step in_pm, of dm] by blast
  have "mset (?ms2 @ ?new) = mset pm"
  proof (rule mset_keyed)
    have f: "map fst ?new = filter (\<lambda>n. map_of dm n = None) (map fst pm)" by (simp add: o_def)
    have "distinct (map fst ?ms1)" using dd(1) by (rule distinct_map_filter)
    moreover have "set (map fst ?ms1) \<inter> set (map fst ?new) = {}" unfolding f by (auto simp: map_of_eq_None_iff image_iff)
    ultimately show "distinct (map fst (?ms2 @ ?new))" unfolding map_append fst2 f using dd(2) by simp
    have ms1: "n \<in> set (map fst ?ms1) \<longleftrightarrow> map_of dm n \<noteq> None \<and> map_of pm n \<noteq> None" for n
    proof -
      have "n \<in> set (map fst ?ms1) \<longleftrightarrow> n \<in> fst ` set dm \<and> map_of pm n \<noteq> None" by auto
      then show ?thesis by (simp only: map_of_eq_None_iff [of dm n] not_not)
    qed
    have "fst ` set (?ms2 @ ?new) = set (map fst (?ms2 @ ?new))" by (rule set_map [symmetric])
    also have "\<dots> = set (map fst ?ms1) \<union> set (map fst ?new)" by (simp only: map_append set_append fst2)
    also have "\<dots> = fst ` set pm"
    proof -
      have "n \<in> set (map fst ?ms1) \<union> set (map fst ?new) \<longleftrightarrow> n \<in> fst ` set pm" for n
        using map_of_eq_None_iff [of pm n] unfolding f Un_iff ms1 by auto
      then show ?thesis by blast
    qed
    finally show k: "fst ` set (?ms2 @ ?new) = fst ` set pm" .
    have all: "\<forall>e \<in> set (?ms2 @ ?new). map_of pm (fst e) = Some (snd e)"
    proof
      fix e assume "e \<in> set (?ms2 @ ?new)"
      then consider n where "e = (n, the (map_of pm n))" "map_of pm n \<noteq> None"
        | n where "e = (n, the (map_of pm n))" "n \<in> set (map fst pm)" by auto
      then show "map_of pm (fst e) = Some (snd e)"
      proof cases
        case 2
        then show ?thesis using in_pm [of n] by fastforce
      qed auto
    qed
    fix n
    show "map_of (?ms2 @ ?new) n = map_of pm n"
    proof (cases "map_of (?ms2 @ ?new) n")
      case None
      then have "n \<notin> fst ` set pm" unfolding k [symmetric] by (simp only: map_of_eq_None_iff not_False_eq_True)
      then have "map_of pm n = None" by (simp only: map_of_eq_None_iff not_False_eq_True)
      then show ?thesis using None by (simp only:)
    next
      case (Some w)
      have "map_of pm (fst (n, w)) = Some (snd (n, w))" by (rule bspec [OF all map_of_SomeD [OF Some]])
      then have "map_of pm n = Some w" by (simp only: fst_conv snd_conv)
      then show ?thesis using Some by (simp only:)
    qed
  qed (rule dd(2))
  then have "mset ms = mset pm" using ms(2) by simp
  then show ?thesis using ms(1) by (auto simp: apply_members_def keys Let_def)
qed

text \<open>A number beyond binary64 is written as \<open>null\<close>, so a draft that holds one there is taken for the proposal.\<close>

lemma infinite_as_null: "sameValue (JObj [(js ''a'', JNum (Infinite False))]) (JObj [(js ''a'', JNull)])"
  by code_simp

text \<open>C23: Accepting a proposal, in a buffer whose index is that of its text, leaves a text that scans and reads as the proposal: its members, its elements in their
  order, with every value as proposed; only the order of the members at the top may be the draft's.  The proposal and
  the draft, where it reads, are such as \<open>JSON.stringify\<close> writes and reading gives back: every number finite and its
  text that number, no name twice and none like an array index.\<close>

theorem applyProposal_reads:
  assumes "in_step b" "stable proposed" "case ix_value (b_index b) of None \<Rightarrow> True | Some draft \<Rightarrow> stable draft"
  shows "\<exists>v. reads (b_text (applyProposal b proposed)) v \<and> same_document v proposed"
proof -
  have i: "b_index b = indexDocument (b_text b)" using assms(1) by (simp add: in_step_def)
  have whole: "reads (b_text (whole b proposed)) proposed"
  proof -
    have r: "reads (laid_out proposed [] (js ''  '')) proposed" by (rule reads_value_bytes [OF assms(2)]) (simp_all add: isSpace_def)
    show ?thesis using reads_trailing [OF r] r by (simp add: whole_def Let_def isSpace_def)
  qed
  show ?thesis
  proof (cases "ix_error (b_index b) = None \<and> agreesWithParse (b_text b) (b_index b) = []")
    case True
    then obtain draft where d: "reads (b_text b) draft" using agreesWithParse_empty_iff [of "b_text b"] i by auto
    then have v: "ix_value (b_index b) = Some draft" by (simp add: reads_def i)
    have set_whole: "reads (b_text (setRawJson b [] (laid_out proposed [] (stepOf b)))) proposed"
    proof -
      have "reads (b_text (place_json b (pointer []) (laid_out proposed [] (stepOf b)))) (put_value [] proposed draft)"
        by (rule place_reads [OF assms(1) d reads_value_bytes [OF assms(2) ws_stepOf]]) simp
      then show ?thesis by (simp add: put_value_def setRawJson_def)
    qed
    show ?thesis
    proof (cases "\<exists>dm pm. draft = JObj dm \<and> proposed = JObj pm")
      case objects: True
      then obtain dm pm where o: "draft = JObj dm" "proposed = JObj pm" by blast
      have "holds_object b dm" using assms(1) d o by (simp add: holds_object_def)
      moreover have "stable (JObj dm)" using assms(3) v o by simp
      ultimately obtain ms where "holds_object (apply_members dm pm b) ms" "mset ms = mset pm"
        using apply_members_reads assms(2) o by blast
      then show ?thesis using True v o by (auto simp: applyProposal_def holds_object_def same_document_def)
    next
      case False
      then have "applyProposal b proposed = (if spanAt (b_index b) [] = None then whole b proposed
          else setRawJson b [] (laid_out proposed [] (stepOf b)))"
        using True v by (auto simp: applyProposal_def Let_def split: jval.split)
      then show ?thesis using whole set_whole by (auto intro!: exI [of _ proposed])
    qed
  next
    case False
    then have "applyProposal b proposed = whole b proposed" by (auto simp: applyProposal_def Let_def)
    then show ?thesis using whole by auto
  qed
qed

definition sample_text :: jstr where
  "sample_text = js ''{ '' @ stringify_string (js ''a'') @ js '': true }''"

definition sample_proposal :: jval where
  "sample_proposal = JObj [(js ''a'', JArr [JNull]), (js ''b'', JStr (js ''x''))]"

theorem applyProposal_reads_witness:
  "\<exists>v. reads (b_text (applyProposal (buffered sample_text) sample_proposal)) v \<and> same_document v sample_proposal"
proof (rule applyProposal_reads)
  show "in_step (buffered sample_text)" by simp
  show "stable sample_proposal"
    by (simp add: sample_proposal_def array_index_name_def arrayIndex_def is_index_def is_digit_def)
  have "ix_value (indexDocument sample_text) = Some (JObj [(js ''a'', JBool True)])" by code_simp
  then show "case ix_value (b_index (buffered sample_text)) of None \<Rightarrow> True | Some draft \<Rightarrow> stable draft"
    by (simp add: array_index_name_def arrayIndex_def is_index_def is_digit_def)
qed

end
