(* ===== verification/Document_Buffer.thy ===== *)
theory Document_Buffer
  imports Prelude
begin

text \<open>
  \<open>packs/edit/useDocumentBuffer.ts\<close>: the buffer of record.  The state of the hook has three parts: the cells
  React keeps, with every update that was asked for (\<open>h_now\<close>); the cells as the last render saw them, which
  is what the closures of that render read (\<open>h_shown\<close>); and the refs.  A render copies the first to the second
  and brings the refs up to date; calls may come in any number between two renders.
\<close>

section \<open>The state\<close>

record file_content =
  fc_readOnlyReason :: "jstr option"
  fc_path :: jstr
  fc_bytes :: nat
  fc_sha256 :: jstr
  fc_content :: jstr
  fc_created :: bool

record buffer_identity =
  i_path :: jstr
  i_generation :: nat
  i_revision :: nat

record snapshot =
  s_text :: jstr
  s_coalesceKey :: "jstr option"

record cells =
  c_base :: "file_content option"
  c_text :: "jstr option"
  c_stack :: "snapshot list"
  c_waiting :: "file_content option"
  c_generation :: nat
  c_revision :: nat

datatype caller_call = OnAdopt | OnDiscard

text \<open>A file that was loaded is an object: React compares it by its identity, the number in front.\<close>

record hook =
  h_now :: cells
  h_shown :: cells
  h_loaded :: "(nat \<times> file_content) option"
  h_effect :: "((nat option) \<times> nat) option"
  h_identity :: "buffer_identity option"
  h_current :: "jstr option"
  h_stackNow :: "snapshot list"
  h_edits :: nat
  h_seeded :: "jstr option"
  h_generationNow :: nat
  h_dirtyNow :: bool
  h_otherWork :: bool
  h_calls :: "caller_call list"

definition no_cells :: cells where
  "no_cells = \<lparr>c_base = None, c_text = None, c_stack = [], c_waiting = None, c_generation = 0, c_revision = 0\<rparr>"

definition mounted :: hook where
  "mounted = \<lparr>h_now = no_cells, h_shown = no_cells, h_loaded = None, h_effect = None, h_identity = None,
     h_current = None, h_stackNow = [], h_edits = 0, h_seeded = None, h_generationNow = 0, h_dirtyNow = False,
     h_otherWork = False, h_calls = []\<rparr>"

section \<open>The operations\<close>

definition UNDO_DEPTH :: nat where "UNDO_DEPTH = 50"

text \<open>\<open>n += 1\<close> on a number that counts up from zero: at \<open>2^53\<close> the sum rounds back to it.\<close>

definition MAX_COUNT :: nat where "MAX_COUNT = 2 ^ 53"

definition js_inc :: "nat \<Rightarrow> nat" where
  "js_inc n = (if n < MAX_COUNT then n + 1 else n)"

definition edited_buffer :: "hook \<Rightarrow> hook" where
  "edited_buffer s = (let n = js_inc (h_edits s) in s\<lparr>h_edits := n, h_now := (h_now s)\<lparr>c_revision := n\<rparr>\<rparr>)"

definition adopt :: "file_content \<Rightarrow> hook \<Rightarrow> hook" where
  "adopt fresh s =
     s\<lparr>h_seeded := Some (fc_path fresh),
       h_current := Some (fc_content fresh),
       h_now := (h_now s)\<lparr>c_base := Some fresh, c_text := Some (fc_content fresh), c_stack := [], c_waiting := None\<rparr>,
       h_calls := h_calls s @ [OnAdopt]\<rparr>"

definition dirty :: "cells \<Rightarrow> bool" where
  "dirty c = (case (c_text c, c_base c) of (Some t, Some b) \<Rightarrow> t \<noteq> fc_content b | _ \<Rightarrow> False)"

text \<open>The effect over \<open>[loaded, generation, adopt]\<close>: it runs when one of them is not what it ran with last.\<close>

definition seeding :: "hook \<Rightarrow> hook" where
  "seeding s =
     (case h_loaded s of
        None \<Rightarrow> s
      | Some (_, file) \<Rightarrow>
          if h_seeded s = Some (fc_path file) then s\<lparr>h_now := (h_now s)\<lparr>c_waiting := None\<rparr>\<rparr>
          else if h_seeded s \<noteq> None \<and> (h_dirtyNow s \<or> h_otherWork s)
          then s\<lparr>h_now := (h_now s)\<lparr>c_waiting := Some file\<rparr>\<rparr>
          else adopt file s)"

definition effect_deps :: "hook \<Rightarrow> (nat option) \<times> nat" where
  "effect_deps s = (map_option fst (h_loaded s), c_generation (h_shown s))"

definition run_effect :: "hook \<Rightarrow> hook" where
  "run_effect s =
     (if h_effect s = Some (effect_deps s) then s else seeding (s\<lparr>h_effect := Some (effect_deps s)\<rparr>))"

text \<open>The updater of \<open>setStack\<close> in \<open>commit\<close>.\<close>

definition push :: "jstr option \<Rightarrow> jstr \<Rightarrow> snapshot list \<Rightarrow> snapshot list" where
  "push key previous es =
     (if key \<noteq> None \<and> es \<noteq> [] \<and> s_coalesceKey (last es) = key then es
      else (let grown = es @ [\<lparr>s_text = previous, s_coalesceKey = key\<rparr>]
            in if UNDO_DEPTH < length grown then drop (length grown - UNDO_DEPTH) grown else grown))"

definition commit :: "jstr \<Rightarrow> jstr option \<Rightarrow> hook \<Rightarrow> hook" where
  "commit new key s =
     (case h_current s of
        None \<Rightarrow> s\<lparr>h_now := (h_now s)\<lparr>c_text := Some new\<rparr>\<rparr>
      | Some previous \<Rightarrow>
          (let s1 = edited_buffer s in
           s1\<lparr>h_now := (h_now s1)\<lparr>c_stack := push key previous (c_stack (h_now s1)), c_text := Some new\<rparr>,
              h_current := Some new\<rparr>))"

definition undo :: "hook \<Rightarrow> hook" where
  "undo s =
     (if h_stackNow s = [] then s
      else (let top = last (h_stackNow s); s1 = edited_buffer s in
            s1\<lparr>h_current := Some (s_text top),
               h_now := (h_now s1)\<lparr>c_text := Some (s_text top), c_stack := butlast (h_stackNow s)\<rparr>\<rparr>))"

definition discard :: "hook \<Rightarrow> hook" where
  "discard s =
     (let s1 = edited_buffer s;
          s2 = (case c_base (h_shown s1) of
                  None \<Rightarrow> s1
                | Some b \<Rightarrow> s1\<lparr>h_current := Some (fc_content b), h_now := (h_now s1)\<lparr>c_text := Some (fc_content b)\<rparr>\<rparr>)
      in s2\<lparr>h_now := (h_now s2)\<lparr>c_stack := []\<rparr>, h_calls := h_calls s2 @ [OnDiscard]\<rparr>)"

definition rebase :: "file_content \<Rightarrow> buffer_identity option \<Rightarrow> hook \<Rightarrow> bool \<times> hook" where
  "rebase fresh expect s =
     (case expect of
        None \<Rightarrow> (True, adopt fresh s)
      | Some x \<Rightarrow>
          if i_generation x \<noteq> h_generationNow s then (False, s)
          else if i_revision x \<noteq> h_edits s then (False, s)
          else if h_seeded s \<noteq> None \<and> h_seeded s \<noteq> Some (i_path x) then (False, s)
          else if fc_path fresh \<noteq> i_path x then (False, s)
          else (True, adopt fresh s))"

text \<open>The listener of \<open>useVerifiedWrites\<close>.\<close>

definition verified_matches :: "jstr \<Rightarrow> file_content \<Rightarrow> hook \<Rightarrow> bool" where
  "verified_matches beforeSha256 file s =
     (case c_base (h_shown s) of
        None \<Rightarrow> False
      | Some b \<Rightarrow>
          map_option (\<lambda>l. fc_path (snd l)) (h_loaded s) = Some (fc_path file) \<and> h_seeded s = Some (fc_path file)
          \<and> fc_path b = fc_path file \<and> fc_sha256 b = beforeSha256 \<and> h_current s = Some (fc_content b)
          \<and> \<not> h_otherWork s \<and> h_edits s = c_revision (h_shown s))"

definition verified_write :: "jstr \<Rightarrow> file_content \<Rightarrow> hook \<Rightarrow> hook" where
  "verified_write beforeSha256 file s =
     (if verified_matches beforeSha256 file s
      then (let s1 = edited_buffer s; b = the (c_base (h_shown s))
            in snd (rebase file
                 (Some \<lparr>i_path = fc_path b, i_generation = h_generationNow s1, i_revision = h_edits s1\<rparr>) s1))
      else s)"

definition landed :: "file_content \<Rightarrow> jstr \<Rightarrow> buffer_identity option \<Rightarrow> hook \<Rightarrow> bool \<times> hook" where
  "landed fresh submitted expect s =
     (if (case expect of
            None \<Rightarrow> False
          | Some x \<Rightarrow> i_generation x \<noteq> h_generationNow s
              \<or> (h_seeded s \<noteq> None \<and> h_seeded s \<noteq> Some (i_path x)) \<or> fc_path fresh \<noteq> i_path x)
      then (False, s)
      else
        (let s1 = s\<lparr>h_seeded := Some (fc_path fresh), h_now := (h_now s)\<lparr>c_base := Some fresh, c_waiting := None\<rparr>\<rparr>
         in if h_current s1 \<noteq> Some submitted \<or> fc_content fresh \<noteq> submitted then (True, s1)
            else (True, s1\<lparr>h_current := Some (fc_content fresh),
                           h_now := (h_now s1)\<lparr>c_text := Some (fc_content fresh), c_stack := []\<rparr>\<rparr>)))"

definition takeWaiting :: "hook \<Rightarrow> hook" where
  "takeWaiting s =
     (case c_waiting (h_shown s) of
        None \<Rightarrow> s
      | Some w \<Rightarrow>
          if map_option (\<lambda>l. fc_path (snd l)) (h_loaded s) \<noteq> Some (fc_path w) then s else adopt w s)"

definition forget :: "hook \<Rightarrow> hook" where
  "forget s =
     (let g = js_inc (h_generationNow s) in
      s\<lparr>h_seeded := None, h_generationNow := g, h_current := None,
        h_now := (h_now s)\<lparr>c_generation := g, c_base := None, c_text := None, c_stack := [], c_waiting := None\<rparr>\<rparr>)"

definition identity_now :: "hook \<Rightarrow> buffer_identity option" where
  "identity_now s =
     map_option (\<lambda>p. \<lparr>i_path = p, i_generation = h_generationNow s, i_revision = h_edits s\<rparr>) (h_seeded s)"

text \<open>
  One render, with its arguments.  An effect of the render before that has not run yet runs first.  The memo
  that holds the identity is rebuilt whenever a ref in it has moved, since each of those moves moves a cell.
\<close>

definition render_buffer :: "(nat \<times> file_content) option \<Rightarrow> bool \<Rightarrow> hook \<Rightarrow> hook" where
  "render_buffer loaded otherWork s0 =
     (let s = run_effect s0 in
      s\<lparr>h_shown := h_now s, h_loaded := loaded, h_otherWork := otherWork, h_current := c_text (h_now s),
        h_stackNow := c_stack (h_now s), h_dirtyNow := dirty (h_now s), h_identity := identity_now s\<rparr>)"

section \<open>Runs\<close>

datatype event =
    Render "(nat \<times> file_content) option" bool | Effect
  | Commit jstr "jstr option" | Undo | Discard | TakeWaiting | Forget | Touch
  | Rebase file_content "buffer_identity option" | Landed file_content jstr "buffer_identity option"
  | VerifiedWrite jstr file_content

fun happens :: "hook \<Rightarrow> event \<Rightarrow> hook" where
  "happens s (Render loaded otherWork) = render_buffer loaded otherWork s"
| "happens s Effect = run_effect s"
| "happens s (Commit new key) = commit new key s"
| "happens s Undo = undo s"
| "happens s Discard = discard s"
| "happens s TakeWaiting = takeWaiting s"
| "happens s Forget = forget s"
| "happens s Touch = edited_buffer s"
| "happens s (Rebase fresh expect) = snd (rebase fresh expect s)"
| "happens s (Landed fresh submitted expect) = snd (landed fresh submitted expect s)"
| "happens s (VerifiedWrite beforeSha256 file) = verified_write beforeSha256 file s"

definition goes_on :: "event list \<Rightarrow> hook \<Rightarrow> hook" where
  "goes_on es s = fold (\<lambda>e s. happens s e) es s"

inductive reachable :: "hook \<Rightarrow> bool" where
  mount: "reachable mounted"
| event: "reachable s \<Longrightarrow> reachable (happens s e)"

end
