(* ===== verification/Buffer_Facts.thy ===== *)
theory Buffer_Facts
  imports Document_Buffer
begin

text \<open>
  What the buffer promises of the work in it: unsaved text is not replaced by anything but an act of the author,
  a reload that was asked for before an edit is refused, and undo takes back one action at a time.
\<close>

section \<open>The counters\<close>

named_theorems operation_defs \<open>the operations of the buffer\<close>

lemmas [operation_defs] =
  render_buffer_def run_effect_def seeding_def commit_def undo_def discard_def takeWaiting_def forget_def rebase_def
  landed_def verified_write_def adopt_def edited_buffer_def

lemma js_inc_le: "n \<le> js_inc n"
  by (simp add: js_inc_def)

lemma js_inc_less: "js_inc n < MAX_COUNT \<Longrightarrow> n < js_inc n"
  by (simp add: js_inc_def split: if_splits)

lemma seeding_frame [simp]:
  "h_edits (seeding s) = h_edits s" "h_generationNow (seeding s) = h_generationNow s"
  "h_stackNow (seeding s) = h_stackNow s" "h_shown (seeding s) = h_shown s" "h_loaded (seeding s) = h_loaded s"
  "c_revision (h_now (seeding s)) = c_revision (h_now s)" "c_generation (h_now (seeding s)) = c_generation (h_now s)"
  by (auto simp: seeding_def adopt_def split: option.splits prod.splits)

lemma run_effect_frame [simp]:
  "h_edits (run_effect s) = h_edits s" "h_generationNow (run_effect s) = h_generationNow s"
  "h_stackNow (run_effect s) = h_stackNow s" "h_shown (run_effect s) = h_shown s" "h_loaded (run_effect s) = h_loaded s"
  by (simp_all add: run_effect_def)

text \<open>What counts as an edit: the events that move the number in a ticket.\<close>

fun edits_buffer :: "hook \<Rightarrow> event \<Rightarrow> bool" where
  "edits_buffer s (Commit new key) = (h_current s \<noteq> None)"
| "edits_buffer s Undo = (h_stackNow s \<noteq> [])"
| "edits_buffer s Discard = True"
| "edits_buffer s Touch = True"
| "edits_buffer s (VerifiedWrite beforeSha256 file) = verified_matches beforeSha256 file s"
| "edits_buffer s e = False"

lemma rebase_edits [simp]: "h_edits (snd (rebase fresh expect s)) = h_edits s"
  by (simp add: rebase_def adopt_def split: option.split)

lemma landed_edits [simp]: "h_edits (snd (landed fresh submitted expect s)) = h_edits s"
  by (simp add: landed_def Let_def)

lemma edits_happens: "h_edits (happens s e) = (if edits_buffer s e then js_inc (h_edits s) else h_edits s)"
  by (cases e)
    (simp_all add: render_buffer_def commit_def undo_def discard_def takeWaiting_def forget_def verified_write_def adopt_def
      edited_buffer_def Let_def split: option.split)

lemma rebase_generation [simp]: "h_generationNow (snd (rebase fresh expect s)) = h_generationNow s"
  by (simp add: rebase_def adopt_def split: option.split)

lemma landed_generation [simp]: "h_generationNow (snd (landed fresh submitted expect s)) = h_generationNow s"
  by (simp add: landed_def Let_def)

lemma operations_generation [simp]:
  "h_generationNow (forget s) = js_inc (h_generationNow s)" "h_generationNow (render_buffer l w s) = h_generationNow s"
  "h_generationNow (commit new key s) = h_generationNow s" "h_generationNow (undo s) = h_generationNow s"
  "h_generationNow (discard s) = h_generationNow s" "h_generationNow (takeWaiting s) = h_generationNow s"
  "h_generationNow (edited_buffer s) = h_generationNow s" "h_generationNow (verified_write b f s) = h_generationNow s"
  by (simp_all add: render_buffer_def commit_def undo_def discard_def takeWaiting_def forget_def verified_write_def adopt_def
      edited_buffer_def Let_def split: option.split)

lemma generation_happens:
  "h_generationNow (happens s e) = (if e = Forget then js_inc (h_generationNow s) else h_generationNow s)"
  by (cases e) simp_all

lemma goes_on_simps [simp]:
  "goes_on [] s = s" "goes_on (e # es) s = goes_on es (happens s e)" "goes_on (es @ es') s = goes_on es' (goes_on es s)"
  by (simp_all add: goes_on_def)

fun any_edit :: "event list \<Rightarrow> hook \<Rightarrow> bool" where
  "any_edit [] s = False"
| "any_edit (e # es) s = (edits_buffer s e \<or> any_edit es (happens s e))"

lemma edits_mono: "h_edits s \<le> h_edits (goes_on es s)"
proof (induction es arbitrary: s)
  case (Cons e es)
  have "h_edits s \<le> h_edits (happens s e)" by (simp add: edits_happens js_inc_le)
  also have "\<dots> \<le> h_edits (goes_on (e # es) s)" using Cons by simp
  finally show ?case .
qed simp

lemma edits_grow: "\<lbrakk>any_edit es s; h_edits (goes_on es s) < MAX_COUNT\<rbrakk> \<Longrightarrow> h_edits s < h_edits (goes_on es s)"
proof (induction es arbitrary: s)
  case (Cons e es)
  have mono: "h_edits (happens s e) \<le> h_edits (goes_on es (happens s e))" by (rule edits_mono)
  show ?case
  proof (cases "edits_buffer s e")
    case True
    then have "h_edits (happens s e) = js_inc (h_edits s)" by (simp add: edits_happens)
    moreover have "js_inc (h_edits s) < MAX_COUNT" using calculation mono Cons.prems(2) by simp
    ultimately show ?thesis using js_inc_less mono by fastforce
  next
    case False
    then have "h_edits s < h_edits (goes_on es (happens s e))"
      using Cons.IH [of "happens s e"] Cons.prems by (simp add: edits_happens)
    then show ?thesis by simp
  qed
qed simp

lemma generation_mono: "h_generationNow s \<le> h_generationNow (goes_on es s)"
proof (induction es arbitrary: s)
  case (Cons e es)
  have "h_generationNow s \<le> h_generationNow (happens s e)" by (simp add: generation_happens js_inc_le)
  also have "\<dots> \<le> h_generationNow (goes_on (e # es) s)" using Cons by simp
  finally show ?case .
qed simp

lemma generation_grows:
  "\<lbrakk>Forget \<in> set es; h_generationNow (goes_on es s) < MAX_COUNT\<rbrakk> \<Longrightarrow> h_generationNow s < h_generationNow (goes_on es s)"
proof (induction es arbitrary: s)
  case (Cons e es)
  have mono: "h_generationNow (happens s e) \<le> h_generationNow (goes_on es (happens s e))" by (rule generation_mono)
  show ?case
  proof (cases "e = Forget")
    case True
    then have "h_generationNow (happens s e) = js_inc (h_generationNow s)" by (simp add: generation_happens)
    moreover have "js_inc (h_generationNow s) < MAX_COUNT" using calculation mono Cons.prems(2) by simp
    ultimately show ?thesis using js_inc_less mono by fastforce
  next
    case False
    then have "h_generationNow s < h_generationNow (goes_on es (happens s e))"
      using Cons.IH [of "happens s e"] Cons.prems by (simp add: generation_happens)
    then show ?thesis by simp
  qed
qed simp

section \<open>Tickets\<close>

text \<open>A ticket that was handed out states numbers the refs have not fallen behind.\<close>

lemma rebase_identity [simp]: "h_identity (snd (rebase fresh expect s)) = h_identity s"
  by (simp add: rebase_def adopt_def split: option.split)

lemma landed_identity [simp]: "h_identity (snd (landed fresh submitted expect s)) = h_identity s"
  by (simp add: landed_def Let_def)

lemma seeding_identity [simp]: "h_identity (seeding s) = h_identity s"
  by (auto simp: seeding_def adopt_def split: option.splits prod.splits)

lemma identity_happens: "h_identity (happens s e) = h_identity s \<or> h_identity (happens s e) = identity_now (happens s e)"
proof (cases e)
  case (Render loaded otherWork)
  then show ?thesis by (simp add: render_buffer_def identity_now_def Let_def)
next
  case Effect
  then show ?thesis by (simp add: run_effect_def)
qed (simp_all add: commit_def undo_def discard_def takeWaiting_def forget_def verified_write_def adopt_def
      edited_buffer_def Let_def split: option.split)

lemma identity_nowD: "identity_now s = Some x \<Longrightarrow> i_revision x = h_edits s \<and> i_generation x = h_generationNow s"
  by (auto simp: identity_now_def)

lemma ticket_behind:
  "reachable s \<Longrightarrow> h_identity s = Some x \<Longrightarrow> i_revision x \<le> h_edits s \<and> i_generation x \<le> h_generationNow s"
proof (induction arbitrary: x rule: reachable.induct)
  case mount
  then show ?case by (simp add: mounted_def)
next
  case (event s e)
  have "h_edits s \<le> h_edits (happens s e)" "h_generationNow s \<le> h_generationNow (happens s e)"
    by (simp_all add: edits_happens generation_happens js_inc_le)
  moreover have "h_identity s = Some x \<or> (i_revision x = h_edits (happens s e) \<and> i_generation x = h_generationNow (happens s e))"
    using identity_happens [of s e] event.prems identity_nowD [of "happens s e" x] by (elim disjE) simp_all
  ultimately show ?case using event.IH [of x] by (elim disjE) auto
qed

text \<open>C25: A reload is refused, and changes nothing, when anything was edited after its ticket was handed out, or the
  document was put down: as long as the counters stay below \<open>2^53\<close>.\<close>

theorem stale_ticket_refused:
  assumes "reachable s" "h_identity s = Some ticket" "any_edit es s \<or> Forget \<in> set es"
    "h_edits (goes_on es s) < MAX_COUNT" "h_generationNow (goes_on es s) < MAX_COUNT"
  shows "rebase fresh (Some ticket) (goes_on es s) = (False, goes_on es s)"
proof -
  have "i_revision ticket \<le> h_edits s" "i_generation ticket \<le> h_generationNow s"
    using ticket_behind [OF assms(1,2)] by simp_all
  moreover have "h_edits s < h_edits (goes_on es s) \<or> h_generationNow s < h_generationNow (goes_on es s)"
    using assms(3) edits_grow [OF _ assms(4)] generation_grows [OF _ assms(5)] by blast
  ultimately show ?thesis by (auto simp: rebase_def)
qed


section \<open>Unsaved work\<close>

text \<open>Nothing has been called since the last render, and its effects have run.\<close>

definition settled :: "hook \<Rightarrow> bool" where
  "settled s \<longleftrightarrow> h_shown s = h_now s \<and> h_current s = c_text (h_now s) \<and> h_stackNow s = c_stack (h_now s)
     \<and> h_dirtyNow s = dirty (h_now s) \<and> h_effect s = Some (effect_deps s)"

text \<open>
  What goes on around an author who does nothing: renders and their effects, with whatever file was loaded;
  writes of other surfaces; answers to reloads asked before the last edit; saves that did not land this text.
\<close>

fun without_author :: "nat \<Rightarrow> jstr \<Rightarrow> event \<Rightarrow> bool" where
  "without_author n t (Render loaded otherWork) = True"
| "without_author n t Effect = True"
| "without_author n t (VerifiedWrite beforeSha256 file) = True"
| "without_author n t (Rebase fresh expect) = (case expect of None \<Rightarrow> False | Some x \<Rightarrow> i_revision x < n)"
| "without_author n t (Landed fresh submitted expect) = (fc_content fresh \<noteq> t)"
| "without_author n t e = False"

definition holds_unsaved :: "nat \<Rightarrow> jstr \<Rightarrow> snapshot list \<Rightarrow> hook \<Rightarrow> bool" where
  "holds_unsaved n t es s \<longleftrightarrow> h_current s = Some t \<and> c_text (h_now s) = Some t \<and> c_stack (h_now s) = es
     \<and> (\<exists>b. c_base (h_now s) = Some b \<and> fc_content b \<noteq> t)
     \<and> (\<forall>b. c_base (h_shown s) = Some b \<longrightarrow> fc_content b \<noteq> t)
     \<and> h_dirtyNow s \<and> h_seeded s \<noteq> None \<and> h_edits s = n"

lemma unsaved_seeding: "holds_unsaved n t es s \<Longrightarrow> holds_unsaved n t es (seeding s)"
  by (auto simp: holds_unsaved_def seeding_def split: option.split)

lemma unsaved_effect: "holds_unsaved n t es s \<Longrightarrow> holds_unsaved n t es (run_effect s)"
proof (cases "h_effect s = Some (effect_deps s)")
  case False
  assume "holds_unsaved n t es s"
  then have "holds_unsaved n t es (s\<lparr>h_effect := Some (effect_deps s)\<rparr>)" by (simp add: holds_unsaved_def)
  then show ?thesis using False by (simp add: run_effect_def unsaved_seeding)
qed (simp add: run_effect_def)

lemma unsaved_render: "holds_unsaved n t es s \<Longrightarrow> holds_unsaved n t es (render_buffer loaded otherWork s)"
proof -
  assume "holds_unsaved n t es s"
  then have "holds_unsaved n t es (run_effect s)" by (rule unsaved_effect)
  then show ?thesis by (auto simp: holds_unsaved_def render_buffer_def Let_def dirty_def)
qed

lemma unsaved_landed:
  "\<lbrakk>holds_unsaved n t es s; fc_content fresh \<noteq> t\<rbrakk> \<Longrightarrow> holds_unsaved n t es (snd (landed fresh submitted expect s))"
  by (auto simp: holds_unsaved_def landed_def Let_def)

lemma unsaved_rebase:
  "\<lbrakk>holds_unsaved n t es s; i_revision x < n\<rbrakk> \<Longrightarrow> rebase fresh (Some x) s = (False, s)"
  by (auto simp: holds_unsaved_def rebase_def)

lemma unsaved_verified: "holds_unsaved n t es s \<Longrightarrow> verified_write b f s = s"
  by (auto simp: holds_unsaved_def verified_write_def verified_matches_def split: option.splits)

lemma unsaved_happens: "\<lbrakk>holds_unsaved n t es s; without_author n t e\<rbrakk> \<Longrightarrow> holds_unsaved n t es (happens s e)"
  by (cases e)
    (auto simp: unsaved_effect unsaved_render unsaved_landed unsaved_rebase unsaved_verified split: option.splits)

lemma unsaved_goes_on:
  "\<lbrakk>holds_unsaved n t es s; list_all (without_author n t) evs\<rbrakk> \<Longrightarrow> holds_unsaved n t es (goes_on evs s)"
  by (induction evs arbitrary: s) (simp_all add: unsaved_happens)

text \<open>A buffer with a base is a buffer about a file, and the live text is the text asked for.\<close>

definition coherent :: "hook \<Rightarrow> bool" where
  "coherent s \<longleftrightarrow> (c_base (h_now s) \<noteq> None \<longrightarrow> h_seeded s \<noteq> None) \<and> (h_current s \<noteq> None \<longrightarrow> c_text (h_now s) = h_current s)"

lemma coherent_adopt [simp]: "coherent (adopt fresh s)"
  by (simp add: coherent_def adopt_def)

lemma coherent_edited [simp]: "coherent (edited_buffer s) = coherent s"
  by (simp add: coherent_def edited_buffer_def Let_def)

lemma coherent_forget [simp]: "coherent (forget s)"
  by (simp add: coherent_def forget_def Let_def)

lemma coherent_commit: "coherent s \<Longrightarrow> coherent (commit new key s)"
  by (simp add: coherent_def commit_def edited_buffer_def Let_def split: option.split)

lemma coherent_undo: "coherent s \<Longrightarrow> coherent (undo s)"
  by (simp add: coherent_def undo_def edited_buffer_def Let_def)

lemma coherent_discard: "coherent s \<Longrightarrow> coherent (discard s)"
  by (simp add: coherent_def discard_def edited_buffer_def Let_def split: option.split)

lemma coherent_rebase: "coherent s \<Longrightarrow> coherent (snd (rebase fresh expect s))"
  by (simp add: rebase_def split: option.split)

lemma coherent_landed: "coherent s \<Longrightarrow> coherent (snd (landed fresh submitted expect s))"
  unfolding landed_def Let_def by (simp add: coherent_def)

lemma coherent_verified: "coherent s \<Longrightarrow> coherent (verified_write b f s)"
  by (simp add: verified_write_def Let_def coherent_rebase)

lemma coherent_takeWaiting: "coherent s \<Longrightarrow> coherent (takeWaiting s)"
  by (simp add: takeWaiting_def split: option.split)

lemma coherent_effect: "coherent s \<Longrightarrow> coherent (run_effect s)"
proof -
  assume a: "coherent s"
  have "coherent (seeding u)" if "coherent u" for u
    using that by (simp add: seeding_def coherent_def split: option.split prod.split)
      (simp add: adopt_def)
  moreover have "coherent (s\<lparr>h_effect := e\<rparr>)" for e using a by (simp add: coherent_def)
  ultimately show ?thesis using a by (simp add: run_effect_def)
qed

lemma coherent_render: "coherent s \<Longrightarrow> coherent (render_buffer loaded otherWork s)"
  using coherent_effect [of s] by (simp add: render_buffer_def Let_def coherent_def)

lemma coherent_reachable: "reachable s \<Longrightarrow> coherent s"
proof (induction rule: reachable.induct)
  case mount
  then show ?case by (simp add: coherent_def mounted_def no_cells_def)
next
  case (event s e)
  then show ?case
    by (cases e)
      (simp_all add: coherent_commit coherent_undo coherent_discard coherent_rebase coherent_landed coherent_verified
        coherent_takeWaiting coherent_effect coherent_render)
qed

lemma base_seeded: "reachable s \<Longrightarrow> c_base (h_now s) \<noteq> None \<Longrightarrow> h_seeded s \<noteq> None"
  using coherent_reachable by (simp add: coherent_def)

text \<open>C24: Once the effects of the last render have run and nothing was called behind it, text that was not saved stays
  where it is, with what undo can take back, through everything that can happen around an author who does nothing,
  whatever the order: other files that are loaded, files that move on
  disk, writes of other surfaces, late answers to reloads, and saves that landed other bytes.\<close>

theorem unsaved_work_stays:
  assumes "reachable s" "settled s" "dirty (h_now s)" "c_text (h_now s) = Some t"
    "list_all (without_author (h_edits s) t) es"
  shows "c_text (h_now (goes_on es s)) = Some t \<and> h_current (goes_on es s) = Some t
    \<and> c_stack (h_now (goes_on es s)) = c_stack (h_now s)"
proof -
  obtain b where b: "c_base (h_now s) = Some b" "fc_content b \<noteq> t"
    using assms(3,4) by (auto simp: dirty_def split: option.splits)
  have seeded: "h_seeded s \<noteq> None" using base_seeded [OF assms(1)] b by simp
  have "holds_unsaved (h_edits s) t (c_stack (h_now s)) s"
    unfolding holds_unsaved_def using assms(2-4) b seeded by (auto simp: settled_def)
  from unsaved_goes_on [OF this assms(5)] show ?thesis by (simp add: holds_unsaved_def)
qed

text \<open>C26: A save that answers moves no text: what was typed while it was in the air stays, dirty against what landed,
  and only when every byte of the buffer was saved and read back is the stack of undos put down.  An answer about
  another file or an earlier document changes nothing.\<close>

theorem landed_keeps_text:
  assumes "reachable s" "h_current s = Some t" "landed fresh submitted expect s = (ok, s')"
  shows "(h_current s' = Some t \<and> c_text (h_now s') = Some t)
    \<and> (ok \<longleftrightarrow> (case expect of None \<Rightarrow> True | Some x \<Rightarrow> i_generation x = h_generationNow s \<and> fc_path fresh = i_path x
           \<and> (h_seeded s = None \<or> h_seeded s = Some (i_path x))))
    \<and> (\<not> ok \<longrightarrow> s' = s)
    \<and> (ok \<longrightarrow> c_base (h_now s') = Some fresh \<and> (dirty (h_now s') \<longleftrightarrow> t \<noteq> fc_content fresh)
           \<and> c_stack (h_now s') = (if t = submitted \<and> fc_content fresh = submitted then [] else c_stack (h_now s)))"
proof -
  have now: "c_text (h_now s) = Some t" using coherent_reachable [OF assms(1)] assms(2) by (simp add: coherent_def)
  have "h_current s' = Some t \<and> c_text (h_now s') = Some t"
    using assms(2,3) now by (auto simp: landed_def Let_def split: if_splits)
  moreover have "ok \<longleftrightarrow> (case expect of None \<Rightarrow> True | Some x \<Rightarrow> i_generation x = h_generationNow s \<and> fc_path fresh = i_path x
           \<and> (h_seeded s = None \<or> h_seeded s = Some (i_path x)))"
    using assms(3) by (auto simp: landed_def Let_def split: option.splits if_splits)
  moreover have "\<not> ok \<longrightarrow> s' = s" using assms(3) by (auto simp: landed_def Let_def split: if_splits)
  moreover have "ok \<longrightarrow> c_base (h_now s') = Some fresh \<and> (dirty (h_now s') \<longleftrightarrow> t \<noteq> fc_content fresh)
           \<and> c_stack (h_now s') = (if t = submitted \<and> fc_content fresh = submitted then [] else c_stack (h_now s))"
    using assms(2,3) now by (auto simp: landed_def Let_def dirty_def split: if_splits)
  ultimately show ?thesis by blast
qed

section \<open>Undo\<close>

definition turn :: "hook \<Rightarrow> hook" where
  "turn s = render_buffer (h_loaded s) (h_otherWork s) s"

definition typed :: "(jstr \<times> jstr option) list \<Rightarrow> hook \<Rightarrow> hook" where
  "typed cs s = fold (\<lambda>(new, key) s. turn (commit new key s)) cs s"

definition undone :: "nat \<Rightarrow> hook \<Rightarrow> hook" where
  "undone n s = ((\<lambda>s. turn (undo s)) ^^ n) s"

text \<open>How many actions a run of writes is, behind one with key \<open>k\<close>: typing on in one field is the same one.\<close>

fun actions :: "jstr option \<Rightarrow> (jstr \<times> jstr option) list \<Rightarrow> nat" where
  "actions k [] = 0"
| "actions k ((new, key) # cs) = (if key \<noteq> None \<and> key = k then actions k cs else Suc (actions key cs))"

definition top_key :: "snapshot list \<Rightarrow> jstr option" where
  "top_key es = (if es = [] then None else s_coalesceKey (last es))"

definition capped :: "'a list \<Rightarrow> 'a list" where
  "capped xs = drop (length xs - UNDO_DEPTH) xs"

lemma push_eq:
  "push key previous es = (if key \<noteq> None \<and> key = top_key es then es else capped (es @ [\<lparr>s_text = previous, s_coalesceKey = key\<rparr>]))"
  by (cases key; cases "es = []") (auto simp: push_def top_key_def capped_def Let_def)

lemma push_same: "key \<noteq> None \<and> key = top_key es \<Longrightarrow> push key previous es = es"
  unfolding push_eq by (rule if_P)

lemma push_new:
  "\<not> (key \<noteq> None \<and> key = top_key es) \<Longrightarrow> push key previous es = capped (es @ [\<lparr>s_text = previous, s_coalesceKey = key\<rparr>])"
  unfolding push_eq by (rule if_not_P)

lemma capped_append: "capped (capped xs @ ys) = capped (xs @ ys)"
  by (cases "length xs \<le> UNDO_DEPTH") (simp_all add: capped_def add.commute)

lemma top_key_capped: "top_key (capped (es @ [e])) = s_coalesceKey e"
proof -
  have "capped (es @ [e]) = capped es @ [e] \<or> (\<exists>xs. capped (es @ [e]) = xs @ [e])"
    by (simp add: capped_def UNDO_DEPTH_def)
  then show ?thesis by (auto simp: top_key_def)
qed

lemma settled_commit:
  assumes "settled s" "c_text (h_now s) = Some t"
  shows "settled (turn (commit new key s))" "c_text (h_now (turn (commit new key s))) = Some new"
    "c_stack (h_now (turn (commit new key s))) = push key t (c_stack (h_now s))"
  using assms by (simp_all add: settled_def turn_def render_buffer_def commit_def edited_buffer_def run_effect_def effect_deps_def Let_def)

lemma settled_undo:
  assumes "settled s" "c_stack (h_now s) = es @ [e]"
  shows "settled (turn (undo s))" "c_text (h_now (turn (undo s))) = Some (s_text e)"
    "c_stack (h_now (turn (undo s))) = es"
  using assms by (simp_all add: settled_def turn_def render_buffer_def undo_def edited_buffer_def run_effect_def effect_deps_def Let_def)

lemma typed_stack:
  "\<lbrakk>settled s; c_text (h_now s) = Some t\<rbrakk> \<Longrightarrow> settled (typed cs s) \<and>
    (\<exists>new. c_stack (h_now (typed cs s)) = (if new = [] then c_stack (h_now s) else capped (c_stack (h_now s) @ new))
       \<and> length new = actions (top_key (c_stack (h_now s))) cs
       \<and> (cs \<noteq> [] \<and> \<not> (snd (hd cs) \<noteq> None \<and> snd (hd cs) = top_key (c_stack (h_now s))) \<longrightarrow> new \<noteq> [] \<and> s_text (hd new) = t))"
proof (induction cs arbitrary: s t)
  case Nil
  then show ?case by (auto simp: typed_def intro: exI [of _ "[]"])
next
  case (Cons c cs)
  obtain w key where c: "c = (w, key)" by (cases c)
  let ?s = "turn (commit w key s)"
  note next_ = settled_commit [OF Cons.prems, of w key]
  have go: "typed (c # cs) s = typed cs ?s" by (simp add: typed_def c)
  obtain new where n: "settled (typed cs ?s)"
    "c_stack (h_now (typed cs ?s)) = (if new = [] then c_stack (h_now ?s) else capped (c_stack (h_now ?s) @ new))"
    "length new = actions (top_key (c_stack (h_now ?s))) cs"
    using Cons.IH [OF next_(1,2)] by blast
  show ?case
  proof (cases "key \<noteq> None \<and> key = top_key (c_stack (h_now s))")
    case True
    have same: "c_stack (h_now ?s) = c_stack (h_now s)" by (rule trans [OF next_(3) push_same [OF True]])
    show ?thesis unfolding go using n True c same by (intro conjI exI [of _ new]) auto
  next
    case False
    let ?e = "\<lparr>s_text = t, s_coalesceKey = key\<rparr>"
    have st: "c_stack (h_now ?s) = capped (c_stack (h_now s) @ [?e])" by (rule trans [OF next_(3) push_new [OF False]])
    have "c_stack (h_now (typed cs ?s)) = capped (c_stack (h_now s) @ ?e # new)"
      using n(2) st capped_append [of "c_stack (h_now s) @ [?e]" new] by (auto split: if_splits)
    then show ?thesis unfolding go using n(1,3) False c st
      by (intro conjI exI [of _ "?e # new"]) (auto simp: top_key_capped)
  qed
qed

lemma undone_stack:
  "\<lbrakk>settled s; c_stack (h_now s) = es @ new; new \<noteq> []\<rbrakk> \<Longrightarrow>
    c_text (h_now (undone (length new) s)) = Some (s_text (hd new)) \<and> c_stack (h_now (undone (length new) s)) = es
      \<and> settled (undone (length new) s)"
proof (induction new arbitrary: s rule: rev_induct)
  case (snoc e new)
  let ?s = "turn (undo s)"
  have u: "settled ?s" "c_text (h_now ?s) = Some (s_text e)" "c_stack (h_now ?s) = es @ new"
    using settled_undo [OF snoc.prems(1), of "es @ new" e] snoc.prems(2) by simp_all
  have "undone (length (new @ [e])) s = undone (length new) ?s" 
    unfolding undone_def by (simp del: funpow.simps add: funpow_Suc_right)
  then show ?case using snoc.IH [OF u(1,3)] u by (cases "new = []") (simp_all add: undone_def)
qed simp

text \<open>C27: Undo takes back one action at a time: after any writes that begin with an action of their own and make no
  more than \<open>UNDO_DEPTH\<close> actions, as many undos bring the text back that was there before, and the stack under it,
  but for what the depth has cut off.\<close>

theorem undo_restores:
  fixes new :: jstr
  assumes "settled s" "c_text (h_now s) = Some t" "key = None \<or> key \<noteq> top_key (c_stack (h_now s))"
    "Suc (actions key cs) \<le> UNDO_DEPTH"
  shows "c_text (h_now (undone (Suc (actions key cs)) (typed ((new, key) # cs) s))) = Some t
    \<and> c_stack (h_now (undone (Suc (actions key cs)) (typed ((new, key) # cs) s)))
        = drop (length (c_stack (h_now s)) + Suc (actions key cs) - UNDO_DEPTH) (c_stack (h_now s))"
proof -
  obtain es where es: "settled (typed ((new, key) # cs) s)"
    "c_stack (h_now (typed ((new, key) # cs) s)) = capped (c_stack (h_now s) @ es)" "es \<noteq> []"
    "length es = Suc (actions key cs)" "s_text (hd es) = t"
    using typed_stack [OF assms(1,2), of "(new, key) # cs"] assms(3) by auto
  have "capped (c_stack (h_now s) @ es) = drop (length (c_stack (h_now s)) + length es - UNDO_DEPTH) (c_stack (h_now s)) @ es"
    using assms(4) es(4) by (simp add: capped_def)
  from undone_stack [OF es(1) es(2) [unfolded this] es(3)] show ?thesis using es(4,5) by simp
qed

section \<open>Concrete runs\<close>

definition sample_file :: "jstr \<Rightarrow> jstr \<Rightarrow> file_content" where
  "sample_file path content =
     \<lparr>fc_readOnlyReason = None, fc_path = path, fc_bytes = length content, fc_sha256 = path @ content,
      fc_content = content, fc_created = False\<rparr>"

text \<open>A page about \<open>a\<close>, whose text is \<open>1\<close>; and then with \<open>12\<close> typed into it.\<close>

abbreviation "opening_events \<equiv> [Rebase (sample_file (js ''a'') (js ''1'')) None, Render None False, Effect]"
abbreviation "typing_events \<equiv> [Commit (js ''12'') None, Render None False]"

lemma reachable_goes_on: "reachable s \<Longrightarrow> reachable (goes_on es s)"
  by (induction es arbitrary: s) (simp_all add: reachable.event)

lemma reachable_run: "reachable (goes_on es mounted)"
  by (rule reachable_goes_on) (rule reachable.mount)

lemmas run_simps =
  operation_defs mounted_def no_cells_def sample_file_def effect_deps_def identity_now_def push_def dirty_def Let_def
  js_inc_def MAX_COUNT_def UNDO_DEPTH_def settled_def verified_matches_def

text \<open>An undo that comes between an adoption and the render behind it reads the stack of the render before: the
  page is then about \<open>b\<close> and holds the text of \<open>a\<close>.\<close>

lemma undo_before_render:
  "let s = goes_on (opening_events @ typing_events @ [Rebase (sample_file (js ''b'') (js ''2'')) None, Undo]) mounted
   in map_option fc_path (c_base (h_now s)) = Some (js ''b'') \<and> c_text (h_now s) = Some (js ''1'')"
  by (simp add: run_simps)

text \<open>The effect that follows a loaded file asks what was dirty at the last render: a write between the two is lost.\<close>

lemma commit_before_effect:
  "let s = goes_on (opening_events @ [Render (Some (1, sample_file (js ''b'') (js ''2''))) False, Commit (js ''12'') None, Effect]) mounted
   in c_text (h_now s) = Some (js ''2'') \<and> c_stack (h_now s) = []"
  by (simp add: run_simps)

text \<open>The theorems on these runs.\<close>

definition typed_page :: hook where
  "typed_page = goes_on (opening_events @ typing_events) mounted"

lemma typed_page:
  "reachable typed_page" "settled typed_page" "dirty (h_now typed_page)" "c_text (h_now typed_page) = Some (js ''12'')"
  "h_current typed_page = Some (js ''12'')" "h_edits typed_page = 1" "h_generationNow typed_page = 0"
  "h_identity typed_page = Some \<lparr>i_path = js ''a'', i_generation = 0, i_revision = 1\<rparr>"
  "h_seeded typed_page = Some (js ''a'')" "c_stack (h_now typed_page) = [\<lparr>s_text = js ''1'', s_coalesceKey = None\<rparr>]"
  using reachable_run [of "opening_events @ typing_events", folded typed_page_def]
  by (simp_all only: typed_page_def) (simp_all add: run_simps)

theorem stale_ticket_refused_witness:
  "rebase (sample_file (js ''a'') (js ''3'')) (Some \<lparr>i_path = js ''a'', i_generation = 0, i_revision = 1\<rparr>)
     (goes_on [Touch] typed_page) = (False, goes_on [Touch] typed_page)"
  by (rule stale_ticket_refused [OF typed_page(1,8)])
    (simp_all add: edited_buffer_def Let_def typed_page js_inc_def MAX_COUNT_def)

theorem unsaved_work_stays_witness:
  "c_text (h_now (goes_on [Render (Some (1, sample_file (js ''b'') (js ''2''))) False, Effect] typed_page)) = Some (js ''12'')"
  using unsaved_work_stays [OF typed_page(1-4), of "[Render (Some (1, sample_file (js ''b'') (js ''2''))) False, Effect]"]
  by simp

theorem landed_keeps_text_witness:
  "c_text (h_now (snd (landed (sample_file (js ''a'') (js ''1'')) (js ''1'') None typed_page))) = Some (js ''12'')"
proof -
  obtain ok s' where r: "landed (sample_file (js ''a'') (js ''1'')) (js ''1'') None typed_page = (ok, s')" by fastforce
  show ?thesis using landed_keeps_text [OF typed_page(1,5) r] r by simp
qed

theorem undo_restores_witness:
  "c_text (h_now (undone 2 (typed [(js ''123'', Some (js ''k'')), (js ''1234'', Some (js ''k'')), ([], None)] typed_page)))
    = Some (js ''12'')"
  using undo_restores [OF typed_page(2,4), of "Some (js ''k'')" "[(js ''1234'', Some (js ''k'')), ([], None)]" "js ''123''"]
  by (simp add: typed_page top_key_def UNDO_DEPTH_def numeral_2_eq_2)

end
