(* ===== verification/Config_Checks.thy ===== *)
theory Config_Checks
  imports Canon Js_Text
begin

text \<open>
  \<open>config/deskConfig.ts\<close>, first part: what a problem is, and the checks of single members.  A check answers with
  a value and the problems it pushed, in order; \<^term>\<open>None\<close> is a thrown exception.  A member that is absent is
  \<^term>\<open>None\<close>.  A sentence is its template and what it quotes, as \<open>sourceMessage\<close> takes them; long templates are cut short.
\<close>

section \<open>Problems\<close>

datatype reason = Says string "jstr list"

abbreviation NotJson :: reason where "NotJson \<equiv> Says ''the file is not JSON'' []"
abbreviation FileNotObject :: "jstr \<Rightarrow> reason" where "FileNotObject d \<equiv> Says ''the file must be a JSON object; found {{value0}}'' [d]"
abbreviation Required :: reason where "Required \<equiv> Says ''required'' []"
abbreviation VersionMustBe :: "jstr \<Rightarrow> reason" where "VersionMustBe d \<equiv> Says ''must be 1; found {{value0}}'' [d]"
abbreviation UnknownKey :: reason where "UnknownKey \<equiv> Says ''unknown key'' []"
abbreviation IDENTITY_AT_PROJECT :: reason where "IDENTITY_AT_PROJECT \<equiv> Says ''identity may only be configured in the desk-level desk.json'' []"
abbreviation ASSISTANT_AT_PROJECT :: reason where "ASSISTANT_AT_PROJECT \<equiv> Says ''assistant may only be configured in the desk-level desk.json'' []"
abbreviation RESEARCH_AT_PROJECT :: reason where "RESEARCH_AT_PROJECT \<equiv> Says ''research may only be configured in the desk-level desk.json'' []"
abbreviation PROJECT_AT_PROJECT :: reason where "PROJECT_AT_PROJECT \<equiv> Says ''project may only be configured in the desk-level desk.json'' []"
abbreviation KEYS_ARE_NEVER_IN_CONFIGURATION :: reason where "KEYS_ARE_NEVER_IN_CONFIGURATION \<equiv> Says ''a key is never stored in configuration'' []"
abbreviation MustBeObject :: "jstr \<Rightarrow> reason" where "MustBeObject d \<equiv> Says ''must be an object; found {{value0}}'' [d]"
abbreviation MustBeString :: "jstr \<Rightarrow> reason" where "MustBeString d \<equiv> Says ''must be a string; found {{value0}}'' [d]"
abbreviation NonEmptyString :: "jstr \<Rightarrow> reason" where "NonEmptyString d \<equiv> Says ''must be a non-empty string; found {{value0}}'' [d]"
abbreviation StringOrNull :: "jstr \<Rightarrow> reason" where "StringOrNull d \<equiv> Says ''must be a string or null; found {{value0}}'' [d]"
abbreviation NonEmptyOrNull :: "jstr \<Rightarrow> reason" where "NonEmptyOrNull d \<equiv> Says ''must be a non-empty string or null; found {{value0}}'' [d]"
abbreviation ArrayOfStrings :: "jstr \<Rightarrow> reason" where "ArrayOfStrings d \<equiv> Says ''must be an array of strings; found {{value0}}'' [d]"
abbreviation MustBeBoolean :: "jstr \<Rightarrow> reason" where "MustBeBoolean d \<equiv> Says ''must be a boolean; found {{value0}}'' [d]"
abbreviation TrueOrFalse :: "jstr \<Rightarrow> reason" where "TrueOrFalse d \<equiv> Says ''must be true or false; found {{value0}}'' [d]"
abbreviation WholeNumber :: "jstr \<Rightarrow> reason" where "WholeNumber d \<equiv> Says ''must be a whole number of pixels; found {{value0}}'' [d]"
abbreviation MarkType :: "jstr \<Rightarrow> reason" where "MarkType d \<equiv> Says ''must be an inline SVG string, a data: URI, or null; found {{value0}}'' [d]"
abbreviation ORGANIZATION_MARK_SAYS :: reason where "ORGANIZATION_MARK_SAYS \<equiv> Says ''must begin with <svg or data:image/'' []"
abbreviation ProjectFileType :: "jstr \<Rightarrow> reason" where "ProjectFileType d \<equiv> Says ''must be an absolute path to a {{value0}}, or null; found {{value1}}'' [d]"
abbreviation ProjectFileRelative :: "jstr \<Rightarrow> reason" where "ProjectFileRelative d \<equiv> Says ''must be an absolute path; found {{value0}}'' [d]"
abbreviation ProjectFileName :: "jstr \<Rightarrow> reason" where "ProjectFileName d \<equiv> Says ''must name a {{value0}}; found {{value1}}'' [d]"
abbreviation STORAGE_KIND_SAYS :: "jstr \<Rightarrow> reason" where "STORAGE_KIND_SAYS d \<equiv> Says ''must be filesystem; found {{value0}}'' [d]"
abbreviation NO_CONTROL_CHARACTERS :: "jstr \<Rightarrow> reason" where "NO_CONTROL_CHARACTERS d \<equiv> Says ''must carry no control character; found {{value0}}'' [d]"
abbreviation NamesNoDirectory :: reason where "NamesNoDirectory \<equiv> Says ''must name a directory inside the project'' []"
abbreviation NotRelative :: reason where "NotRelative \<equiv> Says ''must be relative to the project, not absolute'' []"
abbreviation NotSlashSeparated :: reason where "NotSlashSeparated \<equiv> Says ''must be slash-separated and carry no backslash or colon'' []"
abbreviation DotSegment :: reason where "DotSegment \<equiv> Says ''must not contain an empty, . or .. path segment'' []"
abbreviation ExcludedDirectory :: "jstr \<Rightarrow> reason" where "ExcludedDirectory d \<equiv> Says ''must not name {{value0}}, which the desk never reads or writes'' [d]"
abbreviation TooDeep :: reason where "TooDeep \<equiv> Says ''must be at most {{value0}} directories deep'' []"
abbreviation ID_BASE_SAYS :: "jstr \<Rightarrow> reason" where "ID_BASE_SAYS d \<equiv> Says ''must be a URI; found {{value0}}'' [d]"
abbreviation NotAbsoluteUrl :: "jstr \<Rightarrow> reason" where "NotAbsoluteUrl d \<equiv> Says ''must be an absolute URL; found {{value0}}'' [d]"
abbreviation UrlUserinfo :: reason where "UrlUserinfo \<equiv> Says ''must not carry a user or password in the URL'' []"
abbreviation UrlFragment :: reason where "UrlFragment \<equiv> Says ''must not carry a fragment'' []"
abbreviation QuerySemicolon :: reason where "QuerySemicolon \<equiv> Says ''must not carry a semicolon in its query'' []"
abbreviation QueryUnreadable :: "jstr \<Rightarrow> reason" where "QueryUnreadable d \<equiv> Says ''has a query parameter this desk cannot read the same way a browser does ({{value0}})'' [d]"
abbreviation QueryReserved :: "jstr \<Rightarrow> reason" where "QueryReserved d \<equiv> Says ''must not carry {{value0}} in its query: it is a name the relay itself may add'' [d]"
abbreviation QueryCredential :: "jstr \<Rightarrow> reason" where "QueryCredential d \<equiv> Says ''must not carry {{value0}} in its query: a key is never stored in configuration'' [d]"
abbreviation UrlTransport :: reason where "UrlTransport \<equiv> Says ''must be an https: URL, or an http: URL on localhost or 127.0.0.1: a key sent in clear text is given away'' []"
abbreviation IssuerTransport :: reason where "IssuerTransport \<equiv> Says ''must be an https: URL, or an http: URL on localhost or 127.0.0.1'' []"
abbreviation GatewayQuery :: reason where "GatewayQuery \<equiv> Says ''must not carry a query'' []"
abbreviation GatewayAuthority :: "jstr \<Rightarrow> reason" where "GatewayAuthority d \<equiv> Says ''must be the gateways authority label as it was started with; found {{value0}}'' [d]"
abbreviation SignerAlgorithm :: "jstr \<Rightarrow> reason" where "SignerAlgorithm d \<equiv> Says ''must be ed25519; found {{value0}}'' [d]"
abbreviation SignerPublic :: "jstr \<Rightarrow> reason" where "SignerPublic d \<equiv> Says ''must be the public key as gateway keygen printed it; found {{value0}}'' [d]"
abbreviation SourceNameForm :: "jstr \<Rightarrow> reason" where "SourceNameForm d \<equiv> Says ''must be a gateway source name; found {{value0}}'' [d]"
abbreviation WebSourceName :: "jstr \<Rightarrow> reason" where "WebSourceName d \<equiv> Says ''must name the gateways public web source, web; found {{value0}}'' [d]"
abbreviation DiscoveryUnsupported :: reason where "DiscoveryUnsupported \<equiv> Says ''Unsupported website discovery source'' []"
abbreviation DocumentSourceName :: reason where "DocumentSourceName \<equiv> Says ''Enter the document source name configured on your gateway.'' []"
abbreviation RequestLimit :: reason where "RequestLimit \<equiv> Says ''The request limit must fit the encoded file plus 4096 bytes of metadata.'' []"
abbreviation ToolsRequired :: reason where "ToolsRequired \<equiv> Says ''required: an absent tool list would be a capability granted by a file that never mentioned it'' []"
abbreviation NotATool :: "jstr \<Rightarrow> reason" where "NotATool d \<equiv> Says ''{{value0}} is not a tool the assistant may call'' [d]"
abbreviation ApiKeyForm :: reason where "ApiKeyForm \<equiv> Says ''the api-key header is the form of an OpenAI-compatible endpoint'' []"
abbreviation HalfTheWindow :: reason where "HalfTheWindow \<equiv> Says ''must be at most half the context window'' []"
abbreviation ProbeTime :: "jstr \<Rightarrow> reason" where "ProbeTime d \<equiv> Says ''must be the time the probe ran, as an RFC 3339 timestamp; found {{value0}}'' [d]"
abbreviation NotEnabled :: "jstr \<Rightarrow> reason" where "NotEnabled d \<equiv> Says ''must be one of the models enabled for this endpoint; {{value0}} is not one of them'' [d]"
abbreviation ListedTwice :: "jstr \<Rightarrow> reason" where "ListedTwice d \<equiv> Says ''{{value0}} is listed twice; each model appears once'' [d]"
abbreviation MustBeNull :: reason where "MustBeNull \<equiv> Says ''must be null where no model is enabled'' []"
abbreviation MustNameAModel :: reason where "MustNameAModel \<equiv> Says ''must name one of the models enabled for this endpoint; found null'' []"
abbreviation AgentProvider :: reason where "AgentProvider \<equiv> Says ''must be openai'' []"
abbreviation AgentAuthMethod :: reason where "AgentAuthMethod \<equiv> Says ''must be subscription'' []"
abbreviation AgentModel :: reason where "AgentModel \<equiv> Says ''must be a non-empty model ID of at most 128 characters, or null'' []"
abbreviation AgentModels :: reason where "AgentModels \<equiv> Says ''must be an array of at most 128 unique model IDs'' []"
abbreviation AgentModelAllowed :: reason where "AgentModelAllowed \<equiv> Says ''must be an allowed model, or null when no models are allowed'' []"
abbreviation AgentTools :: reason where "AgentTools \<equiv> Says ''must be an explicit array of allowed assistant tools'' []"
abbreviation AgentEffort :: reason where "AgentEffort \<equiv> Says ''must be a supported Codex reasoning effort'' []"
abbreviation AgentRequired :: reason where "AgentRequired \<equiv> Says ''required when the Codex engine is selected'' []"

definition OneOf :: "jstr list \<Rightarrow> jstr \<Rightarrow> reason" where
  "OneOf choices d = Says ''must be one of {{value0}}; found {{value1}}'' [join_with (js '', '') (map stringify_string choices), d]"

definition IntegerFrom :: "int \<Rightarrow> int \<Rightarrow> jstr \<Rightarrow> reason" where
  "IntegerFrom low high d = Says ''must be an integer from {{value0}} to {{value1}}; found {{value2}}'' [idec low, idec high, d]"

definition PixelsBetween :: "int \<Rightarrow> int \<Rightarrow> jnum \<Rightarrow> reason" where
  "PixelsBetween low high n =
     Says ''must be between {{value0}} and {{value1}} pixels inclusive; found {{value2}}'' [idec low, idec high, number_text n]"

definition MarkTooLong :: "nat \<Rightarrow> reason" where
  "MarkTooLong n = Says ''must be at most {{value0}} bytes of UTF-8; found {{value1}}'' [dec 65536, dec n]"

type_synonym problem = "jstr \<times> reason"
type_synonym 'a checked = "('a \<times> problem list) option"

definition answer :: "'a \<Rightarrow> 'a checked" where
  "answer x = Some (x, [])"

definition pushed :: "jstr \<Rightarrow> reason \<Rightarrow> 'a \<Rightarrow> 'a checked" where
  "pushed key r x = Some (x, [(key, r)])"

text \<open>One check and then another: the second pushes its problems behind those of the first.\<close>

definition and_then :: "'a checked \<Rightarrow> ('a \<Rightarrow> 'b checked) \<Rightarrow> 'b checked" where
  "and_then f g = (case f of None \<Rightarrow> None | Some (x, ps) \<Rightarrow> map_option (apsnd ((@) ps)) (g x))"

definition pushed_if :: "bool \<Rightarrow> jstr \<Rightarrow> reason \<Rightarrow> unit checked" where
  "pushed_if b key r = (if b then pushed key r () else answer ())"

text \<open>A loop that checks each of a list's items, in order.\<close>

fun for_each :: "('a \<Rightarrow> 'b checked) \<Rightarrow> 'a list \<Rightarrow> 'b list checked" where
  "for_each f [] = answer []"
| "for_each f (x # xs) = and_then (f x) (\<lambda>y. and_then (for_each f xs) (\<lambda>ys. answer (y # ys)))"

text \<open>
  \<open>describe(value)\<close>.  \<open>String\<close> of an object throws when the object has a member \<open>toString\<close> of its own, since no
  JSON value can be called.
\<close>

definition describe :: "jval option \<Rightarrow> jstr option" where
  "describe v =
     (case v of
        None \<Rightarrow> Some (js ''undefined undefined'')
      | Some JNull \<Rightarrow> Some (js ''null'')
      | Some (JArr _) \<Rightarrow> Some (js ''an array'')
      | Some (JStr s) \<Rightarrow> Some (stringify_string s)
      | Some (JNum n) \<Rightarrow> Some (js ''number '' @ number_text n)
      | Some (JBool b) \<Rightarrow> Some (js ''boolean '' @ (if b then js ''true'' else js ''false''))
      | Some (JObj ms) \<Rightarrow>
          if map_of ms (js ''toString'') \<noteq> None then None else Some (js ''object [object Object]''))"

text \<open>The problem of a value that was found: its sentence quotes \<open>describe(value)\<close>.\<close>

definition refused :: "jstr \<Rightarrow> (jstr \<Rightarrow> reason) \<Rightarrow> jval option \<Rightarrow> 'a \<Rightarrow> 'a checked" where
  "refused key r v x = (case describe v of None \<Rightarrow> None | Some d \<Rightarrow> pushed key (r d) x)"

section \<open>Members\<close>

definition path_to :: "jstr \<Rightarrow> jstr \<Rightarrow> jstr" where
  "path_to key member = key @ uc CHR ''.'' # member"

text \<open>\<open>section\<close>\<close>

definition config_section ::
  "jval option \<Rightarrow> jstr \<Rightarrow> jstr list \<Rightarrow> (jstr \<times> jval) list option checked" where
  "config_section v key allowed =
     (case v of
        Some (JObj ms) \<Rightarrow>
          Some (Some ms, map (\<lambda>member. (path_to key member, UnknownKey)) (filter (\<lambda>m. m \<notin> set allowed) (own_keys ms)))
      | _ \<Rightarrow> refused key MustBeObject v None)"

definition optional_string :: "jval option \<Rightarrow> jstr \<Rightarrow> jstr option option checked" where
  "optional_string v key =
     (case v of
        None \<Rightarrow> answer None
      | Some JNull \<Rightarrow> answer (Some None)
      | Some (JStr s) \<Rightarrow> answer (Some (Some s))
      | _ \<Rightarrow> refused key StringOrNull v None)"

definition organizationName :: "jval option \<Rightarrow> jstr option option checked" where
  "organizationName v =
     and_then (optional_string v (js ''organization.name'')) (\<lambda>name.
       case name of
         Some (Some s) \<Rightarrow>
           if js_trim s = [] then refused (js ''organization.name'') NonEmptyOrNull v None else answer name
       | _ \<Rightarrow> answer name)"

definition MAX_MARK_BYTES :: nat where "MAX_MARK_BYTES = 65536"

definition byte_length :: "jstr \<Rightarrow> nat" where
  "byte_length t = length (text_bytes t)"

definition markValue :: "jval option \<Rightarrow> jstr \<Rightarrow> jstr option option checked" where
  "markValue v key =
     (case v of
        None \<Rightarrow> answer None
      | Some JNull \<Rightarrow> answer (Some None)
      | Some (JStr s) \<Rightarrow>
          (let trimmed = js_trim s in
           if \<not> prefix (js ''<svg'') trimmed \<and> \<not> prefix (js ''data:image/'') trimmed
           then pushed key ORGANIZATION_MARK_SAYS None
           else if MAX_MARK_BYTES < byte_length s then pushed key (MarkTooLong (byte_length s)) None
           else answer (Some (Some s)))
      | _ \<Rightarrow> refused key MarkType v None)"

definition oneOf :: "jval option \<Rightarrow> jstr \<Rightarrow> jstr list \<Rightarrow> jstr option checked" where
  "oneOf v key choices =
     (case v of
        None \<Rightarrow> answer None
      | Some (JStr s) \<Rightarrow> if s \<in> set choices then answer (Some s) else refused key (OneOf choices) v None
      | _ \<Rightarrow> refused key (OneOf choices) v None)"

definition boolean_value :: "jval option \<Rightarrow> jstr \<Rightarrow> bool option checked" where
  "boolean_value v key =
     (case v of
        None \<Rightarrow> answer None
      | Some (JBool b) \<Rightarrow> answer (Some b)
      | _ \<Rightarrow> refused key MustBeBoolean v None)"

text \<open>\<open>typeof value === 'number' && Number.isInteger(value)\<close>; a zero of either sign is \<open>0\<close>.\<close>

definition js_integer :: "jval option \<Rightarrow> int option" where
  "js_integer v = (case v of Some (JNum n) \<Rightarrow> integer_of n | _ \<Rightarrow> None)"

definition integer_from :: "int \<Rightarrow> int \<Rightarrow> jval option \<Rightarrow> int option" where
  "integer_from low high v =
     (case js_integer v of Some n \<Rightarrow> if low \<le> n \<and> n \<le> high then Some n else None | None \<Rightarrow> None)"

definition PANE_BOUNDS :: "(jstr \<times> int \<times> int) list" where
  "PANE_BOUNDS =
     [(js ''panes.left.width'', 160, 640), (js ''panes.inspector.width'', 240, 720), (js ''panes.console.height'', 80, 720)]"

definition dimension :: "jval option \<Rightarrow> jstr \<Rightarrow> int option checked" where
  "dimension v key =
     (case v of
        None \<Rightarrow> answer None
      | Some value \<Rightarrow>
          (case js_integer v of
             None \<Rightarrow> refused key WholeNumber v None
           | Some n \<Rightarrow>
               (case map_of PANE_BOUNDS key of
                  Some (low, high) \<Rightarrow>
                    if n < low \<or> high < n
                    then pushed key (PixelsBetween low high (case value of JNum x \<Rightarrow> x | _ \<Rightarrow> Finite False 0 0)) None
                    else answer (Some n)
                | None \<Rightarrow> answer (Some n))))"

section \<open>Credentials\<close>

definition KEY_LIKE :: "jstr list" where
  "KEY_LIKE = map js [''key'', ''secret'', ''token'', ''password'', ''credential'', ''bearer'', ''authorization'']"

definition contains :: "jstr \<Rightarrow> jstr \<Rightarrow> bool" where
  "contains t w \<longleftrightarrow> index_of_word w t \<noteq> None"

text \<open>\<open>toLowerCase\<close> is the argument \<open>lower\<close>.\<close>

definition isKeyLike :: "(jstr \<Rightarrow> jstr) \<Rightarrow> jstr \<Rightarrow> bool" where
  "isKeyLike lower name =
     (let folded = filter (\<lambda>c. 97 \<le> c \<and> c \<le> 122) (lower name) in list_ex (contains folded) KEY_LIKE)"

lemma enumerate_size [termination_simp]: "(i, x) \<in> set (enumerate n xs) \<Longrightarrow> size x < Suc (size_list size xs)"
proof -
  assume "(i, x) \<in> set (enumerate n xs)"
  then have "x \<in> set xs" by (auto simp: enumerate_eq_zip dest: set_zip_rightD)
  then show ?thesis by (simp add: size_list_estimation' le_imp_less_Suc)
qed

fun scanForKeys :: "(jstr \<Rightarrow> jstr) \<Rightarrow> jstr \<Rightarrow> jval \<Rightarrow> problem list" where
  "scanForKeys lower path (JArr xs) =
     concat (map (\<lambda>(i, x). scanForKeys lower (path @ open_bracket # dec i @ [close_bracket]) x) (enumerate 0 xs))"
| "scanForKeys lower path (JObj ms) =
     concat (in_key_order (map (\<lambda>(name, child).
       (let here = (if path = [] then name else path_to path name)
        in (name, (if isKeyLike lower name then [(here, KEYS_ARE_NEVER_IN_CONFIGURATION)] else [])
             @ scanForKeys lower here child))) ms))"
| "scanForKeys lower path v = []"

definition withoutRedundantReasons :: "problem list \<Rightarrow> problem list" where
  "withoutRedundantReasons ps =
     (let credentialed = set (map fst (filter (\<lambda>p. snd p = KEYS_ARE_NEVER_IN_CONFIGURATION) ps))
      in filter (\<lambda>p. snd p = KEYS_ARE_NEVER_IN_CONFIGURATION \<or> fst p \<notin> credentialed) ps)"

section \<open>Addresses\<close>

text \<open>What the platform reads: \<open>new URL\<close>, \<open>decodeURIComponent\<close>, \<open>toLowerCase\<close>, \<open>Date.parse\<close>.\<close>

record url =
  u_protocol :: jstr
  u_username :: jstr
  u_password :: jstr
  u_hostname :: jstr
  u_hash :: jstr

record web_platform =
  w_lower :: "jstr \<Rightarrow> jstr"
  w_url :: "jstr \<Rightarrow> url option"
  w_decodeURIComponent :: "jstr \<Rightarrow> jstr option"
  w_is_date :: "jstr \<Rightarrow> bool"

definition ends_with :: "jstr \<Rightarrow> jstr \<Rightarrow> bool" where
  "ends_with t w \<longleftrightarrow> suffix w t"

definition octet :: "jstr \<Rightarrow> int option" where
  "octet d = (if d \<noteq> [] \<and> length d \<le> 3 \<and> list_all is_digit d then Some (digits_value d) else None)"

definition lanHost :: "(jstr \<Rightarrow> jstr) \<Rightarrow> jstr \<Rightarrow> bool" where
  "lanHost lower host =
     (let l = lower host; name = (if ends_with l (js ''.'') then butlast l else l) in
      if name = [] then False
      else (case map octet (split_on (uc CHR ''.'') name) of
              [Some a, Some b, Some c, Some d] \<Rightarrow>
                if 255 < a \<or> 255 < b \<or> 255 < c \<or> 255 < d then False
                else a = 10 \<or> (a = 172 \<and> 16 \<le> b \<and> b \<le> 31) \<or> (a = 192 \<and> b = 168)
            | _ \<Rightarrow>
                if uc CHR ''.'' \<notin> set name
                then list_all (\<lambda>c. c \<noteq> colon \<and> c \<noteq> open_bracket \<and> c \<noteq> close_bracket) name
                else list_ex (\<lambda>sfx. ends_with name sfx) (map js [''.local'', ''.lan'', ''.internal'', ''.home.arpa''])))"

definition RESERVED_QUERY_NAMES :: "jstr list" where
  "RESERVED_QUERY_NAMES = map js [''alt'', ''pageToken'']"

definition isCredentialQueryName :: "(jstr \<Rightarrow> jstr) \<Rightarrow> jstr \<Rightarrow> bool" where
  "isCredentialQueryName lower name \<longleftrightarrow> isKeyLike lower name \<or> lower (js_trim name) = js ''auth''"

definition plus_to_space :: "jstr \<Rightarrow> jstr" where
  "plus_to_space = map (\<lambda>c. if c = uc CHR ''+'' then 32 else c)"

text \<open>One parameter of the query: the body of the loop, with the answer it returns with.\<close>

definition parameter_problem :: "web_platform \<Rightarrow> jstr \<Rightarrow> reason option" where
  "parameter_problem w parameter =
     (let halves = split_on (uc CHR ''='') parameter;
          name = hd halves;
          value = join_with (js ''='') (tl halves)
      in case (w_decodeURIComponent w (plus_to_space name), w_decodeURIComponent w (plus_to_space value)) of
           (Some decoded, Some _) \<Rightarrow>
             if list_ex (\<lambda>reserved. w_lower w reserved = w_lower w decoded) RESERVED_QUERY_NAMES
             then Some (QueryReserved (stringify_string decoded))
             else if isCredentialQueryName (w_lower w) decoded then Some (QueryCredential (stringify_string decoded))
             else None
         | _ \<Rightarrow> Some (QueryUnreadable (stringify_string parameter)))"

fun first_problem :: "('a \<Rightarrow> 'b option) \<Rightarrow> 'a list \<Rightarrow> 'b option" where
  "first_problem f [] = None"
| "first_problem f (x # xs) = (case f x of Some r \<Rightarrow> Some r | None \<Rightarrow> first_problem f xs)"

definition endpointQueryProblem :: "web_platform \<Rightarrow> jstr \<Rightarrow> reason option" where
  "endpointQueryProblem w raw =
     (case index_of_word (js ''?'') raw of
        None \<Rightarrow> None
      | Some start \<Rightarrow>
          (let query = drop (start + 1) raw in
           if query = [] then None
           else if uc CHR '';'' \<in> set query then Some QuerySemicolon
           else first_problem (parameter_problem w) (split_on (uc CHR ''&'') query)))"

definition loopback :: "url \<Rightarrow> bool" where
  "loopback u \<longleftrightarrow> u_hostname u = js ''localhost'' \<or> u_hostname u = js ''127.0.0.1''"

definition endpointUrlProblem :: "web_platform \<Rightarrow> jstr \<Rightarrow> bool \<Rightarrow> reason option" where
  "endpointUrlProblem w raw lan =
     (case w_url w raw of
        None \<Rightarrow> Some (NotAbsoluteUrl (stringify_string raw))
      | Some u \<Rightarrow>
          if u_username u \<noteq> [] \<or> u_password u \<noteq> [] then Some UrlUserinfo
          else if u_hash u \<noteq> [] \<or> uc CHR ''#'' \<in> set raw then Some UrlFragment
          else (case endpointQueryProblem w raw of
                  Some r \<Rightarrow> Some r
                | None \<Rightarrow>
                    if u_protocol u = js ''https:'' then None
                    else if u_protocol u = js ''http:'' \<and> loopback u then None
                    else if u_protocol u = js ''http:'' \<and> lan \<and> lanHost (w_lower w) (u_hostname u) then None
                    else Some UrlTransport))"

definition isAcceptableIssuer :: "web_platform \<Rightarrow> jstr \<Rightarrow> bool" where
  "isAcceptableIssuer w issuer =
     (case w_url w issuer of
        None \<Rightarrow> False
      | Some u \<Rightarrow> u_protocol u = js ''https:'' \<or> (u_protocol u = js ''http:'' \<and> loopback u))"

end
