(* ===== verification/Desk_Config.thy ===== *)
theory Desk_Config
  imports Config_Checks
begin

text \<open>
  \<open>config/deskConfig.ts\<close>, second part: the sections of a configuration file and the decoder.  A file with any
  problem is refused whole.  Members a section may leave out of its value are options.
\<close>

section \<open>What a file configures\<close>

record organization_config =
  o_name :: "jstr option"
  o_mark :: "jstr option"
  o_favicon :: "jstr option option"

record provider_config =
  ip_label :: "jstr option"
  ip_issuer :: jstr
  ip_clientId :: jstr
  ip_scopes :: "jstr list"
  ip_audience :: "jstr option"
  ip_name :: jstr
  ip_picture :: jstr
  ip_subject :: jstr
  ip_showRemoteAvatar :: bool
  ip_signOut :: jstr

type_synonym facts = "(jstr \<times> jval) list"

record capability_record =
  cr_probe :: "facts option"
  cr_override :: "facts option"

record endpoint_config =
  e_url :: jstr
  e_kind :: jstr
  e_model :: "jstr option"
  e_models :: "jstr list"
  e_tools :: "jstr list"
  e_auth :: "jstr option"
  e_lan :: bool
  e_capabilities :: "capability_record option"
  e_criticModel :: "jstr option"
  e_childModel :: "jstr option"
  e_capacity :: "int option"

record agent_config =
  ag_model :: "jstr option"
  ag_models :: "jstr list option"
  ag_tools :: "jstr list"
  ag_effort :: "jstr option"
  ag_criticModel :: "jstr option"
  ag_childModel :: "jstr option"

record assistant_config =
  as_agent :: "agent_config option"
  as_endpoint :: "endpoint_config option"
  as_engine :: jstr
  as_thinking :: jstr

record gateway_config =
  g_url :: jstr
  g_authority :: jstr
  g_public :: jstr

record research_source =
  rs_source :: jstr
  rs_dialect :: jstr

text \<open>Of a web source only whether it declares discovery varies.\<close>

record research_sources =
  src_search :: "research_source option"
  src_read :: "research_source option"
  src_web :: "bool option"

record research_limits =
  l_searches :: int
  l_reads :: int
  l_bytes :: int
  l_seconds :: int

record document_source =
  ds_enabled :: bool
  ds_source :: jstr
  ds_maxFileBytes :: int
  ds_maxRequestBytes :: int
  ds_maxResponseBytes :: int

text \<open>\<open>documents\<close> is absent, \<open>null\<close> or a source.\<close>

record research_config =
  r_gateway :: "gateway_config option"
  r_sources :: research_sources
  r_limits :: research_limits
  r_managedLocal :: bool
  r_documents :: "document_source option option"

record panes_config =
  left_mode :: jstr
  left_width :: int
  inspector_open :: bool
  inspector_width :: int
  console_open :: bool
  console_height :: int

record pack_storage =
  st_dir :: jstr
  st_idBase :: jstr

record declared_panes =
  leftWidth :: bool
  inspectorWidth :: bool
  consoleHeight :: bool

text \<open>\<open>Partial<DeskConfig>\<close>; the user is its display name, the project its file, the appearance theme and density.\<close>

record desk_values =
  v_organization :: "organization_config option"
  v_user :: "jstr option"
  v_identity :: "provider_config option option"
  v_assistant :: "assistant_config option"
  v_research :: "research_config option"
  v_project :: "jstr option option"
  v_appearance :: "(jstr \<times> jstr) option"
  v_panes :: "panes_config option"
  v_storage :: "pack_storage option"

datatype config_location = Project | Desk

text \<open>A notice is the member the decoder acted on; its sentence follows from it.\<close>

datatype config_notice = ASSISTANT_ENGINE_WITHDRAWN | NO_MODEL_CHOSEN

record decoded_config =
  dc_values :: "desk_values option"
  dc_problems :: "problem list"
  dc_notices :: "config_notice list"
  dc_declaredPanes :: "declared_panes option"
  dc_userNameDefaulted :: bool

section \<open>Defaults and closed lists\<close>

definition THEME_CHOICES :: "jstr list" where "THEME_CHOICES = map js [''system'', ''light'', ''dark'']"
definition DENSITIES :: "jstr list" where "DENSITIES = map js [''comfortable'', ''compact'']"
definition ASSISTANT_KINDS :: "jstr list" where
  "ASSISTANT_KINDS = map js [''openai-compatible'', ''anthropic'', ''gemini'']"
definition RESEARCH_DIALECTS :: "jstr list" where "RESEARCH_DIALECTS = map js [''tavily-search'', ''jina-reader'']"
definition ASSISTANT_TOOLS :: "jstr list" where
  "ASSISTANT_TOOLS = map js [''get_schema'', ''list_examples'', ''get_example'', ''validate'', ''experimental_evaluate'']"
definition ASSISTANT_ENGINES :: "jstr list" where "ASSISTANT_ENGINES = map js [''vercel'', ''codex'']"
definition WITHDRAWN_ASSISTANT_ENGINE :: jstr where "WITHDRAWN_ASSISTANT_ENGINE = js ''builtin''"
definition ASSISTANT_THINKING :: "jstr list" where "ASSISTANT_THINKING = map js [''off'', ''on'', ''ultra'']"
definition CODEX_EFFORTS :: "jstr list" where
  "CODEX_EFFORTS = map js [''none'', ''minimal'', ''low'', ''medium'', ''high'', ''xhigh'', ''max'']"
definition ENDPOINT_CAPACITY :: "int \<times> int" where "ENDPOINT_CAPACITY = (1, 16)"

definition RESEARCH_LIMIT_BOUNDS :: "(jstr \<times> int \<times> int) list" where
  "RESEARCH_LIMIT_BOUNDS =
     [(js ''searches'', 0, 50), (js ''reads'', 0, 100), (js ''bytes'', 65536, 67108864), (js ''seconds'', 30, 3600)]"

definition DOCUMENT_LIMIT_BOUNDS :: "(jstr \<times> int \<times> int) list" where
  "DOCUMENT_LIMIT_BOUNDS =
     [(js ''maxFileBytes'', 1, 16777216), (js ''maxRequestBytes'', 65536, 67108864),
      (js ''maxResponseBytes'', 65536, 16777216)]"

definition DOCUMENT_DEFAULTS :: document_source where
  "DOCUMENT_DEFAULTS =
     \<lparr>ds_enabled = True, ds_source = js ''documents'', ds_maxFileBytes = 16777216, ds_maxRequestBytes = 33554432,
      ds_maxResponseBytes = 8388608\<rparr>"

definition no_sources :: research_sources where
  "no_sources = \<lparr>src_search = None, src_read = None, src_web = None\<rparr>"

definition default_limits :: research_limits where
  "default_limits = \<lparr>l_searches = 8, l_reads = 12, l_bytes = 8388608, l_seconds = 600\<rparr>"

text \<open>\<open>DESK_DEFAULTS\<close>, as a file that states every section.\<close>

definition DESK_DEFAULTS :: desk_values where
  "DESK_DEFAULTS =
     \<lparr>v_organization = Some \<lparr>o_name = None, o_mark = None, o_favicon = None\<rparr>,
      v_user = Some (js ''local user''),
      v_identity = Some None,
      v_assistant = Some \<lparr>as_agent = None, as_endpoint = None, as_engine = js ''vercel'', as_thinking = js ''off''\<rparr>,
      v_research = Some \<lparr>r_gateway = None, r_sources = no_sources, r_limits = default_limits, r_managedLocal = False,
                          r_documents = None\<rparr>,
      v_project = Some None,
      v_appearance = Some (js ''system'', js ''comfortable''),
      v_panes = Some \<lparr>left_mode = js ''expanded'', left_width = 220, inspector_open = False, inspector_width = 360,
                       console_open = False, console_height = 240\<rparr>,
      v_storage = Some \<lparr>st_dir = js ''packs'', st_idBase = js ''https://example.invalid/judgment-packs/''\<rparr>\<rparr>"

definition NOTHING_DECLARED :: declared_panes where
  "NOTHING_DECLARED = \<lparr>leftWidth = False, inspectorWidth = False, consoleHeight = False\<rparr>"

definition COMMON_KEYS :: "jstr list" where
  "COMMON_KEYS = map js [''deskConfigVersion'', ''organization'', ''user'', ''appearance'', ''panes'', ''storage'']"
definition PROJECT_KEYS :: "jstr list" where "PROJECT_KEYS = COMMON_KEYS"
definition DESK_KEYS :: "jstr list" where
  "DESK_KEYS = COMMON_KEYS @ map js [''identity'', ''assistant'', ''research'', ''project'']"

section \<open>Organization and user\<close>

definition organization_section :: "jval \<Rightarrow> organization_config option checked" where
  "organization_section v =
     and_then (config_section (Some v) (js ''organization'') (map js [''name'', ''mark'', ''favicon''])) (\<lambda>sec.
     case sec of
       None \<Rightarrow> answer None
     | Some o' \<Rightarrow>
         and_then (organizationName (map_of o' (js ''name''))) (\<lambda>name.
         and_then (markValue (map_of o' (js ''mark'')) (js ''organization.mark'')) (\<lambda>mark.
         and_then (markValue (map_of o' (js ''favicon'')) (js ''organization.favicon'')) (\<lambda>favicon.
         answer (Some \<lparr>o_name = (case name of Some n \<Rightarrow> n | None \<Rightarrow> None),
                       o_mark = (case mark of Some m \<Rightarrow> m | None \<Rightarrow> None), o_favicon = favicon\<rparr>)))))"

definition user_section :: "jval \<Rightarrow> jstr option checked" where
  "user_section v =
     and_then (config_section (Some v) (js ''user'') [js ''displayName'']) (\<lambda>sec.
     case sec of
       None \<Rightarrow> answer None
     | Some u \<Rightarrow>
         (case map_of u (js ''displayName'') of
            None \<Rightarrow> answer (v_user DESK_DEFAULTS)
          | Some (JStr s) \<Rightarrow>
              if js_trim s = [] then refused (js ''user.displayName'') NonEmptyString (Some (JStr s)) (v_user DESK_DEFAULTS)
              else answer (Some s)
          | Some other \<Rightarrow> refused (js ''user.displayName'') NonEmptyString (Some other) (v_user DESK_DEFAULTS)))"

section \<open>Identity\<close>

definition all_strings :: "jval list \<Rightarrow> jstr list option" where
  "all_strings xs =
     (if list_all (\<lambda>x. case x of JStr _ \<Rightarrow> True | _ \<Rightarrow> False) xs
      then Some (map (\<lambda>x. case x of JStr s \<Rightarrow> s | _ \<Rightarrow> []) xs) else None)"

definition string_array :: "jval option \<Rightarrow> jstr list option" where
  "string_array v = (case v of Some (JArr xs) \<Rightarrow> all_strings xs | _ \<Rightarrow> None)"

definition claim_value :: "(jstr \<times> jval) list \<Rightarrow> jstr \<Rightarrow> jstr \<Rightarrow> jstr checked" where
  "claim_value declared member dflt =
     (case map_of declared member of
        None \<Rightarrow> answer dflt
      | Some (JStr s) \<Rightarrow>
          if s = [] then refused (path_to (js ''identity.provider.claims'') member) NonEmptyString (Some (JStr s)) dflt
          else answer s
      | Some other \<Rightarrow> refused (path_to (js ''identity.provider.claims'') member) NonEmptyString (Some other) dflt)"

definition default_claims :: "jstr \<times> jstr \<times> jstr" where
  "default_claims = (js ''name'', js ''picture'', js ''sub'')"

definition claims_value :: "jval option \<Rightarrow> (jstr \<times> jstr \<times> jstr) checked" where
  "claims_value v =
     (case v of
        None \<Rightarrow> answer default_claims
      | Some _ \<Rightarrow>
          and_then (config_section v (js ''identity.provider.claims'') (map js [''name'', ''picture'', ''subject''])) (\<lambda>sec.
          case sec of
            None \<Rightarrow> answer default_claims
          | Some d \<Rightarrow>
              and_then (claim_value d (js ''name'') (js ''name'')) (\<lambda>name.
              and_then (claim_value d (js ''picture'') (js ''picture'')) (\<lambda>picture.
              and_then (claim_value d (js ''subject'') (js ''sub'')) (\<lambda>subject. answer (name, picture, subject))))))"

definition issuer_value :: "web_platform \<Rightarrow> jval option \<Rightarrow> jstr checked" where
  "issuer_value w v =
     (case v of
        Some (JStr issuer) \<Rightarrow>
          and_then (pushed_if (\<not> isAcceptableIssuer w issuer) (js ''identity.provider.issuer'') IssuerTransport)
            (\<lambda>_. answer issuer)
      | _ \<Rightarrow> refused (js ''identity.provider.issuer'') MustBeString v [])"

definition client_value :: "jval option \<Rightarrow> jstr checked" where
  "client_value v =
     (case v of
        Some (JStr s) \<Rightarrow> if s = [] then refused (js ''identity.provider.clientId'') NonEmptyString v [] else answer s
      | _ \<Rightarrow> refused (js ''identity.provider.clientId'') NonEmptyString v [])"

definition scopes_value :: "jval option \<Rightarrow> jstr list checked" where
  "scopes_value v =
     (let dflt = map js [''openid'', ''profile''] in
      if v = None then answer dflt
      else (case string_array v of
              Some scopes \<Rightarrow> answer scopes
            | None \<Rightarrow> refused (js ''identity.provider.scopes'') ArrayOfStrings v dflt))"

definition providerValue :: "web_platform \<Rightarrow> jval option \<Rightarrow> provider_config option checked" where
  "providerValue w v =
     (if v = None \<or> v = Some JNull then answer None
      else and_then (config_section v (js ''identity.provider'')
        (map js [''label'', ''issuer'', ''clientId'', ''scopes'', ''audience'', ''claims'', ''showRemoteAvatar'', ''signOut''])) (\<lambda>sec.
      case sec of
        None \<Rightarrow> answer None
      | Some p \<Rightarrow>
          and_then (issuer_value w (map_of p (js ''issuer''))) (\<lambda>issuer.
          and_then (client_value (map_of p (js ''clientId''))) (\<lambda>clientId.
          and_then (scopes_value (map_of p (js ''scopes''))) (\<lambda>scopes.
          and_then (claims_value (map_of p (js ''claims''))) (\<lambda>claims.
          and_then (optional_string (map_of p (js ''label'')) (js ''identity.provider.label'')) (\<lambda>label.
          and_then (optional_string (map_of p (js ''audience'')) (js ''identity.provider.audience'')) (\<lambda>audience.
          and_then (boolean_value (map_of p (js ''showRemoteAvatar'')) (js ''identity.provider.showRemoteAvatar'')) (\<lambda>avatar.
          and_then (oneOf (map_of p (js ''signOut'')) (js ''identity.provider.signOut'') (map js [''local'', ''provider''])) (\<lambda>signOut.
          answer (Some \<lparr>ip_label = (case label of Some l \<Rightarrow> l | None \<Rightarrow> None), ip_issuer = issuer, ip_clientId = clientId,
            ip_scopes = scopes, ip_audience = (case audience of Some a \<Rightarrow> a | None \<Rightarrow> None),
            ip_name = fst claims, ip_picture = fst (snd claims), ip_subject = snd (snd claims),
            ip_showRemoteAvatar = (case avatar of Some b \<Rightarrow> b | None \<Rightarrow> False),
            ip_signOut = (case signOut of Some s \<Rightarrow> s | None \<Rightarrow> js ''local'')\<rparr>)))))))))))"

definition identity_section :: "web_platform \<Rightarrow> jval \<Rightarrow> provider_config option option checked" where
  "identity_section w v =
     and_then (config_section (Some v) (js ''identity'') [js ''provider'']) (\<lambda>sec.
     case sec of
       None \<Rightarrow> answer None
     | Some i \<Rightarrow> and_then (providerValue w (map_of i (js ''provider''))) (\<lambda>p. answer (Some p)))"

section \<open>Research\<close>

definition AUTHORITY_LABEL :: "jstr \<Rightarrow> bool" where
  "AUTHORITY_LABEL t \<longleftrightarrow> 1 \<le> length t \<and> length t \<le> 128 \<and> list_all (\<lambda>c. 0x21 \<le> c \<and> c \<le> 0x7E) t"

definition PUBLIC_KEY_HEX :: "jstr \<Rightarrow> bool" where
  "PUBLIC_KEY_HEX t \<longleftrightarrow> length t = 64 \<and> list_all is_lower_hex t"

definition SOURCE_NAME :: "jstr \<Rightarrow> bool" where
  "SOURCE_NAME t \<longleftrightarrow> 1 \<le> length t \<and> length t \<le> 128
     \<and> list_all (\<lambda>c. (65 \<le> c \<and> c \<le> 90) \<or> (97 \<le> c \<and> c \<le> 122) \<or> is_digit c \<or> c \<in> set (js ''._/-'')) t"

text \<open>\<open>typeof x === 'string' ? x.trim() : undefined\<close>, and what is pushed where nothing is left.\<close>

definition trimmed_string :: "jval option \<Rightarrow> jstr option" where
  "trimmed_string v = (case v of Some (JStr s) \<Rightarrow> Some (js_trim s) | _ \<Rightarrow> None)"

definition url_value :: "(jstr \<Rightarrow> reason option) \<Rightarrow> jstr \<Rightarrow> jval option \<Rightarrow> jstr checked" where
  "url_value url_problem key v =
     (case trimmed_string v of
        None \<Rightarrow> refused key NonEmptyString v []
      | Some u \<Rightarrow>
          if u = [] then refused key NonEmptyString v []
          else (case url_problem u of Some r \<Rightarrow> pushed key r u | None \<Rightarrow> answer u))"

definition gateway_url_problem :: "web_platform \<Rightarrow> jstr \<Rightarrow> reason option" where
  "gateway_url_problem w u =
     (case endpointUrlProblem w u False of
        Some r \<Rightarrow> Some r
      | None \<Rightarrow> if uc CHR ''?'' \<in> set u then Some GatewayQuery else None)"

definition matching_string :: "(jstr \<Rightarrow> bool) \<Rightarrow> jstr \<Rightarrow> (jstr \<Rightarrow> reason) \<Rightarrow> jval option \<Rightarrow> jstr checked" where
  "matching_string matches key r v =
     (case v of
        Some (JStr s) \<Rightarrow> if matches s then answer s else refused key r v []
      | _ \<Rightarrow> refused key r v [])"

definition signer_value :: "jval option \<Rightarrow> jstr checked" where
  "signer_value v =
     and_then (config_section v (js ''research.gateway.signer'') (map js [''algorithm'', ''public''])) (\<lambda>sec.
     case sec of
       None \<Rightarrow> answer []
     | Some s \<Rightarrow>
         and_then (if map_of s (js ''algorithm'') = Some (JStr (js ''ed25519'')) then answer ()
                   else refused (js ''research.gateway.signer.algorithm'') SignerAlgorithm (map_of s (js ''algorithm'')) ()) (\<lambda>_.
         matching_string PUBLIC_KEY_HEX (js ''research.gateway.signer.public'') SignerPublic (map_of s (js ''public''))))"

definition researchGatewayValue :: "web_platform \<Rightarrow> jval option \<Rightarrow> gateway_config option checked" where
  "researchGatewayValue w v =
     (if v = None \<or> v = Some JNull then answer None
      else and_then (config_section v (js ''research.gateway'') (map js [''url'', ''authority'', ''signer''])) (\<lambda>sec.
      case sec of
        None \<Rightarrow> answer None
      | Some g \<Rightarrow>
          and_then (url_value (gateway_url_problem w) (js ''research.gateway.url'') (map_of g (js ''url''))) (\<lambda>u.
          and_then (matching_string AUTHORITY_LABEL (js ''research.gateway.authority'') GatewayAuthority
                      (map_of g (js ''authority''))) (\<lambda>authority.
          and_then (signer_value (map_of g (js ''signer''))) (\<lambda>public.
          answer (Some \<lparr>g_url = u, g_authority = authority, g_public = public\<rparr>))))))"

definition researchSourceValue :: "jval option \<Rightarrow> jstr \<Rightarrow> research_source option checked" where
  "researchSourceValue v key =
     (if v = None \<or> v = Some JNull then answer None
      else and_then (config_section v key (map js [''source'', ''dialect''])) (\<lambda>sec.
      case sec of
        None \<Rightarrow> answer None
      | Some s \<Rightarrow>
          and_then (case map_of s (js ''source'') of
                      Some (JStr name) \<Rightarrow>
                        if SOURCE_NAME name then answer name
                        else refused (path_to key (js ''source'')) SourceNameForm (Some (JStr name)) name
                    | other \<Rightarrow> refused (path_to key (js ''source'')) SourceNameForm other []) (\<lambda>name.
          and_then (oneOf (map_of s (js ''dialect'')) (path_to key (js ''dialect'')) RESEARCH_DIALECTS) (\<lambda>dialect.
          and_then (pushed_if (map_of s (js ''dialect'') = None) (path_to key (js ''dialect'')) Required) (\<lambda>_.
          answer (Some \<lparr>rs_source = name,
            rs_dialect = (case dialect of Some d \<Rightarrow> d | None \<Rightarrow> hd RESEARCH_DIALECTS)\<rparr>))))))"

definition webSourceValue :: "jval option \<Rightarrow> bool option checked" where
  "webSourceValue v =
     (if v = None \<or> v = Some JNull then answer None
      else and_then (config_section v (js ''research.sources.web'') (map js [''source'', ''discovery''])) (\<lambda>sec.
      case sec of
        None \<Rightarrow> answer None
      | Some s \<Rightarrow>
          if map_of s (js ''source'') \<noteq> Some (JStr (js ''web''))
          then refused (js ''research.sources.web.source'') WebSourceName (map_of s (js ''source'')) None
          else if map_of s (js ''discovery'') \<noteq> None \<and> map_of s (js ''discovery'') \<noteq> Some (JStr (js ''web-discovery''))
          then pushed (js ''research.sources.web.discovery'') DiscoveryUnsupported None
          else answer (Some (map_of s (js ''discovery'') \<noteq> None))))"

definition researchSourcesValue :: "jval option \<Rightarrow> research_sources checked" where
  "researchSourcesValue v =
     (if v = None then answer no_sources
      else and_then (config_section v (js ''research.sources'') (map js [''search'', ''read'', ''web''])) (\<lambda>sec.
      case sec of
        None \<Rightarrow> answer no_sources
      | Some s \<Rightarrow>
          and_then (researchSourceValue (map_of s (js ''search'')) (js ''research.sources.search'')) (\<lambda>search.
          and_then (researchSourceValue (map_of s (js ''read'')) (js ''research.sources.read'')) (\<lambda>read.
          and_then (webSourceValue (map_of s (js ''web''))) (\<lambda>web.
          answer \<lparr>src_search = search, src_read = read, src_web = web\<rparr>)))))"

text \<open>One bounded integer of a section: absent it keeps its default, and so it does where it is refused.\<close>

definition bounded_member :: "jstr \<Rightarrow> (jstr \<times> int \<times> int) list \<Rightarrow> (jstr \<times> jval) list \<Rightarrow> jstr \<Rightarrow> int \<Rightarrow> int checked" where
  "bounded_member scope bounds declared member dflt =
     (let (low, high) = the (map_of bounds member); given = map_of declared member in
      if given = None then answer dflt
      else (case integer_from low high given of
              Some n \<Rightarrow> answer n
            | None \<Rightarrow> refused (path_to scope member) (IntegerFrom low high) given dflt))"

definition researchLimitsValue :: "jval option \<Rightarrow> research_limits checked" where
  "researchLimitsValue v =
     (if v = None then answer default_limits
      else and_then (config_section v (js ''research.limits'') (map fst RESEARCH_LIMIT_BOUNDS)) (\<lambda>sec.
      case sec of
        None \<Rightarrow> answer default_limits
      | Some d \<Rightarrow>
          (let limit = bounded_member (js ''research.limits'') RESEARCH_LIMIT_BOUNDS d in
           and_then (limit (js ''searches'') (l_searches default_limits)) (\<lambda>searches.
           and_then (limit (js ''reads'') (l_reads default_limits)) (\<lambda>reads.
           and_then (limit (js ''bytes'') (l_bytes default_limits)) (\<lambda>bytes.
           and_then (limit (js ''seconds'') (l_seconds default_limits)) (\<lambda>seconds.
           answer \<lparr>l_searches = searches, l_reads = reads, l_bytes = bytes, l_seconds = seconds\<rparr>)))))))"

text \<open>\<open>Math.ceil(n / 3)\<close> on a positive integer.\<close>

definition encoded_size :: "int \<Rightarrow> int" where
  "encoded_size n = 4 * ((n + 2) div 3) + 4096"

definition documentSourceValue :: "jval option \<Rightarrow> document_source option option checked" where
  "documentSourceValue v =
     (if v = Some JNull then answer (Some None)
      else and_then (config_section v (js ''research.documents'')
        (map js [''enabled'', ''source''] @ map fst DOCUMENT_LIMIT_BOUNDS)) (\<lambda>sec.
      case sec of
        None \<Rightarrow> answer None
      | Some d \<Rightarrow>
          (let limit = bounded_member (js ''research.documents'') DOCUMENT_LIMIT_BOUNDS d in
           and_then (boolean_value (map_of d (js ''enabled'')) (js ''research.documents.enabled'')) (\<lambda>enabled.
           and_then (case map_of d (js ''source'') of
                       Some (JStr name) \<Rightarrow>
                         if SOURCE_NAME name then answer name
                         else pushed (js ''research.documents.source'') DocumentSourceName (ds_source DOCUMENT_DEFAULTS)
                     | _ \<Rightarrow> pushed (js ''research.documents.source'') DocumentSourceName (ds_source DOCUMENT_DEFAULTS)) (\<lambda>name.
           and_then (limit (js ''maxFileBytes'') (ds_maxFileBytes DOCUMENT_DEFAULTS)) (\<lambda>file.
           and_then (limit (js ''maxRequestBytes'') (ds_maxRequestBytes DOCUMENT_DEFAULTS)) (\<lambda>request.
           and_then (limit (js ''maxResponseBytes'') (ds_maxResponseBytes DOCUMENT_DEFAULTS)) (\<lambda>response.
           and_then (pushed_if (request < encoded_size file) (js ''research.documents.maxRequestBytes'') RequestLimit) (\<lambda>_.
           answer (Some (Some \<lparr>ds_enabled = (case enabled of Some b \<Rightarrow> b | None \<Rightarrow> ds_enabled DOCUMENT_DEFAULTS),
             ds_source = name, ds_maxFileBytes = file, ds_maxRequestBytes = request, ds_maxResponseBytes = response\<rparr>)))))))))))"

definition research_section :: "web_platform \<Rightarrow> jval \<Rightarrow> research_config option checked" where
  "research_section w v =
     and_then (config_section (Some v) (js ''research'') (map js [''gateway'', ''sources'', ''limits'', ''documents''])) (\<lambda>sec.
     case sec of
       None \<Rightarrow> answer None
     | Some r \<Rightarrow>
         and_then (researchGatewayValue w (map_of r (js ''gateway''))) (\<lambda>gateway.
         and_then (researchSourcesValue (map_of r (js ''sources''))) (\<lambda>sources.
         and_then (researchLimitsValue (map_of r (js ''limits''))) (\<lambda>limits.
         and_then (if map_of r (js ''documents'') = None then answer None else documentSourceValue (map_of r (js ''documents''))) (\<lambda>documents.
         answer (Some \<lparr>r_gateway = gateway, r_sources = sources, r_limits = limits, r_managedLocal = False,
           r_documents = documents\<rparr>))))))"

end
