(* ===== verification/Desk_Decode.thy ===== *)
theory Desk_Decode
  imports Desk_Config
begin

text \<open>
  \<open>config/deskConfig.ts\<close>, third part: the assistant, the project, the appearance, the panes and the storage of a
  configuration file, and \<open>decodeDeskConfig\<close>.
\<close>

section \<open>Models\<close>

text \<open>\<open>modelIdProblem\<close>: the outer \<^term>\<open>None\<close> is an exception, the inner one an acceptable value.\<close>

definition modelIdProblem :: "jval option \<Rightarrow> reason option option" where
  "modelIdProblem v =
     (case trimmed_string v of
        Some m \<Rightarrow> if m = [] then map_option (\<lambda>d. Some (NonEmptyString d)) (describe v) else Some None
      | None \<Rightarrow> map_option (\<lambda>d. Some (NonEmptyString d)) (describe v))"

definition modelAddProblem :: "jval option \<Rightarrow> jstr list \<Rightarrow> reason option option" where
  "modelAddProblem v models =
     (case modelIdProblem v of
        Some None \<Rightarrow>
          (let m = the (trimmed_string v) in Some (if m \<in> set models then Some (ListedTwice (stringify_string m)) else None))
      | other \<Rightarrow> other)"

definition modelDefaultProblem :: "jstr option \<Rightarrow> jstr list \<Rightarrow> reason option" where
  "modelDefaultProblem model models =
     (if models = [] then (if model = None then None else Some MustBeNull)
      else (case model of
              None \<Rightarrow> Some MustNameAModel
            | Some m \<Rightarrow> if m \<in> set models then None else Some (NotEnabled (stringify_string m))))"

text \<open>\<open>modelSet\<close>: its loop, and the whole.\<close>

fun model_entries :: "jstr list \<Rightarrow> jval list \<Rightarrow> jstr list checked" where
  "model_entries enabled [] = answer enabled"
| "model_entries enabled (x # xs) =
     (case modelAddProblem (Some x) enabled of
        None \<Rightarrow> None
      | Some (Some r) \<Rightarrow> and_then (pushed (js ''assistant.endpoint.models'') r ()) (\<lambda>_. model_entries enabled xs)
      | Some None \<Rightarrow> model_entries (enabled @ [the (trimmed_string (Some x))]) xs)"

definition modelSet :: "jval option \<Rightarrow> jstr list checked" where
  "modelSet v =
     (case v of
        Some (JArr xs) \<Rightarrow> model_entries [] xs
      | _ \<Rightarrow> refused (js ''assistant.endpoint.models'') ArrayOfStrings v [])"

definition subordinateModel :: "(jstr \<times> jval) list \<Rightarrow> jstr \<Rightarrow> jstr \<Rightarrow> jstr list \<Rightarrow> jstr option checked" where
  "subordinateModel rec member scope enabled =
     (let declared = map_of rec member in
      if declared = None \<or> declared = Some JNull then answer None
      else (case modelIdProblem declared of
              None \<Rightarrow> None
            | Some (Some r) \<Rightarrow> pushed (path_to scope member) r None
            | Some None \<Rightarrow>
                (let m = the (trimmed_string declared) in
                 if m \<notin> set enabled then pushed (path_to scope member) (NotEnabled (stringify_string m)) None
                 else answer (Some m))))"

section \<open>Capabilities\<close>

definition absent :: "jval option \<Rightarrow> bool" where
  "absent v \<longleftrightarrow> v = None \<or> v = Some JNull"

definition fact_flag :: "jstr \<Rightarrow> (jstr \<times> jval) list \<Rightarrow> jstr \<Rightarrow> facts checked" where
  "fact_flag scope rec member =
     (let given = map_of rec member in
      if absent given then answer []
      else (case given of
              Some (JBool b) \<Rightarrow> answer [(member, JBool b)]
            | _ \<Rightarrow> refused (path_to scope member) TrueOrFalse given []))"

definition fact_number :: "jstr \<Rightarrow> (jstr \<times> jval) list \<Rightarrow> jstr \<Rightarrow> int \<Rightarrow> int \<Rightarrow> facts checked" where
  "fact_number scope rec member low high =
     (let given = map_of rec member in
      if absent given then answer []
      else if integer_from low high given = None then refused (path_to scope member) (IntegerFrom low high) given []
      else answer [(member, the given)])"

definition fact_choice :: "jstr \<Rightarrow> (jstr \<times> jval) list \<Rightarrow> jstr \<Rightarrow> jstr list \<Rightarrow> facts checked" where
  "fact_choice scope rec member allowed =
     (let given = map_of rec member in
      if absent given then answer []
      else (case given of
              Some (JStr s) \<Rightarrow>
                if s \<in> set allowed then answer [(member, JStr s)]
                else refused (path_to scope member) (OneOf allowed) given []
            | _ \<Rightarrow> refused (path_to scope member) (OneOf allowed) given []))"

definition REASONING_KINDS_ON :: "(jstr \<times> jstr list) list" where
  "REASONING_KINDS_ON =
     [(js ''openai-compatible'', map js [''openai-effort'', ''none'']),
      (js ''anthropic'', map js [''anthropic-thinking'', ''none'']),
      (js ''gemini'', map js [''gemini-thinking'', ''none''])]"

definition CAPABILITY_MEMBERS :: "jstr list" where
  "CAPABILITY_MEMBERS =
     map js [''contextWindow'', ''outputReserve'', ''nativeToolCalls'', ''parallelToolCalls'', ''vision'',
       ''reasoningKind'', ''reasoningIgnored'', ''reasoningField'', ''wholeJsonAnswer'', ''toolSchemas'',
       ''statePlacement'', ''strictAlternation'']"

definition over_half :: "facts \<Rightarrow> facts \<Rightarrow> bool" where
  "over_half window reserve =
     (case (js_integer (map_of window (js ''contextWindow'')), js_integer (map_of reserve (js ''outputReserve''))) of
        (Some n, Some r) \<Rightarrow> n div 2 < r
      | _ \<Rightarrow> False)"

definition capabilityFacts :: "jval option \<Rightarrow> jstr \<Rightarrow> jstr \<Rightarrow> jstr list \<Rightarrow> facts option checked" where
  "capabilityFacts v scope kind extra =
     and_then (config_section v scope (CAPABILITY_MEMBERS @ extra)) (\<lambda>sec.
     case sec of
       None \<Rightarrow> answer None
     | Some rec \<Rightarrow>
         and_then (fact_number scope rec (js ''contextWindow'') 4096 2000000) (\<lambda>window.
         and_then (fact_number scope rec (js ''outputReserve'') 1024 1000000) (\<lambda>reserve.
         and_then (pushed_if (over_half window reserve) (path_to scope (js ''outputReserve'')) HalfTheWindow) (\<lambda>_.
         and_then (for_each (fact_flag scope rec) (map js [''nativeToolCalls'', ''parallelToolCalls'', ''vision''])) (\<lambda>flags.
         and_then (fact_choice scope rec (js ''reasoningKind'')
                    (case map_of REASONING_KINDS_ON kind of Some ks \<Rightarrow> ks | None \<Rightarrow> [js ''none''])) (\<lambda>reasoning.
         and_then (fact_flag scope rec (js ''reasoningIgnored'')) (\<lambda>ignored.
         and_then (fact_choice scope rec (js ''reasoningField'') (map js [''reasoning'', ''reasoning_content''])) (\<lambda>field.
         and_then (fact_flag scope rec (js ''wholeJsonAnswer'')) (\<lambda>wholeAnswer.
         and_then (fact_choice scope rec (js ''toolSchemas'') (map js [''json-schema'', ''gemini-subset''])) (\<lambda>schemas.
         and_then (fact_choice scope rec (js ''statePlacement'') (map js [''trailing-user'', ''system-tail''])) (\<lambda>placing.
         and_then (fact_flag scope rec (js ''strictAlternation'')) (\<lambda>strict.
         answer (Some (window @ reserve @ concat flags @ reasoning @ ignored @ field @ wholeAnswer @ schemas @ placing @ strict
           @ concat (map (\<lambda>name. case map_of rec name of None \<Rightarrow> [] | Some x \<Rightarrow> [(name, x)]) extra)))))))))))))))"

text \<open>The shape of an RFC 3339 timestamp; \<open>d\<close> stands for a digit.\<close>

definition of_shape :: "jstr \<Rightarrow> jstr \<Rightarrow> bool" where
  "of_shape shape t \<longleftrightarrow> list_all2 (\<lambda>p c. if p = uc CHR ''d'' then is_digit c else p = c) shape t"

definition rfc3339 :: "jstr \<Rightarrow> bool" where
  "rfc3339 t =
     (let r = drop 19 t;
          fraction = takeWhile is_digit (drop 1 r);
          zone = (if r \<noteq> [] \<and> hd r = uc CHR ''.'' then drop (1 + length fraction) r else r)
      in of_shape (js ''dddd-dd-ddTdd:dd:dd'') (take 19 t)
         \<and> (r \<noteq> [] \<and> hd r = uc CHR ''.'' \<longrightarrow> fraction \<noteq> [])
         \<and> (zone = js ''Z'' \<or> of_shape (js ''+dd:dd'') zone \<or> of_shape (js ''-dd:dd'') zone))"

definition probe_time :: "web_platform \<Rightarrow> facts \<Rightarrow> bool" where
  "probe_time w fs =
     (case map_of fs (js ''at'') of
        Some (JStr t) \<Rightarrow> length t \<le> 64 \<and> rfc3339 t \<and> w_is_date w t
      | _ \<Rightarrow> False)"

definition capabilityRecord :: "web_platform \<Rightarrow> jval option \<Rightarrow> jstr \<Rightarrow> capability_record option checked" where
  "capabilityRecord w v kind =
     and_then (config_section v (js ''assistant.endpoint.capabilities'') (map js [''probe'', ''override''])) (\<lambda>sec.
     case sec of
       None \<Rightarrow> answer None
     | Some rec \<Rightarrow>
         (case and_then (if absent (map_of rec (js ''probe'')) then answer None
                         else and_then (capabilityFacts (map_of rec (js ''probe''))
                                (js ''assistant.endpoint.capabilities.probe'') kind [js ''at'']) (\<lambda>fs.
                              case fs of
                                None \<Rightarrow> answer None
                              | Some facts \<Rightarrow>
                                  if probe_time w facts then answer (Some facts)
                                  else refused (js ''assistant.endpoint.capabilities.probe.at'') ProbeTime
                                         (map_of facts (js ''at'')) None)) (\<lambda>probe.
               and_then (if absent (map_of rec (js ''override'')) then answer None
                         else capabilityFacts (map_of rec (js ''override''))
                                (js ''assistant.endpoint.capabilities.override'') kind []) (\<lambda>override.
               answer (probe, override))) of
            None \<Rightarrow> None
          | Some ((probe, override), ps) \<Rightarrow>
              if ps \<noteq> [] then Some (None, ps)
              else if probe = None \<and> override = None then answer None
              else answer (Some \<lparr>cr_probe = probe, cr_override = override\<rparr>)))"

section \<open>The endpoint\<close>

definition lan_value :: "jval option \<Rightarrow> bool checked" where
  "lan_value v =
     (if absent v then answer False
      else (case v of Some (JBool b) \<Rightarrow> answer b | _ \<Rightarrow> refused (js ''assistant.endpoint.lan'') TrueOrFalse v False))"

definition model_value :: "jval option \<Rightarrow> jstr option checked" where
  "model_value v =
     (if absent v then answer None
      else (case modelIdProblem v of
              None \<Rightarrow> None
            | Some (Some r) \<Rightarrow> pushed (js ''assistant.endpoint.model'') r None
            | Some None \<Rightarrow> answer (trimmed_string v)))"

text \<open>The enabled set, and the default held to it where the set itself was clean.\<close>

definition models_value :: "jstr option \<Rightarrow> jval option \<Rightarrow> jstr list checked" where
  "models_value model v =
     (case (if v = None then answer (case model of None \<Rightarrow> [] | Some m \<Rightarrow> [m]) else modelSet v) of
        None \<Rightarrow> None
      | Some (models, ps) \<Rightarrow>
          Some (models, ps @ (if ps = [] then (case modelDefaultProblem model models of
                                                  None \<Rightarrow> [] | Some r \<Rightarrow> [(js ''assistant.endpoint.model'', r)])
                              else [])))"

definition tools_value :: "jval option \<Rightarrow> jstr list checked" where
  "tools_value v =
     (if v = None then pushed (js ''assistant.endpoint.tools'') ToolsRequired []
      else (case string_array v of
              None \<Rightarrow> refused (js ''assistant.endpoint.tools'') ArrayOfStrings v []
            | Some tools \<Rightarrow>
                Some (tools, map (\<lambda>t. (js ''assistant.endpoint.tools'', NotATool (stringify_string t)))
                               (filter (\<lambda>t. t \<notin> set ASSISTANT_TOOLS) tools))))"

definition capacity_value :: "jval option \<Rightarrow> int option checked" where
  "capacity_value v =
     (if absent v then answer None
      else (case integer_from (fst ENDPOINT_CAPACITY) (snd ENDPOINT_CAPACITY) v of
              Some n \<Rightarrow> answer (Some n)
            | None \<Rightarrow> refused (js ''assistant.endpoint.capacity'')
                        (IntegerFrom (fst ENDPOINT_CAPACITY) (snd ENDPOINT_CAPACITY)) v None))"

definition auth_value :: "jval option \<Rightarrow> jstr option \<Rightarrow> jstr option checked" where
  "auth_value v kind =
     (if absent v then answer None
      else (let forms = map js [''bearer'', ''api-key'']; no = refused (js ''assistant.endpoint.auth'') (OneOf forms) v None in
            case v of
              Some (JStr s) \<Rightarrow>
                if s \<notin> set forms then no
                else if s = js ''api-key'' \<and> kind \<noteq> Some (js ''openai-compatible'')
                then pushed (js ''assistant.endpoint.auth'') ApiKeyForm None
                else if s = js ''api-key'' then answer (Some s)
                else answer None
            | _ \<Rightarrow> no))"

definition endpoint_members :: "jstr list" where
  "endpoint_members =
     map js [''url'', ''kind'', ''model'', ''models'', ''tools'', ''criticModel'', ''childModel'', ''capacity'', ''auth'',
       ''lan'', ''capabilities'']"

definition kind_or_default :: "jstr option \<Rightarrow> jstr" where
  "kind_or_default kind = (case kind of Some k \<Rightarrow> k | None \<Rightarrow> js ''openai-compatible'')"

definition endpointValue :: "web_platform \<Rightarrow> jval option \<Rightarrow> (endpoint_config option \<times> config_notice list) checked" where
  "endpointValue w v =
     (if absent v then answer (None, [])
      else and_then (config_section v (js ''assistant.endpoint'') endpoint_members) (\<lambda>sec.
      case sec of
        None \<Rightarrow> answer (None, [])
      | Some e \<Rightarrow>
          and_then (lan_value (map_of e (js ''lan''))) (\<lambda>lan.
          and_then (url_value (\<lambda>u. endpointUrlProblem w u lan) (js ''assistant.endpoint.url'') (map_of e (js ''url''))) (\<lambda>u.
          and_then (oneOf (map_of e (js ''kind'')) (js ''assistant.endpoint.kind'') ASSISTANT_KINDS) (\<lambda>kind.
          and_then (pushed_if (map_of e (js ''kind'') = None) (js ''assistant.endpoint.kind'') Required) (\<lambda>_.
          and_then (model_value (map_of e (js ''model''))) (\<lambda>model.
          and_then (models_value model (map_of e (js ''models''))) (\<lambda>models.
          and_then (tools_value (map_of e (js ''tools''))) (\<lambda>tools.
          and_then (subordinateModel e (js ''criticModel'') (js ''assistant.endpoint'') models) (\<lambda>critic.
          and_then (subordinateModel e (js ''childModel'') (js ''assistant.endpoint'') models) (\<lambda>childM.
          and_then (capacity_value (map_of e (js ''capacity''))) (\<lambda>capacity.
          and_then (auth_value (map_of e (js ''auth'')) kind) (\<lambda>auth.
          and_then (if absent (map_of e (js ''capabilities'')) then answer None
                    else capabilityRecord w (map_of e (js ''capabilities'')) (kind_or_default kind)) (\<lambda>capabilities.
          answer (Some \<lparr>e_url = u, e_kind = kind_or_default kind, e_model = model, e_models = models, e_tools = tools,
              e_auth = auth, e_lan = lan, e_capabilities = capabilities, e_criticModel = critic, e_childModel = childM,
              e_capacity = capacity\<rparr>,
            if models = [] then [NO_MODEL_CHOSEN] else [])))))))))))))))"

section \<open>The agent and the engine\<close>

text \<open>\<open>new TextEncoder().encode(id).byteLength > 128 || /[\r\n\0]/.test(id)\<close> does not hold.\<close>

definition bounded_id :: "jstr \<Rightarrow> bool" where
  "bounded_id t \<longleftrightarrow> byte_length t \<le> 128 \<and> 13 \<notin> set t \<and> 10 \<notin> set t \<and> 0 \<notin> set t"

definition agent_model :: "jval option \<Rightarrow> jstr option checked" where
  "agent_model v =
     (if absent v then answer None
      else (case v of
              Some (JStr s) \<Rightarrow>
                if js_trim s \<noteq> [] \<and> bounded_id s then answer (Some (js_trim s))
                else pushed (js ''assistant.agent.model'') AgentModel None
            | _ \<Rightarrow> pushed (js ''assistant.agent.model'') AgentModel None))"

definition agent_models :: "jstr option \<Rightarrow> jval option \<Rightarrow> jstr list option checked" where
  "agent_models model v =
     (if v = None then answer None
      else (case string_array v of
              Some ids \<Rightarrow>
                if length ids \<le> 128 \<and> list_all (\<lambda>t. js_trim t \<noteq> [] \<and> t = js_trim t \<and> bounded_id t) ids \<and> distinct ids
                then and_then (pushed_if (case model of None \<Rightarrow> ids \<noteq> [] | Some m \<Rightarrow> m \<notin> set ids)
                                 (js ''assistant.agent.model'') AgentModelAllowed) (\<lambda>_. answer (Some ids))
                else pushed (js ''assistant.agent.models'') AgentModels None
            | None \<Rightarrow> pushed (js ''assistant.agent.models'') AgentModels None))"

definition agent_tools :: "jval option \<Rightarrow> jstr list checked" where
  "agent_tools v =
     (case string_array v of
        Some ts \<Rightarrow>
          if set ts \<subseteq> set ASSISTANT_TOOLS then answer ts else pushed (js ''assistant.agent.tools'') AgentTools []
      | None \<Rightarrow> pushed (js ''assistant.agent.tools'') AgentTools [])"

definition agent_effort :: "jval option \<Rightarrow> jstr option checked" where
  "agent_effort v =
     (case v of
        None \<Rightarrow> answer None
      | Some (JStr s) \<Rightarrow>
          if s \<in> set CODEX_EFFORTS then answer (Some s) else pushed (js ''assistant.agent.effort'') AgentEffort None
      | _ \<Rightarrow> pushed (js ''assistant.agent.effort'') AgentEffort None)"

definition agent_members :: "jstr list" where
  "agent_members =
     map js [''provider'', ''authMethod'', ''model'', ''models'', ''tools'', ''effort'', ''criticModel'', ''childModel'']"

definition agentValue :: "jval option \<Rightarrow> agent_config option checked" where
  "agentValue v =
     and_then (config_section v (js ''assistant.agent'') agent_members) (\<lambda>sec.
     case sec of
       None \<Rightarrow> answer None
     | Some a \<Rightarrow>
         and_then (pushed_if (map_of a (js ''provider'') \<noteq> Some (JStr (js ''openai''))) (js ''assistant.agent.provider'') AgentProvider) (\<lambda>_.
         and_then (pushed_if (map_of a (js ''authMethod'') \<noteq> Some (JStr (js ''subscription''))) (js ''assistant.agent.authMethod'') AgentAuthMethod) (\<lambda>_.
         and_then (agent_model (map_of a (js ''model''))) (\<lambda>model.
         and_then (agent_models model (map_of a (js ''models''))) (\<lambda>models.
         and_then (agent_tools (map_of a (js ''tools''))) (\<lambda>tools.
         and_then (agent_effort (map_of a (js ''effort''))) (\<lambda>effort.
         (let allowed = (case models of Some ms \<Rightarrow> ms | None \<Rightarrow> (case model of None \<Rightarrow> [] | Some m \<Rightarrow> [m])) in
         and_then (subordinateModel a (js ''criticModel'') (js ''assistant.agent'') allowed) (\<lambda>critic.
         and_then (subordinateModel a (js ''childModel'') (js ''assistant.agent'') allowed) (\<lambda>childM.
         answer (Some \<lparr>ag_model = model, ag_models = models, ag_tools = tools, ag_effort = effort,
           ag_criticModel = critic, ag_childModel = childM\<rparr>)))))))))))"

definition engineValue :: "jval option \<Rightarrow> (jstr \<times> config_notice list) checked" where
  "engineValue v =
     (if v = Some (JStr WITHDRAWN_ASSISTANT_ENGINE) then answer (js ''vercel'', [ASSISTANT_ENGINE_WITHDRAWN])
      else and_then (oneOf v (js ''assistant.engine'') ASSISTANT_ENGINES) (\<lambda>e.
           answer (case e of Some x \<Rightarrow> x | None \<Rightarrow> js ''vercel'', [])))"

definition assistant_section :: "web_platform \<Rightarrow> jval \<Rightarrow> (assistant_config option \<times> config_notice list) checked" where
  "assistant_section w v =
     and_then (config_section (Some v) (js ''assistant'') (map js [''endpoint'', ''engine'', ''thinking'', ''agent''])) (\<lambda>sec.
     case sec of
       None \<Rightarrow> answer (None, [])
     | Some a \<Rightarrow>
         and_then (if absent (map_of a (js ''agent'')) then answer None else agentValue (map_of a (js ''agent''))) (\<lambda>agent.
         and_then (pushed_if (map_of a (js ''engine'') = Some (JStr (js ''codex'')) \<and> agent = None)
                    (js ''assistant.agent'') AgentRequired) (\<lambda>_.
         and_then (endpointValue w (map_of a (js ''endpoint''))) (\<lambda>endpoint.
         and_then (engineValue (map_of a (js ''engine''))) (\<lambda>engine.
         and_then (oneOf (map_of a (js ''thinking'')) (js ''assistant.thinking'') ASSISTANT_THINKING) (\<lambda>thinking.
         answer (Some \<lparr>as_agent = agent, as_endpoint = fst endpoint, as_engine = fst engine,
                       as_thinking = (case thinking of Some t \<Rightarrow> t | None \<Rightarrow> js ''off'')\<rparr>,
                 snd endpoint @ snd engine)))))))"

section \<open>The project's file\<close>

definition PROJECT_CONFIG_NAME :: jstr where "PROJECT_CONFIG_NAME = js ''jpack-desk.json''"

definition isAbsolutePath :: "jstr \<Rightarrow> bool" where
  "isAbsolutePath path \<longleftrightarrow>
     (case path of
        [] \<Rightarrow> False
      | c # r \<Rightarrow> c = slash \<or> c = backslash
          \<or> (((65 \<le> c \<and> c \<le> 90) \<or> (97 \<le> c \<and> c \<le> 122))
             \<and> (case r of d # s # _ \<Rightarrow> d = colon \<and> (s = slash \<or> s = backslash) | _ \<Rightarrow> False)))"

definition lastSegment :: "jstr \<Rightarrow> jstr" where
  "lastSegment path = rev (takeWhile (\<lambda>c. c \<noteq> slash \<and> c \<noteq> backslash) (rev path))"

definition projectFile :: "jval option \<Rightarrow> jstr option checked" where
  "projectFile v =
     (if absent v then answer None
      else (case v of
              Some (JStr s) \<Rightarrow>
                (let trimmed = js_trim s in
                 if \<not> isAbsolutePath trimmed then refused (js ''project.file'') ProjectFileRelative v None
                 else if lastSegment trimmed \<noteq> PROJECT_CONFIG_NAME then refused (js ''project.file'') ProjectFileName v None
                 else answer (Some trimmed))
            | _ \<Rightarrow> refused (js ''project.file'') ProjectFileType v None))"

definition project_section :: "jval \<Rightarrow> jstr option option checked" where
  "project_section v =
     and_then (config_section (Some v) (js ''project'') [js ''file'']) (\<lambda>sec.
     case sec of None \<Rightarrow> answer None | Some p \<Rightarrow> and_then (projectFile (map_of p (js ''file''))) (\<lambda>f. answer (Some f)))"

section \<open>Appearance, panes and storage\<close>

definition or_default :: "'a \<Rightarrow> 'a option \<Rightarrow> 'a" where
  "or_default d v = (case v of Some x \<Rightarrow> x | None \<Rightarrow> d)"

definition appearance_section :: "jval \<Rightarrow> (jstr \<times> jstr) option checked" where
  "appearance_section v =
     and_then (config_section (Some v) (js ''appearance'') (map js [''theme'', ''density''])) (\<lambda>sec.
     case sec of
       None \<Rightarrow> answer None
     | Some a \<Rightarrow>
         and_then (oneOf (map_of a (js ''theme'')) (js ''appearance.theme'') THEME_CHOICES) (\<lambda>theme.
         and_then (oneOf (map_of a (js ''density'')) (js ''appearance.density'') DENSITIES) (\<lambda>density.
         answer (Some (or_default (js ''system'') theme, or_default (js ''comfortable'') density)))))"

text \<open>A pane that is absent, or was refused, has no member to read.\<close>

definition pane_section :: "(jstr \<times> jval) list \<Rightarrow> jstr \<Rightarrow> jstr \<Rightarrow> jstr list \<Rightarrow> (jstr \<times> jval) list option checked" where
  "pane_section panes member key allowed =
     (case map_of panes member of None \<Rightarrow> answer None | v \<Rightarrow> config_section v key allowed)"

definition pane_member :: "(jstr \<times> jval) list option \<Rightarrow> jstr \<Rightarrow> jval option" where
  "pane_member sec member = (case sec of None \<Rightarrow> None | Some s \<Rightarrow> map_of s member)"

definition declares :: "(jstr \<times> jval) list option \<Rightarrow> jstr \<Rightarrow> bool" where
  "declares sec member \<longleftrightarrow> pane_member sec member \<noteq> None"

definition panes_section :: "jval \<Rightarrow> (panes_config option \<times> declared_panes) checked" where
  "panes_section v =
     and_then (config_section (Some v) (js ''panes'') (map js [''left'', ''inspector'', ''console''])) (\<lambda>sec.
     case sec of
       None \<Rightarrow> answer (None, NOTHING_DECLARED)
     | Some p \<Rightarrow>
         and_then (pane_section p (js ''left'') (js ''panes.left'') (map js [''mode'', ''width''])) (\<lambda>left.
         and_then (pane_section p (js ''inspector'') (js ''panes.inspector'') (map js [''open'', ''width''])) (\<lambda>insp.
         and_then (pane_section p (js ''console'') (js ''panes.console'') (map js [''open'', ''height''])) (\<lambda>cons.
         and_then (oneOf (pane_member left (js ''mode'')) (js ''panes.left.mode'') (map js [''expanded'', ''icons''])) (\<lambda>mode.
         and_then (dimension (pane_member left (js ''width'')) (js ''panes.left.width'')) (\<lambda>lw.
         and_then (boolean_value (pane_member insp (js ''open'')) (js ''panes.inspector.open'')) (\<lambda>io.
         and_then (dimension (pane_member insp (js ''width'')) (js ''panes.inspector.width'')) (\<lambda>iw.
         and_then (boolean_value (pane_member cons (js ''open'')) (js ''panes.console.open'')) (\<lambda>co.
         and_then (dimension (pane_member cons (js ''height'')) (js ''panes.console.height'')) (\<lambda>ch.
         answer (Some \<lparr>left_mode = or_default (js ''expanded'') mode, left_width = or_default 220 lw,
                       inspector_open = or_default False io, inspector_width = or_default 360 iw,
                       console_open = or_default False co, console_height = or_default 240 ch\<rparr>,
                 \<lparr>leftWidth = declares left (js ''width''), inspectorWidth = declares insp (js ''width''),
                  consoleHeight = declares cons (js ''height'')\<rparr>)))))))))))"

definition storageKind :: "jval option \<Rightarrow> unit checked" where
  "storageKind v =
     (if v = None \<or> v = Some (JStr (js ''filesystem'')) then answer ()
      else refused (js ''storage.packs.kind'') STORAGE_KIND_SAYS v ())"

definition EXCLUDED_DIRECTORIES :: "jstr list" where
  "EXCLUDED_DIRECTORIES = map js [''.desk-private'', ''.git'', ''node_modules'', ''dist'', ''.venv'', ''vendor'']"
definition STAGING_PREFIX :: jstr where "STAGING_PREFIX = js ''.jpack-desk-''"
definition MAX_PACK_DIR_DEPTH :: nat where "MAX_PACK_DIR_DEPTH = 64"

definition CONTROL_CHARACTER :: "jstr \<Rightarrow> bool" where
  "CONTROL_CHARACTER t \<longleftrightarrow> list_ex (\<lambda>c. c \<le> 0x1F \<or> c = 0x7F) t"

definition without_trailing_slashes :: "jstr \<Rightarrow> jstr" where
  "without_trailing_slashes t = rev (dropWhile (\<lambda>c. c = slash) (rev t))"

definition excluded_part :: "(jstr \<Rightarrow> jstr) \<Rightarrow> jstr \<Rightarrow> bool" where
  "excluded_part lower part \<longleftrightarrow> prefix STAGING_PREFIX (lower part)
     \<or> list_ex (\<lambda>name. lower name = lower part) EXCLUDED_DIRECTORIES"

definition packDir :: "(jstr \<Rightarrow> jstr) \<Rightarrow> jval option \<Rightarrow> jstr option checked" where
  "packDir lower v =
     (let bad = (\<lambda>r. pushed (js ''storage.packs.dir'') r None) in
      case v of
        None \<Rightarrow> answer None
      | Some (JStr s) \<Rightarrow>
          if CONTROL_CHARACTER s then refused (js ''storage.packs.dir'') NO_CONTROL_CHARACTERS v None
          else
            (let trimmed = without_trailing_slashes (js_trim s); parts = split_on slash trimmed in
             if trimmed = [] then bad NamesNoDirectory
             else if hd trimmed = slash then bad NotRelative
             else if backslash \<in> set trimmed \<or> colon \<in> set trimmed then bad NotSlashSeparated
             else if list_ex (\<lambda>p. p = js ''..'' \<or> p = js ''.'' \<or> p = []) parts then bad DotSegment
             else (case find (excluded_part lower) parts of
                     Some p \<Rightarrow> bad (ExcludedDirectory p)
                   | None \<Rightarrow> if MAX_PACK_DIR_DEPTH < length parts then bad TooDeep else answer (Some trimmed)))
      | _ \<Rightarrow> refused (js ''storage.packs.dir'') MustBeString v None)"

definition idBase :: "web_platform \<Rightarrow> jval option \<Rightarrow> jstr option checked" where
  "idBase w v =
     (let key = js ''storage.packs.idBase'' in
      case v of
        None \<Rightarrow> answer None
      | Some (JStr s) \<Rightarrow>
          if CONTROL_CHARACTER s then refused key NO_CONTROL_CHARACTERS v None
          else if js_trim s = [] then refused key NonEmptyString v None
          else if w_url w (js_trim s) = None then refused key ID_BASE_SAYS v None
          else answer (Some (if ends_with (js_trim s) (js ''/'') \<or> ends_with (js_trim s) (js ''#'') then js_trim s
                             else js_trim s @ js ''/''))
      | _ \<Rightarrow> refused key NonEmptyString v None)"

definition storage_section :: "web_platform \<Rightarrow> jval \<Rightarrow> pack_storage option checked" where
  "storage_section w v =
     and_then (config_section (Some v) (js ''storage'') [js ''packs'']) (\<lambda>sec.
     case sec of
       None \<Rightarrow> answer None
     | Some st \<Rightarrow>
         and_then (pane_section st (js ''packs'') (js ''storage.packs'') (map js [''kind'', ''dir'', ''idBase''])) (\<lambda>packs.
         and_then (storageKind (pane_member packs (js ''kind''))) (\<lambda>_.
         and_then (packDir (w_lower w) (pane_member packs (js ''dir''))) (\<lambda>dir.
         and_then (idBase w (pane_member packs (js ''idBase''))) (\<lambda>base.
         answer (Some \<lparr>st_dir = or_default (js ''packs'') dir,
                       st_idBase = or_default (js ''https://example.invalid/judgment-packs/'') base\<rparr>))))))"

section \<open>The file\<close>

definition version_check :: "(jstr \<times> jval) list \<Rightarrow> unit checked" where
  "version_check rec =
     (case map_of rec (js ''deskConfigVersion'') of
        None \<Rightarrow> pushed (js ''deskConfigVersion'') Required ()
      | Some (JNum n) \<Rightarrow>
          if num_eq n (to_double False 1 1) then answer ()
          else refused (js ''deskConfigVersion'') VersionMustBe (Some (JNum n)) ()
      | Some v \<Rightarrow> refused (js ''deskConfigVersion'') VersionMustBe (Some v) ())"

definition key_problem :: "config_location \<Rightarrow> jstr \<Rightarrow> reason option" where
  "key_problem location key =
     (if key \<in> set (if location = Project then PROJECT_KEYS else DESK_KEYS) then None
      else if location = Project \<and> key = js ''identity'' then Some IDENTITY_AT_PROJECT
      else if location = Project \<and> key = js ''assistant'' then Some ASSISTANT_AT_PROJECT
      else if location = Project \<and> key = js ''research'' then Some RESEARCH_AT_PROJECT
      else if location = Project \<and> key = js ''project'' then Some PROJECT_AT_PROJECT
      else Some UnknownKey)"

definition key_check :: "config_location \<Rightarrow> (jstr \<times> jval) list \<Rightarrow> unit checked" where
  "key_check location rec =
     Some ((), concat (map (\<lambda>k. case key_problem location k of None \<Rightarrow> [] | Some r \<Rightarrow> [(k, r)]) (own_keys rec)))"

text \<open>\<open>if (name in record && here)\<close> around the reading of one section.\<close>

definition at_section :: "bool \<Rightarrow> (jstr \<times> jval) list \<Rightarrow> jstr \<Rightarrow> 'a \<Rightarrow> (jval \<Rightarrow> 'a checked) \<Rightarrow> 'a checked" where
  "at_section here rec name dflt read =
     (case map_of rec name of Some v \<Rightarrow> if here then read v else answer dflt | None \<Rightarrow> answer dflt)"

definition read_sections ::
  "web_platform \<Rightarrow> config_location \<Rightarrow> (jstr \<times> jval) list \<Rightarrow> (desk_values \<times> config_notice list \<times> declared_panes) checked" where
  "read_sections w location rec =
     (let desk = (location = Desk) in
      and_then (at_section True rec (js ''organization'') None organization_section) (\<lambda>organization.
      and_then (at_section True rec (js ''user'') None user_section) (\<lambda>user.
      and_then (at_section desk rec (js ''identity'') None (identity_section w)) (\<lambda>identity.
      and_then (at_section desk rec (js ''assistant'') (None, []) (assistant_section w)) (\<lambda>assistant.
      and_then (at_section desk rec (js ''research'') None (research_section w)) (\<lambda>research.
      and_then (at_section desk rec (js ''project'') None project_section) (\<lambda>project.
      and_then (at_section True rec (js ''appearance'') None appearance_section) (\<lambda>appearance.
      and_then (at_section True rec (js ''panes'') (None, NOTHING_DECLARED) panes_section) (\<lambda>panes.
      and_then (at_section True rec (js ''storage'') None (storage_section w)) (\<lambda>storage.
      answer (\<lparr>v_organization = organization, v_user = user, v_identity = identity, v_assistant = fst assistant,
               v_research = research, v_project = project, v_appearance = appearance, v_panes = fst panes,
               v_storage = storage\<rparr>, snd assistant, snd panes)))))))))))"

text \<open>Each pair of a key and a reason once, where it came first.\<close>

fun firsts :: "'a list \<Rightarrow> 'a list \<Rightarrow> 'a list" where
  "firsts seen [] = []"
| "firsts seen (p # ps) = (if p \<in> set seen then firsts seen ps else p # firsts (p # seen) ps)"

definition refused_file :: "reason \<Rightarrow> decoded_config" where
  "refused_file r =
     \<lparr>dc_values = None, dc_problems = [([], r)], dc_notices = [], dc_declaredPanes = None, dc_userNameDefaulted = False\<rparr>"

text \<open>\<^term>\<open>None\<close> is a thrown exception.\<close>

definition decodeDeskConfig :: "web_platform \<Rightarrow> jstr \<Rightarrow> config_location \<Rightarrow> decoded_config option" where
  "decodeDeskConfig w src location =
     (case JSON_parse src of
        None \<Rightarrow> Some (refused_file NotJson)
      | Some (JObj rec) \<Rightarrow>
          (case and_then (version_check rec) (\<lambda>_.
                and_then (key_check location rec) (\<lambda>_. read_sections w location rec)) of
             None \<Rightarrow> None
           | Some ((values, notices, declared), ps) \<Rightarrow>
               (let unique = firsts [] (withoutRedundantReasons (scanForKeys (w_lower w) [] (JObj rec) @ ps)) in
                if unique \<noteq> [] then
                  Some \<lparr>dc_values = None, dc_problems = unique, dc_notices = [], dc_declaredPanes = Some declared,
                        dc_userNameDefaulted = False\<rparr>
                else
                  Some \<lparr>dc_values = Some values, dc_problems = [], dc_notices = notices, dc_declaredPanes = Some declared,
                        dc_userNameDefaulted = (v_user values \<noteq> None
                          \<and> (case map_of rec (js ''user'') of Some (JObj u) \<Rightarrow> map_of u (js ''displayName'') = None | _ \<Rightarrow> True))\<rparr>))
      | Some other \<Rightarrow> map_option (\<lambda>d. refused_file (FileNotObject d)) (describe (Some other)))"

end
