(* ===== verification/Config_Facts.thy ===== *)
theory Config_Facts
  imports Desk_Decode Json_Proper Pack_Path
begin

text \<open>
  What a decoded configuration guarantees: no member anywhere is named like a credential, every bounded value is in
  its bounds, the models and tools of an endpoint hold together, the pack directory is a path inside the project,
  and a project file says nothing about the machine.
\<close>

declare scanForKeys.simps [simp del]

section \<open>Checks one after the other\<close>

named_theorems check_defs \<open>the checks of single members\<close>

lemmas [check_defs] = answer_def pushed_def pushed_if_def refused_def

text \<open>A sequence of checks is clean when each of them is.\<close>

lemma and_then_clean [simp]:
  "and_then f g = Some (y, []) \<longleftrightarrow> (\<exists>x. f = Some (x, []) \<and> g x = Some (y, []))"
proof (cases f)
  case (Some p)
  then show ?thesis by (cases p) (auto simp: and_then_def apsnd_def map_prod_def split: prod.splits)
qed (simp add: and_then_def)

lemma answer_clean [simp]: "answer x = Some (y, ps) \<longleftrightarrow> y = x \<and> ps = []"
  by (auto simp: answer_def)

lemma pushed_clean [simp]: "pushed key r x \<noteq> Some (y, [])"
  by (simp add: pushed_def)

lemma pushed_if_clean [simp]: "pushed_if b key r = Some (y, []) \<longleftrightarrow> \<not> b"
  by (simp add: pushed_if_def)

lemma refused_clean [simp]: "refused key r v x \<noteq> Some (y, [])"
  by (simp add: refused_def split: option.split)

lemma section_clean:
  "config_section v key allowed = Some (sec, []) \<Longrightarrow> \<exists>ms. v = Some (JObj ms) \<and> sec = Some ms \<and> fst ` set ms \<subseteq> set allowed"
  by (auto simp: config_section_def filter_empty_conv split: option.splits jval.splits)

section \<open>The problems that are left\<close>

lemma set_firsts: "set (firsts seen ps) = set ps - set seen"
  by (induction seen ps rule: firsts.induct) auto

lemma distinct_firsts: "distinct (firsts seen ps)"
  by (induction seen ps rule: firsts.induct) (auto simp: set_firsts)

lemma redundant_keeps: "(loc, KEYS_ARE_NEVER_IN_CONFIGURATION) \<in> set ps \<Longrightarrow> (loc, KEYS_ARE_NEVER_IN_CONFIGURATION) \<in> set (withoutRedundantReasons ps)"
  by (simp add: withoutRedundantReasons_def Let_def)

lemma redundant_empty: "withoutRedundantReasons ps = [] \<longleftrightarrow> ps = []"
proof
  assume e: "withoutRedundantReasons ps = []"
  show "ps = []"
  proof (rule ccontr)
    assume "ps \<noteq> []"
    then obtain k r where p: "(k, r) \<in> set ps" by (cases ps) auto
    then have "snd (k, r) \<noteq> KEYS_ARE_NEVER_IN_CONFIGURATION" "k \<in> fst ` {p \<in> set ps. snd p = KEYS_ARE_NEVER_IN_CONFIGURATION}"
      using e by (auto simp: withoutRedundantReasons_def Let_def filter_empty_conv)
    then show False using redundant_keeps [of k ps] e by force
  qed
qed (simp add: withoutRedundantReasons_def)

lemma unique_empty: "firsts [] (withoutRedundantReasons ps) = [] \<longleftrightarrow> ps = []"
  using set_firsts [of "[]" "withoutRedundantReasons ps"] redundant_empty [of ps] by (metis Diff_empty set_empty empty_set)

lemma read_file:
  assumes "decodeDeskConfig w src location = Some d" "JSON_parse src = Some (JObj ms)"
  obtains vals notices declared ps where
    "and_then (version_check ms) (\<lambda>_. and_then (key_check location ms) (\<lambda>_. read_sections w location ms))
       = Some ((vals, notices, declared), ps)"
    "dc_problems d = firsts [] (withoutRedundantReasons (scanForKeys (w_lower w) [] (JObj ms) @ ps))"
    "dc_values d = (if dc_problems d = [] then Some vals else None)"
proof -
  let ?r = "and_then (version_check ms) (\<lambda>_. and_then (key_check location ms) (\<lambda>_. read_sections w location ms))"
  obtain vals notices declared ps where r: "?r = Some ((vals, notices, declared), ps)"
    using assms by (cases ?r) (auto simp: decodeDeskConfig_def)
  have e: "dc_problems d = firsts [] (withoutRedundantReasons (scanForKeys (w_lower w) [] (JObj ms) @ ps))"
    using assms(1) by (auto simp: decodeDeskConfig_def assms(2) r Let_def split: if_splits)
  moreover have "dc_values d = (if dc_problems d = [] then Some vals else None)"
    using assms(1) unfolding e by (auto simp: decodeDeskConfig_def assms(2) r Let_def split: if_splits)
  ultimately show ?thesis by (rule that [OF r])
qed

text \<open>A file whose values count has no problem, and every check of it was clean.\<close>

lemma accepted_file:
  assumes "decodeDeskConfig w src location = Some d" "dc_values d = Some v"
  obtains ms notices declared where "JSON_parse src = Some (JObj ms)"
    "read_sections w location ms = Some ((v, notices, declared), [])"
    "scanForKeys (w_lower w) [] (JObj ms) = []" "concat (map (\<lambda>k. case key_problem location k of None \<Rightarrow> [] | Some r \<Rightarrow> [(k, r)]) (own_keys ms)) = []"
proof -
  obtain ms where p: "JSON_parse src = Some (JObj ms)"
    using assms by (auto simp: decodeDeskConfig_def refused_file_def split: option.splits jval.splits)
  obtain vals notices declared ps where r:
    "and_then (version_check ms) (\<lambda>_. and_then (key_check location ms) (\<lambda>_. read_sections w location ms)) = Some ((vals, notices, declared), ps)"
    "dc_problems d = firsts [] (withoutRedundantReasons (scanForKeys (w_lower w) [] (JObj ms) @ ps))"
    "dc_values d = (if dc_problems d = [] then Some vals else None)"
    by (rule read_file [OF assms(1) p])
  have e: "scanForKeys (w_lower w) [] (JObj ms) = []" "ps = []" "vals = v"
    using r(2,3) assms(2) by (auto simp: unique_empty split: if_splits)
  have "key_check location ms = Some ((), [])" "read_sections w location ms = Some ((v, notices, declared), [])"
    using r(1) e by auto
  then show ?thesis using that [OF p _ e(1)] by (simp add: key_check_def)
qed

section \<open>Credentials\<close>

text \<open>\<open>loc\<close> is the path of a member named like a credential, in the value \<open>v\<close> found at \<open>here\<close>.\<close>

inductive names_key :: "(jstr \<Rightarrow> jstr) \<Rightarrow> jstr \<Rightarrow> jval \<Rightarrow> jstr \<Rightarrow> bool" for lower where
  named: "\<lbrakk>(name, child) \<in> set ms; isKeyLike lower name\<rbrakk>
    \<Longrightarrow> names_key lower here (JObj ms) (if here = [] then name else path_to here name)"
| inside_member: "\<lbrakk>(name, child) \<in> set ms; names_key lower (if here = [] then name else path_to here name) child loc\<rbrakk>
    \<Longrightarrow> names_key lower here (JObj ms) loc"
| inside_element: "\<lbrakk>i < length xs; names_key lower (here @ open_bracket # dec i @ [close_bracket]) (xs ! i) loc\<rbrakk>
    \<Longrightarrow> names_key lower here (JArr xs) loc"

inductive_cases names_key_objE: "names_key lower here (JObj ms) loc"
inductive_cases names_key_arrE: "names_key lower here (JArr xs) loc"

lemma in_key_order_set:
  "distinct (map fst es) \<Longrightarrow> set (in_key_order es) = snd ` set es"
proof -
  assume d: "distinct (map fst es)"
  have "set (in_key_order es) = (\<lambda>k. the (map_of es k)) ` fst ` set es" by (simp add: in_key_order_def)
  also have "\<dots> = snd ` set es" using d by (force simp: image_iff)
  finally show ?thesis .
qed

lemma in_sections:
  assumes "distinct (map fst (map (\<lambda>(name, child). (name, f name child)) ms))"
  shows "p \<in> set (concat (in_key_order (map (\<lambda>(name, child). (name, f name child)) ms)))
    \<longleftrightarrow> (\<exists>(name, child) \<in> set ms. p \<in> set (f name child))"
  unfolding set_concat in_key_order_set [OF assms] by (simp add: case_prod_unfold)

lemma names_key_obj:
  "names_key lower path (JObj ms) loc \<longleftrightarrow> (\<exists>(name, child) \<in> set ms.
     (isKeyLike lower name \<and> loc = (if path = [] then name else path_to path name))
     \<or> names_key lower (if path = [] then name else path_to path name) child loc)"
  (is "?l \<longleftrightarrow> ?r")
proof
  show "?l \<Longrightarrow> ?r" by (erule names_key_objE) blast+
  show "?r \<Longrightarrow> ?l" by (blast intro: names_key.named names_key.inside_member)
qed

lemma scan_iff: "proper v \<Longrightarrow> (loc, KEYS_ARE_NEVER_IN_CONFIGURATION) \<in> set (scanForKeys lower here v) \<longleftrightarrow> names_key lower here v loc"
proof (induction lower here v rule: scanForKeys.induct)
  case (1 lower path xs)
  have ih: "(loc, KEYS_ARE_NEVER_IN_CONFIGURATION) \<in> set (scanForKeys lower (path @ open_bracket # dec i @ [close_bracket]) (xs ! i))
      \<longleftrightarrow> names_key lower (path @ open_bracket # dec i @ [close_bracket]) (xs ! i) loc" if i: "i < length xs" for i
  proof -
    have "(i, xs ! i) \<in> set (enumerate 0 xs)" using i by (simp add: in_set_enumerate_eq)
    then show ?thesis using "1.IH" [OF _ refl] "1.prems" i by (simp add: list_all_iff)
  qed
  have "(loc, KEYS_ARE_NEVER_IN_CONFIGURATION) \<in> set (scanForKeys lower path (JArr xs))
      \<longleftrightarrow> (\<exists>i < length xs. (loc, KEYS_ARE_NEVER_IN_CONFIGURATION) \<in> set (scanForKeys lower (path @ open_bracket # dec i @ [close_bracket]) (xs ! i)))"
    unfolding scanForKeys.simps by (auto simp: in_set_enumerate_eq) (force simp: in_set_enumerate_eq)+
  also have "\<dots> \<longleftrightarrow> names_key lower path (JArr xs) loc"
    using ih by (auto intro: names_key.inside_element elim!: names_key_arrE)
  finally show ?case .
next
  case (2 lower path ms)
  define here where "here name = (if path = [] then name else path_to path name)" for name
  define f where "f name child = (if isKeyLike lower name then [(here name, KEYS_ARE_NEVER_IN_CONFIGURATION)] else [])
    @ scanForKeys lower (here name) child" for name child
  have scan: "scanForKeys lower path (JObj ms) = concat (in_key_order (map (\<lambda>(name, child). (name, f name child)) ms))"
    unfolding scanForKeys.simps f_def here_def Let_def by (rule refl)
  have d: "distinct (map fst (map (\<lambda>(name, child). (name, f name child)) ms))"
    using "2.prems" by (simp add: comp_def case_prod_unfold)
  have ih: "(loc, KEYS_ARE_NEVER_IN_CONFIGURATION) \<in> set (scanForKeys lower (here name) child) \<longleftrightarrow> names_key lower (here name) child loc"
    if "(name, child) \<in> set ms" for name child
    using "2.IH" [OF that refl] "2.prems" that by (auto simp: here_def list_all_iff)
  have "(loc, KEYS_ARE_NEVER_IN_CONFIGURATION) \<in> set (scanForKeys lower path (JObj ms))
      \<longleftrightarrow> (\<exists>(name, child) \<in> set ms. (loc, KEYS_ARE_NEVER_IN_CONFIGURATION) \<in> set (f name child))"
    unfolding scan by (rule in_sections [OF d])
  also have "\<dots> \<longleftrightarrow> (\<exists>(name, child) \<in> set ms. (isKeyLike lower name \<and> loc = here name) \<or> names_key lower (here name) child loc)"
    using ih by (intro bex_cong refl) (auto simp: f_def)
  also have "\<dots> \<longleftrightarrow> names_key lower path (JObj ms) loc"
    unfolding here_def names_key_obj by blast
  finally show ?case .
qed (auto simp: scanForKeys.simps elim: names_key.cases)

lemma credential_refused:
  assumes "decodeDeskConfig w src location = Some d" "JSON_parse src = Some (JObj ms)"
    "names_key (w_lower w) [] (JObj ms) loc"
  shows "dc_values d = None \<and> (loc, KEYS_ARE_NEVER_IN_CONFIGURATION) \<in> set (dc_problems d)"
proof -
  obtain vals notices declared ps where r:
    "and_then (version_check ms) (\<lambda>_. and_then (key_check location ms) (\<lambda>_. read_sections w location ms)) = Some ((vals, notices, declared), ps)"
    "dc_problems d = firsts [] (withoutRedundantReasons (scanForKeys (w_lower w) [] (JObj ms) @ ps))"
    "dc_values d = (if dc_problems d = [] then Some vals else None)"
    by (rule read_file [OF assms(1,2)])
  have "(loc, KEYS_ARE_NEVER_IN_CONFIGURATION) \<in> set (scanForKeys (w_lower w) [] (JObj ms))"
    unfolding scan_iff [OF JSON_parse_proper [OF assms(2)]] by (rule assms(3))
  then have "(loc, KEYS_ARE_NEVER_IN_CONFIGURATION) \<in> set (dc_problems d)"
    unfolding r(2) set_firsts by (auto intro: redundant_keeps)
  then show ?thesis using r(3) by (cases "dc_problems d") auto
qed

text \<open>A small platform: names are lower case already, and every address is read as an \<open>https\<close> one.\<close>

definition plain_web :: web_platform where
  "plain_web = \<lparr>w_lower = id, w_url = (\<lambda>_. Some \<lparr>u_protocol = js ''https:'', u_username = [], u_password = [], u_hostname = js ''h'', u_hash = []\<rparr>),
     w_decodeURIComponent = Some, w_is_date = (\<lambda>_. True)\<rparr>"

end
