(* ===== verification/Config_Bounds.thy ===== *)
theory Config_Bounds
  imports Config_Facts
begin

text \<open>
  What holds of every configuration the decoder accepts: numbers within their bounds, choices from their lists, an
  endpoint whose models, default and tools hold together, and a pack directory that is a path inside the project.
\<close>

section \<open>What a clean check ensures\<close>

text \<open>\<open>ensures c p\<close>: where the check pushed nothing, its value satisfies \<open>p\<close>.  The rules compute backwards, from the
  value that is built to the checks before it.\<close>

definition ensures :: "'a checked \<Rightarrow> ('a \<Rightarrow> bool) \<Rightarrow> bool" where
  "ensures c p \<longleftrightarrow> (\<forall>y. c = Some (y, []) \<longrightarrow> p y)"

named_theorems sure \<open>what single checks ensure\<close>

lemma ensures_and_then [sure]: "ensures f (\<lambda>x. ensures (g x) p) \<Longrightarrow> ensures (and_then f g) p"
  by (auto simp: ensures_def)

lemma ensures_answer [sure]: "p x \<Longrightarrow> ensures (answer x) p"
  by (simp add: ensures_def)

lemma ensures_pushed [sure]: "ensures (pushed key r x) p"
  by (simp add: ensures_def)

lemma ensures_refused [sure]: "ensures (refused key r v x) p"
  by (simp add: ensures_def)

lemma ensures_pushed_if [sure]: "(\<not> b \<Longrightarrow> p ()) \<Longrightarrow> ensures (pushed_if b key r) p"
  by (auto simp: ensures_def)

lemma ensures_if [sure]: "\<lbrakk>b \<Longrightarrow> ensures f p; \<not> b \<Longrightarrow> ensures g p\<rbrakk> \<Longrightarrow> ensures (if b then f else g) p"
  by simp

lemma ensures_option [sure]:
  "\<lbrakk>v = None \<Longrightarrow> ensures f p; \<And>x. v = Some x \<Longrightarrow> ensures (g x) p\<rbrakk> \<Longrightarrow> ensures (case v of None \<Rightarrow> f | Some x \<Rightarrow> g x) p"
  by (cases v) simp_all

lemma ensures_jval [sure]:
  "\<lbrakk>\<And>s. v = JStr s \<Longrightarrow> ensures (f s) p; \<And>b. ensures (g1 b) p; \<And>n. ensures (g2 n) p; \<And>xs. ensures (g3 xs) p; \<And>ms. ensures (g4 ms) p;
    ensures g0 p\<rbrakk>
    \<Longrightarrow> ensures (case v of JNull \<Rightarrow> g0 | JBool b \<Rightarrow> g1 b | JNum n \<Rightarrow> g2 n | JStr s \<Rightarrow> f s | JArr xs \<Rightarrow> g3 xs | JObj ms \<Rightarrow> g4 ms) p"
  by (cases v) simp_all

lemma ensures_any: "(\<And>x. p x) \<Longrightarrow> ensures c p"
  by (simp add: ensures_def)

lemma ensures_weaken: "\<lbrakk>ensures c q; \<And>x. q x \<Longrightarrow> p x\<rbrakk> \<Longrightarrow> ensures c p"
  by (auto simp: ensures_def)

section \<open>Single members\<close>

lemma ensures_section [sure]: "(\<And>x. p x) \<Longrightarrow> ensures (config_section v key allowed) p"
  by (rule ensures_any)

lemma ensures_oneOf [sure]: "(\<And>x. \<forall>s. x = Some s \<longrightarrow> s \<in> set choices \<Longrightarrow> p x) \<Longrightarrow> ensures (oneOf v key choices) p"
  by (auto simp: ensures_def oneOf_def split: option.splits jval.splits if_splits)

lemma ensures_boolean [sure]: "(\<And>x. p x) \<Longrightarrow> ensures (boolean_value v key) p"
  by (rule ensures_any)

lemma integer_from_within: "integer_from low high v = Some n \<Longrightarrow> low \<le> n \<and> n \<le> high"
  by (auto simp: integer_from_def split: option.splits if_splits)

lemma ensures_dimension:
  "\<lbrakk>map_of PANE_BOUNDS key = Some (low, high); \<And>x. \<forall>n. x = Some n \<longrightarrow> low \<le> n \<and> n \<le> high \<Longrightarrow> p x\<rbrakk> \<Longrightarrow> ensures (dimension v key) p"
  by (auto simp: ensures_def dimension_def split: option.splits if_splits)

lemma ensures_bounded_member:
  "\<lbrakk>map_of bounds member = Some (low, high); low \<le> dflt; dflt \<le> high; \<And>n. low \<le> n \<and> n \<le> high \<Longrightarrow> p n\<rbrakk>
    \<Longrightarrow> ensures (bounded_member scope bounds d member dflt) p"
  by (auto simp: ensures_def bounded_member_def Let_def dest: integer_from_within split: if_splits option.splits)

section \<open>Panes, appearance and research\<close>

definition panes_within :: "panes_config \<Rightarrow> bool" where
  "panes_within p \<longleftrightarrow> 160 \<le> left_width p \<and> left_width p \<le> 640 \<and> 240 \<le> inspector_width p \<and> inspector_width p \<le> 720
     \<and> 80 \<le> console_height p \<and> console_height p \<le> 720 \<and> left_mode p \<in> set (map js [''expanded'', ''icons''])"

lemma pane_bounds:
  "map_of PANE_BOUNDS (js ''panes.left.width'') = Some (160, 640)"
  "map_of PANE_BOUNDS (js ''panes.inspector.width'') = Some (240, 720)"
  "map_of PANE_BOUNDS (js ''panes.console.height'') = Some (80, 720)"
  by (simp_all add: PANE_BOUNDS_def)

lemmas ensures_panes = pane_bounds [THEN ensures_dimension]

lemma ensures_pane_section [sure]: "(\<And>x. p x) \<Longrightarrow> ensures (pane_section s m key allowed) p"
  by (rule ensures_any)

lemma panes_clean: "ensures (panes_section v) (\<lambda>(p, d). \<forall>x. p = Some x \<longrightarrow> panes_within x)"
  unfolding panes_section_def
  by (intro sure ensures_panes) (auto simp: panes_within_def or_default_def split: option.split)

lemma appearance_clean: "ensures (appearance_section v) (\<lambda>a. \<forall>t d. a = Some (t, d) \<longrightarrow> t \<in> set THEME_CHOICES \<and> d \<in> set DENSITIES)"
  unfolding appearance_section_def
  by (intro sure) (auto simp: or_default_def THEME_CHOICES_def DENSITIES_def split: option.split)

definition limits_within :: "research_limits \<Rightarrow> bool" where
  "limits_within l \<longleftrightarrow> 0 \<le> l_searches l \<and> l_searches l \<le> 50 \<and> 0 \<le> l_reads l \<and> l_reads l \<le> 100
     \<and> 65536 \<le> l_bytes l \<and> l_bytes l \<le> 67108864 \<and> 30 \<le> l_seconds l \<and> l_seconds l \<le> 3600"

definition source_within :: "document_source \<Rightarrow> bool" where
  "source_within d \<longleftrightarrow> 1 \<le> ds_maxFileBytes d \<and> ds_maxFileBytes d \<le> 16777216
     \<and> encoded_size (ds_maxFileBytes d) \<le> ds_maxRequestBytes d \<and> ds_maxRequestBytes d \<le> 67108864
     \<and> 65536 \<le> ds_maxResponseBytes d \<and> ds_maxResponseBytes d \<le> 16777216 \<and> SOURCE_NAME (ds_source d)"

lemma limit_bounds:
  "map_of RESEARCH_LIMIT_BOUNDS (js ''searches'') = Some (0, 50)" "map_of RESEARCH_LIMIT_BOUNDS (js ''reads'') = Some (0, 100)"
  "map_of RESEARCH_LIMIT_BOUNDS (js ''bytes'') = Some (65536, 67108864)" "map_of RESEARCH_LIMIT_BOUNDS (js ''seconds'') = Some (30, 3600)"
  "map_of DOCUMENT_LIMIT_BOUNDS (js ''maxFileBytes'') = Some (1, 16777216)"
  "map_of DOCUMENT_LIMIT_BOUNDS (js ''maxRequestBytes'') = Some (65536, 67108864)"
  "map_of DOCUMENT_LIMIT_BOUNDS (js ''maxResponseBytes'') = Some (65536, 16777216)"
  by (simp_all add: RESEARCH_LIMIT_BOUNDS_def DOCUMENT_LIMIT_BOUNDS_def)

lemmas ensures_limits = limit_bounds [THEN ensures_bounded_member]

lemma ensures_limits_value [sure]: "(\<And>l. limits_within l \<Longrightarrow> p l) \<Longrightarrow> ensures (researchLimitsValue v) p"
  unfolding researchLimitsValue_def Let_def
  by (intro sure ensures_limits) (auto simp: limits_within_def default_limits_def)

lemma ensures_documents [sure]:
  "(\<And>d. \<forall>x. d = Some (Some x) \<longrightarrow> source_within x \<Longrightarrow> p d) \<Longrightarrow> ensures (documentSourceValue v) p"
  unfolding documentSourceValue_def Let_def
  by (intro sure ensures_limits) (auto simp: source_within_def DOCUMENT_DEFAULTS_def)

lemma ensures_gateway [sure]: "(\<And>x. p x) \<Longrightarrow> ensures (researchGatewayValue w v) p"
  by (rule ensures_any)

lemma ensures_sources [sure]: "(\<And>x. p x) \<Longrightarrow> ensures (researchSourcesValue v) p"
  by (rule ensures_any)

lemma research_clean:
  "ensures (research_section w v) (\<lambda>res. \<forall>r. res = Some r \<longrightarrow> limits_within (r_limits r)
     \<and> (\<forall>d. r_documents r = Some (Some d) \<longrightarrow> source_within d))"
  unfolding research_section_def by (intro sure) auto

section \<open>The endpoint\<close>

definition endpoint_holds :: "web_platform \<Rightarrow> endpoint_config \<Rightarrow> bool" where
  "endpoint_holds w e \<longleftrightarrow> distinct (e_models e)
     \<and> (e_model e = None \<longrightarrow> e_models e = []) \<and> (\<forall>m. e_model e = Some m \<longrightarrow> m \<in> set (e_models e))
     \<and> (\<forall>m. e_criticModel e = Some m \<longrightarrow> m \<in> set (e_models e)) \<and> (\<forall>m. e_childModel e = Some m \<longrightarrow> m \<in> set (e_models e))
     \<and> set (e_tools e) \<subseteq> set ASSISTANT_TOOLS \<and> e_kind e \<in> set ASSISTANT_KINDS
     \<and> (\<forall>n. e_capacity e = Some n \<longrightarrow> 1 \<le> n \<and> n \<le> 16)
     \<and> (e_auth e \<noteq> None \<longrightarrow> e_kind e = js ''openai-compatible'')
     \<and> endpointUrlProblem w (e_url e) (e_lan e) = None"

lemma model_entries_clean: "\<lbrakk>model_entries enabled xs = Some (ms, []); distinct enabled\<rbrakk> \<Longrightarrow> distinct ms"
proof (induction xs arbitrary: enabled)
  case (Cons x xs)
  then show ?case
    by (auto simp: modelAddProblem_def Let_def split: option.splits if_splits)
qed simp

lemma ensures_models [sure]:
  "(\<And>ms. distinct ms \<and> (model = None \<longrightarrow> ms = []) \<and> (\<forall>m. model = Some m \<longrightarrow> m \<in> set ms) \<Longrightarrow> p ms) \<Longrightarrow> ensures (models_value model v) p"
  by (auto simp: ensures_def models_value_def modelSet_def modelDefaultProblem_def split: if_splits option.splits jval.splits
      dest: model_entries_clean)

lemma ensures_model [sure]: "(\<And>x. p x) \<Longrightarrow> ensures (model_value v) p"
  by (rule ensures_any)

lemma ensures_lan [sure]: "(\<And>x. p x) \<Longrightarrow> ensures (lan_value v) p"
  by (rule ensures_any)

lemma ensures_capabilities [sure]: "(\<And>x. p x) \<Longrightarrow> ensures (capabilityRecord w v k) p"
  by (rule ensures_any)

lemma ensures_subordinate [sure]:
  "(\<And>x. \<forall>m. x = Some m \<longrightarrow> m \<in> set ms \<Longrightarrow> p x) \<Longrightarrow> ensures (subordinateModel e member scope ms) p"
  by (auto simp: ensures_def subordinateModel_def Let_def split: if_splits option.splits)

lemma ensures_tools [sure]: "(\<And>ts. set ts \<subseteq> set ASSISTANT_TOOLS \<Longrightarrow> p ts) \<Longrightarrow> ensures (tools_value v) p"
  by (auto simp: ensures_def tools_value_def filter_empty_conv subset_iff split: if_splits option.splits)

lemma ensures_capacity [sure]: "(\<And>x. \<forall>n. x = Some n \<longrightarrow> 1 \<le> n \<and> n \<le> 16 \<Longrightarrow> p x) \<Longrightarrow> ensures (capacity_value v) p"
  by (auto simp: ensures_def capacity_value_def ENDPOINT_CAPACITY_def dest: integer_from_within split: if_splits option.splits)

lemma ensures_auth [sure]:
  "(\<And>x. x \<noteq> None \<longrightarrow> kind = Some (js ''openai-compatible'') \<Longrightarrow> p x) \<Longrightarrow> ensures (auth_value v kind) p"
  by (auto simp: ensures_def auth_value_def Let_def split: if_splits option.splits jval.splits)

lemma ensures_url [sure]: "(\<And>u. problem u = None \<Longrightarrow> p u) \<Longrightarrow> ensures (url_value problem key v) p"
  by (auto simp: ensures_def url_value_def split: option.splits if_splits)

lemma kind_or_default_kind:
  "\<forall>s. k = Some s \<longrightarrow> s \<in> set ASSISTANT_KINDS \<Longrightarrow> kind_or_default k \<in> set ASSISTANT_KINDS"
  "k = Some (js ''openai-compatible'') \<Longrightarrow> kind_or_default k = js ''openai-compatible''"
  by (auto simp: kind_or_default_def ASSISTANT_KINDS_def split: option.split)

lemma endpoint_clean: "ensures (endpointValue w v) (\<lambda>x. \<forall>e. fst x = Some e \<longrightarrow> endpoint_holds w e)"
  unfolding endpointValue_def
  by (intro sure) (simp_all add: endpoint_holds_def kind_or_default_kind)

lemma ensures_endpoint [sure]:
  "(\<And>x. \<forall>e. fst x = Some e \<longrightarrow> endpoint_holds w e \<Longrightarrow> p x) \<Longrightarrow> ensures (endpointValue w v) p"
  by (rule ensures_weaken [OF endpoint_clean])

lemma ensures_agent [sure]: "(\<And>x. p x) \<Longrightarrow> ensures (agentValue v) p"
  by (rule ensures_any)

lemma ensures_engine [sure]:
  "(\<And>x. fst x \<in> set ASSISTANT_ENGINES \<and> (fst x = js ''codex'' \<longrightarrow> v = Some (JStr (js ''codex''))) \<Longrightarrow> p x) \<Longrightarrow> ensures (engineValue v) p"
  by (auto simp: ensures_def engineValue_def oneOf_def ASSISTANT_ENGINES_def split: if_splits option.splits jval.splits)

definition assistant_holds :: "web_platform \<Rightarrow> assistant_config \<Rightarrow> bool" where
  "assistant_holds w a \<longleftrightarrow> as_engine a \<in> set ASSISTANT_ENGINES \<and> as_thinking a \<in> set ASSISTANT_THINKING
     \<and> (\<forall>e. as_endpoint a = Some e \<longrightarrow> endpoint_holds w e)
     \<and> (as_engine a = js ''codex'' \<longrightarrow> as_agent a \<noteq> None)"

lemma assistant_clean: "ensures (assistant_section w v) (\<lambda>x. \<forall>a. fst x = Some a \<longrightarrow> assistant_holds w a)"
  unfolding assistant_section_def
  by (intro sure) (auto simp: assistant_holds_def ASSISTANT_THINKING_def split: option.split)

section \<open>The pack directory\<close>

lemma js_trim_chars: "set (js_trim t) \<subseteq> set t"
  using js_trim_infix [of t] by (metis Un_iff set_append subsetI)

lemma cleanRelative_of_parts:
  assumes "dir \<noteq> []" "hd dir \<noteq> slash" "backslash \<notin> set dir" "colon \<notin> set dir" "0 \<notin> set dir"
    "\<not> list_ex (\<lambda>p. p = js ''..'' \<or> p = js ''.'' \<or> p = []) (split_on slash dir)"
  shows "cleanRelative dir = Some dir"
proof -
  let ?parts = "split_on slash dir"
  have plain: "list_all plain_segment ?parts"
    using assms(6) by (auto simp: list_ex_iff list_all_iff plain_segment_def dot_def dotdot_def)
  have dir: "join_with [slash] ?parts = dir" by (rule join_split)
  have "clean dir = dir" using clean_join(1) [OF _ plain] dir split_on_parts by (metis split_on_not_Nil)
  moreover have "dir \<noteq> dot" "dir \<noteq> dotdot"
    using plain split_on_no_sep [of slash dir] by (auto simp: dot_def dotdot_def plain_segment_def)
  moreover have "\<not> prefix (js ''../'') dir"
  proof
    assume "prefix (js ''../'') dir"
    then obtain r where "dir = js ''..'' @ slash # r" by (auto simp: prefix_def)
    then have "?parts = js ''..'' # split_on slash r" using split_on_append_sep [of slash "js ''..''" r] by simp
    then show False using assms(6) by simp
  qed
  moreover have "hd dir \<noteq> backslash" using assms(1,3) by (metis hd_in_set)
  ultimately show ?thesis using assms by (simp add: cleanRelative_def Let_def)
qed

definition dir_inside :: "(jstr \<Rightarrow> jstr) \<Rightarrow> jstr \<Rightarrow> bool" where
  "dir_inside lower dir \<longleftrightarrow> length (split_on slash dir) \<le> MAX_PACK_DIR_DEPTH
     \<and> \<not> list_ex (excluded_part lower) (split_on slash dir) \<and> cleanRelative dir = Some dir"

lemma ensures_packDir [sure]:
  assumes "\<And>x. \<forall>dir. x = Some dir \<longrightarrow> dir_inside lower dir \<Longrightarrow> p x"
  shows "ensures (packDir lower v) p"
proof -
  have "dir_inside lower dir" if d: "packDir lower v = Some (Some dir, [])" for dir
  proof -
    obtain s where s: "\<not> CONTROL_CHARACTER s" "dir = without_trailing_slashes (js_trim s)" "dir \<noteq> []" "hd dir \<noteq> slash"
      "backslash \<notin> set dir" "colon \<notin> set dir" "\<not> list_ex (\<lambda>p. p = js ''..'' \<or> p = js ''.'' \<or> p = []) (split_on slash dir)"
      "find (excluded_part lower) (split_on slash dir) = None" "\<not> MAX_PACK_DIR_DEPTH < length (split_on slash dir)"
      using d by (auto simp: packDir_def Let_def split: option.splits jval.splits if_splits)
    have "set dir \<subseteq> set s"
      using js_trim_chars [of s] set_dropWhileD s(2) by (fastforce simp: without_trailing_slashes_def)
    then have "0 \<notin> set dir" using s(1) by (auto simp: CONTROL_CHARACTER_def list_ex_iff dest!: bspec [of _ _ 0])
    then show ?thesis
      using cleanRelative_of_parts [OF s(3-6) _ s(7)] s(8,9) by (simp add: dir_inside_def find_None_iff list_ex_iff)
  qed
  then show ?thesis by (auto simp: ensures_def intro!: assms)
qed

text \<open>The default directory is not checked, and holds too.\<close>

definition storage_holds :: "web_platform \<Rightarrow> pack_storage \<Rightarrow> bool" where
  "storage_holds w st \<longleftrightarrow> cleanRelative (st_dir st) = Some (st_dir st)
     \<and> (st_dir st = js ''packs'' \<or> dir_inside (w_lower w) (st_dir st)) \<and> last (st_idBase st) \<in> {slash, uc CHR ''#''}"

lemma packs_relative: "cleanRelative (js ''packs'') = Some (js ''packs'')"
  by (simp add: cleanRelative_def clean_def Let_def dot_def dotdot_def)

lemma ensures_idBase [sure]:
  "(\<And>x. \<forall>b. x = Some b \<longrightarrow> last b \<in> {slash, uc CHR ''#''} \<Longrightarrow> p x) \<Longrightarrow> ensures (idBase w v) p"
  by (auto simp: ensures_def idBase_def Let_def ends_with_def suffix_def split: if_splits option.splits jval.splits)

lemma ensures_kind [sure]: "(\<And>x. p x) \<Longrightarrow> ensures (storageKind v) p"
  by (rule ensures_any)

lemma storage_clean: "ensures (storage_section w v) (\<lambda>x. \<forall>st. x = Some st \<longrightarrow> storage_holds w st)"
  unfolding storage_section_def
  by (intro sure) (auto simp: storage_holds_def or_default_def dir_inside_def packs_relative [simplified] split: option.split)

section \<open>The whole file\<close>

lemma at_section_clean:
  "\<lbrakk>at_section here ms name dflt read = Some (x, []); x \<noteq> dflt\<rbrakk> \<Longrightarrow> here \<and> (\<exists>v. map_of ms name = Some v \<and> read v = Some (x, []))"
  by (auto simp: at_section_def split: option.splits if_splits)

text \<open>Each section of the values is what its reading gave, or its default.\<close>

lemma sections_clean:
  assumes "read_sections w location ms = Some ((v, notices, declared), [])"
  shows "\<forall>x. v_appearance v = Some x \<longrightarrow> (\<exists>j. appearance_section j = Some (Some x, []))"
    "\<forall>x. v_panes v = Some x \<longrightarrow> (\<exists>j d. panes_section j = Some ((Some x, d), []))"
    "\<forall>x. v_storage v = Some x \<longrightarrow> (\<exists>j. storage_section w j = Some (Some x, []))"
    "\<forall>x. v_research v = Some x \<longrightarrow> location = Desk \<and> (\<exists>j. research_section w j = Some (Some x, []))"
    "\<forall>x. v_assistant v = Some x \<longrightarrow> location = Desk \<and> (\<exists>j n. assistant_section w j = Some ((Some x, n), []))"
    "v_identity v \<noteq> None \<longrightarrow> location = Desk" "v_project v \<noteq> None \<longrightarrow> location = Desk"
proof -
  obtain organization user identity assistant research project appearance panes storage where r:
    "at_section (location = Desk) ms (js ''identity'') None (identity_section w) = Some (identity, [])"
    "at_section (location = Desk) ms (js ''assistant'') (None, []) (assistant_section w) = Some (assistant, [])"
    "at_section (location = Desk) ms (js ''research'') None (research_section w) = Some (research, [])"
    "at_section (location = Desk) ms (js ''project'') None project_section = Some (project, [])"
    "at_section True ms (js ''appearance'') None appearance_section = Some (appearance, [])"
    "at_section True ms (js ''panes'') (None, NOTHING_DECLARED) panes_section = Some (panes, [])"
    "at_section True ms (js ''storage'') None (storage_section w) = Some (storage, [])"
    "v = \<lparr>v_organization = organization, v_user = user, v_identity = identity, v_assistant = fst assistant,
          v_research = research, v_project = project, v_appearance = appearance, v_panes = fst panes, v_storage = storage\<rparr>"
    using assms unfolding read_sections_def Let_def and_then_clean answer_clean by blast
  note c = r(1-7) [THEN at_section_clean]
  show "\<forall>x. v_appearance v = Some x \<longrightarrow> (\<exists>j. appearance_section j = Some (Some x, []))" using c(5) r(8) by auto
  show "\<forall>x. v_panes v = Some x \<longrightarrow> (\<exists>j d. panes_section j = Some ((Some x, d), []))" using c(6) r(8) by (cases panes) auto
  show "\<forall>x. v_storage v = Some x \<longrightarrow> (\<exists>j. storage_section w j = Some (Some x, []))" using c(7) r(8) by auto
  show "\<forall>x. v_research v = Some x \<longrightarrow> location = Desk \<and> (\<exists>j. research_section w j = Some (Some x, []))" using c(3) r(8) by auto
  show "\<forall>x. v_assistant v = Some x \<longrightarrow> location = Desk \<and> (\<exists>j n. assistant_section w j = Some ((Some x, n), []))"
    using c(2) r(8) by (cases assistant) auto
  show "v_identity v \<noteq> None \<longrightarrow> location = Desk" "v_project v \<noteq> None \<longrightarrow> location = Desk" using c(1,4) r(8) by auto
qed

lemma redundant_covers:
  "(k, r) \<in> set ps \<Longrightarrow> \<exists>r'. (k, r') \<in> set (withoutRedundantReasons ps) \<and> (r' = r \<or> r' = KEYS_ARE_NEVER_IN_CONFIGURATION)"
proof (cases "(k, KEYS_ARE_NEVER_IN_CONFIGURATION) \<in> set ps")
  case True
  then show ?thesis using redundant_keeps by blast
next
  case False
  then show "(k, r) \<in> set ps \<Longrightarrow> ?thesis" by (force simp: withoutRedundantReasons_def Let_def)
qed

lemma key_problem_outside: "k \<notin> set PROJECT_KEYS \<Longrightarrow> \<exists>r. key_problem Project k = Some r"
  by (simp add: key_problem_def)

lemma and_then_keeps: "\<lbrakk>and_then f g = Some (y, ps); f = Some (x, qs)\<rbrakk> \<Longrightarrow> set qs \<subseteq> set ps"
  by (auto simp: and_then_def apsnd_def map_prod_def split: prod.splits)

lemma and_then_pushes: "\<lbrakk>and_then f g = Some (y, ps); f = Some (x, qs)\<rbrakk> \<Longrightarrow> \<exists>rs. g x = Some (y, rs) \<and> set rs \<subseteq> set ps"
  by (cases "g x") (auto simp: and_then_def)

lemma ensuresD: "\<lbrakk>ensures c p; c = Some (x, [])\<rbrakk> \<Longrightarrow> p x"
  by (simp add: ensures_def)

text \<open>Every accepted configuration is within its bounds: the panes between the pixels the desk can lay out, the theme
  and density from their lists, the research limits and the sizes of a document source within their ranges, with a
  request limit that the encoded file fits.\<close>

theorem accepted_in_bounds:
  assumes "decodeDeskConfig w src location = Some d" "dc_values d = Some v"
  shows "(\<forall>p. v_panes v = Some p \<longrightarrow> panes_within p)
    \<and> (\<forall>theme density. v_appearance v = Some (theme, density) \<longrightarrow> theme \<in> set THEME_CHOICES \<and> density \<in> set DENSITIES)
    \<and> (\<forall>r. v_research v = Some r \<longrightarrow> limits_within (r_limits r) \<and> (\<forall>s. r_documents r = Some (Some s) \<longrightarrow> source_within s))"
proof -
  obtain ms notices declared where "read_sections w location ms = Some ((v, notices, declared), [])"
    by (rule accepted_file [OF assms])
  note s = sections_clean [OF this]
  show ?thesis
    using s(1,2,4) ensuresD [OF panes_clean] ensuresD [OF appearance_clean] ensuresD [OF research_clean] by fastforce
qed

text \<open>C30: The assistant of every accepted configuration holds together: the models of an endpoint are listed once each, its
  default and its subordinate models are among them, it has none exactly where it names no default, its tools and kind
  are known ones, its address passes the endpoint rules, and the Codex engine has its agent.\<close>

theorem accepted_assistant_holds:
  assumes "decodeDeskConfig w src location = Some d" "dc_values d = Some v" "v_assistant v = Some a"
  shows "assistant_holds w a"
proof -
  obtain ms notices declared where "read_sections w location ms = Some ((v, notices, declared), [])"
    by (rule accepted_file [OF assms(1,2)])
  note s = sections_clean [OF this]
  show ?thesis using s(5) assms(3) ensuresD [OF assistant_clean] by fastforce
qed

text \<open>C31: The pack directory of every accepted configuration is inside the project: it is a clean relative path, at most
  64 directories deep, with no segment the desk keeps out; and every id base ends at a separator.\<close>

theorem accepted_dir_inside:
  assumes "decodeDeskConfig w src location = Some d" "dc_values d = Some v" "v_storage v = Some st"
  shows "storage_holds w st"
proof -
  obtain ms notices declared where "read_sections w location ms = Some ((v, notices, declared), [])"
    by (rule accepted_file [OF assms(1,2)])
  note s = sections_clean [OF this]
  show ?thesis using s(3) assms(3) ensuresD [OF storage_clean] by fastforce
qed

text \<open>A project file says nothing about the machine: accepted, it gives no identity, no assistant, no research and no
  project, and a file that names one of them is refused with the sentence that says where it belongs.\<close>

theorem project_file_stays_out:
  assumes "decodeDeskConfig w src Project = Some d"
  shows "(\<forall>v. dc_values d = Some v \<longrightarrow> v_identity v = None \<and> v_assistant v = None \<and> v_research v = None \<and> v_project v = None)
    \<and> (\<forall>ms k. JSON_parse src = Some (JObj ms) \<and> k \<in> set (own_keys ms) \<and> k \<notin> set PROJECT_KEYS \<longrightarrow>
          dc_values d = None \<and> (\<exists>r. (k, r) \<in> set (dc_problems d)
            \<and> (key_problem Project k = Some r \<or> r = KEYS_ARE_NEVER_IN_CONFIGURATION)))"
proof -
  have silent: "v_identity v = None \<and> v_assistant v = None \<and> v_research v = None \<and> v_project v = None" if v: "dc_values d = Some v" for v
  proof -
    obtain ms notices declared where "read_sections w Project ms = Some ((v, notices, declared), [])"
      by (rule accepted_file [OF assms v])
    note s = sections_clean [OF this]
    show ?thesis using s(4-7) by (metis config_location.distinct(1) option.exhaust)
  qed
  have refused_key: "dc_values d = None \<and> (\<exists>r. (k, r) \<in> set (dc_problems d) \<and> (key_problem Project k = Some r \<or> r = KEYS_ARE_NEVER_IN_CONFIGURATION))"
    if k: "JSON_parse src = Some (JObj ms) \<and> k \<in> set (own_keys ms) \<and> k \<notin> set PROJECT_KEYS" for ms k
  proof -
  obtain vals notices declared ps where r:
    "and_then (version_check ms) (\<lambda>_. and_then (key_check Project ms) (\<lambda>_. read_sections w Project ms)) = Some ((vals, notices, declared), ps)"
    "dc_problems d = firsts [] (withoutRedundantReasons (scanForKeys (w_lower w) [] (JObj ms) @ ps))"
    "dc_values d = (if dc_problems d = [] then Some vals else None)"
    using read_file [OF assms] k by blast
  obtain reason where reason: "key_problem Project k = Some reason"
    using k key_problem_outside by blast
  obtain qs where checked: "key_check Project ms = Some ((), qs)" "(k, reason) \<in> set qs" using k reason by (fastforce simp: key_check_def)
  obtain vq where v: "version_check ms = Some ((), vq)" using r(1) by (cases "version_check ms") (auto simp: and_then_def)
  obtain qs' where q: "and_then (key_check Project ms) (\<lambda>_. read_sections w Project ms) = Some ((vals, notices, declared), qs')" "set qs' \<subseteq> set ps"
    using and_then_pushes [OF r(1) v] by auto
  have "(k, reason) \<in> set ps" using checked(2) and_then_keeps [OF q(1) checked(1)] q(2) by blast
  then obtain r' where "(k, r') \<in> set (withoutRedundantReasons (scanForKeys (w_lower w) [] (JObj ms) @ ps))"
    "r' = reason \<or> r' = KEYS_ARE_NEVER_IN_CONFIGURATION"
    using redundant_covers [of k reason] by (metis UnCI set_append)
  then have p: "(k, r') \<in> set (dc_problems d)" "key_problem Project k = Some r' \<or> r' = KEYS_ARE_NEVER_IN_CONFIGURATION"
    unfolding r(2) set_firsts reason by auto
  have "dc_values d = None" using r(3) p(1) by (cases "dc_problems d") auto
  then show ?thesis using p by blast
  qed
  show ?thesis using silent refused_key by blast
qed

section \<open>Witnesses\<close>

definition accepts_where :: "jstr \<Rightarrow> (desk_values \<Rightarrow> bool) \<Rightarrow> bool" where
  "accepts_where src p = (case decodeDeskConfig plain_web src Desk of
     None \<Rightarrow> False | Some d \<Rightarrow> (case dc_values d of None \<Rightarrow> False | Some v \<Rightarrow> p v))"

lemma accepts_whereE:
  assumes "accepts_where src p"
  obtains d v where "decodeDeskConfig plain_web src Desk = Some d" "dc_values d = Some v" "p v"
  using assms by (auto simp: accepts_where_def split: option.splits)

definition panes_text :: jstr where
  "panes_text = js ''{\"deskConfigVersion\":1,\"panes\":{\"left\":{\"width\":300}},\"research\":{\"limits\":{\"reads\":5}}}''"

theorem accepted_in_bounds_witness:
  "\<exists>d v p r. decodeDeskConfig plain_web panes_text Desk = Some d \<and> dc_values d = Some v \<and> v_panes v = Some p \<and> v_research v = Some r
     \<and> left_width p = 300 \<and> l_reads (r_limits r) = 5 \<and> panes_within p \<and> limits_within (r_limits r)"
proof -
  have "accepts_where panes_text (\<lambda>v. case (v_panes v, v_research v) of
      (Some p, Some r) \<Rightarrow> left_width p = 300 \<and> l_reads (r_limits r) = 5 | _ \<Rightarrow> False)" by code_simp
  then obtain d v where d: "decodeDeskConfig plain_web panes_text Desk = Some d" "dc_values d = Some v"
    "case (v_panes v, v_research v) of (Some p, Some r) \<Rightarrow> left_width p = 300 \<and> l_reads (r_limits r) = 5 | _ \<Rightarrow> False"
    by (rule accepts_whereE)
  then show ?thesis using accepted_in_bounds [OF d(1,2)] by (auto split: option.splits)
qed

definition assistant_text :: jstr where
  "assistant_text = js (''{\"deskConfigVersion\":1,''
     @ ''\"assistant\":{\"endpoint\":{\"url\":\"https://h/\",\"kind\":\"gemini\",\"models\":[\"m\",\"n\"],\"model\":\"n\",\"tools\":[\"validate\"]}}}'')"

theorem accepted_assistant_holds_witness:
  "\<exists>d v a. decodeDeskConfig plain_web assistant_text Desk = Some d \<and> dc_values d = Some v \<and> v_assistant v = Some a
     \<and> map_option e_models (as_endpoint a) = Some [js ''m'', js ''n''] \<and> assistant_holds plain_web a"
proof -
  have "accepts_where assistant_text (\<lambda>v. case v_assistant v of None \<Rightarrow> False | Some a \<Rightarrow>
      map_option e_models (as_endpoint a) = Some [js ''m'', js ''n''])" by code_simp
  then obtain d v where d: "decodeDeskConfig plain_web assistant_text Desk = Some d" "dc_values d = Some v"
    "case v_assistant v of None \<Rightarrow> False | Some a \<Rightarrow> map_option e_models (as_endpoint a) = Some [js ''m'', js ''n'']"
    by (rule accepts_whereE)
  then obtain a where a: "v_assistant v = Some a" by (cases "v_assistant v") auto
  then show ?thesis using accepted_assistant_holds [OF d(1,2) a] d by auto
qed

definition storage_text :: jstr where
  "storage_text = js ''{\"deskConfigVersion\":1,\"storage\":{\"packs\":{\"dir\":\" a/b/ \"}}}''"

theorem accepted_dir_inside_witness:
  "\<exists>d v st. decodeDeskConfig plain_web storage_text Desk = Some d \<and> dc_values d = Some v \<and> v_storage v = Some st
     \<and> st_dir st = js ''a/b'' \<and> storage_holds plain_web st"
proof -
  have "accepts_where storage_text (\<lambda>v. map_option st_dir (v_storage v) = Some (js ''a/b''))" by code_simp
  then obtain d v where d: "decodeDeskConfig plain_web storage_text Desk = Some d" "dc_values d = Some v"
    "map_option st_dir (v_storage v) = Some (js ''a/b'')"
    by (rule accepts_whereE)
  then obtain st where st: "v_storage v = Some st" by (cases "v_storage v") auto
  then show ?thesis using accepted_dir_inside [OF d(1,2) st] d by auto
qed

definition identity_text :: jstr where
  "identity_text = js ''{\"deskConfigVersion\":1,\"identity\":{}}''"

theorem project_file_stays_out_witness:
  "\<exists>d. decodeDeskConfig plain_web identity_text Project = Some d \<and> dc_values d = None
     \<and> (\<exists>r. (js ''identity'', r) \<in> set (dc_problems d))"
proof -
  have "decodeDeskConfig plain_web identity_text Project \<noteq> None" by code_simp
  then obtain d where d: "decodeDeskConfig plain_web identity_text Project = Some d" by auto
  have "(case JSON_parse identity_text of Some (JObj ms) \<Rightarrow> js ''identity'' \<in> set (own_keys ms) | _ \<Rightarrow> False)" by code_simp
  then obtain ms where "JSON_parse identity_text = Some (JObj ms)" "js ''identity'' \<in> set (own_keys ms)"
    by (auto split: option.splits jval.splits)
  moreover have "js ''identity'' \<notin> set PROJECT_KEYS" by code_simp
  ultimately show ?thesis using project_file_stays_out [OF d] d by blast
qed

end
