(* ===== verification/Config_Answers.thy ===== *)
theory Config_Answers
  imports Config_Facts
begin

text \<open>
  The decoder answers: it throws on no file, whatever is wrong with it, unless some object of the file has a member
  named \<open>toString\<close>.  There \<open>describe\<close> calls \<open>String(value)\<close>, which asks the object for its own \<open>toString\<close>.
\<close>

section \<open>Files without such a member\<close>

fun tame :: "jval \<Rightarrow> bool" where
  "tame (JObj ms) \<longleftrightarrow> map_of ms (js ''toString'') = None \<and> list_all (\<lambda>m. tame (snd m)) ms"
| "tame (JArr xs) \<longleftrightarrow> list_all tame xs"
| "tame v \<longleftrightarrow> True"

abbreviation tame_members :: "(jstr \<times> jval) list \<Rightarrow> bool" where
  "tame_members ms \<equiv> list_all (\<lambda>m. tame (snd m)) ms"

abbreviation tame_value :: "jval option \<Rightarrow> bool" where
  "tame_value v \<equiv> \<forall>x. v = Some x \<longrightarrow> tame x"

lemma tame_member [intro]: "tame_members ms \<Longrightarrow> tame_value (map_of ms k)"
  by (auto simp: list_all_iff dest!: map_of_SomeD)

lemma tame_at [dest]: "\<lbrakk>map_of ms k = Some v; tame_members ms\<rbrakk> \<Longrightarrow> tame v"
  by (auto simp: list_all_iff dest!: map_of_SomeD)

section \<open>Checks that return\<close>

text \<open>\<open>returns c p\<close>: the check does not throw, and its value satisfies \<open>p\<close>.\<close>

definition returns :: "'a checked \<Rightarrow> ('a \<Rightarrow> bool) \<Rightarrow> bool" where
  "returns c p \<longleftrightarrow> (\<exists>x ps. c = Some (x, ps) \<and> p x)"

named_theorems total \<open>checks that return\<close>

lemma returns_and_then [total]: "returns f (\<lambda>x. returns (g x) p) \<Longrightarrow> returns (and_then f g) p"
  by (auto simp: returns_def and_then_def)

lemma returns_answer [total]: "p x \<Longrightarrow> returns (answer x) p"
  by (simp add: returns_def answer_def)

lemma returns_pushed [total]: "p x \<Longrightarrow> returns (pushed key r x) p"
  by (simp add: returns_def pushed_def)

lemma returns_pushed_if [total]: "p () \<Longrightarrow> returns (pushed_if b key r) p"
  by (simp add: returns_def pushed_if_def pushed_def answer_def)

lemma describe_tame: "tame_value v \<Longrightarrow> \<exists>d. describe v = Some d"
  by (auto simp: describe_def split: option.split jval.split)

lemma returns_refused [total]: "\<lbrakk>tame_value v; p x\<rbrakk> \<Longrightarrow> returns (refused key r v x) p"
  using describe_tame [of v] by (auto simp: returns_def refused_def pushed_def)

lemma returns_if [total]: "\<lbrakk>b \<Longrightarrow> returns f p; \<not> b \<Longrightarrow> returns g p\<rbrakk> \<Longrightarrow> returns (if b then f else g) p"
  by simp

lemma returns_option [total]:
  "\<lbrakk>v = None \<Longrightarrow> returns f p; \<And>x. v = Some x \<Longrightarrow> returns (g x) p\<rbrakk> \<Longrightarrow> returns (case v of None \<Rightarrow> f | Some x \<Rightarrow> g x) p"
  by (cases v) simp_all

lemma returns_jval [total]:
  "\<lbrakk>\<And>s. v = JStr s \<Longrightarrow> returns (f s) p; \<And>b. v = JBool b \<Longrightarrow> returns (g1 b) p; \<And>n. v = JNum n \<Longrightarrow> returns (g2 n) p;
    \<And>xs. v = JArr xs \<Longrightarrow> returns (g3 xs) p; \<And>ms. v = JObj ms \<Longrightarrow> returns (g4 ms) p; v = JNull \<Longrightarrow> returns g0 p\<rbrakk>
    \<Longrightarrow> returns (case v of JNull \<Rightarrow> g0 | JBool b \<Rightarrow> g1 b | JNum n \<Rightarrow> g2 n | JStr s \<Rightarrow> f s | JArr xs \<Rightarrow> g3 xs | JObj ms \<Rightarrow> g4 ms) p"
  by (cases v) simp_all

lemma returns_pair [total]: "returns (f (fst x) (snd x)) p \<Longrightarrow> returns (case x of (a, b) \<Rightarrow> f a b) p"
  by (simp add: case_prod_unfold)

lemma returns_weaken: "\<lbrakk>returns c q; \<And>x. q x \<Longrightarrow> p x\<rbrakk> \<Longrightarrow> returns c p"
  by (auto simp: returns_def)

section \<open>Single members\<close>

lemma returns_section [total]:
  "\<lbrakk>tame_value v; p None; \<And>ms. tame_members ms \<Longrightarrow> p (Some ms)\<rbrakk> \<Longrightarrow> returns (config_section v key allowed) p"
  unfolding config_section_def
  by (cases v; (cases "the v")?) (auto intro!: total simp: returns_def [of "Some _"])

lemma returns_optional_string [total]: "\<lbrakk>tame_value v; \<And>x. p x\<rbrakk> \<Longrightarrow> returns (optional_string v key) p"
  unfolding optional_string_def by (intro total) auto

lemma returns_organizationName [total]: "\<lbrakk>tame_value v; \<And>x. p x\<rbrakk> \<Longrightarrow> returns (organizationName v) p"
  unfolding organizationName_def by (intro total) auto

lemma returns_markValue [total]: "\<lbrakk>tame_value v; \<And>x. p x\<rbrakk> \<Longrightarrow> returns (markValue v key) p"
  unfolding markValue_def Let_def by (intro total) auto

lemma returns_oneOf [total]: "\<lbrakk>tame_value v; \<And>x. p x\<rbrakk> \<Longrightarrow> returns (oneOf v key choices) p"
  unfolding oneOf_def by (intro total) auto

lemma returns_boolean [total]: "\<lbrakk>tame_value v; \<And>x. p x\<rbrakk> \<Longrightarrow> returns (boolean_value v key) p"
  unfolding boolean_value_def by (intro total) auto

lemma returns_dimension [total]: "\<lbrakk>tame_value v; \<And>x. p x\<rbrakk> \<Longrightarrow> returns (dimension v key) p"
  unfolding dimension_def by (intro total) auto

section \<open>Sections\<close>

lemma returns_organization [total]: "\<lbrakk>tame v; \<And>x. p x\<rbrakk> \<Longrightarrow> returns (organization_section v) p"
  unfolding organization_section_def by (intro total) auto

lemma returns_user [total]: "\<lbrakk>tame v; \<And>x. p x\<rbrakk> \<Longrightarrow> returns (user_section v) p"
  unfolding user_section_def by (intro total) auto

lemma returns_claim [total]: "\<lbrakk>tame_members ms; \<And>x. p x\<rbrakk> \<Longrightarrow> returns (claim_value ms member dflt) p"
  unfolding claim_value_def by (intro total) (auto dest: tame_member [of _ member])

lemma returns_claims [total]: "\<lbrakk>tame_value v; \<And>x. p x\<rbrakk> \<Longrightarrow> returns (claims_value v) p"
  unfolding claims_value_def by (intro total) auto

lemma returns_issuer [total]: "\<lbrakk>tame_value v; \<And>x. p x\<rbrakk> \<Longrightarrow> returns (issuer_value w v) p"
  unfolding issuer_value_def by (intro total) auto

lemma returns_client [total]: "\<lbrakk>tame_value v; \<And>x. p x\<rbrakk> \<Longrightarrow> returns (client_value v) p"
  unfolding client_value_def by (intro total) auto

lemma returns_scopes [total]: "\<lbrakk>tame_value v; \<And>x. p x\<rbrakk> \<Longrightarrow> returns (scopes_value v) p"
  unfolding scopes_value_def Let_def by (intro total) auto

lemma returns_provider [total]: "\<lbrakk>tame_value v; \<And>x. p x\<rbrakk> \<Longrightarrow> returns (providerValue w v) p"
  unfolding providerValue_def by (intro total) auto

lemma returns_identity [total]: "\<lbrakk>tame v; \<And>x. p x\<rbrakk> \<Longrightarrow> returns (identity_section w v) p"
  unfolding identity_section_def by (intro total) auto

lemma returns_url [total]: "\<lbrakk>tame_value v; \<And>x. p x\<rbrakk> \<Longrightarrow> returns (url_value problem key v) p"
  unfolding url_value_def by (intro total) auto

lemma returns_matching [total]: "\<lbrakk>tame_value v; \<And>x. p x\<rbrakk> \<Longrightarrow> returns (matching_string m key r v) p"
  unfolding matching_string_def by (intro total) auto

lemma returns_signer [total]: "\<lbrakk>tame_value v; \<And>x. p x\<rbrakk> \<Longrightarrow> returns (signer_value v) p"
  unfolding signer_value_def by (intro total) auto

lemma returns_gateway [total]: "\<lbrakk>tame_value v; \<And>x. p x\<rbrakk> \<Longrightarrow> returns (researchGatewayValue w v) p"
  unfolding researchGatewayValue_def by (intro total) auto

lemma returns_source [total]: "\<lbrakk>tame_value v; \<And>x. p x\<rbrakk> \<Longrightarrow> returns (researchSourceValue v key) p"
  unfolding researchSourceValue_def by (intro total) (auto dest: tame_member [of _ "js ''source''"])

lemma returns_web [total]: "\<lbrakk>tame_value v; \<And>x. p x\<rbrakk> \<Longrightarrow> returns (webSourceValue v) p"
  unfolding webSourceValue_def by (intro total) auto

lemma returns_sources [total]: "\<lbrakk>tame_value v; \<And>x. p x\<rbrakk> \<Longrightarrow> returns (researchSourcesValue v) p"
  unfolding researchSourcesValue_def by (intro total) auto

lemma returns_bounded [total]: "\<lbrakk>tame_members ms; \<And>x. p x\<rbrakk> \<Longrightarrow> returns (bounded_member scope bounds ms member dflt) p"
  unfolding bounded_member_def Let_def by (intro total) auto

lemma returns_limits [total]: "\<lbrakk>tame_value v; \<And>x. p x\<rbrakk> \<Longrightarrow> returns (researchLimitsValue v) p"
  unfolding researchLimitsValue_def Let_def by (intro total) auto

lemma returns_documents [total]: "\<lbrakk>tame_value v; \<And>x. p x\<rbrakk> \<Longrightarrow> returns (documentSourceValue v) p"
  unfolding documentSourceValue_def Let_def by (intro total) auto

lemma returns_research [total]: "\<lbrakk>tame v; \<And>x. p x\<rbrakk> \<Longrightarrow> returns (research_section w v) p"
  unfolding research_section_def by (intro total) auto

section \<open>The assistant\<close>

lemma modelId_some: "tame_value v \<Longrightarrow> \<exists>r. modelIdProblem v = Some r"
  using describe_tame [of v] by (auto simp: modelIdProblem_def split: option.split)

lemma returns_modelId:
  "\<lbrakk>tame_value v; \<And>r. modelIdProblem v = Some (Some r) \<Longrightarrow> returns (f r) p; modelIdProblem v = Some None \<Longrightarrow> returns g p\<rbrakk>
    \<Longrightarrow> returns (case modelIdProblem v of None \<Rightarrow> None | Some None \<Rightarrow> g | Some (Some r) \<Rightarrow> f r) p"
  using modelId_some [of v] by (auto split: option.split)

lemma modelAdd_some: "tame_value v \<Longrightarrow> \<exists>r. modelAddProblem v models = Some r"
  using modelId_some [of v] by (auto simp: modelAddProblem_def Let_def split: option.split)

lemma returns_entries [total]: "\<lbrakk>list_all tame xs; \<And>x. p x\<rbrakk> \<Longrightarrow> returns (model_entries enabled xs) p"
proof (induction xs arbitrary: enabled)
  case (Cons x xs)
  obtain r where "modelAddProblem (Some x) enabled = Some r" using modelAdd_some Cons.prems(1) by force
  then show ?case using Cons by (cases r) (auto intro!: total)
qed (simp add: returns_answer)

lemma returns_modelSet [total]: "\<lbrakk>tame_value v; \<And>x. p x\<rbrakk> \<Longrightarrow> returns (modelSet v) p"
  unfolding modelSet_def by (intro total) auto

lemma returns_subordinate [total]: "\<lbrakk>tame_members ms; \<And>x. p x\<rbrakk> \<Longrightarrow> returns (subordinateModel ms member scope enabled) p"
  unfolding subordinateModel_def Let_def by (rule returns_if, simp add: returns_answer, rule returns_modelId) (auto intro!: total)

lemma returns_flag [total]: "\<lbrakk>tame_members ms; \<And>fs. tame_members fs \<Longrightarrow> p fs\<rbrakk> \<Longrightarrow> returns (fact_flag scope ms member) p"
  unfolding fact_flag_def Let_def by (intro total) auto

lemma returns_number [total]: "\<lbrakk>tame_members ms; \<And>fs. tame_members fs \<Longrightarrow> p fs\<rbrakk> \<Longrightarrow> returns (fact_number scope ms member low high) p"
  unfolding fact_number_def Let_def
  by (intro total) (auto dest: tame_at simp: integer_from_def js_integer_def split: option.splits jval.splits if_splits)

lemma returns_choice [total]: "\<lbrakk>tame_members ms; \<And>fs. tame_members fs \<Longrightarrow> p fs\<rbrakk> \<Longrightarrow> returns (fact_choice scope ms member allowed) p"
  unfolding fact_choice_def Let_def by (intro total) auto

lemma returns_flags [total]:
  "\<lbrakk>tame_members ms; \<And>fss. list_all tame_members fss \<Longrightarrow> p fss\<rbrakk> \<Longrightarrow> returns (for_each (fact_flag scope ms) names) p"
proof (induction names arbitrary: p)
  case (Cons name names)
  show ?case unfolding for_each.simps
    by (intro total Cons.IH Cons.prems) (simp_all add: Cons.prems(1))
qed (simp add: returns_answer)

lemma tame_concat: "list_all tame_members fss \<Longrightarrow> tame_members (concat fss)"
  by (simp add: list_all_iff)

lemma tame_extra: "tame_members ms \<Longrightarrow> tame_members (concat (map (\<lambda>name. case map_of ms name of None \<Rightarrow> [] | Some x \<Rightarrow> [(name, x)]) extra))"
  by (auto simp: list_all_iff dest!: map_of_SomeD [OF sym] split: option.splits)

lemma returns_facts [total]:
  "\<lbrakk>tame_value v; p None; \<And>fs. tame_members fs \<Longrightarrow> p (Some fs)\<rbrakk> \<Longrightarrow> returns (capabilityFacts v scope kind extra) p"
  unfolding capabilityFacts_def
  by (intro total) (simp_all add: tame_concat tame_extra)

lemma returns_capabilities [total]:
  assumes "tame_value v" "\<And>x. p x"
  shows "returns (capabilityRecord w v kind) p"
proof -
  have r: "returns c (\<lambda>_. True) \<Longrightarrow> returns (case c of None \<Rightarrow> None | Some ((probe, override), ps) \<Rightarrow>
      if ps \<noteq> [] then Some (None, ps) else if probe = None \<and> override = None then answer None
      else answer (Some \<lparr>cr_probe = probe, cr_override = override\<rparr>)) p"
    for c :: "(facts option \<times> facts option) checked"
    using assms(2) by (auto simp: returns_def answer_def)
  show ?thesis unfolding capabilityRecord_def
    by (intro r total) (auto simp: assms tame_member)
qed

lemma returns_lan [total]: "\<lbrakk>tame_value v; \<And>x. p x\<rbrakk> \<Longrightarrow> returns (lan_value v) p"
  unfolding lan_value_def by (intro total) auto

lemma returns_model [total]: "\<lbrakk>tame_value v; \<And>x. p x\<rbrakk> \<Longrightarrow> returns (model_value v) p"
  unfolding model_value_def by (rule returns_if, simp add: returns_answer, rule returns_modelId) (auto intro!: total)

lemma returns_after: "returns c (\<lambda>x. \<forall>ps. p (fst (f x ps))) \<Longrightarrow> returns (case c of None \<Rightarrow> None | Some (x, ps) \<Rightarrow> Some (f x ps)) p"
  by (auto simp: returns_def) (metis prod.collapse)

lemma returns_models [total]: "\<lbrakk>tame_value v; \<And>x. p x\<rbrakk> \<Longrightarrow> returns (models_value model v) p"
  unfolding models_value_def by (intro returns_after total) auto

lemma returns_tools [total]: "\<lbrakk>tame_value v; \<And>x. p x\<rbrakk> \<Longrightarrow> returns (tools_value v) p"
  unfolding tools_value_def by (intro total) (auto simp: returns_def)

lemma returns_capacity [total]: "\<lbrakk>tame_value v; \<And>x. p x\<rbrakk> \<Longrightarrow> returns (capacity_value v) p"
  unfolding capacity_value_def by (intro total) auto

lemma returns_auth [total]: "\<lbrakk>tame_value v; \<And>x. p x\<rbrakk> \<Longrightarrow> returns (auth_value v kind) p"
  unfolding auth_value_def Let_def by (intro total) auto

lemma returns_endpoint [total]: "\<lbrakk>tame_value v; \<And>x. p x\<rbrakk> \<Longrightarrow> returns (endpointValue w v) p"
  unfolding endpointValue_def by (intro total) auto

lemma returns_agent_model [total]: "(\<And>x. p x) \<Longrightarrow> returns (agent_model v) p"
  unfolding agent_model_def by (intro total) auto

lemma returns_agent_models [total]: "(\<And>x. p x) \<Longrightarrow> returns (agent_models m v) p"
  unfolding agent_models_def by (intro total) auto

lemma returns_agent_tools [total]: "(\<And>x. p x) \<Longrightarrow> returns (agent_tools v) p"
  unfolding agent_tools_def by (intro total) auto

lemma returns_agent_effort [total]: "(\<And>x. p x) \<Longrightarrow> returns (agent_effort v) p"
  unfolding agent_effort_def by (intro total) auto

lemma returns_agent [total]: "\<lbrakk>tame_value v; \<And>x. p x\<rbrakk> \<Longrightarrow> returns (agentValue v) p"
  unfolding agentValue_def Let_def by (intro total) auto

lemma returns_engine [total]: "\<lbrakk>tame_value v; \<And>x. p x\<rbrakk> \<Longrightarrow> returns (engineValue v) p"
  unfolding engineValue_def by (intro total) auto

lemma returns_assistant [total]: "\<lbrakk>tame v; \<And>x. p x\<rbrakk> \<Longrightarrow> returns (assistant_section w v) p"
  unfolding assistant_section_def by (intro total) auto

section \<open>The other sections\<close>

lemma returns_projectFile [total]: "\<lbrakk>tame_value v; \<And>x. p x\<rbrakk> \<Longrightarrow> returns (projectFile v) p"
  unfolding projectFile_def Let_def by (intro total) auto

lemma returns_project [total]: "\<lbrakk>tame v; \<And>x. p x\<rbrakk> \<Longrightarrow> returns (project_section v) p"
  unfolding project_section_def by (intro total) auto

lemma returns_appearance [total]: "\<lbrakk>tame v; \<And>x. p x\<rbrakk> \<Longrightarrow> returns (appearance_section v) p"
  unfolding appearance_section_def by (intro total) auto

lemma returns_pane_section [total]:
  "\<lbrakk>tame_members ms; p None; \<And>sec. tame_members sec \<Longrightarrow> p (Some sec)\<rbrakk> \<Longrightarrow> returns (pane_section ms member key allowed) p"
  unfolding pane_section_def by (intro total) auto

abbreviation tame_pane :: "(jstr \<times> jval) list option \<Rightarrow> bool" where
  "tame_pane sec \<equiv> \<forall>ms. sec = Some ms \<longrightarrow> tame_members ms"

lemma returns_pane [total]:
  "\<lbrakk>tame_members ms; \<And>sec. tame_pane sec \<Longrightarrow> p sec\<rbrakk> \<Longrightarrow> returns (pane_section ms member key allowed) p"
  by (rule returns_pane_section) simp_all

lemma tame_pane_at [dest]: "\<lbrakk>pane_member sec k = Some v; tame_pane sec\<rbrakk> \<Longrightarrow> tame v"
  by (auto simp: pane_member_def split: option.splits)

declare returns_pane_section [total del]

lemma returns_panes [total]: "\<lbrakk>tame v; \<And>x. p x\<rbrakk> \<Longrightarrow> returns (panes_section v) p"
  unfolding panes_section_def by (intro total) auto

lemma returns_kind [total]: "\<lbrakk>tame_value v; \<And>x. p x\<rbrakk> \<Longrightarrow> returns (storageKind v) p"
  unfolding storageKind_def by (intro total) auto

lemma returns_packDir [total]: "\<lbrakk>tame_value v; \<And>x. p x\<rbrakk> \<Longrightarrow> returns (packDir lower v) p"
  unfolding packDir_def Let_def by (intro total) auto

lemma returns_idBase [total]: "\<lbrakk>tame_value v; \<And>x. p x\<rbrakk> \<Longrightarrow> returns (idBase w v) p"
  unfolding idBase_def Let_def by (intro total) auto

lemma returns_storage [total]: "\<lbrakk>tame v; \<And>x. p x\<rbrakk> \<Longrightarrow> returns (storage_section w v) p"
  unfolding storage_section_def by (intro total) auto

section \<open>The file\<close>

lemma returns_version [total]: "\<lbrakk>tame_members ms; \<And>x. p x\<rbrakk> \<Longrightarrow> returns (version_check ms) p"
  unfolding version_check_def by (intro total) auto

lemma returns_keys [total]: "(\<And>x. p x) \<Longrightarrow> returns (key_check location ms) p"
  by (simp add: returns_def key_check_def)

lemma returns_at_section [total]:
  "\<lbrakk>tame_members ms; \<And>v. tame v \<Longrightarrow> returns (read v) p; p dflt\<rbrakk> \<Longrightarrow> returns (at_section here ms name dflt read) p"
  by (auto simp: at_section_def returns_answer dest: tame_at split: option.split)

lemma returns_sections [total]:
  "\<lbrakk>tame_members ms; \<And>x. p x\<rbrakk> \<Longrightarrow> returns (read_sections w location ms) p"
  unfolding read_sections_def Let_def by (intro total) assumption+

lemma decode_total:
  assumes "\<forall>v. JSON_parse src = Some v \<longrightarrow> tame v"
  shows "\<exists>d. decodeDeskConfig w src location = Some d \<and> (dc_values d = None \<longleftrightarrow> dc_problems d \<noteq> [])"
proof (cases "JSON_parse src")
  case None
  then show ?thesis by (simp add: decodeDeskConfig_def refused_file_def)
next
  case (Some v)
  then have t: "tame v" using assms by blast
  show ?thesis
  proof (cases "\<exists>ms. v = JObj ms")
    case True
    then obtain ms where v: "v = JObj ms" by blast
    have "returns (and_then (version_check ms) (\<lambda>_. and_then (key_check location ms) (\<lambda>_. read_sections w location ms))) (\<lambda>_. True)"
      using t unfolding v by (intro total) simp_all
    then show ?thesis using Some v by (auto simp: returns_def decodeDeskConfig_def Let_def)
  next
    case False
    then show ?thesis using Some describe_tame [of "Some v"] t
      by (cases v) (auto simp: decodeDeskConfig_def refused_file_def)
  qed
qed

text \<open>C29: The decoder answers on every file, whatever is wrong with it, with values or with the problems that refuse it: it
  throws on no text whose objects have no member named \<open>toString\<close>.\<close>

theorem decode_answers:
  assumes "\<forall>v. JSON_parse src = Some v \<longrightarrow> tame v"
  shows "\<exists>d. decodeDeskConfig w src location = Some d \<and> (dc_values d = None \<longleftrightarrow> dc_problems d \<noteq> [])"
  by (rule decode_total [OF assms])

definition wrong_text :: jstr where
  "wrong_text = js ''{\"deskConfigVersion\":[],\"user\":{\"displayName\":{}},\"panes\":0}''"

theorem decode_answers_witness:
  "\<exists>d. decodeDeskConfig plain_web wrong_text Desk = Some d \<and> dc_values d = None
     \<and> dc_problems d = [(js ''deskConfigVersion'', VersionMustBe (js ''an array'')),
        (js ''user.displayName'', NonEmptyString (js ''object [object Object]'')), (js ''panes'', MustBeObject (js ''number 0''))]"
proof -
  have "case JSON_parse wrong_text of None \<Rightarrow> True | Some v \<Rightarrow> tame v" by code_simp
  then have "\<forall>v. JSON_parse wrong_text = Some v \<longrightarrow> tame v" by (auto split: option.splits)
  from decode_answers [OF this, of plain_web Desk] obtain d where d: "decodeDeskConfig plain_web wrong_text Desk = Some d"
    "dc_values d = None \<longleftrightarrow> dc_problems d \<noteq> []" by (elim exE conjE)
  have "map_option dc_problems (decodeDeskConfig plain_web wrong_text Desk) = Some
     [(js ''deskConfigVersion'', VersionMustBe (js ''an array'')),
      (js ''user.displayName'', NonEmptyString (js ''object [object Object]'')), (js ''panes'', MustBeObject (js ''number 0''))]"
    by code_simp
  then show ?thesis using d by simp
qed

text \<open>The exception: the version is an object with a member named \<open>toString\<close>, and the decoder throws instead of saying so.\<close>

lemma toString_throws: "decodeDeskConfig w (js ''{\"deskConfigVersion\":{\"toString\":1}}'') location = None"
proof -
  have "JSON_parse (js ''{\"deskConfigVersion\":{\"toString\":1}}'')
      = Some (JObj [(js ''deskConfigVersion'', JObj [(js ''toString'', JNum (to_double False 1 1))])])"
    by code_simp
  then show ?thesis
    by (simp add: decodeDeskConfig_def version_check_def refused_def describe_def and_then_def)
qed

section \<open>Credentials\<close>

text \<open>C28: In a file that parses to an object, a member that is named like a credential, at whatever depth and whatever else is in the file, keeps
  the file from having values: it is refused, and the member is named by its path with the sentence about where keys
  live, unless the decoder throws, which it does of no file without a member named \<open>toString\<close>.\<close>

theorem credential_refuses_file:
  assumes "JSON_parse src = Some (JObj ms)" "names_key (w_lower w) [] (JObj ms) loc"
  shows "case decodeDeskConfig w src location of
      None \<Rightarrow> \<not> tame (JObj ms)
    | Some d \<Rightarrow> dc_values d = None \<and> (loc, KEYS_ARE_NEVER_IN_CONFIGURATION) \<in> set (dc_problems d)"
proof (cases "decodeDeskConfig w src location")
  case None
  then show ?thesis using decode_total [of src w location] assms(1) by (auto simp del: tame.simps)
next
  case (Some d)
  then show ?thesis using credential_refused [OF Some assms] by (simp only: option.case)
qed

definition credential_text :: jstr where
  "credential_text = js ''{\"deskConfigVersion\":1,\"user\":{\"token\":\"x\"}}''"

theorem credential_refuses_file_witness:
  "\<exists>d. decodeDeskConfig plain_web credential_text Desk = Some d \<and> dc_values d = None
     \<and> (js ''user.token'', KEYS_ARE_NEVER_IN_CONFIGURATION) \<in> set (dc_problems d)"
proof -
  let ?ms = "[(js ''deskConfigVersion'', JNum (to_double False 1 1)), (js ''user'', JObj [(js ''token'', JStr (js ''x''))])]"
  have p: "JSON_parse credential_text = Some (JObj ?ms)" by code_simp
  have "names_key (w_lower plain_web) (js ''user'') (JObj [(js ''token'', JStr (js ''x''))]) (path_to (js ''user'') (js ''token''))"
    using names_key.named [of "js ''token''" "JStr (js ''x'')" "[(js ''token'', JStr (js ''x''))]" "w_lower plain_web" "js ''user''"]
    by (simp add: plain_web_def isKeyLike_def KEY_LIKE_def contains_def)
  then have k: "names_key (w_lower plain_web) [] (JObj ?ms) (js ''user.token'')"
    using names_key.inside_member [of "js ''user''" "JObj [(js ''token'', JStr (js ''x''))]" ?ms "w_lower plain_web" "[]"]
    by (simp add: path_to_def)
  have "tame (JObj ?ms)" by code_simp
  then show ?thesis using credential_refuses_file [OF p k, of Desk] by (auto split: option.splits)
qed

end
