(* ===== verification/Project_File.thy ===== *)
theory Project_File
  imports Desk_Decode Document_Gate Proposal_Accept Document_Buffer
begin

text \<open>
  \<open>admin/useProjectFileSave.ts\<close>: the one path the project's configuration file is saved by.  First
  \<open>composeProjectFile\<close>, which splices one top-level member into the bytes of the file and asks the decoder about the
  result; then the hook around it, which holds the revision a save is composed against.
\<close>

section \<open>Composing\<close>

text \<open>\<open>PROJECT_FILE_POINTERS\<close>: the members this page may splice.\<close>

datatype project_file_pointer = Organization | Appearance | Panes | Storage

definition member_name_of :: "project_file_pointer \<Rightarrow> jstr" where
  "member_name_of p =
     (case p of Organization \<Rightarrow> js ''organization'' | Appearance \<Rightarrow> js ''appearance'' | Panes \<Rightarrow> js ''panes'' | Storage \<Rightarrow> js ''storage'')"

definition file_pointer :: "project_file_pointer \<Rightarrow> jstr" where
  "file_pointer p = slash # member_name_of p"

definition CARD_POINTERS :: "project_file_pointer list" where
  "CARD_POINTERS = [Organization, Storage]"

record member_edit =
  ed_path :: "jstr list"
  ed_value :: jval

text \<open>The reason a file was not composed: the two readings disagree, or the decoder refuses the result.\<close>

datatype compose_reason = Readings disagreement_reason | Decoder reason

record composed_file =
  cf_text :: "jstr option"
  cf_problems :: "(jstr \<times> compose_reason) list"

text \<open>The paths of the edits are the cards' own, so a step is never the name of an inherited member.\<close>

fun setIn :: "jval option \<Rightarrow> jstr list \<Rightarrow> jval \<Rightarrow> jval" where
  "setIn v [] new = new"
| "setIn v (h # t) new =
     (let rec = (case v of Some (JObj ms) \<Rightarrow> ms | _ \<Rightarrow> []) in JObj (map_set h (setIn (map_of rec h) t new) rec))"

definition compose_member :: "jval option \<Rightarrow> member_edit list \<Rightarrow> jval" where
  "compose_member base edits =
     fold (\<lambda>e v. setIn (Some v) (ed_path e) (ed_value e)) edits (case base of None \<Rightarrow> JObj [] | Some v \<Rightarrow> v)"

record member_shape =
  sh_indent :: jstr
  sh_inline :: bool

definition memberJson :: "jval \<Rightarrow> member_shape \<Rightarrow> jstr" where
  "memberJson v shape =
     (if sh_inline shape then JSON_stringify [] v
      else join_with (10 # sh_indent shape) (split_on 10 (JSON_stringify (js ''  '') v)))"

text \<open>The blanks in front of an offset, when nothing else is between them and the line break.\<close>

definition runBefore :: "jstr \<Rightarrow> nat \<Rightarrow> jstr option" where
  "runBefore src k =
     (let start = k - length (takeWhile is_blank (rev (take k src))) in
      if start = 0 \<or> char_at src (start - 1) \<noteq> Some 10 then None else Some (slice src start k))"

text \<open>The loop over the spans: the first member of the top level with a run in front of it.\<close>

fun neighbour_shape :: "jstr \<Rightarrow> (jstr \<times> span) list \<Rightarrow> member_shape" where
  "neighbour_shape src [] = \<lparr>sh_indent = js ''  '', sh_inline = True\<rparr>"
| "neighbour_shape src ((p, sp) # others) =
     (if p = [] \<or> slash \<in> set (drop 1 p) then neighbour_shape src others
      else (case runBefore src (memberStart sp) of
              Some neighbour \<Rightarrow> \<lparr>sh_indent = neighbour, sh_inline = True\<rparr>
            | None \<Rightarrow> neighbour_shape src others))"

definition shapeOf_member :: "buffer \<Rightarrow> jstr \<Rightarrow> member_shape" where
  "shapeOf_member current ptr =
     (let own_spans = ix_spans (b_index current) in
      case spanAt (b_index current) ptr of
        None \<Rightarrow> neighbour_shape (b_text current) own_spans
      | Some own \<Rightarrow>
          (case runBefore (b_text current) (memberStart own) of
             None \<Rightarrow> neighbour_shape (b_text current) own_spans
           | Some measured \<Rightarrow>
               \<lparr>sh_indent = measured, sh_inline = 10 \<notin> set (slice (b_text current) (valueStart own) (valueEnd own))\<rparr>))"

definition keyPathOf :: "jstr \<Rightarrow> jstr" where
  "keyPathOf ptr = (if ptr \<noteq> [] \<and> hd ptr = slash then join_with (js ''.'') (split_on slash (drop 1 ptr)) else [])"

text \<open>\<^term>\<open>None\<close> is a thrown exception, the decoder's.\<close>

definition composeProjectFile ::
  "web_platform \<Rightarrow> jstr \<Rightarrow> project_file_pointer \<Rightarrow> member_edit list \<Rightarrow> composed_file option" where
  "composeProjectFile w src p edits =
     (let current = buffered src; disagreements = agreesWithParse src (b_index current) in
      if disagreements \<noteq> [] then
        Some \<lparr>cf_text = None, cf_problems = map (\<lambda>(ptr, r). (keyPathOf ptr, Readings r)) disagreements\<rparr>
      else
        (let member = compose_member (valueAt (the (ix_value (b_index current))) (file_pointer p)) edits;
             new = setRawJson current (file_pointer p) (memberJson member (shapeOf_member current (file_pointer p)))
         in case decodeDeskConfig w (b_text new) Project of
              None \<Rightarrow> None
            | Some d \<Rightarrow>
                if dc_problems d \<noteq> [] then Some \<lparr>cf_text = None, cf_problems = map (apsnd Decoder) (dc_problems d)\<rparr>
                else Some \<lparr>cf_text = Some (b_text new), cf_problems = []\<rparr>))"

section \<open>The hook\<close>

record revision =
  rv_text :: jstr
  rv_sha256 :: jstr

datatype blocked_reason = FROM_THE_DESK_FILE | REFUSED | NOT_READ

datatype write_status = Idle | Pending | Landed_write | Failed_write jstr

text \<open>
  The revision React keeps and the one the last render saw, which is what a save reads; the page's own problems and
  sentences; the status of the mutation; and the requests that were sent, each the content and the digest it states.
\<close>

record save_hook =
  sv_base :: "revision option"
  sv_shown :: "revision option"
  sv_blocked :: "blocked_reason option"
  sv_problems :: "(jstr \<times> compose_reason) list"
  sv_said :: bool
  sv_reloading :: bool
  sv_reloads :: nat
  sv_readFailure :: "jstr option"
  sv_write :: write_status
  sv_requests :: "(jstr \<times> jstr) list"

definition opened :: save_hook where
  "opened = \<lparr>sv_base = None, sv_shown = None, sv_blocked = Some NOT_READ, sv_problems = [], sv_said = False,
     sv_reloading = False, sv_reloads = 0, sv_readFailure = None, sv_write = Idle, sv_requests = []\<rparr>"

text \<open>One render, with the effective configuration's text and digest, its source and problems, and \<open>unsaved\<close>.\<close>

definition taken_base :: "revision option \<Rightarrow> bool \<Rightarrow> revision option \<Rightarrow> revision option" where
  "taken_base live unsaved base =
     (case live of
        None \<Rightarrow> base
      | Some l \<Rightarrow>
          if map_option rv_sha256 base \<noteq> Some (rv_sha256 l) \<and> (base = None \<or> \<not> unsaved) then Some l else base)"

definition render_save :: "revision option \<Rightarrow> bool \<Rightarrow> bool \<Rightarrow> bool \<Rightarrow> save_hook \<Rightarrow> save_hook" where
  "render_save live from_desk has_problems unsaved s =
     (let base = taken_base live unsaved (sv_base s) in
      s\<lparr>sv_base := base, sv_shown := base,
        sv_blocked := (if from_desk then Some FROM_THE_DESK_FILE else if has_problems then Some REFUSED
                       else if base = None then Some NOT_READ else None)\<rparr>)"

definition forget_verdict :: "save_hook \<Rightarrow> save_hook" where
  "forget_verdict s = s\<lparr>sv_problems := [], sv_said := False, sv_write := Idle\<rparr>"

definition save :: "web_platform \<Rightarrow> project_file_pointer \<Rightarrow> member_edit list \<Rightarrow> save_hook \<Rightarrow> save_hook" where
  "save w p edits s =
     (case (sv_blocked s, sv_shown s) of
        (None, Some base) \<Rightarrow>
          (let s1 = s\<lparr>sv_problems := [], sv_said := False, sv_readFailure := None, sv_write := Idle\<rparr> in
           case composeProjectFile w (rv_text base) p edits of
             None \<Rightarrow> s1
           | Some c \<Rightarrow>
               (case cf_text c of
                  None \<Rightarrow> s1\<lparr>sv_problems := cf_problems c\<rparr>
                | Some content \<Rightarrow>
                    s1\<lparr>sv_write := Pending, sv_requests := sv_requests s1 @ [(content, rv_sha256 base)]\<rparr>))
      | _ \<Rightarrow> s)"

definition write_landed :: "revision \<Rightarrow> save_hook \<Rightarrow> save_hook" where
  "write_landed answered s = s\<lparr>sv_base := Some answered, sv_said := True, sv_write := Landed_write\<rparr>"

definition write_failed :: "jstr \<Rightarrow> save_hook \<Rightarrow> save_hook" where
  "write_failed message s = s\<lparr>sv_write := Failed_write message\<rparr>"

definition reload :: "save_hook \<Rightarrow> save_hook" where
  "reload s = s\<lparr>sv_reloads := js_inc (sv_reloads s), sv_problems := [], sv_said := False, sv_readFailure := None,
                sv_reloading := True\<rparr>"

definition reload_landed :: "nat \<Rightarrow> revision \<Rightarrow> save_hook \<Rightarrow> save_hook" where
  "reload_landed ticket fresh s =
     (if ticket \<noteq> sv_reloads s then s
      else s\<lparr>sv_reloading := False, sv_write := Idle, sv_base := Some fresh\<rparr>)"

definition reload_failed :: "nat \<Rightarrow> jstr \<Rightarrow> save_hook \<Rightarrow> save_hook" where
  "reload_failed ticket cause s =
     (if ticket \<noteq> sv_reloads s then s else s\<lparr>sv_reloading := False, sv_readFailure := Some cause\<rparr>)"

datatype save_event =
    RenderSave "revision option" bool bool bool
  | Save "member_edit list"
  | ForgetVerdict
  | WriteLanded revision
  | WriteFailed jstr
  | Reload
  | ReloadLanded nat revision
  | ReloadFailed nat jstr

fun save_step :: "web_platform \<Rightarrow> project_file_pointer \<Rightarrow> save_hook \<Rightarrow> save_event \<Rightarrow> save_hook" where
  "save_step w p s (RenderSave live from_desk has_problems unsaved) = render_save live from_desk has_problems unsaved s"
| "save_step w p s (Save edits) = save w p edits s"
| "save_step w p s ForgetVerdict = forget_verdict s"
| "save_step w p s (WriteLanded answered) = write_landed answered s"
| "save_step w p s (WriteFailed message) = write_failed message s"
| "save_step w p s Reload = reload s"
| "save_step w p s (ReloadLanded ticket fresh) = reload_landed ticket fresh s"
| "save_step w p s (ReloadFailed ticket cause) = reload_failed ticket cause s"

definition save_run :: "web_platform \<Rightarrow> project_file_pointer \<Rightarrow> save_event list \<Rightarrow> save_hook \<Rightarrow> save_hook" where
  "save_run w p es s = foldl (save_step w p) s es"

end
