(* ===== verification/Desk_Effective.thy ===== *)
theory Desk_Effective
  imports Project_File Stringify
begin

text \<open>
  The configuration a desk runs with: \<open>config/assistantProfile.ts\<close>, the preferences a project lays over the models of
  the machine; \<open>effectiveConfig\<close> of \<open>config/deskConfig.ts\<close>, the project's file over the desk's file over the
  defaults; \<open>config/queries.ts\<close>, the reads behind it; and what \<open>admin/useProjectFileSave.ts\<close> makes of the cached
  configuration when a write lands.
\<close>

section \<open>The preferences of a project\<close>

datatype model_preferences =
    Inherited
  | Preferred (pr_models: "jstr list") (pr_model: "jstr option") (pr_effort: "jstr option") (pr_thinking: "jstr option")

text \<open>
  A decoded profile, its values read off the JSON object it is: of the first version the two rows, of the second the
  connections.  Which context policies the harness accepts is the parameter \<open>context_ok\<close>.
\<close>

record assistant_profile =
  ap_version :: int
  ap_context :: "jval option"
  ap_codex :: "model_preferences option"
  ap_api :: "model_preferences option"
  ap_inherit :: "bool option"
  ap_connections :: "jstr list option"
  ap_defaultConnection :: "jstr option"
  ap_models :: "(jstr \<times> jval) list option"

definition string_member :: "(jstr \<times> jval) list \<Rightarrow> jstr \<Rightarrow> jstr option" where
  "string_member ms k = (case map_of ms k of Some (JStr s) \<Rightarrow> Some s | _ \<Rightarrow> None)"

text \<open>A member that is there is one of the words of a closed list.\<close>

definition absent_or_word :: "jval option \<Rightarrow> jstr list \<Rightarrow> bool" where
  "absent_or_word v allowed \<longleftrightarrow> (case v of None \<Rightarrow> True | Some (JStr s) \<Rightarrow> s \<in> set allowed | Some _ \<Rightarrow> False)"

definition preferred_ids :: "jval option \<Rightarrow> jstr list option" where
  "preferred_ids v =
     (case string_array v of
        Some ids \<Rightarrow>
          if length ids \<le> 128 \<and> list_all (\<lambda>t. t \<noteq> [] \<and> js_trim t = t \<and> bounded_id t) ids \<and> distinct ids then Some ids else None
      | None \<Rightarrow> None)"

definition chosen_among :: "jval option \<Rightarrow> jstr list \<Rightarrow> bool" where
  "chosen_among model ids \<longleftrightarrow>
     (if ids = [] then model = Some JNull else (case model of Some (JStr m) \<Rightarrow> m \<in> set ids | _ \<Rightarrow> False))"

definition row_keys :: "bool \<Rightarrow> jstr \<Rightarrow> jstr list" where
  "row_keys inherit key =
     (if inherit then [js ''inherit'']
      else [js ''inherit'', js ''models'', js ''model'', if key = js ''codex'' then js ''effort'' else js ''thinking''])"

text \<open>One turn of the loop over the rows; \<^term>\<open>None\<close> is the exception.\<close>

definition profile_row :: "jstr \<Rightarrow> jval \<Rightarrow> model_preferences option" where
  "profile_row key v =
     (case v of
        JObj row \<Rightarrow>
          (case map_of row (js ''inherit'') of
             Some (JBool inherit) \<Rightarrow>
               if \<not> set (own_keys row) \<subseteq> set (row_keys inherit key) then None
               else if inherit then Some Inherited
               else (case preferred_ids (map_of row (js ''models'')) of
                       None \<Rightarrow> None
                     | Some ids \<Rightarrow>
                         if chosen_among (map_of row (js ''model'')) ids
                            \<and> absent_or_word (map_of row (js ''effort'')) CODEX_EFFORTS
                            \<and> absent_or_word (map_of row (js ''thinking'')) ASSISTANT_THINKING
                         then Some (Preferred ids (string_member row (js ''model'')) (string_member row (js ''effort''))
                                     (string_member row (js ''thinking'')))
                         else None)
           | _ \<Rightarrow> None)
      | _ \<Rightarrow> None)"

definition optional_row :: "(jstr \<times> jval) list \<Rightarrow> jstr \<Rightarrow> model_preferences option option" where
  "optional_row ms key = (case map_of ms key of None \<Rightarrow> Some None | Some v \<Rightarrow> map_option Some (profile_row key v))"

definition is_version :: "int \<Rightarrow> (jstr \<times> jval) list \<Rightarrow> bool" where
  "is_version n ms \<longleftrightarrow> (case map_of ms (js ''profileVersion'') of Some (JNum x) \<Rightarrow> num_eq x (to_double False n 1) | _ \<Rightarrow> False)"

definition profile_v1 :: "jstr \<Rightarrow> jval \<Rightarrow> assistant_profile option" where
  "profile_v1 src v =
     (case v of
        JObj ms \<Rightarrow>
          if 65536 < int (byte_length src) \<or> \<not> is_version 1 ms
             \<or> \<not> set (own_keys ms) \<subseteq> set (map js [''profileVersion'', ''codex'', ''api'', ''context'']) then None
          else (case (optional_row ms (js ''codex''), optional_row ms (js ''api'')) of
                  (Some codex, Some api) \<Rightarrow>
                    Some \<lparr>ap_version = 1, ap_context = map_of ms (js ''context''), ap_codex = codex, ap_api = api,
                          ap_inherit = None, ap_connections = None, ap_defaultConnection = None, ap_models = None\<rparr>
                | _ \<Rightarrow> None)
      | _ \<Rightarrow> None)"

definition is_connection_id :: "jstr \<Rightarrow> bool" where
  "is_connection_id t \<longleftrightarrow> t = js ''legacy-api'' \<or> t = js ''legacy-codex''
     \<or> (take 3 t = js ''ai-'' \<and> length t = 27 \<and> list_all is_lower_hex (drop 3 t))"

definition connection_ids :: "jval option \<Rightarrow> jstr list option" where
  "connection_ids v =
     (case string_array v of
        Some ids \<Rightarrow> if length ids \<le> 32 \<and> list_all is_connection_id ids \<and> distinct ids then Some ids else None
      | None \<Rightarrow> None)"

text \<open>A row of \<open>models\<close> is decoded as the one row of a profile of the first version, from the bytes it is written in.\<close>

definition model_row_ok :: "jstr list \<Rightarrow> jstr \<times> jval \<Rightarrow> bool" where
  "model_row_ok connections e =
     (case e of (cid, v) \<Rightarrow> cid \<in> set connections \<and> (case v of
        JObj row \<Rightarrow>
          (let key = (if map_of row (js ''effort'') \<noteq> None then js ''codex'' else js ''api'');
               t = JSON_stringify [] (JObj [(js ''profileVersion'', JNum (to_double False 1 1)), (key, v)])
           in case JSON_parse t of None \<Rightarrow> False | Some u \<Rightarrow> profile_v1 t u \<noteq> None)
      | _ \<Rightarrow> False))"

definition model_rows :: "jstr list \<Rightarrow> jval option \<Rightarrow> (jstr \<times> jval) list option option" where
  "model_rows connections v =
     (case v of
        None \<Rightarrow> Some None
      | Some (JObj ms) \<Rightarrow> if length ms \<le> 32 \<and> list_all (model_row_ok connections) ms then Some (Some ms) else None
      | Some _ \<Rightarrow> None)"

definition v2_keys :: "bool \<Rightarrow> jstr list" where
  "v2_keys inherit =
     (if inherit then map js [''profileVersion'', ''inherit'', ''context'']
      else map js [''profileVersion'', ''inherit'', ''connections'', ''defaultConnection'', ''models'', ''context''])"

definition decodeProfileV2 :: "(jstr \<times> jval) list \<Rightarrow> jstr \<Rightarrow> assistant_profile option" where
  "decodeProfileV2 ms src =
     (if 65536 < int (byte_length src) then None
      else (case map_of ms (js ''inherit'') of
        Some (JBool inherit) \<Rightarrow>
          (let profile = \<lparr>ap_version = 2, ap_context = map_of ms (js ''context''), ap_codex = None, ap_api = None,
             ap_inherit = Some inherit, ap_connections = None, ap_defaultConnection = None, ap_models = None\<rparr> in
           if \<not> set (own_keys ms) \<subseteq> set (v2_keys inherit) then None
           else if inherit then Some profile
           else (case connection_ids (map_of ms (js ''connections'')) of
                   None \<Rightarrow> None
                 | Some cs \<Rightarrow>
                     if \<not> chosen_among (map_of ms (js ''defaultConnection'')) cs then None
                     else (case model_rows cs (map_of ms (js ''models'')) of
                             None \<Rightarrow> None
                           | Some rows \<Rightarrow>
                               Some (profile\<lparr>ap_connections := Some cs,
                                 ap_defaultConnection := string_member ms (js ''defaultConnection''), ap_models := rows\<rparr>))))
      | _ \<Rightarrow> None))"

definition decodeAssistantProfile :: "(jval \<Rightarrow> bool) \<Rightarrow> jstr \<Rightarrow> assistant_profile option" where
  "decodeAssistantProfile context_ok src =
     (case JSON_parse src of
        None \<Rightarrow> None
      | Some v \<Rightarrow>
          (case v of
             JObj ms \<Rightarrow>
               if (case map_of ms (js ''context'') of None \<Rightarrow> False | Some c \<Rightarrow> \<not> context_ok c) then None
               else if is_version 2 ms then decodeProfileV2 ms src else profile_v1 src v
           | _ \<Rightarrow> profile_v1 src v))"

record assistant_profile_read =
  apr_present :: bool
  apr_sha256 :: "jstr option"
  apr_text :: "jstr option"
  apr_value :: "assistant_profile option"
  apr_problem :: bool

text \<open>Only model preferences are overlaid.\<close>

definition overlaid_agent :: "agent_config option \<Rightarrow> model_preferences option \<Rightarrow> agent_config option" where
  "overlaid_agent agent pref =
     (case (agent, pref) of
        (Some a, Some (Preferred ids model effort thinking)) \<Rightarrow>
          Some (a\<lparr>ag_models := Some ids, ag_model := model, ag_effort := effort\<rparr>)
      | _ \<Rightarrow> agent)"

definition overlaid_endpoint :: "endpoint_config option \<Rightarrow> model_preferences option \<Rightarrow> endpoint_config option" where
  "overlaid_endpoint endpoint pref =
     (case (endpoint, pref) of
        (Some e, Some (Preferred ids model effort thinking)) \<Rightarrow> Some (e\<lparr>e_models := ids, e_model := model\<rparr>)
      | _ \<Rightarrow> endpoint)"

definition overlaid_thinking :: "assistant_config \<Rightarrow> model_preferences option \<Rightarrow> jstr" where
  "overlaid_thinking machine pref =
     (case (as_endpoint machine, pref) of
        (Some e, Some (Preferred ids model effort (Some thinking))) \<Rightarrow> thinking
      | _ \<Rightarrow> as_thinking machine)"

definition applyAssistantProfile :: "assistant_config \<Rightarrow> assistant_profile_read option \<Rightarrow> assistant_config" where
  "applyAssistantProfile machine read =
     (let profile = Option.bind read apr_value; codex = Option.bind profile ap_codex; api = Option.bind profile ap_api in
      machine\<lparr>as_agent := overlaid_agent (as_agent machine) codex,
              as_endpoint := overlaid_endpoint (as_endpoint machine) api,
              as_thinking := overlaid_thinking machine api\<rparr>)"

section \<open>The two files over the defaults\<close>

datatype failure_source = FromChassis | FromDesk | FromBrowser

record read_failure =
  rf_reason :: jstr
  rf_responseReceived :: bool
  rf_status :: "int option"
  rf_source :: failure_source

record build_identity =
  bi_moduleVersion :: "jstr option"
  bi_revision :: "jstr option"
  bi_modified :: "bool option"

record component_builds =
  cb_desk :: build_identity
  cb_runtime :: build_identity
  cb_runner :: "build_identity option"
  cb_sourceWorker :: "build_identity option"

record chassis_paths =
  ch_builds :: "component_builds option"
  ch_requireTestedReleases :: "bool option"
  ch_projectDir :: jstr
  ch_projectFile :: jstr
  ch_runtimeBin :: jstr
  ch_runtimeInheritsSigningKey :: "bool option"

datatype gateway_status = Ready | Unavailable | External

record local_gateway_status =
  lg_build :: "(jstr option \<times> jstr \<times> bool option) option"
  lg_status :: gateway_status
  lg_gateway :: "gateway_config option"
  lg_problem :: "jstr option"
  lg_documentProcessing :: "bool option"

record desk_level_read =
  dl_localGateway :: "local_gateway_status option"
  dl_path :: jstr
  dl_present :: bool
  dl_text :: "jstr option"
  dl_sha256 :: "jstr option"
  dl_decoded :: "decoded_config option"
  dl_note :: "jstr option"
  dl_readFailure :: "read_failure option"
  dl_chassis :: "chassis_paths option"

text \<open>What Admin is given of it: the same, and the problems apart.\<close>

record desk_level_summary = desk_level_read +
  dl_problems :: "problem list"

datatype value_source = FromProjectFile | FromDeskFile | FromDefault

record desk_config =
  c_organization :: organization_config
  c_user :: jstr
  c_identity :: "provider_config option"
  c_assistant :: assistant_config
  c_research :: research_config
  c_project :: "jstr option"
  c_appearance :: "jstr \<times> jstr"
  c_panes :: panes_config
  c_storage :: pack_storage

record value_sources =
  s_organization :: value_source
  s_user :: value_source
  s_identity :: value_source
  s_assistant :: value_source
  s_research :: value_source
  s_project :: value_source
  s_appearance :: value_source
  s_panes :: value_source
  s_storage :: value_source

record effective_config =
  ef_userNameDefaulted :: bool
  ef_machineAssistant :: assistant_config
  ef_assistantProfile :: "assistant_profile_read option"
  ef_config :: desk_config
  ef_sources :: value_sources
  ef_problems :: "problem list"
  ef_path :: jstr
  ef_text :: "jstr option"
  ef_sha256 :: "jstr option"
  ef_note :: "jstr option"
  ef_readFailure :: "read_failure option"
  ef_declaredPanes :: declared_panes
  ef_desk :: "desk_level_summary option"

definition PROJECT_CONFIG_PATH :: jstr where
  "PROJECT_CONFIG_PATH = js ''jpack-desk.json''"

definition managed_documents :: "document_source option option \<Rightarrow> document_source option" where
  "managed_documents declared =
     (case declared of None \<Rightarrow> Some DOCUMENT_DEFAULTS | Some d \<Rightarrow> d)"

definition withLocalGateway :: "research_config \<Rightarrow> local_gateway_status option \<Rightarrow> research_config" where
  "withLocalGateway research gateway =
     (case gateway of
        None \<Rightarrow> research
      | Some g \<Rightarrow>
          if r_gateway research \<noteq> None then research
          else research\<lparr>r_managedLocal := True, r_sources := no_sources, r_gateway := lg_gateway g,
                 r_documents := Some (map_option (\<lambda>d. d\<lparr>ds_source := js ''documents'',
                   ds_maxRequestBytes := min (ds_maxRequestBytes d) (32 * 1024 * 1024),
                   ds_maxResponseBytes := min (ds_maxResponseBytes d) (8 * 1024 * 1024)\<rparr>) (managed_documents (r_documents research)))\<rparr>)"

text \<open>\<open>pick\<close> and \<open>from\<close>; a section that only the desk's file may state is picked from that file alone.\<close>

definition pick :: "desk_values option \<Rightarrow> desk_values option \<Rightarrow> (desk_values \<Rightarrow> 'a option) \<Rightarrow> 'a" where
  "pick vs deskValues key =
     (case Option.bind vs key of
        Some x \<Rightarrow> x
      | None \<Rightarrow> (case Option.bind deskValues key of Some x \<Rightarrow> x | None \<Rightarrow> the (key DESK_DEFAULTS)))"

definition source_of :: "desk_values option \<Rightarrow> desk_values option \<Rightarrow> (desk_values \<Rightarrow> 'a option) \<Rightarrow> value_source" where
  "source_of vs deskValues key =
     (if Option.bind vs key \<noteq> None then FromProjectFile
      else if Option.bind deskValues key \<noteq> None then FromDeskFile else FromDefault)"

definition usable_gateway :: "desk_level_read option \<Rightarrow> local_gateway_status option" where
  "usable_gateway desk =
     (case desk of
        None \<Rightarrow> None
      | Some d \<Rightarrow>
          if dl_readFailure d = None \<and> (case dl_decoded d of None \<Rightarrow> True | Some c \<Rightarrow> dc_problems c = [])
          then dl_localGateway d else None)"

definition summarised :: "desk_level_read \<Rightarrow> desk_level_summary" where
  "summarised d = desk_level_read.extend d
     (desk_level_summary.fields (case dl_decoded d of None \<Rightarrow> [] | Some c \<Rightarrow> dc_problems c))"

definition effectiveConfig ::
  "decoded_config option \<Rightarrow> jstr option \<Rightarrow> read_failure option \<Rightarrow> desk_level_read option \<Rightarrow> jstr option \<Rightarrow> jstr option
    \<Rightarrow> assistant_profile_read option \<Rightarrow> effective_config" where
  "effectiveConfig decoded note failed desk src sha profile =
     (let vs = Option.bind decoded dc_values; deskDecoded = Option.bind desk dl_decoded;
          deskValues = Option.bind deskDecoded dc_values; machine = pick None deskValues v_assistant
      in \<lparr>ef_userNameDefaulted =
            (if Option.bind vs v_user \<noteq> None then (case decoded of Some d \<Rightarrow> dc_userNameDefaulted d | None \<Rightarrow> False)
             else if Option.bind deskValues v_user \<noteq> None
                  then (case deskDecoded of Some d \<Rightarrow> dc_userNameDefaulted d | None \<Rightarrow> False)
             else True),
          ef_machineAssistant = machine,
          ef_assistantProfile = profile,
          ef_config =
            \<lparr>c_organization = pick vs deskValues v_organization, c_user = pick vs deskValues v_user,
             c_identity = pick None deskValues v_identity, c_assistant = applyAssistantProfile machine profile,
             c_research = withLocalGateway (pick None deskValues v_research) (usable_gateway desk),
             c_project = pick None deskValues v_project, c_appearance = pick vs deskValues v_appearance,
             c_panes = pick vs deskValues v_panes, c_storage = pick vs deskValues v_storage\<rparr>,
          ef_sources =
            \<lparr>s_organization = source_of vs deskValues v_organization, s_user = source_of vs deskValues v_user,
             s_identity = source_of None deskValues v_identity, s_assistant = source_of None deskValues v_assistant,
             s_research = source_of None deskValues v_research, s_project = source_of None deskValues v_project,
             s_appearance = source_of vs deskValues v_appearance, s_panes = source_of vs deskValues v_panes,
             s_storage = source_of vs deskValues v_storage\<rparr>,
          ef_problems = (case decoded of None \<Rightarrow> [] | Some d \<Rightarrow> dc_problems d),
          ef_path = PROJECT_CONFIG_PATH, ef_text = src, ef_sha256 = sha, ef_note = note, ef_readFailure = failed,
          ef_declaredPanes =
            (case (if Option.bind vs v_panes \<noteq> None then Option.bind decoded dc_declaredPanes
                   else if Option.bind deskValues v_panes \<noteq> None then Option.bind deskDecoded dc_declaredPanes else None)
             of Some d \<Rightarrow> d | None \<Rightarrow> NOTHING_DECLARED),
          ef_desk = map_option summarised desk\<rparr>)"

section \<open>The reads\<close>

datatype 'a fetched = Fetched 'a | RequestError jstr int failure_source | OtherError jstr

record desk_level_answer =
  an_builds :: "component_builds option"
  an_localGateway :: "local_gateway_status option"
  an_path :: jstr
  an_present :: bool
  an_content :: "jstr option"
  an_sha256 :: "jstr option"
  an_project :: "(jstr \<times> jstr) option"
  an_runtime :: "(jstr \<times> jval option) option"
  an_jobs :: "jval option option"

definition boolean_only :: "jval option \<Rightarrow> bool option" where
  "boolean_only v = (case v of Some (JBool b) \<Rightarrow> Some b | _ \<Rightarrow> None)"

definition chassisPaths :: "desk_level_answer \<Rightarrow> chassis_paths option" where
  "chassisPaths a =
     (case (an_project a, an_runtime a) of
        (Some (dir, file), Some (bin, inherits)) \<Rightarrow>
          Some \<lparr>ch_builds = an_builds a, ch_requireTestedReleases = Option.bind (an_jobs a) boolean_only,
                ch_projectDir = dir, ch_projectFile = file, ch_runtimeBin = bin,
                ch_runtimeInheritsSigningKey = boolean_only inherits\<rparr>
      | _ \<Rightarrow> None)"

definition DESK_LEVEL_PATH_UNKNOWN :: jstr where
  "DESK_LEVEL_PATH_UNKNOWN = js ''the chassis did not say where''"

definition unread_desk_level :: "read_failure \<Rightarrow> desk_level_read" where
  "unread_desk_level f =
     \<lparr>dl_localGateway = None, dl_path = DESK_LEVEL_PATH_UNKNOWN, dl_present = False, dl_text = None, dl_sha256 = None,
      dl_decoded = None, dl_note = None, dl_readFailure = Some f, dl_chassis = None\<rparr>"

text \<open>\<^term>\<open>None\<close> is an exception of the decoder, which rejects the query.\<close>

definition loadDeskLevelConfig :: "web_platform \<Rightarrow> desk_level_answer fetched \<Rightarrow> desk_level_read option" where
  "loadDeskLevelConfig w answered =
     (case answered of
        RequestError m status source \<Rightarrow>
          Some (unread_desk_level \<lparr>rf_reason = m, rf_responseReceived = True, rf_status = Some status, rf_source = source\<rparr>)
      | OtherError m \<Rightarrow>
          Some (unread_desk_level \<lparr>rf_reason = m, rf_responseReceived = False, rf_status = None, rf_source = FromBrowser\<rparr>)
      | Fetched a \<Rightarrow>
          (let sha = Some (case an_sha256 a of None \<Rightarrow> [] | Some s \<Rightarrow> s);
               none_there = Some \<lparr>dl_localGateway = an_localGateway a, dl_path = an_path a, dl_present = False, dl_text = None,
                 dl_sha256 = sha, dl_decoded = None,
                 dl_note = Some (js ''no desk-level configuration file at '' @ an_path a),
                 dl_readFailure = None, dl_chassis = chassisPaths a\<rparr> in
           if \<not> an_present a then none_there
           else (case an_content a of
                   None \<Rightarrow> none_there
                 | Some content \<Rightarrow>
                     map_option (\<lambda>d. \<lparr>dl_localGateway = an_localGateway a, dl_path = an_path a, dl_present = True,
                         dl_text = Some content, dl_sha256 = sha, dl_decoded = Some d, dl_note = None,
                         dl_readFailure = None, dl_chassis = chassisPaths a\<rparr>)
                       (decodeDeskConfig w content Desk))))"

definition loadAssistantProfile :: "(jval \<Rightarrow> bool) \<Rightarrow> (jstr \<times> jstr) fetched \<Rightarrow> assistant_profile_read" where
  "loadAssistantProfile context_ok file =
     (case file of
        RequestError m status source \<Rightarrow>
          if status = 404 then \<lparr>apr_present = False, apr_sha256 = Some [], apr_text = None, apr_value = None, apr_problem = False\<rparr>
          else \<lparr>apr_present = False, apr_sha256 = None, apr_text = None, apr_value = None, apr_problem = True\<rparr>
      | OtherError m \<Rightarrow> \<lparr>apr_present = False, apr_sha256 = None, apr_text = None, apr_value = None, apr_problem = True\<rparr>
      | Fetched (content, sha) \<Rightarrow>
          (let p = decodeAssistantProfile context_ok content in
           \<lparr>apr_present = True, apr_sha256 = Some sha, apr_text = Some content, apr_value = p, apr_problem = (p = None)\<rparr>))"

definition loadDeskConfig ::
  "web_platform \<Rightarrow> (jval \<Rightarrow> bool) \<Rightarrow> desk_level_answer fetched \<Rightarrow> (jstr \<times> jstr) fetched \<Rightarrow> (jstr \<times> jstr) fetched
    \<Rightarrow> effective_config option" where
  "loadDeskConfig w context_ok answered profile_file file =
     (case loadDeskLevelConfig w answered of
        None \<Rightarrow> None
      | Some deskLevel \<Rightarrow>
          (let profile = loadAssistantProfile context_ok profile_file in
           case file of
             RequestError m status source \<Rightarrow>
               if status = 404 then
                 Some (effectiveConfig None (Some (js ''no configuration was read: '' @ m)) None (Some deskLevel) None None
                   (Some profile))
               else
                 Some (effectiveConfig None None
                   (Some \<lparr>rf_reason = m, rf_responseReceived = True, rf_status = Some status, rf_source = source\<rparr>)
                   (Some deskLevel) None None (Some profile))
           | OtherError m \<Rightarrow>
               Some (effectiveConfig None None
                 (Some \<lparr>rf_reason = m, rf_responseReceived = False, rf_status = None, rf_source = FromBrowser\<rparr>)
                 (Some deskLevel) None None (Some profile))
           | Fetched (content, sha) \<Rightarrow>
               map_option (\<lambda>d. effectiveConfig (Some d) None None (Some deskLevel) (Some content) (Some sha) (Some profile))
                 (decodeDeskConfig w content Project)))"

section \<open>A write that landed\<close>

definition deskReadOf :: "effective_config \<Rightarrow> desk_level_read option" where
  "deskReadOf previous =
     (case ef_desk previous of
        None \<Rightarrow> None
      | Some desk \<Rightarrow>
          Some \<lparr>dl_localGateway = None, dl_path = dl_path desk, dl_present = dl_present desk, dl_text = dl_text desk,
                dl_sha256 = dl_sha256 desk, dl_decoded = dl_decoded desk, dl_note = dl_note desk,
                dl_readFailure = dl_readFailure desk, dl_chassis = dl_chassis desk\<rparr>)"

text \<open>The outer \<^term>\<open>None\<close> is an exception of the decoder, the inner one a cache that holds nothing.\<close>

definition configAfterProjectFileWrite ::
  "web_platform \<Rightarrow> effective_config option \<Rightarrow> revision \<Rightarrow> effective_config option option" where
  "configAfterProjectFileWrite w previous written =
     (case previous of
        None \<Rightarrow> Some None
      | Some cached \<Rightarrow>
          map_option (\<lambda>d. Some (effectiveConfig (Some d) None None (deskReadOf cached) (Some (rv_text written))
              (Some (rv_sha256 written)) (ef_assistantProfile cached)))
            (decodeDeskConfig w (rv_text written) Project))"

end
