(* ===== verification/Project_Facts.thy ===== *)
theory Project_Facts
  imports Project_File Document_Layout Config_Facts
begin

text \<open>
  What a save of the project's configuration file does: a file that is composed is accepted by the decoder, has the
  member with the edits laid over it, and has every other member of the top level byte for byte; and a card that
  holds unsaved work saves over the revision it showed.
\<close>

section \<open>Laying edits over a member\<close>

lemma setIn_reads: "value_down (setIn v path new) path = Some new"
  by (induction v path new rule: setIn.induct) (auto simp: Let_def step_into_obj map_of_map_set)

lemma compose_last: "edits \<noteq> [] \<Longrightarrow> value_down (compose_member base edits) (ed_path (last edits)) = Some (ed_value (last edits))"
proof -
  assume "edits \<noteq> []"
  then obtain es e where "edits = es @ [e]" by (cases edits rule: rev_cases) auto
  then show ?thesis by (simp add: compose_member_def setIn_reads)
qed

section \<open>The bytes of the member\<close>

lemma ws_runBefore:
  assumes "runBefore src k = Some r"
  shows "ws r"
proof -
  let ?n = "length (takeWhile is_blank (rev (take k src)))" and ?t = "take k src"
  have "r = drop (k - ?n) ?t" using assms by (simp add: runBefore_def Let_def slice_def drop_take split: if_splits)
  then have "set r \<subseteq> set (drop (length ?t - ?n) ?t)" by (simp add: set_drop_subset_set_drop diff_le_mono)
  also have "drop (length ?t - ?n) ?t = rev (take ?n (rev ?t))" using rev_take [of ?n "rev ?t"] by (simp only: length_rev rev_rev_ident)
  also have "take ?n (rev ?t) = takeWhile is_blank (rev ?t)" by (rule takeWhile_eq_take [symmetric])
  finally show ?thesis by (fastforce simp: ws_def list_all_iff is_blank_def isSpace_def dest: set_takeWhileD)
qed

lemma ws_neighbour: "ws (sh_indent (neighbour_shape src others))"
  by (induction src others rule: neighbour_shape.induct) (auto simp: ws_runBefore isSpace_def split: option.split)

lemma ws_shapeOf: "ws (sh_indent (shapeOf_member current ptr))"
  by (auto simp: shapeOf_member_def Let_def ws_neighbour ws_runBefore split: option.split)

lemma reads_memberJson:
  assumes "stable v" "ws (sh_indent shape)"
  shows "reads (memberJson v shape) v"
proof -
  have "reads (JSON_stringify (js ''  '') v) v" using assms(1) by (simp add: JSON_stringify_def reads_stringify isSpace_def)
  then show ?thesis using reads_indented assms reads_JSON_stringify by (simp add: memberJson_def)
qed

lemma file_pointer: "file_pointer p = pointer [member_name_of p]"
  by (cases p) (simp_all add: file_pointer_def member_name_of_def)

section \<open>A write at the top level\<close>

lemma top_write_frame:
  assumes b: "in_step b" "reads (b_text b) (JObj vs)" and j: "reads json j" and m: "m \<noteq> k"
  shows "value_text (b_text (setRawJson b (pointer [k]) json)) [m] = value_text (b_text b) [m]"
proof -
  obtain src where src: "b = buffered src" using b(1) in_step_buffered by blast
  have v: "reads src (JObj vs)" using b(2) src by simp
  show ?thesis
  proof (cases "spanAt (indexDocument src) (pointer [k])")
    case (Some sp)
    then have "b_text (setRawJson b (pointer [k]) json) = replaceValue src (indexDocument src) (pointer [k]) json"
      by (simp add: setRawJson_def place_json_def src)
    then show ?thesis using edited_frame [OF edited_replaceValue [OF v j, of "[k]"], of "[m]"] m src by simp
  next
    case None
    then have "k \<notin> fst ` set vs" using spanAt_declared [OF v, of "[k]"] by (cases "map_of vs k") (simp_all add: step_into_obj map_of_eq_None_iff)
    note keeps = insertMember_keeps_siblings [OF v j this m]
    have "b_text (setRawJson b (pointer [k]) json) = src
        \<or> b_text (setRawJson b (pointer [k]) json)
          = insertMember src (indexDocument src) (pointer []) (Some k) json (placeFor (buffered src) (pointer []) k)"
      using None by (simp add: setRawJson_def place_json_def src Let_def del: pointer.simps split: option.split)
    then show ?thesis using keeps src by auto
  qed
qed

lemma put_top:
  assumes "put_value [k] j v = JObj ms" "arrayIndex k = None"
  obtains vs where "v = JObj vs" "map_of ms k = Some j" "\<forall>m. m \<noteq> k \<longrightarrow> map_of ms m = map_of vs m"
proof -
  obtain vs where v: "v = JObj vs"
    using assms by (cases v) (auto simp: put_value_def split: if_splits)
  show ?thesis
  proof (cases "map_of vs k")
    case None
    let ?i = "schema_index (memberOrder (pointer [])) k (map fst vs)"
    have ms: "ms = take ?i vs @ (k, j) # drop ?i vs"
      using assms(1) None by (simp add: put_value_def v step_into_obj)
    have "map_of (take ?i vs) k = None" using None by (auto simp: map_of_eq_None_iff dest: in_set_takeD)
    then have "map_of ms k = Some j" by (simp add: ms map_add_def)
    moreover have "map_of ms m = map_of vs m" if "m \<noteq> k" for m
      using map_of_skip [OF that, of "take ?i vs" j "drop ?i vs"] by (simp add: ms del: map_of_append)
    ultimately show ?thesis using that [OF v] by simp
  next
    case (Some x)
    have ms: "ms = map (\<lambda>(n, w). (n, if n = k then j else w)) vs"
      using assms(1) Some by (simp add: put_value_def v step_into_obj cong: if_cong)
    have m: "map_of ms m = (if m = k then map_option (\<lambda>_. j) (map_of vs m) else map_of vs m)" for m
      unfolding ms by (induction vs) auto
    show ?thesis by (rule that [OF v]) (simp_all add: m Some)
  qed
qed

section \<open>The file that is composed\<close>

lemma decoded_object:
  assumes "decodeDeskConfig w src location = Some d" "dc_problems d = []"
  shows "(\<exists>ms. JSON_parse src = Some (JObj ms)) \<and> dc_values d \<noteq> None"
  using assms by (auto simp: decodeDeskConfig_def refused_file_def Let_def split: option.splits jval.splits if_splits)

lemma member_name_plain: "arrayIndex (member_name_of p) = None"
  by (cases p) (simp_all add: member_name_of_def arrayIndex_def is_index_def is_digit_def)

text \<open>C32: A file that is composed can be sent: the decoder accepts it, its member is the one the file had with the edits
  laid over it, the last of them readable at its path, and every other member of the top level has its value and its
  bytes as they were; so the gate, the splice and the decoder agree on what a save changes.\<close>

theorem composed_file_saves:
  assumes "composeProjectFile w src p edits = Some c" "cf_text c = Some new" "JSON_parse src = Some v"
    "stable (compose_member (valueAt v (file_pointer p)) edits)"
  shows "cf_problems c = [] \<and> (\<exists>vs ms d. v = JObj vs \<and> JSON_parse new = Some (JObj ms)
    \<and> decodeDeskConfig w new Project = Some d \<and> dc_problems d = [] \<and> dc_values d \<noteq> None
    \<and> map_of ms (member_name_of p) = Some (compose_member (map_of vs (member_name_of p)) edits)
    \<and> (edits \<noteq> [] \<longrightarrow> value_down (JObj ms) (member_name_of p # ed_path (last edits)) = Some (ed_value (last edits)))
    \<and> (\<forall>m. m \<noteq> member_name_of p \<longrightarrow> map_of ms m = map_of vs m \<and> value_text new [m] = value_text src [m]))"
proof -
  let ?k = "member_name_of p" and ?b = "buffered src"
  let ?member = "compose_member (valueAt v (file_pointer p)) edits"
  let ?json = "memberJson ?member (shapeOf_member ?b (file_pointer p))"
  have gate: "agreesWithParse src (indexDocument src) = []" using assms(1,2) by (auto simp: composeProjectFile_def Let_def split: if_splits)
  then have r: "reads src v" using assms(3) by (auto simp: agreesWithParse_empty_iff)
  have new: "new = b_text (setRawJson ?b (pointer [?k]) ?json)"
    and d: "\<exists>d. decodeDeskConfig w new Project = Some d \<and> dc_problems d = []" and p: "cf_problems c = []"
    using assms(1,2) gate r by (auto simp: composeProjectFile_def Let_def reads_def file_pointer split: option.splits if_splits)
  have j: "reads ?json ?member" by (rule reads_memberJson [OF assms(4) ws_shapeOf])
  have b: "in_step ?b" "reads (b_text ?b) v" using r by simp_all
  obtain d where d: "decodeDeskConfig w new Project = Some d" "dc_problems d = []" using d by blast
  obtain ms where ms: "JSON_parse new = Some (JObj ms)" "dc_values d \<noteq> None" using decoded_object [OF d] by blast
  have "reads new (put_value [?k] ?member v)" unfolding new setRawJson_def by (rule place_reads [OF b j])
  then have "put_value [?k] ?member v = JObj ms" using JSON_parse_reads [OF _ ms(1)] by simp
  then obtain vs where vs: "v = JObj vs" "map_of ms ?k = Some ?member" "\<forall>m. m \<noteq> ?k \<longrightarrow> map_of ms m = map_of vs m"
    by (rule put_top [OF _ member_name_plain])
  have "valueAt v (file_pointer p) = map_of vs ?k" by (simp add: file_pointer valueAt_def vs(1) step_into_obj split: option.split del: pointer.simps)
  moreover have "value_text new [m] = value_text src [m]" if "m \<noteq> ?k" for m
    using top_write_frame [OF b(1) b(2) [unfolded vs(1)] j that] by (simp add: new del: pointer.simps)
  moreover have "value_down (JObj ms) (?k # ed_path (last edits)) = Some (ed_value (last edits))" if "edits \<noteq> []"
    using vs(2) compose_last [OF that] by (simp add: step_into_obj)
  ultimately show ?thesis using p vs ms d by (intro conjI exI [of _ vs] exI [of _ ms] exI [of _ d]) simp_all
qed

section \<open>The revision a save is composed against\<close>

text \<open>What can happen around a card that holds unsaved work and is not answered.\<close>

fun unanswered :: "save_event \<Rightarrow> bool" where
  "unanswered (RenderSave live from_desk has_problems unsaved) = unsaved"
| "unanswered (WriteLanded r) = False"
| "unanswered (ReloadLanded t r) = False"
| "unanswered e = True"

definition states_base :: "web_platform \<Rightarrow> project_file_pointer \<Rightarrow> revision \<Rightarrow> jstr \<times> jstr \<Rightarrow> bool" where
  "states_base w p r request \<longleftrightarrow> snd request = rv_sha256 r
     \<and> (\<exists>edits. composeProjectFile w (rv_text r) p edits = Some \<lparr>cf_text = Some (fst request), cf_problems = []\<rparr>)"

lemma composed_no_problems:
  "\<lbrakk>composeProjectFile w src p edits = Some c; cf_text c = Some t\<rbrakk> \<Longrightarrow> c = \<lparr>cf_text = Some t, cf_problems = []\<rparr>"
  by (auto simp: composeProjectFile_def Let_def split: if_splits option.splits)

lemma unanswered_step:
  assumes "unanswered e" "sv_base s = Some r" "sv_shown s = Some r"
  shows "sv_base (save_step w p s e) = Some r \<and> sv_shown (save_step w p s e) = Some r
    \<and> (\<exists>rs. sv_requests (save_step w p s e) = sv_requests s @ rs \<and> list_all (states_base w p r) rs)"
  using assms composed_no_problems
  by (cases e) (auto simp: render_save_def taken_base_def save_def Let_def forget_verdict_def write_failed_def reload_def
      reload_failed_def states_base_def split: option.split)

text \<open>C33: While a card holds unsaved work, every save it sends replaces the revision the reader was shown when the work
  began: its content is composed from those bytes, and it states their digest, whatever the file on disk becomes in
  the meantime and whatever else is asked for, until an answer lands.\<close>

theorem unsaved_save_states_base:
  assumes "sv_base s = Some r" "sv_shown s = Some r" "list_all unanswered es"
  shows "\<exists>rs. sv_requests (save_run w p es s) = sv_requests s @ rs \<and> list_all (states_base w p r) rs"
  using assms
proof (induction es arbitrary: s)
  case (Cons e es)
  have e: "unanswered e" and es: "list_all unanswered es" using Cons.prems(3) by simp_all
  obtain rs where s: "sv_base (save_step w p s e) = Some r" "sv_shown (save_step w p s e) = Some r"
    "sv_requests (save_step w p s e) = sv_requests s @ rs" "list_all (states_base w p r) rs"
    using unanswered_step [OF e Cons.prems(1,2)] by blast
  obtain rs' where "sv_requests (save_run w p es (save_step w p s e)) = sv_requests (save_step w p s e) @ rs'"
    "list_all (states_base w p r) rs'" using Cons.IH [OF s(1,2) es] by blast
  then show ?case using s(3,4) by (intro exI [of _ "rs @ rs'"]) (simp add: save_run_def)
qed (simp add: save_run_def)

section \<open>A file with one member\<close>

definition organization_text :: jstr where
  "organization_text = js ''{\"deskConfigVersion\":1,\"organization\":{\"name\":\"a\"}}''"

definition renamed_text :: jstr where
  "renamed_text = js ''{\"deskConfigVersion\":1,\"organization\":{\"name\":\"bc\"}}''"

definition rename_edit :: member_edit where
  "rename_edit = \<lparr>ed_path = [js ''name''], ed_value = JStr (js ''bc'')\<rparr>"

lemma organization_composes:
  "composeProjectFile plain_web organization_text Organization [rename_edit] = Some \<lparr>cf_text = Some renamed_text, cf_problems = []\<rparr>"
  by code_simp

theorem composed_file_saves_witness:
  "\<exists>ms d. JSON_parse renamed_text = Some (JObj ms) \<and> decodeDeskConfig plain_web renamed_text Project = Some d \<and> dc_problems d = []
     \<and> value_down (JObj ms) [js ''organization'', js ''name''] = Some (JStr (js ''bc''))
     \<and> value_text renamed_text [js ''deskConfigVersion''] = value_text organization_text [js ''deskConfigVersion'']"
proof -
  let ?v = "JObj [(js ''deskConfigVersion'', JNum (to_double False 1 1)), (js ''organization'', JObj [(js ''name'', JStr (js ''a''))])]"
  have p: "JSON_parse organization_text = Some ?v" by code_simp
  have "stable (compose_member (valueAt ?v (file_pointer Organization)) [rename_edit])" by code_simp
  from composed_file_saves [OF organization_composes _ p this, of renamed_text] show ?thesis
    by (auto simp: member_name_of_def rename_edit_def js_def)
qed

theorem unsaved_save_states_base_witness:
  "\<exists>rs. sv_requests (save_run plain_web Organization
        [RenderSave (Some \<lparr>rv_text = renamed_text, rv_sha256 = js ''2''\<rparr>) False False True, Save [rename_edit]]
        (render_save (Some \<lparr>rv_text = organization_text, rv_sha256 = js ''1''\<rparr>) False False True opened)) = rs
     \<and> list_all (states_base plain_web Organization \<lparr>rv_text = organization_text, rv_sha256 = js ''1''\<rparr>) rs
     \<and> rs = [(renamed_text, js ''1'')]"
proof -
  let ?r = "\<lparr>rv_text = organization_text, rv_sha256 = js ''1''\<rparr>"
  let ?s = "render_save (Some ?r) False False True opened"
  let ?es = "[RenderSave (Some \<lparr>rv_text = renamed_text, rv_sha256 = js ''2''\<rparr>) False False True, Save [rename_edit]]"
  have s: "sv_base ?s = Some ?r" "sv_shown ?s = Some ?r" "sv_requests ?s = []"
    by (simp_all add: render_save_def taken_base_def opened_def Let_def)
  have "sv_requests (save_run plain_web Organization ?es ?s) = [(renamed_text, js ''1'')]"
    by (simp add: save_run_def render_save_def taken_base_def opened_def save_def Let_def organization_composes)
  moreover obtain rs where "sv_requests (save_run plain_web Organization ?es ?s) = rs" "list_all (states_base plain_web Organization ?r) rs"
    using unsaved_save_states_base [OF s(1,2), of ?es plain_web Organization] s(3) by auto
  ultimately show ?thesis by simp
qed

end
