(* ===== verification/Effective_Facts.thy ===== *)
theory Effective_Facts
  imports Desk_Effective Project_Facts
begin

text \<open>
  What the effective configuration keeps: a save of one member of the project's file leaves every other section as it
  was, and where it came from, but the local gateway is forgotten; the preferences of a project move the models of the
  machine's assistant and nothing else.
\<close>

section \<open>A section is read off its own member\<close>

lemma clean_sections:
  assumes "read_sections w Project ms = Some ((v, notices, declared), [])"
  shows "at_section True ms (js ''organization'') None organization_section = Some (v_organization v, [])"
    "at_section True ms (js ''user'') None user_section = Some (v_user v, [])"
    "at_section True ms (js ''appearance'') None appearance_section = Some (v_appearance v, [])"
    "at_section True ms (js ''panes'') (None, NOTHING_DECLARED) panes_section = Some ((v_panes v, declared), [])"
    "at_section True ms (js ''storage'') None (storage_section w) = Some (v_storage v, [])"
  using assms by (auto simp: read_sections_def)

lemma at_section_cong:
  assumes "at_section b ms k x f = Some (y, [])" "at_section b ms' k x f = Some (y', [])" "map_of ms k = map_of ms' k"
  shows "y = y'"
  using assms by (simp add: at_section_def)

text \<open>Whether the user's name was defaulted is read off the user's member.\<close>

definition user_defaulted :: "desk_values \<Rightarrow> (jstr \<times> jval) list \<Rightarrow> bool" where
  "user_defaulted v ms \<longleftrightarrow> v_user v \<noteq> None
     \<and> (case map_of ms (js ''user'') of Some (JObj u) \<Rightarrow> map_of u (js ''displayName'') = None | _ \<Rightarrow> True)"

lemma accepted_parts:
  assumes "decodeDeskConfig w src location = Some d" "dc_values d = Some v" "JSON_parse src = Some (JObj ms)"
  obtains notices declared where "read_sections w location ms = Some ((v, notices, declared), [])"
    "d = \<lparr>dc_values = Some v, dc_problems = [], dc_notices = notices, dc_declaredPanes = Some declared,
          dc_userNameDefaulted = user_defaulted v ms\<rparr>"
proof -
  obtain vals notices declared ps where r:
    "and_then (version_check ms) (\<lambda>_. and_then (key_check location ms) (\<lambda>_. read_sections w location ms)) = Some ((vals, notices, declared), ps)"
    using assms by (fastforce simp: decodeDeskConfig_def split: option.splits)
  have d: "d = \<lparr>dc_values = Some v, dc_problems = [], dc_notices = notices, dc_declaredPanes = Some declared,
          dc_userNameDefaulted = user_defaulted v ms\<rparr> \<and> vals = v \<and> ps = []"
    using assms(1,2) by (auto simp: decodeDeskConfig_def assms(3) r Let_def user_defaulted_def unique_empty split: if_splits)
  then have "read_sections w location ms = Some ((v, notices, declared), [])" using r by auto
  then show ?thesis using that d by blast
qed

text \<open>What two accepted files agree on when they differ in one member.\<close>

definition agree_but :: "project_file_pointer \<Rightarrow> decoded_config \<Rightarrow> decoded_config \<Rightarrow> bool" where
  "agree_but p d d' \<longleftrightarrow> (\<exists>v v'. dc_values d = Some v \<and> dc_values d' = Some v' \<and> dc_problems d' = []
     \<and> v_user v' = v_user v \<and> dc_userNameDefaulted d' = dc_userNameDefaulted d
     \<and> (p \<noteq> Organization \<longrightarrow> v_organization v' = v_organization v)
     \<and> (p \<noteq> Appearance \<longrightarrow> v_appearance v' = v_appearance v)
     \<and> (p \<noteq> Panes \<longrightarrow> v_panes v' = v_panes v \<and> dc_declaredPanes d' = dc_declaredPanes d)
     \<and> (p \<noteq> Storage \<longrightarrow> v_storage v' = v_storage v))"

lemma agree_butI:
  assumes "decodeDeskConfig w src Project = Some d" "dc_values d = Some v" "JSON_parse src = Some (JObj ms)"
    and "decodeDeskConfig w src' Project = Some d'" "dc_values d' = Some v'" "JSON_parse src' = Some (JObj ms')"
    and same: "\<And>m. m \<noteq> member_name_of p \<Longrightarrow> map_of ms' m = map_of ms m"
  shows "agree_but p d d'"
proof -
  obtain n decl where d: "read_sections w Project ms = Some ((v, n, decl), [])"
    "d = \<lparr>dc_values = Some v, dc_problems = [], dc_notices = n, dc_declaredPanes = Some decl, dc_userNameDefaulted = user_defaulted v ms\<rparr>"
    by (rule accepted_parts [OF assms(1-3)])
  obtain n' decl' where d': "read_sections w Project ms' = Some ((v', n', decl'), [])"
    "d' = \<lparr>dc_values = Some v', dc_problems = [], dc_notices = n', dc_declaredPanes = Some decl', dc_userNameDefaulted = user_defaulted v' ms'\<rparr>"
    by (rule accepted_parts [OF assms(4-6)])
  note c = clean_sections [OF d(1)] and c' = clean_sections [OF d'(1)]
  have u: "map_of ms' (js ''user'') = map_of ms (js ''user'')" by (rule same) (simp add: member_name_of_def js_def split: project_file_pointer.split)
  have vu: "v_user v' = v_user v" by (rule at_section_cong [OF c'(2) c(2) u])
  have "p \<noteq> Organization \<longrightarrow> v_organization v' = v_organization v"
    using at_section_cong [OF c'(1) c(1)] same [of "js ''organization''"] by (cases p) (simp_all add: member_name_of_def js_def)
  moreover have "p \<noteq> Appearance \<longrightarrow> v_appearance v' = v_appearance v"
    using at_section_cong [OF c'(3) c(3)] same [of "js ''appearance''"] by (cases p) (simp_all add: member_name_of_def js_def)
  moreover have "p \<noteq> Panes \<longrightarrow> (v_panes v', decl') = (v_panes v, decl)"
    using at_section_cong [OF c'(4) c(4)] same [of "js ''panes''"] by (cases p) (simp_all add: member_name_of_def js_def)
  moreover have "p \<noteq> Storage \<longrightarrow> v_storage v' = v_storage v"
    using at_section_cong [OF c'(5) c(5)] same [of "js ''storage''"] by (cases p) (simp_all add: member_name_of_def js_def)
  ultimately show ?thesis using vu u by (simp add: agree_but_def d(2) d'(2) user_defaulted_def)
qed

section \<open>The cached configuration after a save\<close>

text \<open>The sections of two configurations and their sources, but for one member of the project's file and the research.\<close>

definition same_sections_but :: "project_file_pointer \<Rightarrow> effective_config \<Rightarrow> effective_config \<Rightarrow> bool" where
  "same_sections_but p e e' \<longleftrightarrow>
     (let c = ef_config e; c' = ef_config e'; s = ef_sources e; s' = ef_sources e' in
      (p \<noteq> Organization \<longrightarrow> c_organization c' = c_organization c \<and> s_organization s' = s_organization s)
      \<and> (p \<noteq> Appearance \<longrightarrow> c_appearance c' = c_appearance c \<and> s_appearance s' = s_appearance s)
      \<and> (p \<noteq> Panes \<longrightarrow> c_panes c' = c_panes c \<and> s_panes s' = s_panes s \<and> ef_declaredPanes e' = ef_declaredPanes e)
      \<and> (p \<noteq> Storage \<longrightarrow> c_storage c' = c_storage c \<and> s_storage s' = s_storage s)
      \<and> c_user c' = c_user c \<and> s_user s' = s_user s \<and> ef_userNameDefaulted e' = ef_userNameDefaulted e
      \<and> c_identity c' = c_identity c \<and> s_identity s' = s_identity s
      \<and> c_assistant c' = c_assistant c \<and> s_assistant s' = s_assistant s
      \<and> ef_machineAssistant e' = ef_machineAssistant e \<and> ef_assistantProfile e' = ef_assistantProfile e
      \<and> c_project c' = c_project c \<and> s_project s' = s_project s \<and> s_research s' = s_research s)"

definition without_gateway :: "desk_level_read \<Rightarrow> desk_level_read" where
  "without_gateway d = d\<lparr>dl_localGateway := None\<rparr>"

lemma deskReadOf_effective: "deskReadOf (effectiveConfig d note f desk src sha profile) = map_option without_gateway desk"
  by (cases desk) (simp_all add: deskReadOf_def effectiveConfig_def Let_def summarised_def desk_level_read.defs
      desk_level_summary.defs without_gateway_def)

lemma usable_without: "usable_gateway (map_option without_gateway desk) = None"
  by (cases desk) (simp_all add: usable_gateway_def without_gateway_def split: option.split)

lemma decoded_without: "Option.bind (map_option without_gateway desk) dl_decoded = Option.bind desk dl_decoded"
  by (cases desk) (simp_all add: without_gateway_def)

definition desk_values_of :: "desk_level_read option \<Rightarrow> desk_values option" where
  "desk_values_of desk = Option.bind (Option.bind desk dl_decoded) dc_values"

section \<open>Reading an effective configuration\<close>

definition shown_panes :: "decoded_config option \<Rightarrow> desk_level_read option \<Rightarrow> declared_panes option" where
  "shown_panes d desk =
     (if Option.bind (Option.bind d dc_values) v_panes \<noteq> None then Option.bind d dc_declaredPanes
      else if Option.bind (desk_values_of desk) v_panes \<noteq> None then Option.bind (Option.bind desk dl_decoded) dc_declaredPanes
      else None)"

definition shown_defaulted :: "decoded_config option \<Rightarrow> desk_level_read option \<Rightarrow> bool" where
  "shown_defaulted d desk =
     (if Option.bind (Option.bind d dc_values) v_user \<noteq> None then (case d of Some f \<Rightarrow> dc_userNameDefaulted f | None \<Rightarrow> False)
      else if Option.bind (desk_values_of desk) v_user \<noteq> None
           then (case Option.bind desk dl_decoded of Some f \<Rightarrow> dc_userNameDefaulted f | None \<Rightarrow> False)
      else True)"

named_theorems effective_reads \<open>the members of an effective configuration\<close>

lemma effective_config_reads [effective_reads]:
  "c_organization (ef_config (effectiveConfig d n f desk src sha pr)) = pick (Option.bind d dc_values) (desk_values_of desk) v_organization"
  "c_user (ef_config (effectiveConfig d n f desk src sha pr)) = pick (Option.bind d dc_values) (desk_values_of desk) v_user"
  "c_identity (ef_config (effectiveConfig d n f desk src sha pr)) = pick None (desk_values_of desk) v_identity"
  "c_assistant (ef_config (effectiveConfig d n f desk src sha pr)) = applyAssistantProfile (pick None (desk_values_of desk) v_assistant) pr"
  "c_research (ef_config (effectiveConfig d n f desk src sha pr)) = withLocalGateway (pick None (desk_values_of desk) v_research) (usable_gateway desk)"
  "c_project (ef_config (effectiveConfig d n f desk src sha pr)) = pick None (desk_values_of desk) v_project"
  "c_appearance (ef_config (effectiveConfig d n f desk src sha pr)) = pick (Option.bind d dc_values) (desk_values_of desk) v_appearance"
  "c_panes (ef_config (effectiveConfig d n f desk src sha pr)) = pick (Option.bind d dc_values) (desk_values_of desk) v_panes"
  "c_storage (ef_config (effectiveConfig d n f desk src sha pr)) = pick (Option.bind d dc_values) (desk_values_of desk) v_storage"
  by (simp_all add: effectiveConfig_def Let_def desk_values_of_def)

lemma effective_source_reads [effective_reads]:
  "s_organization (ef_sources (effectiveConfig d n f desk src sha pr)) = source_of (Option.bind d dc_values) (desk_values_of desk) v_organization"
  "s_user (ef_sources (effectiveConfig d n f desk src sha pr)) = source_of (Option.bind d dc_values) (desk_values_of desk) v_user"
  "s_identity (ef_sources (effectiveConfig d n f desk src sha pr)) = source_of None (desk_values_of desk) v_identity"
  "s_assistant (ef_sources (effectiveConfig d n f desk src sha pr)) = source_of None (desk_values_of desk) v_assistant"
  "s_research (ef_sources (effectiveConfig d n f desk src sha pr)) = source_of None (desk_values_of desk) v_research"
  "s_project (ef_sources (effectiveConfig d n f desk src sha pr)) = source_of None (desk_values_of desk) v_project"
  "s_appearance (ef_sources (effectiveConfig d n f desk src sha pr)) = source_of (Option.bind d dc_values) (desk_values_of desk) v_appearance"
  "s_panes (ef_sources (effectiveConfig d n f desk src sha pr)) = source_of (Option.bind d dc_values) (desk_values_of desk) v_panes"
  "s_storage (ef_sources (effectiveConfig d n f desk src sha pr)) = source_of (Option.bind d dc_values) (desk_values_of desk) v_storage"
  by (simp_all add: effectiveConfig_def Let_def desk_values_of_def)

lemma effective_other_reads [effective_reads]:
  "ef_userNameDefaulted (effectiveConfig d n f desk src sha pr) = shown_defaulted d desk"
  "ef_machineAssistant (effectiveConfig d n f desk src sha pr) = pick None (desk_values_of desk) v_assistant"
  "ef_assistantProfile (effectiveConfig d n f desk src sha pr) = pr"
  "ef_problems (effectiveConfig d n f desk src sha pr) = (case d of None \<Rightarrow> [] | Some x \<Rightarrow> dc_problems x)"
  "ef_text (effectiveConfig d n f desk src sha pr) = src"
  "ef_sha256 (effectiveConfig d n f desk src sha pr) = sha"
  "ef_declaredPanes (effectiveConfig d n f desk src sha pr) = (case shown_panes d desk of Some p \<Rightarrow> p | None \<Rightarrow> NOTHING_DECLARED)"
  by (simp_all add: effectiveConfig_def Let_def desk_values_of_def shown_defaulted_def shown_panes_def)

lemma desk_values_without [effective_reads]: "desk_values_of (map_option without_gateway desk) = desk_values_of desk"
  by (simp add: desk_values_of_def decoded_without)

lemma pick_cong: "key v = key v' \<Longrightarrow> pick (Some v) m key = pick (Some v') m key"
  by (simp add: pick_def)

lemma source_cong: "key v = key v' \<Longrightarrow> source_of (Some v) m key = source_of (Some v') m key"
  by (simp add: source_of_def)

lemma agreeing_files:
  assumes "agree_but p d d'"
  shows "same_sections_but p (effectiveConfig (Some d) None None desk src sha profile)
    (effectiveConfig (Some d') None None (map_option without_gateway desk) src' sha' profile)"
proof -
  obtain v v' where v: "dc_values d = Some v" "dc_values d' = Some v'"
    and user: "v_user v' = v_user v" "dc_userNameDefaulted d' = dc_userNameDefaulted d"
    and others: "p \<noteq> Organization \<Longrightarrow> v_organization v' = v_organization v" "p \<noteq> Appearance \<Longrightarrow> v_appearance v' = v_appearance v"
      "p \<noteq> Panes \<Longrightarrow> v_panes v' = v_panes v" "p \<noteq> Panes \<Longrightarrow> dc_declaredPanes d' = dc_declaredPanes d" "p \<noteq> Storage \<Longrightarrow> v_storage v' = v_storage v"
    using assms unfolding agree_but_def by blast
  have s: "shown_defaulted (Some d') (map_option without_gateway desk) = shown_defaulted (Some d) desk"
    by (simp add: shown_defaulted_def v user effective_reads decoded_without)
  have p: "shown_panes (Some d') (map_option without_gateway desk) = shown_panes (Some d) desk" if "p \<noteq> Panes"
    by (simp add: shown_panes_def v others that effective_reads decoded_without)
  show ?thesis unfolding same_sections_but_def Let_def effective_reads bind.simps v s
    by (intro conjI impI pick_cong source_cong) (simp_all add: others user p)
qed

lemma research_without [effective_reads]:
  "withLocalGateway research (usable_gateway (map_option without_gateway desk)) = research"
  by (simp add: usable_without withLocalGateway_def)

lemma no_gateway: "withLocalGateway research None = research"
  by (simp add: withLocalGateway_def)

lemma config_after:
  "decodeDeskConfig w t Project = Some d' \<Longrightarrow>
   configAfterProjectFileWrite w (Some (effectiveConfig d n f desk x y pr)) \<lparr>rv_text = t, rv_sha256 = s\<rparr>
     = Some (Some (effectiveConfig (Some d') None None (map_option without_gateway desk) (Some t) (Some s) pr))"
  by (simp add: configAfterProjectFileWrite_def deskReadOf_effective effective_other_reads)

text \<open>C34: A save that lands, composed from the accepted file the cached configuration was read from with a member of values
  that \<open>JSON.stringify\<close> writes and reading gives back, and put back into the cache, is read without a problem, and every section but the one it names and research has its value and its source
  as before, the user, the machine's assistant and the profile over it included.  Research keeps its source, and has
  the value of the desk's file or the default without the local gateway: its value of before, where none was used.\<close>

theorem saved_member_alone:
  assumes "decodeDeskConfig w src Project = Some d" "dc_problems d = []"
    "composeProjectFile w src p edits = Some c" "cf_text c = Some new" "JSON_parse src = Some v"
    "stable (compose_member (valueAt v (file_pointer p)) edits)"
  shows "let cached = effectiveConfig (Some d) None None desk (Some src) (Some sha) profile in
    \<exists>e. configAfterProjectFileWrite w (Some cached) \<lparr>rv_text = new, rv_sha256 = sha'\<rparr> = Some (Some e)
      \<and> ef_problems e = [] \<and> ef_text e = Some new \<and> ef_sha256 e = Some sha' \<and> same_sections_but p cached e
      \<and> c_research (ef_config e) = pick None (desk_values_of desk) v_research
      \<and> (usable_gateway desk = None \<longrightarrow> c_research (ef_config e) = c_research (ef_config cached))"
proof -
  obtain vs ms d' where m: "v = JObj vs" "JSON_parse new = Some (JObj ms)" "decodeDeskConfig w new Project = Some d'"
    "dc_problems d' = []" "dc_values d' \<noteq> None" "\<And>m. m \<noteq> member_name_of p \<Longrightarrow> map_of ms m = map_of vs m"
    using composed_file_saves [OF assms(3-6)] by blast
  obtain vals' where v': "dc_values d' = Some vals'" using m(5) by blast
  obtain vals where vals: "dc_values d = Some vals" using decoded_object [OF assms(1,2)] by blast
  have "agree_but p d d'" by (rule agree_butI [OF assms(1) vals assms(5) [unfolded m(1)] m(3) v' m(2,6)])
  then show ?thesis
    by (simp add: Let_def config_after [OF m(3)] m(4) agreeing_files effective_reads no_gateway)
qed

section \<open>The local gateway\<close>

lemma gateway_given: "r_gateway research = None \<Longrightarrow> r_gateway (withLocalGateway research (Some g)) = lg_gateway g"
  by (simp add: withLocalGateway_def)

text \<open>C35: A write to the project's file forgets the local gateway: research that a desk without a gateway of its own
  does through the gateway of the process has it while the files are as they were read, has it again when both are read
  anew, and has no gateway at all in the cache a landed write leaves behind.\<close>

theorem write_forgets_gateway:
  assumes "usable_gateway desk = Some g" "lg_gateway g = Some gw" "r_gateway (pick None (desk_values_of desk) v_research) = None"
    "decodeDeskConfig w new Project = Some d'"
  shows "let cached = effectiveConfig d None None desk (Some src) (Some sha) profile;
             anew = effectiveConfig (Some d') None None desk (Some new) (Some sha') profile in
    r_gateway (c_research (ef_config cached)) = Some gw \<and> r_gateway (c_research (ef_config anew)) = Some gw
    \<and> (\<exists>e. configAfterProjectFileWrite w (Some cached) \<lparr>rv_text = new, rv_sha256 = sha'\<rparr> = Some (Some e)
         \<and> r_gateway (c_research (ef_config e)) = None)"
proof -
  have given: "r_gateway (c_research (ef_config (effectiveConfig d None None desk x y profile))) = Some gw" for d x y
    unfolding effective_reads assms(1) using gateway_given [OF assms(3)] assms(2) by simp
  have "r_gateway (c_research (ef_config (effectiveConfig (Some d') None None (map_option without_gateway desk) x y profile))) = None"
    for x y unfolding effective_reads by (rule assms(3))
  then show ?thesis unfolding Let_def config_after [OF assms(4)] using given by simp
qed

section \<open>The preferences of a project\<close>

lemma all_strings_one: "all_strings xs = Some ids \<Longrightarrow> length ids = length xs"
  by (auto simp: all_strings_def split: if_splits)

definition models_hold :: "jstr list \<Rightarrow> jstr option \<Rightarrow> bool" where
  "models_hold ids model \<longleftrightarrow> distinct ids \<and> length ids \<le> 128 \<and> list_all (\<lambda>t. t \<noteq> [] \<and> js_trim t = t \<and> bounded_id t) ids
     \<and> (case model of None \<Rightarrow> ids = [] | Some m \<Rightarrow> m \<in> set ids)"

definition preferences_hold :: "model_preferences \<Rightarrow> bool" where
  "preferences_hold pr \<longleftrightarrow>
     (case pr of Inherited \<Rightarrow> True
      | Preferred ids model effort thinking \<Rightarrow> models_hold ids model \<and> set_option effort \<subseteq> set CODEX_EFFORTS
          \<and> set_option thinking \<subseteq> set ASSISTANT_THINKING)"

lemma word_member: "absent_or_word (map_of row k) allowed \<Longrightarrow> set_option (string_member row k) \<subseteq> set allowed"
  by (auto simp: absent_or_word_def string_member_def split: option.splits jval.splits)

lemma chosen_model:
  "chosen_among (map_of row k) ids \<Longrightarrow> case string_member row k of None \<Rightarrow> ids = [] | Some m \<Rightarrow> m \<in> set ids"
  by (auto simp: chosen_among_def string_member_def split: option.splits jval.splits if_splits)

lemma profile_row_holds: "profile_row key v = Some pr \<Longrightarrow> preferences_hold pr"
  by (auto simp: profile_row_def preferred_ids_def preferences_hold_def models_hold_def word_member chosen_model
      split: jval.splits option.splits if_splits dest: word_member)

lemma profile_rows_hold:
  assumes "decodeAssistantProfile ok src = Some prof"
  shows "ap_codex prof = Some pr \<Longrightarrow> preferences_hold pr" "ap_api prof = Some pr \<Longrightarrow> preferences_hold pr"
  using assms
  by (auto simp: decodeAssistantProfile_def profile_v1_def decodeProfileV2_def optional_row_def Let_def profile_row_holds
      split: option.splits jval.splits if_splits)

text \<open>C36: A profile that is read moves the models of the machine's endpoint and agent, the agent's effort and the
  assistant's thinking, and nothing else: what is left of the endpoint and of the agent is the machine's, the engine
  too; and where models are moved, the list holds each id once, at most
  128 of them, trimmed, the chosen one among them and none exactly where the list is empty, the effort and the thinking
  words of their lists.\<close>

theorem profile_moves_models:
  assumes "decodeAssistantProfile ok src = Some prof" "apr_value read = Some prof"
  shows "let a = applyAssistantProfile machine (Some read) in
    as_engine a = as_engine machine
    \<and> map_option (\<lambda>e. e\<lparr>e_models := [], e_model := None\<rparr>) (as_endpoint a)
        = map_option (\<lambda>e. e\<lparr>e_models := [], e_model := None\<rparr>) (as_endpoint machine)
    \<and> map_option (\<lambda>g. g\<lparr>ag_models := None, ag_model := None, ag_effort := None\<rparr>) (as_agent a)
        = map_option (\<lambda>g. g\<lparr>ag_models := None, ag_model := None, ag_effort := None\<rparr>) (as_agent machine)
    \<and> (as_endpoint a = as_endpoint machine \<or> (\<exists>e. as_endpoint a = Some e \<and> models_hold (e_models e) (e_model e)))
    \<and> (as_agent a = as_agent machine \<or> (\<exists>g ids. as_agent a = Some g \<and> ag_models g = Some ids
         \<and> models_hold ids (ag_model g) \<and> set_option (ag_effort g) \<subseteq> set CODEX_EFFORTS))
    \<and> (as_thinking a = as_thinking machine \<or> as_thinking a \<in> set ASSISTANT_THINKING)"
proof -
  note h = profile_rows_hold [OF assms(1)]
  let ?codex = "ap_codex prof" and ?api = "ap_api prof"
  have a: "applyAssistantProfile machine (Some read) = machine\<lparr>as_agent := overlaid_agent (as_agent machine) ?codex,
      as_endpoint := overlaid_endpoint (as_endpoint machine) ?api, as_thinking := overlaid_thinking machine ?api\<rparr>"
    by (simp add: applyAssistantProfile_def assms(2) Let_def)
  have e: "map_option (\<lambda>e. e\<lparr>e_models := [], e_model := None\<rparr>) (overlaid_endpoint x pr)
      = map_option (\<lambda>e. e\<lparr>e_models := [], e_model := None\<rparr>) x" for x pr
    by (auto simp: overlaid_endpoint_def split: option.split model_preferences.split)
  have g: "map_option (\<lambda>g. g\<lparr>ag_models := None, ag_model := None, ag_effort := None\<rparr>) (overlaid_agent x pr)
      = map_option (\<lambda>g. g\<lparr>ag_models := None, ag_model := None, ag_effort := None\<rparr>) x" for x pr
    by (auto simp: overlaid_agent_def split: option.split model_preferences.split)
  have eh: "overlaid_endpoint x ?api = x \<or> (\<exists>e. overlaid_endpoint x ?api = Some e \<and> models_hold (e_models e) (e_model e))" for x
    using h(2) by (auto simp: overlaid_endpoint_def preferences_hold_def split: option.split model_preferences.splits)
  have gh: "overlaid_agent x ?codex = x \<or> (\<exists>g ids. overlaid_agent x ?codex = Some g \<and> ag_models g = Some ids
      \<and> models_hold ids (ag_model g) \<and> set_option (ag_effort g) \<subseteq> set CODEX_EFFORTS)" for x
    using h(1) by (auto simp: overlaid_agent_def preferences_hold_def split: option.split model_preferences.splits)
  have t: "overlaid_thinking machine ?api = as_thinking machine \<or> overlaid_thinking machine ?api \<in> set ASSISTANT_THINKING"
    using h(2) by (auto simp: overlaid_thinking_def preferences_hold_def split: option.split model_preferences.splits)
  show ?thesis unfolding a Let_def using e g eh gh t by simp
qed

section \<open>Examples\<close>

lemma ascii_code_points: "list_all (\<lambda>c. c < 0x80) t \<Longrightarrow> code_points t = map unat t"
proof (induction t rule: code_points.induct)
  case (3 c d r)
  then have "\<not> is_high c" by (simp add: is_high_def word_less_nat_alt word_le_nat_alt)
  then show ?case using 3 by simp
qed auto

lemma ascii_bytes: "list_all (\<lambda>c. c < 0x80) t \<Longrightarrow> byte_length t = length t"
proof -
  assume "list_all (\<lambda>c. c < 0x80) t"
  then have "length (concat (map utf8 (map unat t))) = length t" by (induction t) (auto simp: utf8_def Let_def word_less_nat_alt)
  then show ?thesis using \<open>list_all _ t\<close> by (simp add: byte_length_def text_bytes_def ascii_code_points)
qed

definition example_profile :: jstr where
  "example_profile = js ''{\"profileVersion\":1,\"codex\":{\"inherit\":false,\"models\":[\"m\",\"n\"],\"model\":\"n\",\"effort\":\"low\"}}''"

definition example_row :: "(jstr \<times> jval) list" where
  "example_row = [(js ''inherit'', JBool False), (js ''models'', JArr [JStr (js ''m''), JStr (js ''n'')]),
     (js ''model'', JStr (js ''n'')), (js ''effort'', JStr (js ''low''))]"

lemma example_parses:
  "JSON_parse example_profile = Some (JObj [(js ''profileVersion'', JNum (to_double False 1 1)), (js ''codex'', JObj example_row)])"
  by code_simp

lemma example_trimmed: "js_trim (js ''m'') = js ''m''" "js_trim (js ''n'') = js ''n''"
  by (simp_all add: js_trim_def js_space_def js_def)

lemma example_size: "byte_length example_profile = length example_profile" "length example_profile < 200"
  subgoal by (rule ascii_bytes) code_simp
  subgoal by (simp add: example_profile_def js_def)
  done

lemma example_version:
  "is_version 1 [(js ''profileVersion'', JNum (to_double False 1 1)), x]"
  "\<not> is_version 2 [(js ''profileVersion'', JNum (to_double False 1 1)), x]"
  subgoal by code_simp
  subgoal by code_simp
  done

lemma example_listed:
  "preferred_ids (Some (JArr [JStr (js ''m''), JStr (js ''n'')])) = Some [js ''m'', js ''n'']"
  using example_trimmed by (simp add: preferred_ids_def string_array_def all_strings_def bounded_id_def ascii_bytes js_def)

lemma example_decoded:
  "profile_row (js ''codex'') (JObj example_row) = Some (Preferred [js ''m'', js ''n''] (Some (js ''n'')) (Some (js ''low'')) None)"
  using example_listed
  by (simp add: profile_row_def example_row_def row_keys_def chosen_among_def absent_or_word_def
      CODEX_EFFORTS_def string_member_def js_def)

lemma example_profile_read:
  "decodeAssistantProfile (\<lambda>_. True) example_profile
      = Some \<lparr>ap_version = 1, ap_context = None, ap_codex = Some (Preferred [js ''m'', js ''n''] (Some (js ''n'')) (Some (js ''low'')) None),
          ap_api = None, ap_inherit = None, ap_connections = None, ap_defaultConnection = None, ap_models = None\<rparr>"
  using example_version [of "(js ''codex'', JObj example_row)"] example_size example_decoded
  by (simp add: decodeAssistantProfile_def example_parses profile_v1_def optional_row_def js_def)

definition example_agent :: assistant_config where
  "example_agent = \<lparr>as_agent = Some \<lparr>ag_model = Some (js ''k''), ag_models = Some [js ''k''], ag_tools = [js ''validate''],
     ag_effort = None, ag_criticModel = None, ag_childModel = None\<rparr>, as_endpoint = None, as_engine = js ''codex'',
     as_thinking = js ''off''\<rparr>"

theorem profile_moves_models_witness:
  "\<exists>prof. decodeAssistantProfile (\<lambda>_. True) example_profile = Some prof
     \<and> (let a = applyAssistantProfile example_agent (Some \<lparr>apr_present = True, apr_sha256 = None, apr_text = None, apr_value = Some prof,
          apr_problem = False\<rparr>)
        in map_option ag_models (as_agent a) = Some (Some [js ''m'', js ''n'']) \<and> as_engine a = js ''codex''
           \<and> map_option ag_tools (as_agent a) = Some [js ''validate''])"
proof -
  obtain p where p: "decodeAssistantProfile (\<lambda>_. True) example_profile = Some p"
    "ap_codex p = Some (Preferred [js ''m'', js ''n''] (Some (js ''n'')) (Some (js ''low'')) None)"
    using example_profile_read by simp
  let ?r = "\<lparr>apr_present = True, apr_sha256 = None, apr_text = None, apr_value = Some p, apr_problem = False\<rparr>"
  have "as_engine (applyAssistantProfile example_agent (Some ?r)) = as_engine example_agent"
    using profile_moves_models [OF p(1), of ?r example_agent] by (simp add: Let_def)
  then show ?thesis using p by (simp add: Let_def applyAssistantProfile_def overlaid_agent_def example_agent_def)
qed

lemma renamed_decodes: "\<exists>d. decodeDeskConfig plain_web renamed_text Project = Some d \<and> dc_problems d = []"
  using organization_composes by (auto simp: composeProjectFile_def Let_def split: if_splits option.splits)

definition process_gateway :: local_gateway_status where
  "process_gateway = \<lparr>lg_build = None, lg_status = Ready, lg_gateway = Some \<lparr>g_url = js ''http://h'', g_authority = js ''a'', g_public = js ''0''\<rparr>,
     lg_problem = None, lg_documentProcessing = None\<rparr>"

definition no_desk_file :: desk_level_read where
  "no_desk_file = \<lparr>dl_localGateway = Some process_gateway, dl_path = js ''/p'', dl_present = False, dl_text = None, dl_sha256 = Some [],
     dl_decoded = None, dl_note = None, dl_readFailure = None, dl_chassis = None\<rparr>"

theorem write_forgets_gateway_witness:
  "\<exists>e. configAfterProjectFileWrite plain_web (Some (effectiveConfig None None None (Some no_desk_file) (Some []) (Some []) None))
       \<lparr>rv_text = renamed_text, rv_sha256 = []\<rparr> = Some (Some e) \<and> r_gateway (c_research (ef_config e)) = None"
proof -
  obtain d where d: "decodeDeskConfig plain_web renamed_text Project = Some d" using renamed_decodes by blast
  have "usable_gateway (Some no_desk_file) = Some process_gateway" "lg_gateway process_gateway = Some \<lparr>g_url = js ''http://h'', g_authority = js ''a'', g_public = js ''0''\<rparr>"
    "r_gateway (pick None (desk_values_of (Some no_desk_file)) v_research) = None"
    by (simp_all add: usable_gateway_def no_desk_file_def process_gateway_def pick_def desk_values_of_def DESK_DEFAULTS_def)
  from write_forgets_gateway [OF this d, of None "[]" "[]" None "[]"] show ?thesis by (simp add: Let_def)
qed

theorem saved_member_alone_witness:
  "\<exists>d e. decodeDeskConfig plain_web organization_text Project = Some d
     \<and> configAfterProjectFileWrite plain_web (Some (effectiveConfig (Some d) None None None (Some organization_text) (Some []) None))
         \<lparr>rv_text = renamed_text, rv_sha256 = js ''2''\<rparr> = Some (Some e)
     \<and> same_sections_but Organization (effectiveConfig (Some d) None None None (Some organization_text) (Some []) None) e"
proof -
  let ?v = "JObj [(js ''deskConfigVersion'', JNum (to_double False 1 1)), (js ''organization'', JObj [(js ''name'', JStr (js ''a''))])]"
  have "case decodeDeskConfig plain_web organization_text Project of Some d \<Rightarrow> dc_problems d = [] | None \<Rightarrow> False" by code_simp
  then obtain d where d: "decodeDeskConfig plain_web organization_text Project = Some d" "dc_problems d = []"
    by (auto split: option.splits)
  have p: "JSON_parse organization_text = Some ?v" by code_simp
  have "stable (compose_member (valueAt ?v (file_pointer Organization)) [rename_edit])" by code_simp
  from saved_member_alone [OF d organization_composes _ p this, of renamed_text None "[]" None "js ''2''"] show ?thesis
    unfolding Let_def composed_file.simps using d(1) by blast
qed

end
