(* ===== verification/Pack_References.thy ===== *)
theory Pack_References
  imports Config_Checks Pointers Document_Slots
begin

text \<open>
  \<open>packs/references.ts\<close>: what one member of a pack names, and what names it.  The panel reads documents in the middle
  of a draft, so a document is any JSON value; \<^term>\<open>None\<close> is a thrown \<open>TypeError\<close> where a member is not what the code
  takes it for.
\<close>

section \<open>What the language does with any value\<close>

text \<open>\<open>(x ?? []).forEach\<close> and \<open>(x ?? []).entries()\<close>: the elements of an array, none of an absent member.\<close>

definition elements :: "jval option \<Rightarrow> jval list option" where
  "elements v = (case v of None \<Rightarrow> Some [] | Some JNull \<Rightarrow> Some [] | Some (JArr xs) \<Rightarrow> Some xs | Some _ \<Rightarrow> None)"

text \<open>\<open>for (const id of x ?? [])\<close>, which runs over the code points of a string too.\<close>

fun characters :: "jstr \<Rightarrow> jstr list" where
  "characters [] = []"
| "characters [c] = [[c]]"
| "characters (c # d # r) = (if is_high c \<and> is_low d then [c, d] # characters r else [c] # characters (d # r))"

definition iterated :: "jval option \<Rightarrow> jval list option" where
  "iterated v = (case v of Some (JStr s) \<Rightarrow> Some (map JStr (characters s)) | _ \<Rightarrow> elements v)"

text \<open>\<open>x.k\<close>, which throws on \<open>null\<close>.\<close>

definition member_of :: "jval \<Rightarrow> jstr \<Rightarrow> jval option option" where
  "member_of v k = (case v of JNull \<Rightarrow> None | JObj ms \<Rightarrow> Some (map_of ms k) | _ \<Rightarrow> Some None)"

text \<open>\<open>===\<close> of members at two places of a document: an array or an object is never another one.\<close>

definition strictly_equal :: "jval option \<Rightarrow> jval option \<Rightarrow> bool" where
  "strictly_equal v w \<longleftrightarrow>
     (case (v, w) of
        (None, None) \<Rightarrow> True
      | (Some JNull, Some JNull) \<Rightarrow> True
      | (Some (JBool a), Some (JBool b)) \<Rightarrow> a = b
      | (Some (JNum a), Some (JNum b)) \<Rightarrow> num_eq a b
      | (Some (JStr a), Some (JStr b)) \<Rightarrow> a = b
      | _ \<Rightarrow> False)"

text \<open>The string a value is converted to; an object with a \<open>toString\<close> of its own has none.\<close>

fun as_string :: "jval \<Rightarrow> jstr option" where
  "as_string JNull = Some (js ''null'')"
| "as_string (JBool b) = Some (if b then js ''true'' else js ''false'')"
| "as_string (JNum n) = Some (number_text n)"
| "as_string (JStr s) = Some s"
| "as_string (JArr xs) =
     map_option (join_with (js '',''))
       (those (map (\<lambda>x. case x of JNull \<Rightarrow> Some [] | _ \<Rightarrow> as_string x) xs))"
| "as_string (JObj ms) = (if map_of ms (js ''toString'') \<noteq> None then None else Some (js ''[object Object]''))"

text \<open>\<open>(x ?? []).js_includes(id)\<close>, of a string a search in it.\<close>

definition js_includes :: "jval option \<Rightarrow> jval option \<Rightarrow> bool option" where
  "js_includes v i =
     (case v of
        None \<Rightarrow> Some False
      | Some JNull \<Rightarrow> Some False
      | Some (JArr xs) \<Rightarrow> Some (list_ex (\<lambda>x. strictly_equal (Some x) i) xs)
      | Some (JStr s) \<Rightarrow>
          map_option (contains s) (case i of None \<Rightarrow> Some (js ''undefined'') | Some x \<Rightarrow> as_string x)
      | Some _ \<Rightarrow> None)"

text \<open>The lines one loop pushes.\<close>

fun each :: "('a \<Rightarrow> 'b list option) \<Rightarrow> 'a list \<Rightarrow> 'b list option" where
  "each f [] = Some []"
| "each f (x # xs) = Option.bind (f x) (\<lambda>l. map_option ((@) l) (each f xs))"

definition each_entry :: "(nat \<Rightarrow> jval \<Rightarrow> 'b list option) \<Rightarrow> jval option \<Rightarrow> 'b list option" where
  "each_entry f v = Option.bind (elements v) (\<lambda>xs. each (\<lambda>(i, x). f i x) (enumerate 0 xs))"

definition pushed_when :: "bool \<Rightarrow> 'b \<Rightarrow> 'b list option" where
  "pushed_when b l = Some (if b then [l] else [])"

section \<open>Lines\<close>

datatype relation =
    OutcomeOf | EvidenceOf | SourcesOf | TargetRule
  | CitedBy | ProducedByRule | ProducedByException | FallbackOutcome
  | RequiredByRule | TestedByCondition | CitedByRule | CitedByException

datatype id_kind = OutcomeId | EvidenceId | SourceId | RuleId

datatype referent = Target jstr | Candidates "jstr list" | Unresolved id_kind

record reference =
  re_relation :: relation
  re_id :: "jval option"
  re_referent :: referent

definition document_member :: "jval \<Rightarrow> jstr \<Rightarrow> jval option" where
  "document_member doc k = (case doc of JObj ms \<Rightarrow> map_of ms k | _ \<Rightarrow> None)"

text \<open>The id an entry declares: \<open>typeof entry?.id === 'string'\<close>.\<close>

definition declared_id :: "jval \<Rightarrow> jstr option" where
  "declared_id entry = (case entry of JObj ms \<Rightarrow> (case map_of ms (js ''id'') of Some (JStr s) \<Rightarrow> Some s | _ \<Rightarrow> None) | _ \<Rightarrow> None)"

text \<open>\<open>declaredAt\<close>: every place of each id, in the order of the entries.\<close>

definition declared_places :: "jval option \<Rightarrow> jstr \<Rightarrow> (jstr \<Rightarrow> jstr list) option" where
  "declared_places entries member =
     map_option (\<lambda>xs i. [pointer [member, dec n]. (n, x) \<leftarrow> enumerate 0 xs, declared_id x = Some i]) (elements entries)"

definition named :: "relation \<Rightarrow> jval \<Rightarrow> (jstr \<Rightarrow> jstr list) \<Rightarrow> id_kind \<Rightarrow> reference" where
  "named relation v places kind =
     \<lparr>re_relation = relation, re_id = Some v,
      re_referent =
        (case (case v of JStr i \<Rightarrow> places i | _ \<Rightarrow> []) of
           [] \<Rightarrow> Unresolved kind
         | [t] \<Rightarrow> Target t
         | ts \<Rightarrow> Candidates ts)\<rparr>"

definition backlink :: "relation \<Rightarrow> jval option \<Rightarrow> jstr list \<Rightarrow> reference" where
  "backlink relation i path = \<lparr>re_relation = relation, re_id = i, re_referent = Target (pointer path)\<rparr>"

text \<open>\<open>entryUnder\<close>: the entry of a collection an address sits at or under.\<close>

definition entryUnder :: "jval \<Rightarrow> jstr \<Rightarrow> jstr \<Rightarrow> jval option" where
  "entryUnder doc address member =
     (case parsePointer address of
        Some (p0 # p1 # others) \<Rightarrow>
          if p0 \<noteq> member then None
          else (case valueAt doc (pointer [member, p1]) of
                  Some (JArr xs) \<Rightarrow> Some (JArr xs)
                | Some (JObj ms) \<Rightarrow> Some (JObj ms)
                | _ \<Rightarrow> None)
      | _ \<Rightarrow> None)"

section \<open>The nodes that test evidence\<close>

text \<open>The walk: the ids of the \<open>evidence-present\<close> nodes of a condition and the paths of the nodes.\<close>

definition is_string :: "jval option \<Rightarrow> bool" where
  "is_string v \<longleftrightarrow> (case v of Some (JStr _) \<Rightarrow> True | _ \<Rightarrow> False)"

function (sequential) evidence_nodes :: "jval \<Rightarrow> jstr list \<Rightarrow> (jval option \<times> jstr list) list" where
  "evidence_nodes (JObj ms) path =
     (if map_of ms (js ''op'') = Some (JStr (js ''evidence-present'')) \<and> is_string (map_of ms (js ''evidenceRequirement''))
      then [(map_of ms (js ''evidenceRequirement''), path)] else [])
     @ (case map_of ms (js ''conditions'') of
          Some (JArr xs) \<Rightarrow> concat (map (\<lambda>i. evidence_nodes (xs ! i) (path @ [js ''conditions'', dec i])) [0..<length xs])
        | _ \<Rightarrow> [])
     @ (case map_of ms (js ''condition'') of Some c \<Rightarrow> evidence_nodes c (path @ [js ''condition'']) | None \<Rightarrow> [])"
| "evidence_nodes v path = []"
  by pat_completeness auto

lemma member_size: "map_of ms k = Some v \<Longrightarrow> size v < size (JObj ms)"
  by (induction ms) (auto split: if_splits)

lemma element_size: "\<lbrakk>map_of ms k = Some (JArr xs); i < length xs\<rbrakk> \<Longrightarrow> size (xs ! i) < size (JObj ms)"
  using member_size [of ms k "JArr xs"] size_list_estimation' [of "xs ! i" xs "size (xs ! i)" size] by simp

termination evidence_nodes
  by (relation "measure (\<lambda>(v, path). size v)") (use element_size member_size in fastforce)+

definition evidencePresentNodes :: "jval \<Rightarrow> (jval option \<times> jstr list) list option" where
  "evidencePresentNodes doc =
     (let walk = (\<lambda>v path. case v of None \<Rightarrow> [] | Some c \<Rightarrow> evidence_nodes c path);
          entry = (\<lambda>member i x. map_option (\<lambda>w. walk w [member, dec i, js ''when'']) (member_of x (js ''when'')))
      in Option.bind (each_entry (entry (js ''rules'')) (document_member doc (js ''rules''))) (\<lambda>r.
         Option.bind (each_entry (entry (js ''exceptions'')) (document_member doc (js ''exceptions''))) (\<lambda>e.
         Some (walk (document_member doc (js ''applicability'')) [js ''applicability''] @ r @ e))))"

section \<open>The panel\<close>

text \<open>Where the ids of each collection are declared.\<close>

record places =
  pl_outcome :: "jstr \<Rightarrow> jstr list"
  pl_evidence :: "jstr \<Rightarrow> jstr list"
  pl_source :: "jstr \<Rightarrow> jstr list"
  pl_rule :: "jstr \<Rightarrow> jstr list"

definition places_of :: "jval \<Rightarrow> places option" where
  "places_of doc =
     (let declared = (\<lambda>member. declared_places (document_member doc member) member) in
      Option.bind (declared (js ''outcomes'')) (\<lambda>o'.
      Option.bind (declared (js ''evidenceRequirements'')) (\<lambda>e.
      Option.bind (declared (js ''sources'')) (\<lambda>s.
      Option.bind (declared (js ''rules'')) (\<lambda>r.
      Some \<lparr>pl_outcome = o', pl_evidence = e, pl_source = s, pl_rule = r\<rparr>)))))"

definition field :: "jval \<Rightarrow> jstr \<Rightarrow> jval option" where
  "field entry k = (case entry of JObj ms \<Rightarrow> map_of ms k | _ \<Rightarrow> None)"

text \<open>\<open>id: entry.id\<close> where \<open>(entry.k ?? []).js_includes(i)\<close>; where \<open>entry.k === i\<close>.\<close>

definition line_if_includes :: "relation \<Rightarrow> jstr \<Rightarrow> jstr \<Rightarrow> jval option \<Rightarrow> nat \<Rightarrow> jval \<Rightarrow> reference list option" where
  "line_if_includes relation member k i n x =
     Option.bind (member_of x k) (\<lambda>refs.
     Option.bind (js_includes refs i) (\<lambda>b. pushed_when b (backlink relation (field x (js ''id'')) [member, dec n])))"

definition line_if_equal :: "relation \<Rightarrow> jstr \<Rightarrow> jstr \<Rightarrow> jval option \<Rightarrow> nat \<Rightarrow> jval \<Rightarrow> reference list option" where
  "line_if_equal relation member k i n x =
     Option.bind (member_of x k) (\<lambda>v.
       pushed_when (strictly_equal v i) (backlink relation (field x (js ''id'')) [member, dec n]))"

text \<open>The lines under a rule, an exception, an outcome, a requirement and a source.\<close>

definition named_strings :: "relation \<Rightarrow> jval option \<Rightarrow> (jstr \<Rightarrow> jstr list) \<Rightarrow> id_kind \<Rightarrow> reference list option" where
  "named_strings relation v lookup kind =
     map_option (\<lambda>xs. map (\<lambda>x. named relation x lookup kind) (filter (\<lambda>x. is_string (Some x)) xs)) (iterated v)"

definition rule_lines :: "jval \<Rightarrow> places \<Rightarrow> jval \<Rightarrow> reference list option" where
  "rule_lines doc pl rule =
     Option.bind (named_strings EvidenceOf (field rule (js ''evidenceRequirementRefs'')) (pl_evidence pl) EvidenceId) (\<lambda>e.
     Option.bind (named_strings SourcesOf (field rule (js ''sourceRefs'')) (pl_source pl) SourceId) (\<lambda>s.
     Option.bind (each_entry (line_if_equal CitedBy (js ''exceptions'') (js ''targetRule'') (field rule (js ''id'')))
         (document_member doc (js ''exceptions''))) (\<lambda>c.
     Some ((case field rule (js ''outcome'') of Some (JStr i) \<Rightarrow> [named OutcomeOf (JStr i) (pl_outcome pl) OutcomeId] | _ \<Rightarrow> [])
           @ e @ s @ c))))"

definition named_member :: "relation \<Rightarrow> jval option \<Rightarrow> (jstr \<Rightarrow> jstr list) \<Rightarrow> id_kind \<Rightarrow> reference list" where
  "named_member relation v lookup kind = (case v of None \<Rightarrow> [] | Some x \<Rightarrow> [named relation x lookup kind])"

definition exception_lines :: "jval \<Rightarrow> places \<Rightarrow> jval \<Rightarrow> reference list option" where
  "exception_lines doc pl x =
     map_option (\<lambda>refs. named_member TargetRule (field x (js ''targetRule'')) (pl_rule pl) RuleId
         @ named_member OutcomeOf (field x (js ''outcome'')) (pl_outcome pl) OutcomeId
         @ map (\<lambda>r. named SourcesOf r (pl_source pl) SourceId) refs)
       (iterated (field x (js ''sourceRefs'')))"

definition outcome_lines :: "jval \<Rightarrow> jval \<Rightarrow> reference list option" where
  "outcome_lines doc entry =
     (let i = field entry (js ''id'') in
      Option.bind (each_entry (line_if_equal ProducedByRule (js ''rules'') (js ''outcome'') i) (document_member doc (js ''rules''))) (\<lambda>r.
      Option.bind (each_entry (line_if_equal ProducedByException (js ''exceptions'') (js ''outcome'') i)
          (document_member doc (js ''exceptions''))) (\<lambda>e.
      Some (r @ e @ (if strictly_equal (document_member doc (js ''fallbackOutcome'')) i
                     then [backlink FallbackOutcome i [js ''fallbackOutcome'']] else [])))))"

definition requirement_lines :: "jval \<Rightarrow> jval \<Rightarrow> reference list option" where
  "requirement_lines doc entry =
     (let i = field entry (js ''id'') in
      Option.bind (each_entry (line_if_includes RequiredByRule (js ''rules'') (js ''evidenceRequirementRefs'') i)
          (document_member doc (js ''rules''))) (\<lambda>r.
      Option.bind (evidencePresentNodes doc) (\<lambda>found.
      Some (r @ [backlink TestedByCondition i path. (n, path) \<leftarrow> found, strictly_equal n i]))))"

definition source_lines :: "jval \<Rightarrow> jval \<Rightarrow> reference list option" where
  "source_lines doc entry =
     (let i = field entry (js ''id'') in
      Option.bind (each_entry (line_if_includes CitedByRule (js ''rules'') (js ''sourceRefs'') i) (document_member doc (js ''rules''))) (\<lambda>r.
      Option.bind (each_entry (line_if_includes CitedByException (js ''exceptions'') (js ''sourceRefs'') i)
          (document_member doc (js ''exceptions''))) (\<lambda>e. Some (r @ e))))"

text \<open>One block of the panel: the lines under an entry of a collection, none anywhere else.\<close>

definition lines_under :: "jval \<Rightarrow> jstr \<Rightarrow> jstr \<Rightarrow> (jval \<Rightarrow> reference list option) \<Rightarrow> reference list option" where
  "lines_under doc address member f = (case entryUnder doc address member of None \<Rightarrow> Some [] | Some entry \<Rightarrow> f entry)"

definition referencesFor :: "jval option \<Rightarrow> jstr \<Rightarrow> reference list option" where
  "referencesFor document address =
     (case document of
        None \<Rightarrow> Some []
      | Some doc \<Rightarrow>
          if address = [] \<or> valueAt doc address = None then Some []
          else Option.bind (places_of doc) (\<lambda>pl.
            Option.bind (lines_under doc address (js ''rules'') (rule_lines doc pl)) (\<lambda>r.
            Option.bind (lines_under doc address (js ''exceptions'') (exception_lines doc pl)) (\<lambda>x.
            Option.bind (lines_under doc address (js ''outcomes'') (outcome_lines doc)) (\<lambda>o'.
            Option.bind (lines_under doc address (js ''evidenceRequirements'') (requirement_lines doc)) (\<lambda>e.
            Option.bind (lines_under doc address (js ''sources'') (source_lines doc)) (\<lambda>s.
            Some (r @ x @ o' @ e @ s
              @ (if address = pointer [js ''fallbackOutcome'']
                 then named_member OutcomeOf (document_member doc (js ''fallbackOutcome'')) (pl_outcome pl) OutcomeId else []))))))))
     )"

end
