(* ===== verification/Reference_Facts.thy ===== *)
theory Reference_Facts
  imports Pack_References
begin

text \<open>
  What the references panel says: every address it offers is one the document answers, and the two directions of a
  reference agree.
\<close>

section \<open>The loops\<close>

lemma each_lines:
  "each f xs = Some ls \<Longrightarrow> l \<in> set ls \<longleftrightarrow> (\<exists>x \<in> set xs. \<exists>r. f x = Some r \<and> l \<in> set r)"
  by (induction xs arbitrary: ls) (auto split: bind_splits)

lemma each_defined: "\<lbrakk>each f xs = Some ls; x \<in> set xs\<rbrakk> \<Longrightarrow> \<exists>r. f x = Some r"
  by (induction xs arbitrary: ls) (auto split: bind_splits)

lemma enumerate_pair: "p \<in> set (enumerate 0 xs) \<longleftrightarrow> (\<exists>n < length xs. p = (n, xs ! n))"
  by (cases p) (auto simp: in_set_enumerate_eq)

lemma each_entry_lines:
  assumes "each_entry f v = Some ls"
  shows "\<exists>xs. elements v = Some xs \<and> (\<forall>l. l \<in> set ls \<longleftrightarrow> (\<exists>n r. n < length xs \<and> f n (xs ! n) = Some r \<and> l \<in> set r))"
proof -
  obtain xs where xs: "elements v = Some xs" "each (\<lambda>(i, x). f i x) (enumerate 0 xs) = Some ls"
    using assms by (auto simp: each_entry_def split: bind_splits)
  have "l \<in> set ls \<longleftrightarrow> (\<exists>n r. n < length xs \<and> f n (xs ! n) = Some r \<and> l \<in> set r)" for l
    unfolding each_lines [OF xs(2)] by (force simp: enumerate_pair)
  then show ?thesis using xs(1) by blast
qed

section \<open>Where an entry stands\<close>

lemma dec_eq [simp]: "dec m = dec n \<longleftrightarrow> m = n"
  using arrayIndex_dec [of m] arrayIndex_dec [of n] by auto

lemma entry_value:
  "\<lbrakk>elements (document_member doc member) = Some xs; n < length xs\<rbrakk> \<Longrightarrow> value_down doc [member, dec n] = Some (xs ! n)"
  by (cases doc) (auto simp: elements_def document_member_def step_into_def split: option.splits jval.splits)

lemma value_entry:
  assumes "elements (document_member doc member) = Some xs" "value_down doc [member, dec n] = Some v" "arrayIndex member = None"
  shows "n < length xs \<and> xs ! n = v"
  using assms by (cases doc) (auto simp: elements_def document_member_def step_into_def split: option.splits jval.splits if_splits)

lemma declared_places_set:
  assumes "declared_places entries member = Some f"
  shows "\<exists>xs. elements entries = Some xs
    \<and> (\<forall>i t. t \<in> set (f i) \<longleftrightarrow> (\<exists>n < length xs. t = pointer [member, dec n] \<and> declared_id (xs ! n) = Some i))"
proof -
  obtain xs where xs: "elements entries = Some xs"
    "f = (\<lambda>i. [pointer [member, dec n]. (n, x) \<leftarrow> enumerate 0 xs, declared_id x = Some i])"
    using assms by (auto simp: declared_places_def)
  have "t \<in> set (f i) \<longleftrightarrow> (\<exists>n < length xs. t = pointer [member, dec n] \<and> declared_id (xs ! n) = Some i)" for i t
    unfolding xs(2) by (auto simp: enumerate_pair Bex_def simp del: pointer.simps)
  then show ?thesis using xs(1) by blast
qed

section \<open>The addresses a line offers\<close>

definition offered :: "reference \<Rightarrow> jstr list" where
  "offered l = (case re_referent l of Target t \<Rightarrow> [t] | Candidates ts \<Rightarrow> ts | Unresolved _ \<Rightarrow> [])"

lemma offered_named [simp]: "offered (named relation v f kind) = (case v of JStr i \<Rightarrow> f i | _ \<Rightarrow> [])"
  by (auto simp: offered_def named_def split: list.split jval.split)

lemma offered_backlink [simp]: "offered (backlink relation i path) = [pointer path]"
  by (simp add: offered_def backlink_def)

lemma relation_simps [simp]:
  "re_relation (named relation v f kind) = relation" "re_relation (backlink relation i path) = relation"
  by (simp_all add: named_def backlink_def)

text \<open>
  A line is sound when the document answers every address it offers.  One line is not: under an outcome without an id
  in a document without a fallback outcome, the two absent members compare equal.
\<close>

definition absent_fallback :: reference where
  "absent_fallback = backlink FallbackOutcome None [js ''fallbackOutcome'']"

definition sound_line :: "jval \<Rightarrow> reference \<Rightarrow> bool" where
  "sound_line doc l \<longleftrightarrow> l = absent_fallback \<or> (\<forall>t \<in> set (offered l). declaredAt doc t)"

definition sound_places :: "jval \<Rightarrow> (jstr \<Rightarrow> jstr list) \<Rightarrow> bool" where
  "sound_places doc f \<longleftrightarrow> (\<forall>i. \<forall>t \<in> set (f i). declaredAt doc t)"

lemma sound_declared: "declared_places (document_member doc member) member = Some f \<Longrightarrow> sound_places doc f"
  using declared_places_set [of "document_member doc member" member f] entry_value [of doc member]
  by (auto simp: sound_places_def declaredAt_def simp del: pointer.simps)

lemma sound_places_of:
  "places_of doc = Some pl \<Longrightarrow> sound_places doc (pl_outcome pl) \<and> sound_places doc (pl_evidence pl)
     \<and> sound_places doc (pl_source pl) \<and> sound_places doc (pl_rule pl)"
  by (auto simp: places_of_def Let_def sound_declared split: bind_splits)

lemma sound_named: "sound_places doc f \<Longrightarrow> sound_line doc (named relation v f kind)"
  by (auto simp: sound_line_def sound_places_def split: jval.split)

lemma sound_backlink: "value_down doc path \<noteq> None \<Longrightarrow> sound_line doc (backlink relation i path)"
  by (simp add: sound_line_def declaredAt_def del: pointer.simps)

lemma sound_each_entry:
  assumes "each_entry f (document_member doc member) = Some ls"
    and "\<And>n x r l. \<lbrakk>value_down doc [member, dec n] = Some x; f n x = Some r; l \<in> set r\<rbrakk> \<Longrightarrow> sound_line doc l"
    and "l \<in> set ls"
  shows "sound_line doc l"
  using each_entry_lines [OF assms(1)] entry_value [of doc member] assms(2,3) by metis

lemma line_if_equal_lines:
  "line_if_equal relation member k i n x = Some r \<Longrightarrow>
     set r = (if strictly_equal (the (member_of x k)) i then {backlink relation (field x (js ''id'')) [member, dec n]} else {})
     \<and> member_of x k \<noteq> None"
  by (auto simp: line_if_equal_def pushed_when_def split: bind_splits if_splits)

lemma line_if_includes_lines:
  "line_if_includes relation member k i n x = Some r \<Longrightarrow>
     set r = (if js_includes (the (member_of x k)) i = Some True then {backlink relation (field x (js ''id'')) [member, dec n]} else {})
     \<and> member_of x k \<noteq> None"
  by (auto simp: line_if_includes_def pushed_when_def split: bind_splits if_splits)

lemma sound_line_if:
  assumes "value_down doc [member, dec n] = Some x"
  shows "line_if_equal relation member k i n x = Some r \<Longrightarrow> l \<in> set r \<Longrightarrow> sound_line doc l"
    and "line_if_includes relation member k i n x = Some r \<Longrightarrow> l \<in> set r \<Longrightarrow> sound_line doc l"
  using assms line_if_equal_lines [of relation member k i n x r] line_if_includes_lines [of relation member k i n x r]
  by (auto simp: sound_backlink split: if_splits)

section \<open>The nodes that test evidence\<close>

lemma evidence_nodes_declared:
  "(i, p) \<in> set (evidence_nodes v path) \<Longrightarrow> \<exists>q. p = path @ q \<and> value_down v q \<noteq> None"
proof (induction v path arbitrary: i p rule: evidence_nodes.induct)
  case (1 ms path)
  consider (here) "p = path"
    | (inner) xs n where "map_of ms (js ''conditions'') = Some (JArr xs)" "n < length xs"
        "(i, p) \<in> set (evidence_nodes (xs ! n) (path @ [js ''conditions'', dec n]))"
    | (one) c where "map_of ms (js ''condition'') = Some c" "(i, p) \<in> set (evidence_nodes c (path @ [js ''condition'']))"
    using "1.prems" by (auto split: if_splits option.splits jval.splits dest!: sym [where s = "Some _"])
  then show ?case
  proof cases
    case here
    then show ?thesis by (intro exI [of _ "[]"]) simp
  next
    case inner
    then obtain q where "p = (path @ [js ''conditions'', dec n]) @ q" "value_down (xs ! n) q \<noteq> None"
      using "1.IH"(1) [of "JArr xs" xs n i p] by auto
    then show ?thesis using inner by (intro exI [of _ "js ''conditions'' # dec n # q"]) (auto simp: step_into_def)
  next
    case one
    then obtain q where "p = (path @ [js ''condition'']) @ q" "value_down c q \<noteq> None" using "1.IH"(2) by blast
    then show ?thesis using one by (intro exI [of _ "js ''condition'' # q"]) (auto simp: step_into_def)
  qed
qed auto

lemma walked_declared:
  assumes "(i, p) \<in> set (evidence_nodes v path)" "value_down doc path = Some v"
  shows "value_down doc p \<noteq> None"
  using evidence_nodes_declared [OF assms(1)] assms(2) by (auto simp: value_down_append)

lemma evidencePresentNodes_declared:
  assumes "evidencePresentNodes doc = Some found" "(i, p) \<in> set found"
  shows "value_down doc p \<noteq> None"
proof -
  let ?entry = "\<lambda>member n x. map_option (\<lambda>w. case w of None \<Rightarrow> [] | Some c \<Rightarrow> evidence_nodes c [member, dec n, js ''when''])
    (member_of x (js ''when''))"
  have entries: "value_down doc p \<noteq> None"
    if ls: "each_entry (?entry member) (document_member doc member) = Some ls" "(i, p) \<in> set ls" for member ls
  proof -
    obtain xs n r where x: "elements (document_member doc member) = Some xs" "n < length xs" "?entry member n (xs ! n) = Some r" "(i, p) \<in> set r"
      using each_entry_lines [OF ls(1)] ls(2) by blast
    then obtain ms c where "xs ! n = JObj ms" "map_of ms (js ''when'') = Some c" "(i, p) \<in> set (evidence_nodes c [member, dec n, js ''when''])"
      by (auto simp: member_of_def split: jval.splits option.splits)
    moreover from this have "value_down doc [member, dec n, js ''when''] = Some c"
      using entry_value [OF x(1,2)] by (auto simp: step_into_def split: option.splits)
    ultimately show ?thesis using walked_declared by blast
  qed
  have root: "value_down doc p \<noteq> None" if "document_member doc (js ''applicability'') = Some c" "(i, p) \<in> set (evidence_nodes c [js ''applicability''])" for c
    using walked_declared [OF that(2), of doc] that(1) by (auto simp: document_member_def step_into_def split: jval.splits)
  obtain r e where re: "each_entry (?entry (js ''rules'')) (document_member doc (js ''rules'')) = Some r"
    "each_entry (?entry (js ''exceptions'')) (document_member doc (js ''exceptions'')) = Some e"
    and found: "found = (case document_member doc (js ''applicability'') of None \<Rightarrow> [] | Some c \<Rightarrow> evidence_nodes c [js ''applicability'']) @ r @ e"
    using assms(1) by (auto simp only: evidencePresentNodes_def Let_def bind_eq_Some_conv option.inject)
  have "(i, p) \<in> set r \<or> (i, p) \<in> set e
      \<or> (\<exists>c. document_member doc (js ''applicability'') = Some c \<and> (i, p) \<in> set (evidence_nodes c [js ''applicability'']))"
    using found assms(2) by (cases "document_member doc (js ''applicability'')") auto
  then show ?thesis using entries [OF re(1)] entries [OF re(2)] root by blast
qed

section \<open>The panel\<close>

lemma sound_loop:
  assumes "each_entry (line_if_equal relation member k i) (document_member doc member) = Some ls
    \<or> each_entry (line_if_includes relation member k i) (document_member doc member) = Some ls" "l \<in> set ls"
  shows "sound_line doc l"
  using assms sound_each_entry sound_line_if by metis

text \<open>The lines one block of the panel gives are sound.\<close>

definition sound_block :: "jval \<Rightarrow> (jval \<Rightarrow> reference list option) \<Rightarrow> bool" where
  "sound_block doc f \<longleftrightarrow> (\<forall>x ls l. f x = Some ls \<longrightarrow> l \<in> set ls \<longrightarrow> sound_line doc l)"

lemma sound_under: "\<lbrakk>sound_block doc f; lines_under doc address member f = Some ls; l \<in> set ls\<rbrakk> \<Longrightarrow> sound_line doc l"
  by (auto simp: lines_under_def sound_block_def split: option.splits)

lemma sound_rule_lines:
  assumes "places_of doc = Some pl" "rule_lines doc pl x = Some ls" "l \<in> set ls"
  shows "sound_line doc l"
proof -
  have pl: "sound_places doc (pl_outcome pl)" "sound_places doc (pl_evidence pl)" "sound_places doc (pl_source pl)"
    using sound_places_of [OF assms(1)] by simp_all
  obtain c where "each_entry (line_if_equal CitedBy (js ''exceptions'') (js ''targetRule'') (field x (js ''id'')))
      (document_member doc (js ''exceptions'')) = Some c" "l \<in> set c \<or> (\<exists>r v f k. l = named r v f k \<and> sound_places doc f)"
    using assms(2,3) pl by (auto simp only: rule_lines_def named_strings_def bind_eq_Some_conv option.inject map_option_eq_Some set_append Un_iff set_map
        split: option.splits jval.splits) auto
  then show ?thesis using sound_loop sound_named by metis
qed

lemma sound_exception_lines:
  assumes "places_of doc = Some pl" "exception_lines doc pl x = Some ls" "l \<in> set ls"
  shows "sound_line doc l"
  using sound_places_of [OF assms(1)] assms(2,3)
  by (auto simp: exception_lines_def named_member_def sound_named split: option.splits)

lemma sound_outcome_lines:
  assumes "outcome_lines doc x = Some ls" "l \<in> set ls"
  shows "sound_line doc l"
proof -
  let ?i = "field x (js ''id'')"
  obtain r e where r: "each_entry (line_if_equal ProducedByRule (js ''rules'') (js ''outcome'') ?i) (document_member doc (js ''rules'')) = Some r"
    "each_entry (line_if_equal ProducedByException (js ''exceptions'') (js ''outcome'') ?i) (document_member doc (js ''exceptions'')) = Some e"
    "ls = r @ e @ (if strictly_equal (document_member doc (js ''fallbackOutcome'')) ?i then [backlink FallbackOutcome ?i [js ''fallbackOutcome'']] else [])"
    using assms(1) by (auto simp only: outcome_lines_def Let_def bind_eq_Some_conv option.inject)
  have "sound_line doc (backlink FallbackOutcome ?i [js ''fallbackOutcome''])"
    if "strictly_equal (document_member doc (js ''fallbackOutcome'')) ?i"
  proof (cases "document_member doc (js ''fallbackOutcome'')")
    case None
    then have "?i = None" using that by (simp add: strictly_equal_def split: option.splits)
    then show ?thesis by (simp add: sound_line_def absent_fallback_def)
  next
    case (Some v)
    then show ?thesis by (intro sound_backlink) (auto simp: document_member_def step_into_def split: jval.splits)
  qed
  moreover have "l \<in> set r \<or> l \<in> set e \<or> (strictly_equal (document_member doc (js ''fallbackOutcome'')) ?i
      \<and> l = backlink FallbackOutcome ?i [js ''fallbackOutcome''])" using r(3) assms(2) by (simp split: if_splits)
  ultimately show ?thesis using sound_loop r(1,2) by blast
qed

lemma sound_requirement_lines:
  assumes "requirement_lines doc x = Some ls" "l \<in> set ls"
  shows "sound_line doc l"
proof -
  let ?i = "field x (js ''id'')"
  obtain r found where r: "each_entry (line_if_includes RequiredByRule (js ''rules'') (js ''evidenceRequirementRefs'') ?i) (document_member doc (js ''rules'')) = Some r"
    "evidencePresentNodes doc = Some found" "ls = r @ [backlink TestedByCondition ?i path. (n, path) \<leftarrow> found, strictly_equal n ?i]"
    using assms(1) by (auto simp only: requirement_lines_def Let_def bind_eq_Some_conv option.inject)
  have "l \<in> set r \<or> (\<exists>n path. (n, path) \<in> set found \<and> l = backlink TestedByCondition ?i path)"
    using r(3) assms(2) by auto
  then show ?thesis using sound_loop r(1) sound_backlink evidencePresentNodes_declared [OF r(2)] by metis
qed

lemma sound_source_lines:
  assumes "source_lines doc x = Some ls" "l \<in> set ls"
  shows "sound_line doc l"
proof -
  let ?i = "field x (js ''id'')"
  obtain r e where "each_entry (line_if_includes CitedByRule (js ''rules'') (js ''sourceRefs'') ?i) (document_member doc (js ''rules'')) = Some r"
    "each_entry (line_if_includes CitedByException (js ''exceptions'') (js ''sourceRefs'') ?i) (document_member doc (js ''exceptions'')) = Some e"
    "ls = r @ e"
    using assms(1) by (auto simp only: source_lines_def Let_def bind_eq_Some_conv option.inject)
  then show ?thesis using assms(2) sound_loop by (metis Un_iff set_append)
qed

lemma sound_blocks:
  assumes "places_of doc = Some pl"
  shows "sound_block doc (rule_lines doc pl)" "sound_block doc (exception_lines doc pl)" "sound_block doc (outcome_lines doc)"
    "sound_block doc (requirement_lines doc)" "sound_block doc (source_lines doc)"
  using sound_rule_lines [OF assms] sound_exception_lines [OF assms] sound_outcome_lines sound_requirement_lines sound_source_lines
  by (simp_all only: sound_block_def) blast+

lemma panel_blocks:
  assumes "referencesFor (Some doc) address = Some lines" "address \<noteq> []" "valueAt doc address \<noteq> None"
  obtains pl r x o' e s where "places_of doc = Some pl"
    "lines_under doc address (js ''rules'') (rule_lines doc pl) = Some r" "lines_under doc address (js ''exceptions'') (exception_lines doc pl) = Some x"
    "lines_under doc address (js ''outcomes'') (outcome_lines doc) = Some o'"
    "lines_under doc address (js ''evidenceRequirements'') (requirement_lines doc) = Some e" "lines_under doc address (js ''sources'') (source_lines doc) = Some s"
    "r @ x @ o' @ e @ s @ (if address = pointer [js ''fallbackOutcome'']
      then named_member OutcomeOf (document_member doc (js ''fallbackOutcome'')) (pl_outcome pl) OutcomeId else []) = lines"
proof -
  have n: "\<not> (address = [] \<or> valueAt doc address = None)" using assms(2,3) by simp
  show ?thesis
    using assms(1) that unfolding referencesFor_def option.case if_not_P [OF n] bind_eq_Some_conv option.inject by blast
qed

text \<open>C38: Whatever the document holds in the middle of a draft, every address the panel offers, as the one place of an id or
  as one of several, from a rule or back from a condition node, is one the document answers; the one line that is
  not is the fallback outcome said of an outcome without an id by a document that names none.\<close>

theorem references_declared:
  assumes "referencesFor (Some doc) address = Some lines" "l \<in> set lines" "t \<in> set (offered l)"
  shows "declaredAt doc t \<or> l = absent_fallback"
proof -
  have "sound_line doc l"
  proof (cases "address = [] \<or> valueAt doc address = None")
    case False
    then have "address \<noteq> []" "valueAt doc address \<noteq> None" by simp_all
    then obtain pl r x o' e s where pl: "places_of doc = Some pl"
      and blocks: "lines_under doc address (js ''rules'') (rule_lines doc pl) = Some r" "lines_under doc address (js ''exceptions'') (exception_lines doc pl) = Some x"
        "lines_under doc address (js ''outcomes'') (outcome_lines doc) = Some o'"
        "lines_under doc address (js ''evidenceRequirements'') (requirement_lines doc) = Some e" "lines_under doc address (js ''sources'') (source_lines doc) = Some s"
      and lines: "r @ x @ o' @ e @ s @ (if address = pointer [js ''fallbackOutcome'']
          then named_member OutcomeOf (document_member doc (js ''fallbackOutcome'')) (pl_outcome pl) OutcomeId else []) = lines"
      by (rule panel_blocks [OF assms(1)])
    have "l \<in> set r \<or> l \<in> set x \<or> l \<in> set o' \<or> l \<in> set e \<or> l \<in> set s \<or> (\<exists>v. l = named OutcomeOf v (pl_outcome pl) OutcomeId)"
      using assms(2) unfolding lines [symmetric] by (auto simp: named_member_def split: if_splits option.splits)
    then show ?thesis using sound_blocks [OF pl] sound_under blocks sound_places_of [OF pl] sound_named by metis
  qed (use assms in \<open>simp add: referencesFor_def\<close>)
  then show ?thesis using assms(3) by (auto simp: sound_line_def)
qed

section \<open>The two directions\<close>

text \<open>A line says that a relation leads to an address.\<close>

definition leads :: "reference list \<Rightarrow> relation \<Rightarrow> jstr \<Rightarrow> bool" where
  "leads ls relation t \<longleftrightarrow> (\<exists>l \<in> set ls. re_relation l = relation \<and> t \<in> set (offered l))"

lemma leads_append [simp]: "leads (a @ b) relation t \<longleftrightarrow> leads a relation t \<or> leads b relation t"
  by (auto simp: leads_def)

lemma leads_Nil [simp]: "\<not> leads [] relation t" by (simp add: leads_def)

lemma leads_named [simp]: "leads [named r v f kind] relation t \<longleftrightarrow> r = relation \<and> (\<exists>i. v = JStr i \<and> t \<in> set (f i))"
  by (auto simp: leads_def split: jval.splits)

lemma leads_backlink [simp]: "leads [backlink r i path] relation t \<longleftrightarrow> r = relation \<and> t = pointer path"
  by (auto simp: leads_def simp del: pointer.simps)

lemma leads_named_member [simp]:
  "leads (named_member r v f kind) relation t \<longleftrightarrow> r = relation \<and> (\<exists>i. v = Some (JStr i) \<and> t \<in> set (f i))"
  by (auto simp: named_member_def split: option.split)

lemma leads_map_named [simp]:
  "leads (map (\<lambda>x. named r x f kind) xs) relation t \<longleftrightarrow> r = relation \<and> (\<exists>i. JStr i \<in> set xs \<and> t \<in> set (f i))"
  by (force simp: leads_def split: jval.splits)

text \<open>What an entry names in a member: the id it is, or the ids of an array.\<close>

definition names_id :: "(jstr \<times> jval) list \<Rightarrow> jstr \<Rightarrow> jstr \<Rightarrow> bool" where
  "names_id x k i \<longleftrightarrow> (case map_of x k of Some (JStr s) \<Rightarrow> s = i | Some (JArr xs) \<Rightarrow> JStr i \<in> set xs | _ \<Rightarrow> False)"

lemma iterated_names: "\<lbrakk>iterated (map_of x k) = Some xs; \<not> is_string (map_of x k)\<rbrakk> \<Longrightarrow> JStr i \<in> set xs \<longleftrightarrow> names_id x k i"
  by (auto simp: iterated_def elements_def names_id_def is_string_def split: option.splits jval.splits)

lemma equal_string: "strictly_equal v (Some (JStr i)) \<longleftrightarrow> v = Some (JStr i)"
  by (auto simp: strictly_equal_def split: option.split jval.split)

lemma includes_names: "\<lbrakk>js_includes (map_of x k) (Some (JStr i)) = Some b; \<not> is_string (map_of x k)\<rbrakk> \<Longrightarrow> b \<longleftrightarrow> names_id x k i"
  by (auto simp: js_includes_def names_id_def is_string_def list_ex_iff equal_string split: option.splits jval.splits)

lemma leads_loop:
  assumes "each_entry f (document_member doc member) = Some ls" "value_down doc [member, dec n] = Some (JObj x)" "arrayIndex member = None"
    and f: "\<And>m y r. f m y = Some r \<Longrightarrow> set r = (if q y then {backlink relation (field y (js ''id'')) [member, dec m]} else {})"
  shows "leads ls other (pointer [member, dec n]) \<longleftrightarrow> other = relation \<and> q (JObj x)"
proof -
  obtain xs where xs: "elements (document_member doc member) = Some xs"
    "\<And>l. l \<in> set ls \<longleftrightarrow> (\<exists>m r. m < length xs \<and> f m (xs ! m) = Some r \<and> l \<in> set r)"
    using each_entry_lines [OF assms(1)] by blast
  have n: "n < length xs" "xs ! n = JObj x" using value_entry [OF xs(1) assms(2,3)] by simp_all
  have defined: "\<exists>r. f m (xs ! m) = Some r" if "m < length xs" for m
    using assms(1) that xs(1) each_defined [of "\<lambda>(i, x). f i x" "enumerate 0 xs" ls "(m, xs ! m)"]
    by (auto simp: each_entry_def enumerate_pair)
  have ls: "l \<in> set ls \<longleftrightarrow> (\<exists>m < length xs. q (xs ! m) \<and> l = backlink relation (field (xs ! m) (js ''id'')) [member, dec m])" for l
  proof -
    have "(\<exists>r. f m (xs ! m) = Some r \<and> l \<in> set r) \<longleftrightarrow> q (xs ! m) \<and> l = backlink relation (field (xs ! m) (js ''id'')) [member, dec m]"
      if "m < length xs" for m
      using defined [OF that] f [of m "xs ! m"] by (auto split: if_splits)
    then show ?thesis unfolding xs(2) by blast
  qed
  have "leads ls other (pointer [member, dec n])
      \<longleftrightarrow> (\<exists>m < length xs. q (xs ! m) \<and> relation = other \<and> pointer [member, dec n] = pointer [member, dec m])"
    unfolding leads_def Bex_def ls by (auto simp del: pointer.simps)
  then show ?thesis using n by (auto simp del: pointer.simps)
qed

lemma under_entry:
  assumes "value_down doc [member, p] = Some (JObj x)"
  shows "lines_under doc (pointer [member, p]) m f = (if m = member then f (JObj x) else Some [])"
  using assms by (simp add: lines_under_def entryUnder_def del: pointer.simps value_down.simps)

text \<open>The panel of an entry is the block of its collection.\<close>

lemma panel_entry:
  assumes "referencesFor (Some doc) (pointer [member, p]) = Some lines" "value_down doc [member, p] = Some (JObj x)"
  obtains pl where "places_of doc = Some pl"
    "member = js ''rules'' \<longrightarrow> rule_lines doc pl (JObj x) = Some lines"
    "member = js ''exceptions'' \<longrightarrow> exception_lines doc pl (JObj x) = Some lines"
    "member = js ''outcomes'' \<longrightarrow> outcome_lines doc (JObj x) = Some lines"
    "member = js ''evidenceRequirements'' \<longrightarrow> requirement_lines doc (JObj x) = Some lines"
    "member = js ''sources'' \<longrightarrow> source_lines doc (JObj x) = Some lines"
proof -
  let ?a = "pointer [member, p]"
  have "?a \<noteq> []" "valueAt doc ?a \<noteq> None" using assms(2) by (simp_all del: pointer.simps value_down.simps)
  then obtain pl r y o' e s where pl: "places_of doc = Some pl"
    and blocks: "lines_under doc ?a (js ''rules'') (rule_lines doc pl) = Some r" "lines_under doc ?a (js ''exceptions'') (exception_lines doc pl) = Some y"
      "lines_under doc ?a (js ''outcomes'') (outcome_lines doc) = Some o'"
      "lines_under doc ?a (js ''evidenceRequirements'') (requirement_lines doc) = Some e" "lines_under doc ?a (js ''sources'') (source_lines doc) = Some s"
    and lines: "r @ y @ o' @ e @ s @ (if ?a = pointer [js ''fallbackOutcome'']
        then named_member OutcomeOf (document_member doc (js ''fallbackOutcome'')) (pl_outcome pl) OutcomeId else []) = lines"
    by (rule panel_blocks [OF assms(1)])
  have "?a \<noteq> pointer [js ''fallbackOutcome'']" by (simp del: pointer.simps)
  then have l: "r @ y @ o' @ e @ s = lines" using lines by simp
  note b = blocks [unfolded under_entry [OF assms(2)]]
  show ?thesis by (rule that [OF pl]) (use b l in \<open>auto simp: js_def\<close>)
qed

text \<open>The places of an id, of the entry at an address.\<close>

lemma declared_here:
  assumes "declared_places (document_member doc member) member = Some f" "value_down doc [member, dec j] = Some (JObj y)"
    "map_of y (js ''id'') = Some (JStr i)" "arrayIndex member = None"
  shows "pointer [member, dec j] \<in> set (f k) \<longleftrightarrow> k = i"
proof -
  obtain xs where xs: "elements (document_member doc member) = Some xs"
    "\<And>k t. t \<in> set (f k) \<longleftrightarrow> (\<exists>n < length xs. t = pointer [member, dec n] \<and> declared_id (xs ! n) = Some k)"
    using declared_places_set [OF assms(1)] by blast
  have "j < length xs" "xs ! j = JObj y" using value_entry [OF xs(1) assms(2,4)] by simp_all
  then show ?thesis unfolding xs(2) using assms(3) by (auto simp: declared_id_def simp del: pointer.simps)
qed

lemma plain_members:
  "arrayIndex (js ''rules'') = None" "arrayIndex (js ''exceptions'') = None" "arrayIndex (js ''outcomes'') = None"
  "arrayIndex (js ''evidenceRequirements'') = None" "arrayIndex (js ''sources'') = None"
  by (simp_all add: arrayIndex_def is_index_def is_digit_def)

lemma places_here:
  assumes "places_of doc = Some pl" "value_down doc [member, dec j] = Some (JObj y)" "map_of y (js ''id'') = Some (JStr i)"
  shows "member = js ''outcomes'' \<Longrightarrow> pointer [member, dec j] \<in> set (pl_outcome pl k) \<longleftrightarrow> k = i"
    and "member = js ''evidenceRequirements'' \<Longrightarrow> pointer [member, dec j] \<in> set (pl_evidence pl k) \<longleftrightarrow> k = i"
    and "member = js ''sources'' \<Longrightarrow> pointer [member, dec j] \<in> set (pl_source pl k) \<longleftrightarrow> k = i"
    and "member = js ''rules'' \<Longrightarrow> pointer [member, dec j] \<in> set (pl_rule pl k) \<longleftrightarrow> k = i"
  using assms declared_here [OF _ _ _ plain_members(3)] declared_here [OF _ _ _ plain_members(4)]
    declared_here [OF _ _ _ plain_members(5)] declared_here [OF _ _ _ plain_members(1)]
  unfolding places_of_def Let_def bind_eq_Some_conv option.inject by (metis places.select_convs)+

subsection \<open>What each block leads to\<close>

lemma leads_named_strings:
  "\<lbrakk>named_strings r (map_of x k) f kind = Some ls; \<not> is_string (map_of x k)\<rbrakk> \<Longrightarrow>
     leads ls relation t \<longleftrightarrow> r = relation \<and> (\<exists>i. names_id x k i \<and> t \<in> set (f i))"
proof -
  assume a: "named_strings r (map_of x k) f kind = Some ls" "\<not> is_string (map_of x k)"
  then obtain xs where "iterated (map_of x k) = Some xs" "ls = map (\<lambda>x. named r x f kind) (filter (\<lambda>x. is_string (Some x)) xs)"
    by (auto simp: named_strings_def)
  then show ?thesis using iterated_names [OF _ a(2), of xs] by (auto simp: is_string_def)
qed

lemma loop_relation:
  assumes "each_entry (line_if_equal relation member k i) v = Some ls \<or> each_entry (line_if_includes relation member k i) v = Some ls"
    "leads ls other t"
  shows "other = relation"
proof -
  obtain l where l: "l \<in> set ls" "re_relation l = other" using assms(2) by (auto simp: leads_def)
  obtain n y r where r: "line_if_equal relation member k i n y = Some r \<or> line_if_includes relation member k i n y = Some r" "l \<in> set r"
    using assms(1) l(1) each_entry_lines by metis
  then show ?thesis using line_if_equal_lines line_if_includes_lines l(2)
    by (metis empty_iff insert_iff relation_simps(2))
qed

lemma leads_equal_loop:
  assumes "each_entry (line_if_equal relation member k i) (document_member doc member) = Some ls"
    "value_down doc [member, dec n] = Some (JObj x)" "arrayIndex member = None"
  shows "leads ls relation (pointer [member, dec n]) \<longleftrightarrow> strictly_equal (map_of x k) i"
  using leads_loop [OF assms, of "\<lambda>y. strictly_equal (the (member_of y k)) i" relation relation] line_if_equal_lines
  by (simp add: member_of_def del: pointer.simps)

lemma leads_includes_loop:
  assumes "each_entry (line_if_includes relation member k (Some (JStr i))) (document_member doc member) = Some ls"
    "value_down doc [member, dec n] = Some (JObj x)" "arrayIndex member = None" "\<not> is_string (map_of x k)"
  shows "leads ls relation (pointer [member, dec n]) \<longleftrightarrow> names_id x k i"
proof -
  have "leads ls relation (pointer [member, dec n]) \<longleftrightarrow> js_includes (map_of x k) (Some (JStr i)) = Some True"
    using leads_loop [OF assms(1-3), of "\<lambda>y. js_includes (the (member_of y k)) (Some (JStr i)) = Some True" relation relation] line_if_includes_lines
    by (simp add: member_of_def del: pointer.simps)
  then show ?thesis using includes_names [OF _ assms(4), of i True] assms(4)
    by (auto simp: js_includes_def names_id_def is_string_def equal_string list_ex_iff split: option.splits jval.splits)
qed

lemma named_strings_relation: "\<lbrakk>named_strings r v f kind = Some ls; leads ls relation t\<rbrakk> \<Longrightarrow> relation = r"
  by (auto simp: named_strings_def leads_def)

lemma rule_cited:
  assumes "rule_lines doc pl (JObj x) = Some ls" "value_down doc [js ''exceptions'', dec n] = Some (JObj y)"
  shows "leads ls CitedBy (pointer [js ''exceptions'', dec n]) \<longleftrightarrow> strictly_equal (map_of y (js ''targetRule'')) (map_of x (js ''id''))"
proof -
  obtain e s c where e: "named_strings EvidenceOf (map_of x (js ''evidenceRequirementRefs'')) (pl_evidence pl) EvidenceId = Some e"
    and s: "named_strings SourcesOf (map_of x (js ''sourceRefs'')) (pl_source pl) SourceId = Some s"
    and c: "each_entry (line_if_equal CitedBy (js ''exceptions'') (js ''targetRule'') (map_of x (js ''id''))) (document_member doc (js ''exceptions'')) = Some c"
    and ls: "(case map_of x (js ''outcome'') of Some (JStr i) \<Rightarrow> [named OutcomeOf (JStr i) (pl_outcome pl) OutcomeId] | _ \<Rightarrow> []) @ e @ s @ c = ls"
    using assms(1) unfolding rule_lines_def field_def jval.case bind_eq_Some_conv option.inject by blast
  have "\<not> leads (case map_of x (js ''outcome'') of Some (JStr i) \<Rightarrow> [named OutcomeOf (JStr i) (pl_outcome pl) OutcomeId] | _ \<Rightarrow> []) CitedBy t" for t
    by (auto split: option.split jval.split)
  then show ?thesis unfolding ls [symmetric] leads_append
    using leads_equal_loop [OF c assms(2) plain_members(2)] named_strings_relation [OF e, of CitedBy] named_strings_relation [OF s, of CitedBy] by blast
qed

lemma rule_leads:
  assumes "rule_lines doc pl (JObj x) = Some ls" "\<not> is_string (map_of x (js ''evidenceRequirementRefs''))" "\<not> is_string (map_of x (js ''sourceRefs''))"
  shows "leads ls OutcomeOf t \<longleftrightarrow> (\<exists>i. map_of x (js ''outcome'') = Some (JStr i) \<and> t \<in> set (pl_outcome pl i))"
    and "leads ls EvidenceOf t \<longleftrightarrow> (\<exists>i. names_id x (js ''evidenceRequirementRefs'') i \<and> t \<in> set (pl_evidence pl i))"
    and "leads ls SourcesOf t \<longleftrightarrow> (\<exists>i. names_id x (js ''sourceRefs'') i \<and> t \<in> set (pl_source pl i))"
proof -
  obtain e s c where parts: "named_strings EvidenceOf (map_of x (js ''evidenceRequirementRefs'')) (pl_evidence pl) EvidenceId = Some e"
    "named_strings SourcesOf (map_of x (js ''sourceRefs'')) (pl_source pl) SourceId = Some s"
    and c: "each_entry (line_if_equal CitedBy (js ''exceptions'') (js ''targetRule'') (map_of x (js ''id''))) (document_member doc (js ''exceptions'')) = Some c"
    and ls: "(case map_of x (js ''outcome'') of Some (JStr i) \<Rightarrow> [named OutcomeOf (JStr i) (pl_outcome pl) OutcomeId] | _ \<Rightarrow> []) @ e @ s @ c = ls"
    using assms(1) unfolding rule_lines_def field_def jval.case bind_eq_Some_conv option.inject by blast
  note e = leads_named_strings [OF parts(1) assms(2)] and s = leads_named_strings [OF parts(2) assms(3)]
  have o': "leads (case map_of x (js ''outcome'') of Some (JStr i) \<Rightarrow> [named OutcomeOf (JStr i) (pl_outcome pl) OutcomeId] | _ \<Rightarrow> []) r t
      \<longleftrightarrow> r = OutcomeOf \<and> (\<exists>i. map_of x (js ''outcome'') = Some (JStr i) \<and> t \<in> set (pl_outcome pl i))" for r t
    by (auto split: option.split jval.split)
  have other: "leads c r t \<Longrightarrow> r = CitedBy" for r t using loop_relation c by blast
  show "leads ls OutcomeOf t \<longleftrightarrow> (\<exists>i. map_of x (js ''outcome'') = Some (JStr i) \<and> t \<in> set (pl_outcome pl i))"
    "leads ls EvidenceOf t \<longleftrightarrow> (\<exists>i. names_id x (js ''evidenceRequirementRefs'') i \<and> t \<in> set (pl_evidence pl i))"
    "leads ls SourcesOf t \<longleftrightarrow> (\<exists>i. names_id x (js ''sourceRefs'') i \<and> t \<in> set (pl_source pl i))"
    unfolding ls [symmetric] leads_append e s o' using other by blast+
qed

lemma exception_leads:
  assumes "exception_lines doc pl (JObj x) = Some ls" "\<not> is_string (map_of x (js ''sourceRefs''))"
  shows "leads ls TargetRule t \<longleftrightarrow> (\<exists>i. map_of x (js ''targetRule'') = Some (JStr i) \<and> t \<in> set (pl_rule pl i))"
    and "leads ls OutcomeOf t \<longleftrightarrow> (\<exists>i. map_of x (js ''outcome'') = Some (JStr i) \<and> t \<in> set (pl_outcome pl i))"
    and "leads ls SourcesOf t \<longleftrightarrow> (\<exists>i. names_id x (js ''sourceRefs'') i \<and> t \<in> set (pl_source pl i))"
proof -
  obtain refs where refs: "iterated (map_of x (js ''sourceRefs'')) = Some refs"
    "ls = named_member TargetRule (map_of x (js ''targetRule'')) (pl_rule pl) RuleId
        @ named_member OutcomeOf (map_of x (js ''outcome'')) (pl_outcome pl) OutcomeId @ map (\<lambda>r. named SourcesOf r (pl_source pl) SourceId) refs"
    using assms(1) unfolding exception_lines_def field_def jval.case map_option_eq_Some by blast
  note n = iterated_names [OF refs(1) assms(2)]
  show "leads ls TargetRule t \<longleftrightarrow> (\<exists>i. map_of x (js ''targetRule'') = Some (JStr i) \<and> t \<in> set (pl_rule pl i))"
    "leads ls OutcomeOf t \<longleftrightarrow> (\<exists>i. map_of x (js ''outcome'') = Some (JStr i) \<and> t \<in> set (pl_outcome pl i))"
    "leads ls SourcesOf t \<longleftrightarrow> (\<exists>i. names_id x (js ''sourceRefs'') i \<and> t \<in> set (pl_source pl i))"
    unfolding refs(2) leads_append leads_named_member leads_map_named n by blast+
qed

lemma outcome_leads:
  assumes "outcome_lines doc (JObj y) = Some ls" "map_of y (js ''id'') = Some (JStr i)" "value_down doc [member, dec n] = Some (JObj x)"
  shows "member = js ''rules'' \<Longrightarrow> leads ls ProducedByRule (pointer [member, dec n]) \<longleftrightarrow> map_of x (js ''outcome'') = Some (JStr i)"
    and "member = js ''exceptions'' \<Longrightarrow> leads ls ProducedByException (pointer [member, dec n]) \<longleftrightarrow> map_of x (js ''outcome'') = Some (JStr i)"
proof -
  let ?f = "if strictly_equal (document_member doc (js ''fallbackOutcome'')) (Some (JStr i))
    then [backlink FallbackOutcome (Some (JStr i)) [js ''fallbackOutcome'']] else []"
  obtain r e where r: "each_entry (line_if_equal ProducedByRule (js ''rules'') (js ''outcome'') (Some (JStr i))) (document_member doc (js ''rules'')) = Some r"
    and e: "each_entry (line_if_equal ProducedByException (js ''exceptions'') (js ''outcome'') (Some (JStr i))) (document_member doc (js ''exceptions'')) = Some e"
    and ls: "r @ e @ ?f = ls"
    using assms(1) unfolding outcome_lines_def Let_def field_def jval.case assms(2) bind_eq_Some_conv option.inject by blast
  have f': "leads ?f rel t \<Longrightarrow> rel = FallbackOutcome" for rel t by (simp del: pointer.simps split: if_splits)
  have r': "leads r rel t \<Longrightarrow> rel = ProducedByRule" and e': "leads e rel t \<Longrightarrow> rel = ProducedByException" for rel t
    using loop_relation r e by blast+
  show "leads ls ProducedByRule (pointer [member, dec n]) \<longleftrightarrow> map_of x (js ''outcome'') = Some (JStr i)" if "member = js ''rules''"
    unfolding ls [symmetric] leads_append that using leads_equal_loop [OF r assms(3) [unfolded that] plain_members(1)] f' [of ProducedByRule] e' [of ProducedByRule] by (simp only: equal_string) blast
  show "leads ls ProducedByException (pointer [member, dec n]) \<longleftrightarrow> map_of x (js ''outcome'') = Some (JStr i)" if "member = js ''exceptions''"
    unfolding ls [symmetric] leads_append that using leads_equal_loop [OF e assms(3) [unfolded that] plain_members(2)] f' [of ProducedByException] r' [of ProducedByException] by (simp only: equal_string) blast
qed

lemma requirement_leads:
  assumes "requirement_lines doc (JObj y) = Some ls" "map_of y (js ''id'') = Some (JStr i)" "value_down doc [js ''rules'', dec n] = Some (JObj x)"
    "\<not> is_string (map_of x (js ''evidenceRequirementRefs''))"
  shows "leads ls RequiredByRule (pointer [js ''rules'', dec n]) \<longleftrightarrow> names_id x (js ''evidenceRequirementRefs'') i"
proof -
  obtain r found where r: "each_entry (line_if_includes RequiredByRule (js ''rules'') (js ''evidenceRequirementRefs'') (Some (JStr i))) (document_member doc (js ''rules'')) = Some r"
    and ls: "r @ [backlink TestedByCondition (Some (JStr i)) path. (n, path) \<leftarrow> found, strictly_equal n (Some (JStr i))] = ls"
    using assms(1) unfolding requirement_lines_def Let_def field_def jval.case assms(2) bind_eq_Some_conv option.inject by blast
  have "\<not> leads [backlink TestedByCondition (Some (JStr i)) path. (n, path) \<leftarrow> found, strictly_equal n (Some (JStr i))] RequiredByRule t" for t
    by (auto simp: leads_def)
  then show ?thesis unfolding ls [symmetric] leads_append using leads_includes_loop [OF r assms(3) plain_members(1) assms(4)] by simp
qed

lemma source_leads:
  assumes "source_lines doc (JObj y) = Some ls" "map_of y (js ''id'') = Some (JStr i)" "value_down doc [member, dec n] = Some (JObj x)"
    "\<not> is_string (map_of x (js ''sourceRefs''))"
  shows "member = js ''rules'' \<Longrightarrow> leads ls CitedByRule (pointer [member, dec n]) \<longleftrightarrow> names_id x (js ''sourceRefs'') i"
    and "member = js ''exceptions'' \<Longrightarrow> leads ls CitedByException (pointer [member, dec n]) \<longleftrightarrow> names_id x (js ''sourceRefs'') i"
proof -
  obtain r e where r: "each_entry (line_if_includes CitedByRule (js ''rules'') (js ''sourceRefs'') (Some (JStr i))) (document_member doc (js ''rules'')) = Some r"
    and e: "each_entry (line_if_includes CitedByException (js ''exceptions'') (js ''sourceRefs'') (Some (JStr i))) (document_member doc (js ''exceptions'')) = Some e"
    and ls: "r @ e = ls"
    using assms(1) unfolding source_lines_def Let_def field_def jval.case assms(2) bind_eq_Some_conv option.inject by blast
  have r': "leads r rel t \<Longrightarrow> rel = CitedByRule" and e': "leads e rel t \<Longrightarrow> rel = CitedByException" for rel t
    using loop_relation r e by blast+
  show "leads ls CitedByRule (pointer [member, dec n]) \<longleftrightarrow> names_id x (js ''sourceRefs'') i" if "member = js ''rules''"
    unfolding ls [symmetric] leads_append that using leads_includes_loop [OF r assms(3) [unfolded that] plain_members(1) assms(4)] e' by auto
  show "leads ls CitedByException (pointer [member, dec n]) \<longleftrightarrow> names_id x (js ''sourceRefs'') i" if "member = js ''exceptions''"
    unfolding ls [symmetric] leads_append that using leads_includes_loop [OF e assms(3) [unfolded that] plain_members(2) assms(4)] r' by auto
qed

text \<open>The pairs of relations that are one reference read from its two ends, and the collections it goes between.\<close>

definition mirrored :: "(relation \<times> relation \<times> jstr \<times> jstr) list" where
  "mirrored =
     [(OutcomeOf, ProducedByRule, js ''rules'', js ''outcomes''),
      (EvidenceOf, RequiredByRule, js ''rules'', js ''evidenceRequirements''),
      (SourcesOf, CitedByRule, js ''rules'', js ''sources''),
      (TargetRule, CitedBy, js ''exceptions'', js ''rules''),
      (OutcomeOf, ProducedByException, js ''exceptions'', js ''outcomes''),
      (SourcesOf, CitedByException, js ''exceptions'', js ''sources'')]"

text \<open>C37: A reference is reported from both of its ends or from neither: for a rule or an exception whose lists of
  references are no strings, and an entry that has an id, the panel at the one leads to the other, alone or among the
  candidates of a repeated id, exactly when the panel at the other leads back; for outcomes, evidence, sources and
  target rules.\<close>

theorem references_mirror:
  assumes "(forward, backward, member, other) \<in> set mirrored"
    and "valueAt doc (pointer [member, dec n]) = Some (JObj x)" "valueAt doc (pointer [other, dec j]) = Some (JObj y)"
    and "map_of y (js ''id'') = Some (JStr i)"
    and "\<not> is_string (map_of x (js ''evidenceRequirementRefs''))" "\<not> is_string (map_of x (js ''sourceRefs''))"
    and "referencesFor (Some doc) (pointer [member, dec n]) = Some lines"
    and "referencesFor (Some doc) (pointer [other, dec j]) = Some lines'"
  shows "leads lines forward (pointer [other, dec j]) \<longleftrightarrow> leads lines' backward (pointer [member, dec n])"
proof -
  have x: "value_down doc [member, dec n] = Some (JObj x)" and y: "value_down doc [other, dec j] = Some (JObj y)"
    using assms(2,3) by (simp_all del: pointer.simps value_down.simps)
  obtain pl where pl: "places_of doc = Some pl"
    and here: "member = js ''rules'' \<longrightarrow> rule_lines doc pl (JObj x) = Some lines"
      "member = js ''exceptions'' \<longrightarrow> exception_lines doc pl (JObj x) = Some lines"
    using panel_entry [OF assms(7) x] by blast
  have there: "other = js ''outcomes'' \<longrightarrow> outcome_lines doc (JObj y) = Some lines'"
      "other = js ''evidenceRequirements'' \<longrightarrow> requirement_lines doc (JObj y) = Some lines'"
      "other = js ''sources'' \<longrightarrow> source_lines doc (JObj y) = Some lines'"
      "other = js ''rules'' \<longrightarrow> rule_lines doc pl (JObj y) = Some lines'"
    using panel_entry [OF assms(8) y] pl by (metis option.inject)+
  note places = places_here [OF pl y assms(4)]
  consider "member = js ''rules''" "other = js ''outcomes''" "forward = OutcomeOf" "backward = ProducedByRule"
    | "member = js ''rules''" "other = js ''evidenceRequirements''" "forward = EvidenceOf" "backward = RequiredByRule"
    | "member = js ''rules''" "other = js ''sources''" "forward = SourcesOf" "backward = CitedByRule"
    | "member = js ''exceptions''" "other = js ''rules''" "forward = TargetRule" "backward = CitedBy"
    | "member = js ''exceptions''" "other = js ''outcomes''" "forward = OutcomeOf" "backward = ProducedByException"
    | "member = js ''exceptions''" "other = js ''sources''" "forward = SourcesOf" "backward = CitedByException"
    using assms(1) by (auto simp only: mirrored_def list.set prod.inject insert_iff empty_iff)
  then show ?thesis
  proof cases
    case 1
    then show ?thesis using rule_leads(1) [OF here(1) [rule_format] assms(5,6)] places(1) outcome_leads(1) [OF there(1) [rule_format] assms(4) x] by simp
  next
    case 2
    then show ?thesis using rule_leads(2) [OF here(1) [rule_format] assms(5,6)] places(2) requirement_leads [OF there(2) [rule_format] assms(4)] x assms(5) by simp
  next
    case 3
    then show ?thesis using rule_leads(3) [OF here(1) [rule_format] assms(5,6)] places(3) source_leads(1) [OF there(3) [rule_format] assms(4) x assms(6)] by simp
  next
    case 4
    then show ?thesis
      using exception_leads(1) [OF here(2) [rule_format] assms(6)] places(4) rule_cited [OF there(4) [rule_format]] x assms(4) by (simp add: equal_string)
  next
    case 5
    then show ?thesis using exception_leads(2) [OF here(2) [rule_format] assms(6)] places(1) outcome_leads(2) [OF there(1) [rule_format] assms(4) x] by simp
  next
    case 6
    then show ?thesis using exception_leads(3) [OF here(2) [rule_format] assms(6)] places(3) source_leads(2) [OF there(3) [rule_format] assms(4) x assms(6)] by simp
  qed
qed

section \<open>Two documents\<close>

definition small_pack :: jval where
  "small_pack = JObj [(js ''rules'', JArr [JObj [(js ''id'', JStr (js ''r'')), (js ''outcome'', JStr (js ''a''))]]),
     (js ''outcomes'', JArr [JObj [(js ''id'', JStr (js ''a''))]])]"

lemma small_panels:
  "referencesFor (Some small_pack) (pointer [js ''rules'', dec 0])
     = Some [named OutcomeOf (JStr (js ''a'')) (\<lambda>_. [pointer [js ''outcomes'', dec 0]]) OutcomeId]"
  "referencesFor (Some small_pack) (pointer [js ''outcomes'', dec 0])
     = Some [backlink ProducedByRule (Some (JStr (js ''r''))) [js ''rules'', dec 0]]"
  by code_simp+

lemma small_entries:
  "valueAt small_pack (pointer [js ''rules'', dec 0]) = Some (JObj [(js ''id'', JStr (js ''r'')), (js ''outcome'', JStr (js ''a''))])"
  "valueAt small_pack (pointer [js ''outcomes'', dec 0]) = Some (JObj [(js ''id'', JStr (js ''a''))])"
  by (simp_all add: small_pack_def step_into_def del: pointer.simps)

theorem references_mirror_witness:
  "\<exists>lines. referencesFor (Some small_pack) (pointer [js ''rules'', dec 0]) = Some lines
     \<and> leads lines OutcomeOf (pointer [js ''outcomes'', dec 0])"
proof -
  have "(OutcomeOf, ProducedByRule, js ''rules'', js ''outcomes'') \<in> set mirrored" by (simp add: mirrored_def)
  from references_mirror [OF this small_entries _ _ _ small_panels, of "js ''a''"] show ?thesis
    using small_panels by (simp add: is_string_def del: pointer.simps)
qed

theorem references_declared_witness:
  "\<exists>lines l t. referencesFor (Some small_pack) (pointer [js ''rules'', dec 0]) = Some lines \<and> l \<in> set lines \<and> t \<in> set (offered l)
     \<and> declaredAt small_pack t"
proof -
  let ?l = "named OutcomeOf (JStr (js ''a'')) (\<lambda>_. [pointer [js ''outcomes'', dec 0]]) OutcomeId"
  have "pointer [js ''outcomes'', dec 0] \<in> set (offered ?l)" by (simp del: pointer.simps)
  moreover have "?l \<noteq> absent_fallback" by (simp add: absent_fallback_def named_def backlink_def del: pointer.simps)
  ultimately show ?thesis using references_declared [OF small_panels(1), of ?l] small_panels(1) by auto
qed

text \<open>
  Absent members compare equal: a rule without an id is said to be cited by an exception without a target rule, an
  outcome without an id to be produced by a rule without an outcome, and to be the fallback outcome of a document
  that names none.
\<close>

definition drafted_pack :: jval where
  "drafted_pack = JObj [(js ''rules'', JArr [JObj []]), (js ''outcomes'', JArr [JObj []]), (js ''exceptions'', JArr [JObj []])]"

lemma absent_members_match:
  "referencesFor (Some drafted_pack) (pointer [js ''rules'', dec 0]) = Some [backlink CitedBy None [js ''exceptions'', dec 0]]"
  "referencesFor (Some drafted_pack) (pointer [js ''outcomes'', dec 0])
     = Some [backlink ProducedByRule None [js ''rules'', dec 0], backlink ProducedByException None [js ''exceptions'', dec 0], absent_fallback]"
  by code_simp+

text \<open>
  A list of references that is a string is searched from the one end and run over from the other: the rule names the
  sources \<open>a\<close>, \<open>b\<close> and \<open>c\<close>, and the source \<open>ab\<close> is said to be cited by it.
\<close>

definition misdrafted_pack :: jval where
  "misdrafted_pack = JObj [(js ''rules'', JArr [JObj [(js ''id'', JStr (js ''r'')), (js ''sourceRefs'', JStr (js ''abc''))]]),
     (js ''sources'', JArr [JObj [(js ''id'', JStr (js ''ab''))]])]"

lemma string_of_references:
  "map_option (map re_referent) (referencesFor (Some misdrafted_pack) (pointer [js ''rules'', dec 0]))
     = Some [Unresolved SourceId, Unresolved SourceId, Unresolved SourceId]"
  "referencesFor (Some misdrafted_pack) (pointer [js ''sources'', dec 0])
     = Some [backlink CitedByRule (Some (JStr (js ''r''))) [js ''rules'', dec 0]]"
  by code_simp+

end
