(* ===== verification/Document_Frames.thy ===== *)
theory Document_Frames
  imports Document_Inserts
begin

text \<open>
  What the four edits of \<open>documentText.ts\<close> leave alone, address by address: where each value of the
  document is after an edit, and that its bytes there are the bytes it had.
\<close>

section \<open>The edits, and where they move an address\<close>

datatype edit = Replace jstr | Remove jstr | Insert "jstr option" jstr placement | Move int int

definition edit_text :: "edit \<Rightarrow> jstr \<Rightarrow> jstr list \<Rightarrow> jstr" where
  "edit_text ed src q =
     (case ed of
        Replace json \<Rightarrow> replaceValue src (indexDocument src) (pointer q) json
      | Remove k \<Rightarrow> removeMember src (indexDocument src) (pointer (q @ [k]))
      | Insert name json placement \<Rightarrow> insertMember src (indexDocument src) (pointer q) name json placement
      | Move a b \<Rightarrow> moveElement src (indexDocument src) (pointer q) a b)"

text \<open>What a caller may ask for: JSON without a repeated name, and a name the object does not have.\<close>

definition one_value :: "jstr \<Rightarrow> bool" where
  "one_value json \<longleftrightarrow> ix_error (indexDocument json) = None \<and> ix_duplicates (indexDocument json) = []"

definition admissible :: "edit \<Rightarrow> jval option \<Rightarrow> bool" where
  "admissible ed w =
     (case ed of
        Replace json \<Rightarrow> one_value json
      | Insert name json placement \<Rightarrow>
          one_value json
          \<and> (case (name, w) of (Some n, Some (JObj ms)) \<Rightarrow> n \<notin> fst ` set ms | _ \<Rightarrow> True)
      | _ \<Rightarrow> True)"

definition reindex :: "(nat \<Rightarrow> nat option) \<Rightarrow> jstr \<Rightarrow> jstr option" where
  "reindex f m = (case arrayIndex m of None \<Rightarrow> Some m | Some i \<Rightarrow> map_option dec (f i))"

definition after_removal :: "nat \<Rightarrow> nat \<Rightarrow> nat option" where
  "after_removal i j = (if j = i then None else Some (if j < i then j else j - 1))"

definition after_move :: "nat \<Rightarrow> nat \<Rightarrow> nat \<Rightarrow> nat" where
  "after_move a b j =
     (if j = a then b else (let j' = if a < j then j - 1 else j in if b \<le> j' then Suc j' else j'))"

text \<open>
  The address a child \<open>m\<close> of the value \<open>w\<close> at \<open>q\<close> has after an edit of \<open>w\<close>: a member keeps its
  name, an element its number but for those behind what came or went; a removed child has none, and
  a replacement leaves none.
\<close>

definition child_after :: "edit \<Rightarrow> jstr list \<Rightarrow> jval \<Rightarrow> jstr \<Rightarrow> jstr option" where
  "child_after ed q w m =
     (case ed of
        Replace json \<Rightarrow> None
      | Remove k \<Rightarrow>
          (case w of
             JArr xs \<Rightarrow>
               (case arrayIndex k of
                  None \<Rightarrow> Some m
                | Some i \<Rightarrow> if i < length xs then reindex (after_removal i) m else Some m)
           | _ \<Rightarrow> if m = k then None else Some m)
      | Insert name json placement \<Rightarrow>
          (case w of
             JArr xs \<Rightarrow>
               if name = None
               then reindex (\<lambda>j. Some (if j < place q (child_keys w) placement then j else Suc j)) m
               else Some m
           | _ \<Rightarrow> if name = Some m then None else Some m)
      | Move a b \<Rightarrow>
          (case w of
             JArr xs \<Rightarrow>
               if a = b \<or> a < 0 \<or> b < 0 \<or> int (length xs) \<le> a \<or> int (length xs) \<le> b then Some m
               else reindex (\<lambda>j. Some (after_move (nat a) (nat b) j)) m
           | _ \<Rightarrow> Some m))"

definition address_after :: "edit \<Rightarrow> jstr list \<Rightarrow> jval \<Rightarrow> jstr list \<Rightarrow> jstr list option" where
  "address_after ed q v r =
     (if prefix q r
      then (case drop (length q) r of
              [] \<Rightarrow> None
            | m # rs \<Rightarrow>
                (case valueAt v (pointer q) of
                   None \<Rightarrow> Some r
                 | Some w \<Rightarrow> map_option (\<lambda>m'. q @ m' # rs) (child_after ed q w m)))
      else if prefix r q then None else Some r)"

section \<open>Below one step\<close>

definition step_tree :: "tree \<Rightarrow> jstr \<Rightarrow> tree option" where
  "step_tree c m = map_option (\<lambda>i. element_tree (slots c ! i)) (step_index c m)"

lemma slot_of_tree:
  "map_option element_tree (slot_at x rs) = map_option element_tree (slot_at (Element [] (element_tree x) []) rs)"
  by (cases rs) (simp_all cong: option.case_cong)

lemma slot_below:
  "map_option element_tree (slot_at x (m # rs)) =
     (case step_tree (element_tree x) m of
        None \<Rightarrow> None | Some d \<Rightarrow> map_option element_tree (slot_at (Element [] d []) rs))"
  using slot_of_tree by (auto simp: step_tree_def split: option.split)

lemma step_tree_array:
  assumes "is_arr c"
  shows "step_tree c m =
    (case arrayIndex m of
       None \<Rightarrow> None | Some i \<Rightarrow> if i < length (branches c) then Some (snd (branches c ! i)) else None)"
  using assms by (cases c) (auto simp: step_tree_def split: option.split)

lemma step_tree_object:
  assumes "\<not> is_arr c"
  shows "step_tree c m = map_of (branches c) m"
proof (cases c)
  case (Obj w ms)
  have "map_of (map (\<lambda>m. (member_name m, element_tree (slot_of m))) ms) m
      = map_option (\<lambda>i. element_tree (slot_of (ms ! i))) (find_index (\<lambda>x. member_name x = m) ms)"
    by (induction ms) (auto simp: option.map_comp comp_def)
  then show ?thesis using Obj find_index_Some [of "\<lambda>x. member_name x = m" ms]
    by (cases "find_index (\<lambda>x. member_name x = m) ms") (auto simp: step_tree_def)
qed (use assms in \<open>simp_all add: step_tree_def\<close>)

lemma slot_at_put: "slot_at e q \<noteq> None \<Longrightarrow> slot_at (put e q y) (q @ r) = slot_at y r"
proof (induction e q y rule: put.induct)
  case (2 e k ks x)
  then show ?case using step_index_length [of "element_tree e" k]
    by (auto simp: slots_set_slot split: option.splits)
qed simp

lemma slot_at_append:
  "slot_at e (q @ r) = (case slot_at e q of None \<Rightarrow> None | Some x \<Rightarrow> slot_at x r)"
  by (induction e q rule: slot_at.induct) (auto split: option.splits)

text \<open>An edit of the container at \<open>q\<close> keeps what its child \<open>m\<close> holds, under the name \<open>m'\<close>.\<close>

definition keeps :: "element \<Rightarrow> jstr list \<Rightarrow> element \<Rightarrow> jstr \<Rightarrow> jstr \<Rightarrow> jstr \<Rightarrow> bool" where
  "keeps e q x src' m m' \<longleftrightarrow>
     src' = render_element e \<and> m' = m
     \<or> (\<exists>d. wf_tree d \<and> uniq d \<and> src' = render_element (put e q (with_tree x d))
          \<and> step_tree d m' = step_tree (element_tree x) m)"

lemma keeps_text:
  assumes e: "document e" "slot_at e q = Some x" and k: "keeps e q x src' m m'"
  shows "value_text src' (q @ m' # rs) = value_text (render_element e) (q @ m # rs)"
proof -
  have "value_text src' (q @ m' # rs) = value_text (render_element e) (q @ m # rs)"
    if d: "wf_tree d" "uniq d" "src' = render_element (put e q (with_tree x d))"
      "step_tree d m' = step_tree (element_tree x) m" for d
  proof -
    have y: "document (with_tree x d)"
      using document_with_tree [OF document_slot_at [OF e(2,1)] d(1,2)] .
    have "map_option element_tree (slot_at (with_tree x d) (m' # rs))
        = map_option element_tree (slot_at x (m # rs))"
      unfolding slot_below by (simp add: d(4))
    then have "map_option (\<lambda>x. render (element_tree x)) (slot_at (with_tree x d) (m' # rs))
        = map_option (\<lambda>x. render (element_tree x)) (slot_at x (m # rs))"
      by (metis (no_types, lifting) option.map_comp comp_def option.map_cong0)
    then show ?thesis
      using value_text_slot [OF e(1)] value_text_slot [OF document_put [OF e(1) y]] slot_at_put [of e q] e(2) d(3)
      by (simp add: slot_at_append del: slot_at.simps)
  qed
  then show ?thesis using k unfolding keeps_def by blast
qed

section \<open>Where the children of one container go\<close>

lemma reindex_step:
  assumes "is_arr c" "is_arr d" "reindex f m = Some m'"
    and "\<And>j j'. f j = Some j' \<Longrightarrow> j' < length (branches d) \<longleftrightarrow> j < length (branches c)"
    and "\<And>j j'. \<lbrakk>f j = Some j'; j < length (branches c)\<rbrakk> \<Longrightarrow> branches d ! j' = branches c ! j"
  shows "step_tree d m' = step_tree c m"
proof (cases "arrayIndex m")
  case None
  then show ?thesis using assms(1-3) by (simp add: reindex_def step_tree_array)
next
  case (Some j)
  then obtain j' where j: "f j = Some j'" "m' = dec j'" using assms(3) by (auto simp: reindex_def)
  then show ?thesis using Some assms(1,2) assms(4,5) [OF j(1)] by (simp add: step_tree_array)
qed

lemma removal_step:
  assumes c: "step_index c k = Some i" and d: "is_arr d = is_arr c"
    "branches d = take i (branches c) @ drop (Suc i) (branches c)"
    and m: "if is_arr c then reindex (after_removal i) m = Some m' else m' = m \<and> m \<noteq> k"
  shows "step_tree d m' = step_tree c m"
proof (cases "is_arr c")
  case True
  have i: "i < length (branches c)" using c True by (cases c) (auto split: option.splits if_splits)
  show ?thesis
    by (rule reindex_step [of c d "after_removal i"])
      (use True d m i in \<open>auto simp: after_removal_def nth_append min_def split: if_splits\<close>)
next
  case False
  have i: "i < length (branches c)" "fst (branches c ! i) = k"
    using c False by (cases c; auto dest: find_index_Some)+
  have "branches c = take i (branches c) @ (k, snd (branches c ! i)) # drop (Suc i) (branches c)"
    using id_take_nth_drop [OF i(1)] i(2) by (metis prod.collapse)
  then have "map_of (branches c) m = map_of (branches d) m"
    using map_of_skip [of m k] False m d(2) by metis
  then show ?thesis using False d(1) m by (simp add: step_tree_object)
qed

lemma insertion_step:
  assumes d: "is_arr d = is_arr c" "branches d = take p (branches c) @ (n, y) # drop p (branches c)"
    and p: "p \<le> length (branches c)"
    and m: "if is_arr c then reindex (\<lambda>j. Some (if j < p then j else Suc j)) m = Some m' else m' = m \<and> m \<noteq> n"
  shows "step_tree d m' = step_tree c m"
proof (cases "is_arr c")
  case True
  show ?thesis
    by (rule reindex_step [of c d "\<lambda>j. Some (if j < p then j else Suc j)"])
      (use True d m p in \<open>auto simp: nth_append min_def split: if_splits\<close>)
next
  case False
  have "map_of (branches d) m = map_of (branches c) m"
    using map_of_skip [of m n "take p (branches c)" y "drop p (branches c)"] False m d(2) by simp
  then show ?thesis using False d(1) m by (simp add: step_tree_object)
qed

lemma after_move_bound: "\<lbrakk>a < n; b < n\<rbrakk> \<Longrightarrow> after_move a b j < n \<longleftrightarrow> j < n"
  by (auto simp: after_move_def Let_def)

lemma after_move_nth:
  "\<lbrakk>a < length xs; b < length xs; j < length xs\<rbrakk> \<Longrightarrow> splice_move a b xs ! after_move a b j = xs ! j"
  by (auto simp: splice_move_def after_move_def Let_def nth_append min_def)
    (metis Suc_leI add_Suc_right add_diff_cancel_right' le_antisym)

lemma move_step:
  assumes d: "is_arr d" "is_arr c" "branches d = splice_move a b (branches c)"
    and r: "a < length (branches c)" "b < length (branches c)"
    and m: "reindex (\<lambda>j. Some (after_move a b j)) m = Some m'"
  shows "step_tree d m' = step_tree c m"
  by (rule reindex_step [OF d(2,1) m])
    (use d r in \<open>auto simp: length_splice_move after_move_bound after_move_nth\<close>)

section \<open>Each edit at its container\<close>

lemma insertMember_absent:
  assumes e: "document e" "slot_at e q = Some x" and n: "(name = None) \<noteq> is_arr (element_tree x)"
  shows "insertMember (render_element e) (index_of e) (pointer q) name json placement = render_element e"
proof (cases "is_container (element_tree x)")
  case False
  then obtain t where "element_tree x = Leaf t" by (cases "element_tree x") simp_all
  then show ?thesis by (rule insertMember_leaf [OF e])
next
  case True
  obtain PRE POST sp where P: "render_element e = PRE @ render (element_tree x) @ POST"
    "spanAt (index_of e) (pointer q) = Some sp" "valueStart sp = length PRE"
    using container_span [OF e] by metis
  then have "char_at (render_element e) (valueStart sp) = Some (opener (element_tree x))"
    using container_first [OF True] by (metis append_Cons char_at_mid)
  then show ?thesis using P n by (cases name) (simp_all add: insertMember_def Let_def opener_def)
qed

lemma keeps_same: "keeps e q x (render_element e) m m"
  by (simp add: keeps_def)

lemma keeps_tree:
  "\<lbrakk>wf_tree d; uniq d; src' = render_element (put e q (with_tree x d));
    step_tree d m' = step_tree (element_tree x) m\<rbrakk> \<Longrightarrow> keeps e q x src' m m'"
  unfolding keeps_def by blast

lemma slot_tree: "\<lbrakk>document e; slot_at e q = Some x\<rbrakk> \<Longrightarrow> wf_tree (element_tree x) \<and> uniq (element_tree x)"
  using document_slot_at by (simp add: document_def wf_element_iff)

lemma array_value: "is_arr c \<Longrightarrow> \<exists>xs. tree_value c = JArr xs \<and> length xs = length (branches c)"
  by (cases c) simp_all

lemma no_array_value: "\<lbrakk>uniq c; \<not> is_arr c\<rbrakk> \<Longrightarrow> tree_value c \<noteq> JArr xs"
  by (cases c) (simp_all add: tree_value_Obj del: tree_value.simps(2))

lemma removeMember_keeps:
  assumes e: "document e" "slot_at e q = Some x"
    and m: "child_after (Remove k) q (tree_element x) m = Some m'"
  shows "keeps e q x (removeMember (render_element e) (index_of e) (pointer (q @ [k]))) m m'"
proof -
  let ?c = "element_tree x"
  have x: "wf_tree ?c" "uniq ?c" using slot_tree [OF e] by simp_all
  show ?thesis
  proof (cases "step_index ?c k")
    case None
    then have "slot_at e (q @ [k]) = None" using e(2) by (simp add: slot_at_append)
    then have "removeMember (render_element e) (index_of e) (pointer (q @ [k])) = render_element e"
      using spanAt_none [OF e(1)] by (simp add: removeMember_def)
    moreover have "m' = m"
    proof (cases "is_arr ?c")
      case True
      then show ?thesis using m None by (cases ?c) (auto simp: child_after_def split: option.splits if_splits)
    next
      case False
      then show ?thesis using m no_array_value [OF x(2) False]
        by (cases "tree_value ?c") (auto simp: child_after_def split: if_splits)
    qed
    ultimately show ?thesis by (simp add: keeps_same)
  next
    case (Some i)
    obtain d where d: "wf_tree d" "uniq d" "render d = removed_bytes ?c i" "is_arr d = is_arr ?c"
      "branches d = take i (branches ?c) @ drop (Suc i) (branches ?c)"
      using removed_tree [OF x Some] by blast
    have "if is_arr ?c then reindex (after_removal i) m = Some m' else m' = m \<and> m \<noteq> k"
    proof (cases "is_arr ?c")
      case True
      then show ?thesis using m Some by (cases ?c) (auto simp: child_after_def split: option.splits if_splits)
    next
      case False
      then show ?thesis using m no_array_value [OF x(2) False]
        by (cases "tree_value ?c") (auto simp: child_after_def split: if_splits)
    qed
    from removal_step [OF Some d(4,5) this] show ?thesis
      using keeps_tree [OF d(1,2)] removeMember_slot [OF e Some d(3)] by blast
  qed
qed

lemma moveElement_keeps:
  assumes e: "document e" "slot_at e q = Some x"
    and m: "child_after (Move a b) q (tree_element x) m = Some m'"
  shows "keeps e q x (moveElement (render_element e) (index_of e) (pointer q) a b) m m'"
proof (cases "is_arr (element_tree x)")
  case False
  then have "m' = m" using m no_array_value [of "element_tree x"] slot_tree [OF e]
    by (cases "tree_value (element_tree x)") (auto simp: child_after_def)
  then show ?thesis using moveElement_other [OF e False] by (simp add: keeps_same)
next
  case True
  then obtain w es where arr: "element_tree x = Arr w es" by (cases "element_tree x") simp_all
  let ?n = "int (length es)"
  show ?thesis
  proof (cases "a = b \<or> a < 0 \<or> b < 0 \<or> ?n \<le> a \<or> ?n \<le> b")
    case out: True
    have "length (childSpans (index_of e) (pointer q) True) = length es"
      using children(1) [OF e] arr by simp
    then have "moveElement (render_element e) (index_of e) (pointer q) a b = render_element e"
      using out moveElement_out [of a b "index_of e" "pointer q"] by simp
    moreover have "m' = m" using m out arr by (auto simp: child_after_def)
    ultimately show ?thesis by (simp add: keeps_same)
  next
    case False
    then have r: "0 \<le> a" "a < ?n" "0 \<le> b" "b < ?n" "a \<noteq> b" by auto
    then have rn: "nat a < length es" "nat b < length es" by auto
    obtain d where d: "wf_tree d" "uniq d"
      "render d = open_bracket # join_with [comma] (map flat (moved_items (nat a) (nat b) (items (Arr w es)))) @ [close_bracket]"
      "is_arr d" "branches d = splice_move (nat a) (nat b) (branches (Arr w es))"
      using moved_array [OF _ _ rn] slot_tree [OF e] arr by metis
    have "step_tree d m' = step_tree (element_tree x) m"
      using move_step [OF d(4) _ d(5)] m False rn arr by (simp add: child_after_def)
    moreover have "moveElement (render_element e) (index_of e) (pointer q) a b = render_element (put e q (with_tree x d))"
      using moveElement_slot [OF e True _ _ _ _ r(5)] r d(3) arr by simp
    ultimately show ?thesis using keeps_tree [OF d(1,2)] by blast
  qed
qed

lemma bare_slot [simp]: "element_tree (slot_of (bare_member m)) = element_tree (slot_of m)"
  by (cases m) simp

lemma insertMember_keeps:
  assumes e: "document e" "slot_at e q = Some x" and j: "document j"
    and fresh: "\<And>n ms. \<lbrakk>name = Some n; tree_element x = JObj ms\<rbrakk> \<Longrightarrow> n \<notin> fst ` set ms"
    and m: "child_after (Insert name (render_element j) placement) q (tree_element x) m = Some m'"
  shows "keeps e q x (insertMember (render_element e) (index_of e) (pointer q) name (render_element j) placement) m m'"
proof -
  let ?c = "element_tree x" and ?new = "insertMember (render_element e) (index_of e) (pointer q) name (render_element j) placement"
  let ?p = "place q (keys ?c) placement"
  have x: "wf_tree ?c" "uniq ?c" using slot_tree [OF e] by simp_all
  have same: "m' = m \<Longrightarrow> ?new = render_element e \<Longrightarrow> ?thesis" by (simp add: keeps_same)
  show ?thesis
  proof (cases ?c)
    case (Leaf t)
    then have "m' = m" using m by (auto simp: child_after_def leaf_value_def split: if_splits)
    then show ?thesis using same insertMember_leaf [OF e Leaf] by simp
  next
    case (Obj w ms)
    show ?thesis
    proof (cases name)
      case None
      then have "m' = m" using m no_array_value [OF x(2)] Obj
        by (cases "tree_value ?c") (auto simp: child_after_def split: if_splits)
      then show ?thesis using same insertMember_absent [OF e] None Obj by simp
    next
      fix n assume n: "name = Some n"
      have v: "tree_element x = JObj (map tree_member ms)" using Obj tree_value_Obj [of w ms] x by simp
      let ?d = "Obj w (inserted_at bare_member (\<lambda>l t. new_member l n j t) member_item ?p ms)"
      have p: "?p \<le> length ms" using place_le [of q "keys ?c" placement] Obj by simp
      have "n \<notin> set (map member_name ms)" using fresh [OF n v] by (simp add: image_image)
      note i = inserted_members [OF x [unfolded Obj] this j p]
      have "branches ?d = take ?p (branches ?c) @ (n, element_tree j) # drop ?p (branches ?c)"
        unfolding branches.simps Obj by (rule inserted_at_map) (use p Obj in \<open>simp_all add: new_member_def\<close>)
      moreover have "m' = m \<and> m \<noteq> n" using m n v by (auto simp: child_after_def split: if_splits)
      ultimately have "step_tree ?d m' = step_tree ?c m"
        using insertion_step [of ?d ?c ?p n "element_tree j"] p Obj by simp
      moreover have "?new = render_element (put e q (with_tree x ?d))"
        using insertMember_slot [OF e, of name ?d placement "render_element j"] i n Obj by simp
      ultimately show ?thesis using keeps_tree i by blast
    qed
  next
    case (Arr w es)
    show ?thesis
    proof (cases name)
      fix n assume n: "name = Some n"
      then have "m' = m" using m Arr by (auto simp: child_after_def)
      then show ?thesis using same insertMember_absent [OF e] n Arr by simp
    next
      case None
      let ?d = "Arr w (inserted_at bare_element (\<lambda>l t. new_element l j t) element_item ?p es)"
      have p: "?p \<le> length es" using place_le [of q "keys ?c" placement] Arr by simp
      note i = inserted_elements [OF x [unfolded Arr] j p]
      have "branches ?d = take ?p (branches ?c) @ ([], element_tree j) # drop ?p (branches ?c)"
        unfolding branches.simps Arr by (rule inserted_at_map) (use p Arr in \<open>simp_all add: new_element_def\<close>)
      moreover have "child_keys (tree_element x) = keys ?c" using length_child_keys [of ?c] x Arr by simp
      then have "reindex (\<lambda>j. Some (if j < ?p then j else Suc j)) m = Some m'"
        using m None Arr by (auto simp: child_after_def)
      ultimately have "step_tree ?d m' = step_tree ?c m"
        using insertion_step [of ?d ?c ?p "[]" "element_tree j"] p Arr by simp
      moreover have "?new = render_element (put e q (with_tree x ?d))"
        using insertMember_slot [OF e, of name ?d placement "render_element j"] i None Arr by simp
      ultimately show ?thesis using keeps_tree i by blast
    qed
  qed
qed

section \<open>Every address\<close>

lemma one_value_reads: "one_value json \<longleftrightarrow> (\<exists>j. reads json j)"
proof -
  have "ix_error (indexDocument json) = None \<Longrightarrow> \<exists>j. ix_value (indexDocument json) = Some j"
    by (auto simp: indexDocument_def Let_def split: sum.splits prod.splits)
  then show ?thesis by (auto simp: one_value_def reads_def)
qed

lemma edited_edit_text:
  assumes v: "reads src v" and a: "admissible ed (valueAt v (pointer q))"
  shows "\<exists>f. edited src q f (edit_text ed src q)"
proof (cases ed)
  case (Replace json)
  then show ?thesis using edited_replaceValue [OF v] a by (auto simp: edit_text_def admissible_def one_value_reads)
next
  case (Remove k)
  then show ?thesis using edited_removeMember [OF v] by (auto simp: edit_text_def)
next
  case (Insert name json placement)
  then obtain j where j: "reads json j" using a by (auto simp: admissible_def one_value_reads)
  have "n \<notin> fst ` set ms" if "name = Some n" "value_down v q = Some (JObj ms)" for n ms
    using a that Insert by (simp add: admissible_def)
  from edited_insertMember [OF v j this] show ?thesis using Insert by (auto simp: edit_text_def)
next
  case (Move a b)
  then show ?thesis using edited_moveElement [OF v] by (auto simp: edit_text_def)
qed

lemma edit_absent:
  assumes "document e" "slot_at e q = None"
  shows "edit_text ed (render_element e) q = render_element e"
proof -
  have "indexDocument (render_element e) = index_of e" using indexDocument_element assms(1) by (simp add: document_def)
  moreover have "slot_at e (q @ [k]) = None" for k using assms(2) by (simp add: slot_at_append)
  ultimately show ?thesis using spanAt_none [OF assms(1)] assms(2)
    by (simp add: edit_text_def replaceValue_def removeMember_def insertMember_def moveElement_def split: edit.split)
qed

lemma edit_keeps:
  assumes e: "document e" "slot_at e q = Some x" and a: "admissible ed (Some (tree_element x))"
    and m: "child_after ed q (tree_element x) m = Some m'"
  shows "keeps e q x (edit_text ed (render_element e) q) m m'"
proof -
  have ix: "indexDocument (render_element e) = index_of e" using indexDocument_element e(1) by (simp add: document_def)
  show ?thesis
  proof (cases ed)
    case (Replace json)
    then show ?thesis using m by (simp add: child_after_def)
  next
    case (Remove k)
    then show ?thesis using removeMember_keeps [OF e] m ix by (simp add: edit_text_def)
  next
    case (Insert name json placement)
    then obtain v where "reads json v" using a by (auto simp: admissible_def one_value_reads)
    then obtain j where j: "json = render_element j" "document j" by (rule reads_cases)
    have "n \<notin> fst ` set ms" if "name = Some n" "tree_element x = JObj ms" for n ms
      using a that Insert by (simp add: admissible_def)
    from insertMember_keeps [OF e j(2) this] show ?thesis using Insert m j(1) ix by (simp add: edit_text_def)
  next
    case (Move a b)
    then show ?thesis using moveElement_keeps [OF e] m ix by (simp add: edit_text_def)
  qed
qed

section \<open>Properties\<close>

text \<open>
  C3: none of the four edits touches the bytes of a value other than the ones it is asked to write
  or remove.  Whatever address a value has, unless it holds, is or lies in the edited one, its bytes are
  the same at the address it has afterwards, siblings of the edited member included.  What is written is
  JSON without a repeated name, and a member that is added has a name the object does not have.
\<close>

theorem edits_keep_other_bytes:
  assumes v: "reads src v" and a: "admissible ed (valueAt v (pointer q))"
    and r: "address_after ed q v r = Some r'"
  shows "value_text (edit_text ed src q) r' = value_text src r"
proof (cases "prefix q r")
  case False
  then have "\<not> prefix r q" "r' = r" using r by (auto simp: address_after_def split: if_splits)
  then show ?thesis using edited_edit_text [OF v a] edited_frame False by blast
next
  case True
  obtain e where e: "src = render_element e" "document e" "v = tree_element e" using v by (rule reads_cases)
  have at_q: "valueAt v (pointer q) = map_option tree_element (slot_at e q)"
    using value_down_slot e by (simp add: document_def)
  show ?thesis
  proof (cases "slot_at e q")
    case None
    then have "r' = r" using r True at_q by (auto simp: address_after_def split: list.splits)
    then show ?thesis using edit_absent [OF e(2) None] e(1) by simp
  next
    case (Some x)
    obtain m rs m' where m: "r = q @ m # rs" "r' = q @ m' # rs" "child_after ed q (tree_element x) m = Some m'"
      using r True at_q Some by (auto simp: address_after_def prefix_def split: list.splits)
    then show ?thesis using keeps_text [OF e(2) Some edit_keeps [OF e(2) Some _ m(3)]] a at_q Some e(1) by simp
  qed
qed

theorem edits_keep_other_bytes_witness:
  "value_text (edit_text (Remove (js ''b'')) (js ''{ \"a\": true, \"b\": null }'') []) [js ''a'']
     = value_text (js ''{ \"a\": true, \"b\": null }'') [js ''a'']
   \<and> value_text (edit_text (Move 1 0) (js ''[ true , null]'') []) [dec 0] = value_text (js ''[ true , null]'') [dec 1]"
proof
  show "value_text (edit_text (Remove (js ''b'')) (js ''{ \"a\": true, \"b\": null }'') []) [js ''a'']
     = value_text (js ''{ \"a\": true, \"b\": null }'') [js ''a'']"
    by (rule edits_keep_other_bytes [OF sample_object])
      (simp_all add: admissible_def address_after_def child_after_def)
  show "value_text (edit_text (Move 1 0) (js ''[ true , null]'') []) [dec 0] = value_text (js ''[ true , null]'') [dec 1]"
    by (rule edits_keep_other_bytes [OF sample_array])
      (simp_all add: admissible_def address_after_def child_after_def reindex_def after_move_def)
qed

end
