(* ===== verification/Spec2Isabelle.thy ===== *)
theory Spec2Isabelle
  imports Condition_Ops Document_Gate Json_Text Pack_Path Graph_Shape Session_Trust Refetch_Ledger Ledger_Facts
    Member_Bytes Accept_Facts Buffer_Facts Config_Bounds Config_Answers Effective_Facts Reference_Facts
    Document_Frames
begin

text \<open>
  A verification development of the desk's web front end (\<open>src/web/src\<close>), which edits decision packs as
  JSON files, draws decision graphs, and verifies the receipts of research sessions.

  \<^bold>\<open>What the program is.\<close>  A pack is a JSON file that a person and an assistant both edit.  The editor never
  reprints it: it indexes the text (\<open>packs/documentText.ts\<close>), and every write of a form replaces, inserts,
  removes or moves bytes at the place an address (\<open>packs/pointers.ts\<close>) names, so that all other bytes stay.
  On top of that are the form writes (\<open>packs/edit/writes.ts\<close>), ordered by the schema
  (\<open>packs/edit/shape.ts\<close>), and the condition builder (\<open>packs/edit/conditionOps.ts\<close>).  A graph of packs is
  served as a document and drawn as a layered walk (\<open>mcp/graphDocument.ts\<close>, \<open>mcp/canonical.ts\<close>).  A research
  run holds signed receipts, which the page itself verifies: a strict parser and a canonical form
  (\<open>research/verify/canon.ts\<close>), Ed25519 (\<open>ed25519.ts\<close>, \<open>receipt.ts\<close>) and the session ladder
  (\<open>session.ts\<close>).  Paths of pack files are compared in \<open>packs/packPath.ts\<close>.

  \<^bold>\<open>Foundations.\<close>  \<open>Prelude\<close>: strings as lists of UTF-16 code units, splitting, joining, numerals, keyed
  lists.  \<open>Js_Number\<close>, \<open>Json\<close>, \<open>Js_Text\<close>: the standard library the code calls (binary64 literals,
  \<open>JSON.parse\<close>, \<open>JSON.stringify\<close>, \<open>Object.keys\<close>, \<open>trim\<close>, \<open>Number\<close>).  \<open>Json_Proper\<close>: objects of a parse
  name no member twice.

  \<^bold>\<open>The document.\<close>  \<open>Document_Text\<close> has the scanner and the edits of \<open>documentText.ts\<close>, function by function.
  \<open>Document_Tree\<close> and \<open>Document_Scan\<close> give texts as layout trees (every byte of white space kept) and show
  that the scanner accepts exactly their renderings.  \<open>Document_Slots\<close>, \<open>Document_Edits\<close>, \<open>Document_Strings\<close>
  and \<open>Document_Inserts\<close> show each edit to be the edit of one place of the tree: the value there is the new
  one, all others stay; \<open>Document_Frames\<close> follows every address through an edit and shows the bytes there to be
  the ones they were.  \<open>Document_Gate\<close> is the comparison with \<open>JSON.parse\<close> that opens a file
  for form editing.  \<open>Json_Text\<close>, \<open>Stringify\<close>, \<open>Document_Layout\<close>: what \<open>JSON.stringify\<close> writes and what
  re-indenting does reads back the same.  \<open>Shape\<close>, \<open>Writes\<close>, \<open>Condition_Ops\<close>: the schema's lists, the form
  writes and the condition builder, with the invariant that the index stays that of the text.

  \<^bold>\<open>References.\<close>  \<open>Pack_References\<close> (\<open>packs/references.ts\<close>) has the panel that says what an entry of a pack
  names and what names it, over any value a draft may hold.  \<open>Reference_Facts\<close>: the addresses it offers are
  declared, and a reference is reported from both of its ends or from neither.

  \<^bold>\<open>The buffer.\<close>  \<open>Document_Buffer\<close> (\<open>packs/edit/useDocumentBuffer.ts\<close>) has the hook that holds the bytes
  being edited as a state machine: what React keeps with every update asked for, what the last render saw, the refs,
  the seeding effect, and each call as an event, any number of them between two renders.  \<open>Buffer_Facts\<close>: unsaved
  text stays through whatever happens around an author who does nothing, a reload asked for before an edit is
  refused, a save never replaces text it did not carry, undo restores.  Counters saturate at \<open>2^53\<close>, as the
  numbers of the code do, and the statements that need them below it say so.

  \<^bold>\<open>Configuration.\<close>  \<open>Config_Checks\<close>, \<open>Desk_Config\<close> and \<open>Desk_Decode\<close> (\<open>config/deskConfig.ts\<close>) decode a
  configuration file: a check is a value with the problems it pushed, in order, or a thrown exception, and
  \<open>and_then\<close> runs one behind another.  \<open>Config_Facts\<close>: a member named like a credential refuses the file, wherever the decoder returns.
  \<open>Config_Bounds\<close> has a calculus of what clean checks ensure (\<open>ensures\<close>), by which every accepted
  configuration is within its bounds; \<open>Config_Answers\<close> has one of checks that return (\<open>returns\<close>), by which the
  decoder throws on no file but one with a member named \<open>toString\<close>.

  \<open>Project_File\<close> (\<open>admin/useProjectFileSave.ts\<close>) composes a file with one member written anew and has the hook
  that saves it, over the revision it holds; \<open>Project_Facts\<close>: what is composed is accepted and differs in that
  member alone, and a card with unsaved work states the revision it showed.  \<open>Desk_Effective\<close> has the profile a
  project lays over the machine's models (\<open>config/assistantProfile.ts\<close>), the layering of the two files
  (\<open>effectiveConfig\<close>), the reads behind it (\<open>config/queries.ts\<close>) and what the cache becomes when a write lands;
  \<open>Effective_Facts\<close>: a save leaves every other section as it was, but for the local gateway, which it forgets, and
  a profile moves the models, the agent's effort and the assistant's thinking alone.

  \<^bold>\<open>Proposals.\<close>  An assistant proposes a whole document.  \<open>Proposal_Diff\<close> (\<open>assistant/proposalDiff.ts\<close>)
  compares it with the draft, \<open>Proposal_Accept\<close> (\<open>assistant/acceptProposal.ts\<close>) writes it into the draft by
  the form's writers.  \<open>Proposal_Facts\<close>: which elements are paired, what the diff reports.  \<open>Accept_Arrays\<close> and
  \<open>Accept_Facts\<close>: the four loops turn the draft's array into the proposal's over any writers that keep to the
  contract \<open>array_writes\<close>, the form's writers do, and so an accepted proposal reads as it was proposed.
  \<open>Member_Bytes\<close> (\<open>admin/memberBytes.ts\<close>): a second, smaller scan, compared with the index.

  \<^bold>\<open>Graphs.\<close>  \<open>Probes\<close> and \<open>Graph_Document\<close> have the definitions; a sentence the page shows is a constructor.
  \<open>Graph_Layout\<close> has the invariant of the walk (in-degrees, layers, placed nodes after any number of edges);
  \<open>Graph_Shape\<close> derives what the layout answers: it ends, it draws exactly acyclic graphs, every node sits in
  its longest-path layer.

  \<^bold>\<open>Verification of sessions.\<close>  \<open>Canon\<close> (with \<open>Canon_Facts\<close>, \<open>Canon_Round\<close>): the parser and the canonical form,
  which is a normal form.  \<open>Ed25519\<close> and \<open>Ed25519_Facts\<close>: the curve over unbounded integers, strict point
  decoding.  \<open>Receipt\<close>, \<open>Session\<close>, \<open>Session_Facts\<close>: what is signed, the ladder, the chain and the seal, and
  the equivalence of the verdict with a declarative account of a lawful session.

  \<open>Session_Trust\<close> says what follows for the results and the findings.

  \<^bold>\<open>Memories of a run.\<close>  \<open>Refetch_Ledger\<close> (\<open>mcp/refetchLedger.ts\<close>): which pairs have been asked about.
  \<open>Source_Ledger\<close> and \<open>Ledger_Facts\<close> (\<open>research/ledger.ts\<close>): the sources of a research run, the excerpts
  cited from them, and the invariant of every ledger a run can reach.

  \<^bold>\<open>Interfaces.\<close>  \<open>comparator\<close> (in \<open>Canon_Facts\<close>) states what a sort needs of a comparison and gives the one
  ascending list; it is interpreted on \<open>compareCodePoints\<close> and on the subtraction of numbers.
  \<open>array_writes\<close> (in \<open>Accept_Arrays\<close>) states what removing, moving, replacing and inserting an element promise of
  the array a state holds; it is interpreted on the writers of a form (\<open>Accept_Facts\<close>).  A value is \<open>stable\<close>
  (\<open>Stringify\<close>) when its numbers are texts that read back as they are, no object names a member twice, and none is named
  like an array index (JavaScript lists those first, in numeric order).

  \<^bold>\<open>Fuel.\<close>  The scanner (\<open>read_value\<close>), \<open>JSON.parse\<close> and the strict parser (\<open>parse_node\<close>) recurse on a fuel
  that their callers set above twice the length of the text; that it never runs out is proved
  (\<open>indexDocument_answers\<close>, \<open>parseJsonText_answers\<close>).  The loop of the layering is \<open>while_option\<close>, and that
  it returns is proved (\<open>layout_answers\<close>).

  \<^bold>\<open>Parameters.\<close>  What the platform supplies is an argument: \<open>toLowerCase\<close> (\<open>lower\<close>), \<open>decodeURIComponent\<close>,
  SHA-256, SHA-512 and WebCrypto's Ed25519 (the record \<open>platform\<close>), \<open>new URL\<close> and \<open>Date.parse\<close> (the record
  \<open>web_platform\<close>).  Exceptions are values of a sum or an
  option.

  \<^bold>\<open>Not modelled.\<close>  React components and the other hooks, HTTP clients, browser storage, message catalogues, the
  assistant's calls of a language model, and the Go server; positions inside the messages of errors.
\<close>

end
